(* ===== verification/Prelude.thy ===== *)
theory Prelude
  imports Main "HOL-Library.Multiset"
begin

text \<open>
  Shared vocabulary of the development: how the Go run-time appears in the model.

  \<^item> A Go map is a partial function \<open>'k \<rightharpoonup> 'v\<close>; reading an absent key yields the zero value
    of the value type (\<open>zget\<close>).
  \<^item> Ranging over a Go map visits every key once, in an order the language does not fix; an
    operation that ranges over a map takes the order as an argument, and \<open>key_order m ks\<close>
    says that \<open>ks\<close> is a possible order for \<open>m\<close>.
  \<^item> \<open>log.Fatalf\<close> and run-time panics end the process: they are the left values of
    \<open>go_exit + 'a\<close>, sequenced by \<open>and_then\<close>.

  The \<^theory_text>\<open>named_theorems\<close> collections declared here gather, per subsystem, the
  equations that the automation of the component theories unfolds.
\<close>

named_theorems mr_simps "field and branch equations of the MapReduce task managers"
named_theorems kv_simps "branch equations of the key/value server and its clients"
named_theorems net_simps "branch equations of the simulated network"
named_theorems shard_simps "branch equations of shard configurations"

section \<open>Process exits\<close>

datatype go_exit = Fatal string | Panic string

definition and_then :: "'e + 'a \<Rightarrow> ('a \<Rightarrow> 'e + 'b) \<Rightarrow> 'e + 'b" where
  "and_then r f = (case r of Inl e \<Rightarrow> Inl e | Inr a \<Rightarrow> f a)"

lemma and_then_Inl [simp]: "and_then (Inl e) f = Inl e"
  by (simp add: and_then_def)

lemma and_then_Inr [simp]: "and_then (Inr a) f = f a"
  by (simp add: and_then_def)

lemma and_then_eq_Inr:
  "and_then r f = Inr b \<longleftrightarrow> (\<exists>a. r = Inr a \<and> f a = Inr b)"
  by (cases r) auto

text \<open>A loop whose body may end the program.\<close>

fun each :: "('a \<Rightarrow> 's \<Rightarrow> go_exit + 's) \<Rightarrow> 'a list \<Rightarrow> 's \<Rightarrow> go_exit + 's" where
  "each f [] s = Inr s"
| "each f (x # xs) s = and_then (f x s) (each f xs)"

definition go_index :: "'a list \<Rightarrow> nat \<Rightarrow> go_exit + 'a" where
  "go_index xs i = (if i < length xs then Inr (xs ! i) else Inl (Panic ''index out of range''))"

lemma each_append: "each f (xs @ ys) s = and_then (each f xs s) (each f ys)"
  by (induction xs arbitrary: s) (auto simp: and_then_def split: sum.splits)

text \<open>A loop whose body succeeds on all states that satisfy an invariant is a fold.\<close>

lemma each_fold:
  assumes "\<And>x s. x \<in> set xs \<Longrightarrow> P s \<Longrightarrow> f x s = Inr (g x s) \<and> P (g x s)" and "P s"
  shows "each f xs s = Inr (foldl (\<lambda>s x. g x s) s xs) \<and> P (foldl (\<lambda>s x. g x s) s xs)"
  using assms by (induction xs arbitrary: s) auto

lemma go_index_ok [simp]: "i < length xs \<Longrightarrow> go_index xs i = Inr (xs ! i)"
  by (simp add: go_index_def)

lemma each_inv:
  assumes "each f xs s = Inr s'" and "\<And>x s s'. P s \<Longrightarrow> f x s = Inr s' \<Longrightarrow> P s'" and "P s"
  shows "P s'"
  using assms(1,3) by (induction xs arbitrary: s) (auto simp: and_then_eq_Inr intro: assms(2))

section \<open>Go maps\<close>

definition zget :: "('k \<rightharpoonup> 'v) \<Rightarrow> 'v \<Rightarrow> 'k \<Rightarrow> 'v" where
  "zget m z k = (case m k of None \<Rightarrow> z | Some v \<Rightarrow> v)"

lemma zget_Some [simp]: "m k = Some v \<Longrightarrow> zget m z k = v"
  by (simp add: zget_def)

lemma zget_None [simp]: "m k = None \<Longrightarrow> zget m z k = z"
  by (simp add: zget_def)

lemma zget_upd: "zget (m(k \<mapsto> v)) z k' = (if k' = k then v else zget m z k')"
  by (simp add: zget_def)

lemma zget_eqD: "zget m z k = v \<Longrightarrow> v \<noteq> z \<Longrightarrow> m k = Some v"
  by (auto simp: zget_def split: option.splits)

definition key_order :: "('k \<rightharpoonup> 'v) \<Rightarrow> 'k list \<Rightarrow> bool" where
  "key_order m ks \<longleftrightarrow> distinct ks \<and> set ks = dom m"

lemma key_orderD:
  assumes "key_order m ks"
  shows "distinct ks" and "set ks = dom m"
  using assms by (auto simp: key_order_def)

lemma key_order_finite: "key_order m ks \<Longrightarrow> finite (dom m)"
  by (metis List.finite_set key_order_def)

lemma key_order_length: "key_order m ks \<Longrightarrow> length ks = card (dom m)"
  by (metis distinct_card key_order_def)

lemma key_order_exists: "finite (dom m) \<Longrightarrow> \<exists>ks. key_order m ks"
  unfolding key_order_def by (metis finite_distinct_list)

lemma key_order_mset:
  "key_order m ks \<Longrightarrow> key_order m ks' \<Longrightarrow> mset ks = mset ks'"
  by (metis key_order_def set_eq_iff_mset_eq_distinct)

section \<open>Remote calls\<close>

text \<open>
  The outcome of one attempt of a remote call: the request is lost (\<open>CallLost\<close>), the handler
  runs but the reply is lost (\<open>ReplyLost\<close>), or the reply arrives (\<open>CallOK\<close>).
\<close>

datatype call_outcome = CallLost | ReplyLost | CallOK

section \<open>Lists\<close>

lemma filter_concat_map:
  "filter P (concat xss) = concat (map (filter P) xss)"
  by (induction xss) auto

lemma sum_list_partition:
  "sum_list (map f xs) = sum_list (map f (filter P xs)) + (sum_list (map f (filter (\<lambda>x. \<not> P x) xs)) :: nat)"
  by (induction xs) auto

lemma mset_concat_perm:
  "mset xs = mset ys \<Longrightarrow> mset (concat (map f xs)) = mset (concat (map f ys))"
  by (simp add: mset_concat flip: sum_mset_sum_list)

text \<open>
  Grouping a list by a key and then listing the groups loses no element: the basis of every
  argument about shuffling key/value pairs between map and reduce tasks.
\<close>

lemma mset_group_by:
  assumes "distinct ks" and "f ` set xs \<subseteq> set ks"
  shows "mset (concat (map (\<lambda>k. filter (\<lambda>x. f x = k) xs) ks)) = mset xs"
  using assms
proof (induction ks arbitrary: xs)
  case Nil
  then show ?case by simp
next
  case (Cons k ks)
  let ?rest = "filter (\<lambda>x. f x \<noteq> k) xs"
  have eq: "map (\<lambda>j. filter (\<lambda>x. f x = j) xs) ks = map (\<lambda>j. filter (\<lambda>x. f x = j) ?rest) ks"
    using Cons.prems(1) by (auto intro!: map_cong filter_cong)
  have "mset (concat (map (\<lambda>j. filter (\<lambda>x. f x = j) xs) ks)) = mset ?rest"
    unfolding eq using Cons.prems by (intro Cons.IH) auto
  moreover have "mset (filter (\<lambda>x. f x = k) xs) + mset ?rest = mset xs"
    by (metis mset_filter multiset_partition)
  ultimately show ?case by simp
qed

end
