(* ===== verification/Go_Std.thy ===== *)
theory Go_Std
  imports Prelude "HOL-Library.Word" "HOL-Library.List_Lexorder" "HOL-Library.Char_ord"
begin

text \<open>
  The parts of Go's standard library that the repository's code computes with:
  \<open>hash/fnv\<close> (the 32-bit FNV-1a hash, used to spread keys over reduce tasks and shards),
  \<open>strconv.Itoa\<close> (used to build server and output file names), \<open>strings.Join\<close>,
  \<open>strings.FieldsFunc\<close>, \<open>strings.LastIndex\<close> and \<open>sort.Strings\<close> (byte-wise
  lexicographic order). A Go string is its list of bytes.
\<close>

unbundle bit_operations_syntax

section \<open>Integer remainder\<close>

text \<open>Go's \<open>%\<close> truncates towards zero; the divisor zero panics and is guarded where it can occur.\<close>

definition go_rem :: "int \<Rightarrow> int \<Rightarrow> int" where
  "go_rem a b = sgn a * (\<bar>a\<bar> mod \<bar>b\<bar>)"

lemma go_rem_nonneg: "0 \<le> a \<Longrightarrow> go_rem a b = a mod \<bar>b\<bar>"
  by (cases "a = 0") (simp_all add: go_rem_def)

lemma go_rem_bounds:
  assumes "0 \<le> a" and "0 < b"
  shows "0 \<le> go_rem a b" and "go_rem a b < b"
  using assms by (simp_all add: go_rem_nonneg)

section \<open>hash/fnv\<close>

definition offset32 :: "32 word" where "offset32 = 2166136261"
definition prime32 :: "32 word" where "prime32 = 16777619"

fun fnv32a_write :: "32 word \<Rightarrow> string \<Rightarrow> 32 word" where
  "fnv32a_write h [] = h"
| "fnv32a_write h (c # cs) = fnv32a_write ((h XOR of_nat (of_char c)) * prime32) cs"

definition fnv32a :: "string \<Rightarrow> 32 word" where
  "fnv32a s = fnv32a_write offset32 s"

lemma fnv32a_write_append: "fnv32a_write h (xs @ ys) = fnv32a_write (fnv32a_write h xs) ys"
  by (induction xs arbitrary: h) auto

section \<open>strconv.Itoa\<close>

definition digit_char :: "nat \<Rightarrow> char" where
  "digit_char d = char_of (48 + d)"

fun itoa_nat :: "nat \<Rightarrow> string" where
  "itoa_nat n = (if n < 10 then [digit_char n] else itoa_nat (n div 10) @ [digit_char (n mod 10)])"

declare itoa_nat.simps [simp del]

definition Itoa :: "int \<Rightarrow> string" where
  "Itoa i = (if i < 0 then CHR ''-'' # itoa_nat (nat (- i)) else itoa_nat (nat i))"

definition digit_val :: "char \<Rightarrow> nat" where
  "digit_val c = of_char c - 48"

definition atoi_nat :: "string \<Rightarrow> nat" where
  "atoi_nat s = foldl (\<lambda>a c. 10 * a + digit_val c) 0 s"

lemma of_char_digit_char: "d < 10 \<Longrightarrow> (of_char (digit_char d) :: nat) = 48 + d"
  by (simp add: digit_char_def)

lemma digit_val_digit_char: "d < 10 \<Longrightarrow> digit_val (digit_char d) = d"
  by (simp add: digit_val_def of_char_digit_char)

lemma atoi_itoa_nat: "atoi_nat (itoa_nat n) = n"
proof (induction n rule: itoa_nat.induct)
  case (1 n)
  show ?case
  proof (cases "n < 10")
    case True
    then show ?thesis by (simp add: itoa_nat.simps [of n] atoi_nat_def digit_val_digit_char)
  next
    case False
    then have "atoi_nat (itoa_nat n) = 10 * (n div 10) + n mod 10"
      using "1.IH" by (simp add: itoa_nat.simps [of n] atoi_nat_def digit_val_digit_char)
    then show ?thesis by simp
  qed
qed

lemma itoa_nat_digits: "c \<in> set (itoa_nat n) \<Longrightarrow> 48 \<le> (of_char c :: nat) \<and> (of_char c :: nat) \<le> 57"
proof (induction n rule: itoa_nat.induct)
  case (1 n)
  have dig: "\<And>d. d < 10 \<Longrightarrow> 48 \<le> (of_char (digit_char d) :: nat) \<and> (of_char (digit_char d) :: nat) \<le> 57"
    by (simp add: of_char_digit_char)
  show ?case
  proof (cases "n < 10")
    case True
    with "1.prems" have "c = digit_char n" by (simp add: itoa_nat.simps [of n])
    with dig [OF True] show ?thesis by simp
  next
    case False
    with "1.prems" have "c \<in> set (itoa_nat (n div 10)) \<or> c = digit_char (n mod 10)"
      by (auto simp: itoa_nat.simps [of n])
    with "1.IH" [OF False] dig [of "n mod 10"] show ?thesis by auto
  qed
qed

lemma itoa_nat_no_dash: "CHR ''-'' \<notin> set (itoa_nat n)"
proof
  assume "CHR ''-'' \<in> set (itoa_nat n)"
  from itoa_nat_digits [OF this] show False by simp
qed

lemma itoa_nat_inj: "itoa_nat m = itoa_nat n \<longleftrightarrow> m = n"
  by (metis atoi_itoa_nat)

lemma itoa_nat_neq_Nil [simp]: "itoa_nat n \<noteq> []"
  by (simp add: itoa_nat.simps [of n])

lemma Itoa_inj: "Itoa i = Itoa j \<longleftrightarrow> i = j"
proof -
  have dash: "CHR ''-'' # s \<noteq> itoa_nat n" for s n
    using itoa_nat_no_dash [of n] by (metis list.set_intros(1))
  have "nat (- i) = nat (- j) \<longleftrightarrow> i = j" if "i < 0" "j < 0"
    using that by auto
  moreover have "nat i = nat j \<longleftrightarrow> i = j" if "\<not> i < 0" "\<not> j < 0"
    using that by auto
  ultimately show ?thesis
    using dash [of _ "nat j"] dash [of _ "nat i"]
    by (auto simp: Itoa_def itoa_nat_inj dest: sym)
qed

section \<open>strconv.Atoi\<close>

text \<open>An optional sign and at least one decimal digit; \<open>None\<close> for Go's error, also out of the range of \<open>int64\<close>.\<close>

definition is_digit :: "char \<Rightarrow> bool" where
  "is_digit c \<longleftrightarrow> 48 \<le> (of_char c :: nat) \<and> (of_char c :: nat) \<le> 57"

definition atoi_digits :: "string \<Rightarrow> nat option" where
  "atoi_digits s = (if s \<noteq> [] \<and> list_all is_digit s then Some (atoi_nat s) else None)"

definition int64_range :: "int \<Rightarrow> int option" where
  "int64_range i = (if - (2 ^ 63) \<le> i \<and> i < 2 ^ 63 then Some i else None)"

fun Atoi :: "string \<Rightarrow> int option" where
  "Atoi [] = None"
| "Atoi (c # cs) =
     (if c = CHR ''-'' then Option.bind (atoi_digits cs) (\<lambda>n. int64_range (- int n))
      else if c = CHR ''+'' then Option.bind (atoi_digits cs) (\<lambda>n. int64_range (int n))
      else Option.bind (atoi_digits (c # cs)) (\<lambda>n. int64_range (int n)))"

lemma atoi_digits_itoa: "atoi_digits (itoa_nat n) = Some n"
  using itoa_nat_digits [of _ n] by (simp add: atoi_digits_def atoi_itoa_nat is_digit_def list_all_iff)

lemma itoa_nat_hd: "is_digit (hd (itoa_nat n))"
  using itoa_nat_digits [of "hd (itoa_nat n)" n] by (simp add: is_digit_def)

lemma Atoi_Itoa:
  assumes "- (2 ^ 63) \<le> i" and "i < 2 ^ 63"
  shows "Atoi (Itoa i) = Some i"
proof (cases "i < 0")
  case True
  then show ?thesis using assms by (simp add: Itoa_def atoi_digits_itoa int64_range_def)
next
  case False
  obtain c cs where s: "itoa_nat (nat i) = c # cs" by (cases "itoa_nat (nat i)") simp_all
  have "is_digit c" using itoa_nat_hd [of "nat i"] s by simp
  then have "c \<noteq> CHR ''-''" "c \<noteq> CHR ''+''" by (auto simp: is_digit_def)
  moreover have "atoi_digits (c # cs) = Some (nat i)" using atoi_digits_itoa [of "nat i"] s by simp
  ultimately show ?thesis using False assms s by (simp add: Itoa_def int64_range_def)
qed

section \<open>strings and sort\<close>

fun Join :: "string list \<Rightarrow> string \<Rightarrow> string" where
  "Join [] sep = []"
| "Join [s] sep = s"
| "Join (s # ss) sep = s @ sep @ Join ss sep"

text \<open>\<open>FieldsFunc\<close> splits around runs of separator characters and returns no empty field.\<close>

fun fields_acc :: "(char \<Rightarrow> bool) \<Rightarrow> string \<Rightarrow> string \<Rightarrow> string list" where
  "fields_acc f acc [] = (if acc = [] then [] else [rev acc])"
| "fields_acc f acc (c # cs) =
     (if f c then (if acc = [] then fields_acc f [] cs else rev acc # fields_acc f [] cs)
      else fields_acc f (c # acc) cs)"

definition FieldsFunc :: "string \<Rightarrow> (char \<Rightarrow> bool) \<Rightarrow> string list" where
  "FieldsFunc s f = fields_acc f [] s"

lemma fields_acc_nonempty: "w \<in> set (fields_acc f acc s) \<Longrightarrow> w \<noteq> []"
  by (induction f acc s rule: fields_acc.induct) (auto split: if_splits)

lemma fields_acc_no_sep:
  "\<forall>c\<in>set acc. \<not> f c \<Longrightarrow> w \<in> set (fields_acc f acc s) \<Longrightarrow> c \<in> set w \<Longrightarrow> \<not> f c"
  by (induction f acc s rule: fields_acc.induct) (auto split: if_splits)

lemma concat_fields_acc:
  "\<forall>c\<in>set acc. \<not> f c \<Longrightarrow> concat (fields_acc f acc s) = rev acc @ filter (\<lambda>c. \<not> f c) s"
  by (induction f acc s rule: fields_acc.induct) auto

text \<open>\<open>LastIndex s c\<close>: the index of the last \<open>c\<close> in \<open>s\<close>, \<open>None\<close> for Go's \<open>-1\<close>.\<close>

fun LastIndex :: "string \<Rightarrow> char \<Rightarrow> nat option" where
  "LastIndex [] c = None"
| "LastIndex (x # xs) c =
     (case LastIndex xs c of Some i \<Rightarrow> Some (Suc i) | None \<Rightarrow> if x = c then Some 0 else None)"

lemma LastIndex_None: "LastIndex s c = None \<longleftrightarrow> c \<notin> set s"
  by (induction s) (auto split: option.splits)

lemma LastIndex_append: "c \<notin> set ys \<Longrightarrow> LastIndex (xs @ c # ys) c = Some (length xs)"
proof (induction xs)
  case Nil
  then show ?case by (simp add: LastIndex_None [THEN iffD2])
qed simp

definition sort_Strings :: "string list \<Rightarrow> string list" where
  "sort_Strings = sort"

lemma sort_Strings_cong: "mset xs = mset ys \<Longrightarrow> sort_Strings xs = sort_Strings ys"
  unfolding sort_Strings_def by (metis mset_sort properties_for_sort sorted_sort)

end
