(* ===== verification/MR_Tasks.thy ===== *)
theory MR_Tasks
  imports Go_Std
begin

text \<open>
  The task tables of the MapReduce coordinator: the message types of \<open>mr/rpc.go\<close>, the
  \<open>MapTaskManager\<close> of \<open>mr/map_task_manager.go\<close> and the \<open>ReduceTaskManager\<close> of
  \<open>mr/reduce_task_manager.go\<close>. Each method runs under the manager's mutex and is one
  state transformer here; the mutex fields and the log calls carry no state of interest.

  Times are nanoseconds since Go's zero \<open>time.Time\<close> (an absent entry of
  \<open>assignedTime\<close> reads as that zero time). \<open>time.Now\<close> is an argument of the
  operations that read the clock.

  The managers call the third-party package \<open>github.com/samber/lo\<close>. Its functions are
  the fields of a record \<open>lo_lib\<close> that the operations take as an argument; \<open>lo_ok\<close>
  states what its documentation promises (entries and values of a map in an unspecified
  order, \<open>Find\<close> returning some element that satisfies the predicate if there is one,
  \<open>EveryBy\<close> and \<open>CountBy\<close>).

  Both managers satisfy the contract \<open>task_manager\<close>, a locale in which the facts about
  scheduling that the coordinator needs are proved once.
\<close>

section \<open>mr/rpc.go\<close>

datatype TaskStatus = TaskPending | TaskAssigned | TaskCompleted

record KeyValue =
  Key :: string
  Value :: string

record MapTask =
  MapTask_Id :: string
  NReduce :: int

record ReduceTask =
  ReduceTask_Id :: int
  Filenames :: "string list"

record AssignTaskResponse =
  resp_MapTask :: "MapTask option"
  resp_ReduceTask :: "ReduceTask option"

record ReportMapTaskRequest =
  rmt_WorkerID :: int
  rmt_MapTask :: MapTask
  ReduceTaskMap :: "int \<rightharpoonup> string"

record ReportReduceTaskRequest =
  rrt_WorkerID :: int
  rrt_ReduceTask :: ReduceTask
  rrt_Filename :: string

definition TaskTimeout :: int where
  "TaskTimeout = 10 * 1000000000"

section \<open>The lo package\<close>

record ('k, 't) lo_lib =
  lo_Entries :: "('k \<rightharpoonup> 't) \<Rightarrow> ('k \<times> 't) list"
  lo_Find :: "('k \<times> 't) list \<Rightarrow> ('k \<times> 't \<Rightarrow> bool) \<Rightarrow> ('k \<times> 't) option"
  lo_Values :: "('k \<rightharpoonup> TaskStatus) \<Rightarrow> TaskStatus list"
  lo_EveryBy :: "TaskStatus list \<Rightarrow> (TaskStatus \<Rightarrow> bool) \<Rightarrow> bool"
  lo_CountBy :: "TaskStatus list \<Rightarrow> (TaskStatus \<Rightarrow> bool) \<Rightarrow> nat"

definition lo_ok :: "('k, 't) lo_lib \<Rightarrow> bool" where
  "lo_ok L \<longleftrightarrow>
     (\<forall>m. finite (dom m) \<longrightarrow> set (lo_Entries L m) = {(k, t). m k = Some t}) \<and>
     (\<forall>xs p x. lo_Find L xs p = Some x \<longrightarrow> x \<in> set xs \<and> p x) \<and>
     (\<forall>xs p. lo_Find L xs p = None \<longrightarrow> (\<forall>x\<in>set xs. \<not> p x)) \<and>
     (\<forall>m. finite (dom m) \<longrightarrow> mset (lo_Values L m) = image_mset (\<lambda>k. the (m k)) (mset_set (dom m))) \<and>
     (\<forall>xs p. lo_EveryBy L xs p \<longleftrightarrow> (\<forall>x\<in>set xs. p x)) \<and>
     (\<forall>xs p. lo_CountBy L xs p = length (filter p xs))"

lemma lo_EntriesD:
  "lo_ok L \<Longrightarrow> finite (dom m) \<Longrightarrow> (k, t) \<in> set (lo_Entries L m) \<longleftrightarrow> m k = Some t"
  by (simp add: lo_ok_def)

lemma lo_FindD:
  assumes "lo_ok L"
  shows "lo_Find L xs p = Some x \<Longrightarrow> x \<in> set xs \<and> p x"
    and "lo_Find L xs p = None \<Longrightarrow> \<forall>x\<in>set xs. \<not> p x"
proof -
  have some: "\<forall>xs p x. lo_Find L xs p = Some x \<longrightarrow> x \<in> set xs \<and> p x"
    and none: "\<forall>xs p. lo_Find L xs p = None \<longrightarrow> (\<forall>x\<in>set xs. \<not> p x)"
    using assms unfolding lo_ok_def by - (elim conjE, assumption)+
  show "lo_Find L xs p = Some x \<Longrightarrow> x \<in> set xs \<and> p x"
    by (rule some [rule_format])
  show "lo_Find L xs p = None \<Longrightarrow> \<forall>x\<in>set xs. \<not> p x"
    by (intro ballI) (rule none [rule_format])
qed

lemma lo_EveryBy_Values:
  assumes "lo_ok L" and "finite (dom m)"
  shows "lo_EveryBy L (lo_Values L m) p \<longleftrightarrow> (\<forall>k v. m k = Some v \<longrightarrow> p v)"
proof -
  have "mset (lo_Values L m) = image_mset (\<lambda>k. the (m k)) (mset_set (dom m))"
    using assms by (simp add: lo_ok_def)
  then have "set (lo_Values L m) = (\<lambda>k. the (m k)) ` dom m"
    using assms(2) by (metis finite_set_mset_mset_set set_image_mset set_mset_mset)
  then show ?thesis
    using assms(1) unfolding lo_ok_def by (auto simp: dom_def)
qed

lemma lo_CountBy_Values:
  assumes "lo_ok L" and "finite (dom m)"
  shows "lo_CountBy L (lo_Values L m) p = card {k. \<exists>v. m k = Some v \<and> p v}"
proof -
  have "mset (lo_Values L m) = image_mset (\<lambda>k. the (m k)) (mset_set (dom m))"
    using assms by (simp add: lo_ok_def)
  then have "length (filter p (lo_Values L m)) = size (filter_mset p (image_mset (\<lambda>k. the (m k)) (mset_set (dom m))))"
    by (metis mset_filter size_mset)
  also have "\<dots> = card {k \<in> dom m. p (the (m k))}"
    using assms(2) by (simp add: filter_mset_image_mset)
  also have "{k \<in> dom m. p (the (m k))} = {k. \<exists>v. m k = Some v \<and> p v}"
    by (auto simp: dom_def)
  finally show ?thesis using assms(1) by (simp add: lo_ok_def)
qed

text \<open>
  The documented behaviour is satisfiable: an instance for keys with a linear order, with
  the entries in key order.
\<close>

definition lo_sorted :: "('k :: linorder, 't) lo_lib" where
  "lo_sorted = \<lparr>
     lo_Entries = (\<lambda>m. map (\<lambda>k. (k, the (m k))) (sorted_list_of_set (dom m))),
     lo_Find = (\<lambda>xs p. find p xs),
     lo_Values = (\<lambda>m. map (\<lambda>k. the (m k)) (sorted_list_of_set (dom m))),
     lo_EveryBy = (\<lambda>xs p. list_all p xs),
     lo_CountBy = (\<lambda>xs p. length (filter p xs)) \<rparr>"

lemma lo_sorted_ok: "lo_ok lo_sorted"
  unfolding lo_ok_def lo_sorted_def lo_lib.select_convs
proof (intro conjI allI impI)
  show "set (map (\<lambda>k. (k, the (m k))) (sorted_list_of_set (dom m))) = {(k, t). m k = Some t}"
    if "finite (dom m)" for m :: "'a \<rightharpoonup> 'b"
    using that by force
  show "mset (map (\<lambda>k. the (m k)) (sorted_list_of_set (dom m))) =
      image_mset (\<lambda>k. the (m k)) (mset_set (dom m))" if "finite (dom m)" for m :: "'a \<rightharpoonup> TaskStatus"
    using that by (metis distinct_sorted_list_of_set mset_map mset_set_set set_sorted_list_of_set)
  show "x \<in> set xs" and "p x" if "find p xs = Some x" for p :: "'a \<times> 'b \<Rightarrow> bool" and xs x
    using that by (metis find_Some_iff nth_mem)+
  show "\<forall>x\<in>set xs. \<not> p x" if "find p xs = None" for p :: "'a \<times> 'b \<Rightarrow> bool" and xs
    using that by (metis find_None_iff)
qed (simp_all add: list_all_iff)

section \<open>mr/map_task_manager.go\<close>

record MapTaskManager =
  m_tasks :: "string \<rightharpoonup> MapTask"
  m_statusMap :: "string \<rightharpoonup> TaskStatus"
  m_assignedTime :: "string \<rightharpoonup> int"
  m_nReduce :: int

definition NewMapTaskManager :: "string list \<Rightarrow> int \<Rightarrow> MapTaskManager" where
  "NewMapTaskManager files nReduce =
     foldl (\<lambda>m file. m\<lparr>m_tasks := (m_tasks m)(file \<mapsto> \<lparr>MapTask_Id = file, NReduce = nReduce\<rparr>),
                       m_statusMap := (m_statusMap m)(file \<mapsto> TaskPending)\<rparr>)
       \<lparr>m_tasks = Map.empty, m_statusMap = Map.empty, m_assignedTime = Map.empty, m_nReduce = nReduce\<rparr>
       files"

definition MapTaskManager_GetPendingTask ::
    "(string, MapTask) lo_lib \<Rightarrow> int \<Rightarrow> MapTaskManager \<Rightarrow> MapTask option" where
  "MapTaskManager_GetPendingTask L now m =
     (let entries = lo_Entries L (m_tasks m) in
      case lo_Find L entries (\<lambda>e. zget (m_statusMap m) TaskPending (fst e) = TaskPending) of
        Some e \<Rightarrow> Some (snd e)
      | None \<Rightarrow>
        (case lo_Find L entries (\<lambda>e. zget (m_statusMap m) TaskPending (fst e) = TaskAssigned \<and>
                 now - zget (m_assignedTime m) 0 (fst e) > TaskTimeout) of
           Some e \<Rightarrow> Some (snd e)
         | None \<Rightarrow> None))"

definition MapTaskManager_AssignTask :: "int \<Rightarrow> MapTaskManager \<Rightarrow> string \<Rightarrow> bool \<times> MapTaskManager" where
  "MapTaskManager_AssignTask now m taskID =
     (case m_statusMap m taskID of
        None \<Rightarrow> (False, m)
      | Some status \<Rightarrow>
          if status = TaskCompleted then (False, m)
          else (True, m\<lparr>m_statusMap := (m_statusMap m)(taskID \<mapsto> TaskAssigned),
                        m_assignedTime := (m_assignedTime m)(taskID \<mapsto> now)\<rparr>))"

definition MapTaskManager_CompleteTask :: "MapTaskManager \<Rightarrow> string \<Rightarrow> bool \<times> MapTaskManager" where
  "MapTaskManager_CompleteTask m taskID =
     (case m_statusMap m taskID of
        None \<Rightarrow> (False, m)
      | Some _ \<Rightarrow> (True, m\<lparr>m_statusMap := (m_statusMap m)(taskID \<mapsto> TaskCompleted)\<rparr>))"

definition MapTaskManager_IsTaskCompleted :: "MapTaskManager \<Rightarrow> string \<Rightarrow> bool" where
  "MapTaskManager_IsTaskCompleted m taskID \<longleftrightarrow> zget (m_statusMap m) TaskPending taskID = TaskCompleted"

definition MapTaskManager_AllCompleted :: "(string, MapTask) lo_lib \<Rightarrow> MapTaskManager \<Rightarrow> bool" where
  "MapTaskManager_AllCompleted L m \<longleftrightarrow>
     lo_EveryBy L (lo_Values L (m_statusMap m)) (\<lambda>status. status = TaskCompleted)"

definition MapTaskManager_GetTaskCount :: "MapTaskManager \<Rightarrow> nat" where
  "MapTaskManager_GetTaskCount m = card (dom (m_tasks m))"

definition MapTaskManager_GetCompletedCount :: "(string, MapTask) lo_lib \<Rightarrow> MapTaskManager \<Rightarrow> nat" where
  "MapTaskManager_GetCompletedCount L m =
     lo_CountBy L (lo_Values L (m_statusMap m)) (\<lambda>status. status = TaskCompleted)"

definition MapTaskManager_GetPendingCount :: "(string, MapTask) lo_lib \<Rightarrow> MapTaskManager \<Rightarrow> nat" where
  "MapTaskManager_GetPendingCount L m =
     lo_CountBy L (lo_Values L (m_statusMap m)) (\<lambda>status. status = TaskPending)"

definition MapTaskManager_GetAssignedCount :: "(string, MapTask) lo_lib \<Rightarrow> MapTaskManager \<Rightarrow> nat" where
  "MapTaskManager_GetAssignedCount L m =
     lo_CountBy L (lo_Values L (m_statusMap m)) (\<lambda>status. status = TaskAssigned)"

section \<open>mr/reduce_task_manager.go\<close>

record ReduceTaskManager =
  r_tasks :: "int \<rightharpoonup> ReduceTask"
  r_statusMap :: "int \<rightharpoonup> TaskStatus"
  r_assignedTime :: "int \<rightharpoonup> int"

definition NewReduceTaskManager :: "int \<Rightarrow> ReduceTaskManager" where
  "NewReduceTaskManager nReduce =
     foldl (\<lambda>m i. m\<lparr>r_tasks := (r_tasks m)(i \<mapsto> \<lparr>ReduceTask_Id = i, Filenames = []\<rparr>),
                    r_statusMap := (r_statusMap m)(i \<mapsto> TaskPending)\<rparr>)
       \<lparr>r_tasks = Map.empty, r_statusMap = Map.empty, r_assignedTime = Map.empty\<rparr>
       [0..nReduce - 1]"

definition ReduceTaskManager_GetPendingTask ::
    "(int, ReduceTask) lo_lib \<Rightarrow> int \<Rightarrow> ReduceTaskManager \<Rightarrow> ReduceTask option" where
  "ReduceTaskManager_GetPendingTask L now r =
     (let entries = lo_Entries L (r_tasks r) in
      case lo_Find L entries (\<lambda>e. zget (r_statusMap r) TaskPending (fst e) = TaskPending) of
        Some e \<Rightarrow> Some (snd e)
      | None \<Rightarrow>
        (case lo_Find L entries (\<lambda>e. zget (r_statusMap r) TaskPending (fst e) = TaskAssigned \<and>
                 now - zget (r_assignedTime r) 0 (fst e) > TaskTimeout) of
           Some e \<Rightarrow> Some (snd e)
         | None \<Rightarrow> None))"

definition ReduceTaskManager_AssignTask :: "int \<Rightarrow> ReduceTaskManager \<Rightarrow> int \<Rightarrow> bool \<times> ReduceTaskManager" where
  "ReduceTaskManager_AssignTask now r taskID =
     (case r_statusMap r taskID of
        None \<Rightarrow> (False, r)
      | Some status \<Rightarrow>
          if status = TaskCompleted then (False, r)
          else (True, r\<lparr>r_statusMap := (r_statusMap r)(taskID \<mapsto> TaskAssigned),
                        r_assignedTime := (r_assignedTime r)(taskID \<mapsto> now)\<rparr>))"

definition ReduceTaskManager_CompleteTask :: "ReduceTaskManager \<Rightarrow> int \<Rightarrow> bool \<times> ReduceTaskManager" where
  "ReduceTaskManager_CompleteTask r taskID =
     (case r_statusMap r taskID of
        None \<Rightarrow> (False, r)
      | Some _ \<Rightarrow> (True, r\<lparr>r_statusMap := (r_statusMap r)(taskID \<mapsto> TaskCompleted)\<rparr>))"

definition ReduceTaskManager_IsTaskCompleted :: "ReduceTaskManager \<Rightarrow> int \<Rightarrow> bool" where
  "ReduceTaskManager_IsTaskCompleted r taskID \<longleftrightarrow> zget (r_statusMap r) TaskPending taskID = TaskCompleted"

definition ReduceTaskManager_AllCompleted :: "(int, ReduceTask) lo_lib \<Rightarrow> ReduceTaskManager \<Rightarrow> bool" where
  "ReduceTaskManager_AllCompleted L r \<longleftrightarrow>
     lo_EveryBy L (lo_Values L (r_statusMap r)) (\<lambda>status. status = TaskCompleted)"

definition ReduceTaskManager_AddFile :: "ReduceTaskManager \<Rightarrow> int \<Rightarrow> string \<Rightarrow> bool \<times> ReduceTaskManager" where
  "ReduceTaskManager_AddFile r taskID filename =
     (case r_tasks r taskID of
        Some task \<Rightarrow> (True, r\<lparr>r_tasks := (r_tasks r)(taskID \<mapsto> task\<lparr>Filenames := Filenames task @ [filename]\<rparr>)\<rparr>)
      | None \<Rightarrow> (False, r))"

definition ReduceTaskManager_GetTask :: "ReduceTaskManager \<Rightarrow> int \<Rightarrow> ReduceTask option" where
  "ReduceTaskManager_GetTask r taskID = r_tasks r taskID"

definition ReduceTaskManager_GetTaskCount :: "ReduceTaskManager \<Rightarrow> nat" where
  "ReduceTaskManager_GetTaskCount r = card (dom (r_tasks r))"

definition ReduceTaskManager_GetCompletedCount :: "(int, ReduceTask) lo_lib \<Rightarrow> ReduceTaskManager \<Rightarrow> nat" where
  "ReduceTaskManager_GetCompletedCount L r =
     lo_CountBy L (lo_Values L (r_statusMap r)) (\<lambda>status. status = TaskCompleted)"

definition ReduceTaskManager_GetPendingCount :: "(int, ReduceTask) lo_lib \<Rightarrow> ReduceTaskManager \<Rightarrow> nat" where
  "ReduceTaskManager_GetPendingCount L r =
     lo_CountBy L (lo_Values L (r_statusMap r)) (\<lambda>status. status = TaskPending)"

definition ReduceTaskManager_GetAssignedCount :: "(int, ReduceTask) lo_lib \<Rightarrow> ReduceTaskManager \<Rightarrow> nat" where
  "ReduceTaskManager_GetAssignedCount L r =
     lo_CountBy L (lo_Values L (r_statusMap r)) (\<lambda>status. status = TaskAssigned)"

definition ReduceTaskManager_HasFiles :: "ReduceTaskManager \<Rightarrow> int \<Rightarrow> bool" where
  "ReduceTaskManager_HasFiles r taskID =
     (case r_tasks r taskID of Some task \<Rightarrow> length (Filenames task) > 0 | None \<Rightarrow> False)"

section \<open>Well-formedness\<close>

definition map_inv :: "MapTaskManager \<Rightarrow> bool" where
  "map_inv m \<longleftrightarrow> finite (dom (m_tasks m)) \<and> dom (m_statusMap m) = dom (m_tasks m) \<and>
     (\<forall>k t. m_tasks m k = Some t \<longrightarrow> MapTask_Id t = k) \<and>
     (\<forall>k. m_statusMap m k = Some TaskAssigned \<longrightarrow> k \<in> dom (m_assignedTime m))"

definition reduce_inv :: "ReduceTaskManager \<Rightarrow> bool" where
  "reduce_inv r \<longleftrightarrow> finite (dom (r_tasks r)) \<and> dom (r_statusMap r) = dom (r_tasks r) \<and>
     (\<forall>k t. r_tasks r k = Some t \<longrightarrow> ReduceTask_Id t = k) \<and>
     (\<forall>k. r_statusMap r k = Some TaskAssigned \<longrightarrow> k \<in> dom (r_assignedTime r))"

section \<open>The contract of a task manager\<close>

locale task_manager =
  fixes lib_ok :: "'l \<Rightarrow> bool"
    and inv :: "'m \<Rightarrow> bool"
    and task :: "'m \<Rightarrow> 'k \<rightharpoonup> 't"
    and task_id :: "'t \<Rightarrow> 'k"
    and status :: "'m \<Rightarrow> 'k \<rightharpoonup> TaskStatus"
    and since :: "'m \<Rightarrow> 'k \<rightharpoonup> int"
    and pending :: "'l \<Rightarrow> int \<Rightarrow> 'm \<Rightarrow> 't option"
    and assign :: "int \<Rightarrow> 'm \<Rightarrow> 'k \<Rightarrow> 'm"
    and complete :: "'m \<Rightarrow> 'k \<Rightarrow> 'm"
    and all_done :: "'l \<Rightarrow> 'm \<Rightarrow> bool"
  assumes inv_finite: "inv m \<Longrightarrow> finite (dom (status m))"
    and inv_dom: "inv m \<Longrightarrow> dom (task m) = dom (status m)"
    and inv_id: "inv m \<Longrightarrow> task m k = Some t \<Longrightarrow> task_id t = k"
    and pending_Some: "inv m \<Longrightarrow> lib_ok L \<Longrightarrow> pending L now m = Some t \<Longrightarrow>
          task m (task_id t) = Some t \<and>
          (status m (task_id t) = Some TaskPending \<or>
           (status m (task_id t) = Some TaskAssigned \<and>
            now - zget (since m) 0 (task_id t) > TaskTimeout \<and>
            (\<forall>k. status m k \<noteq> Some TaskPending)))"
    and pending_None: "inv m \<Longrightarrow> lib_ok L \<Longrightarrow> pending L now m = None \<Longrightarrow> status m k = Some st \<Longrightarrow>
          st = TaskCompleted \<or> (st = TaskAssigned \<and> now - zget (since m) 0 k \<le> TaskTimeout)"
    and status_assign: "status (assign now m k) =
          (if status m k = None \<or> status m k = Some TaskCompleted then status m
           else (status m)(k \<mapsto> TaskAssigned))"
    and since_assign: "since (assign now m k) =
          (if status m k = None \<or> status m k = Some TaskCompleted then since m
           else (since m)(k \<mapsto> now))"
    and task_assign: "task (assign now m k) = task m"
    and inv_assign: "inv m \<Longrightarrow> inv (assign now m k)"
    and status_complete: "status (complete m k) =
          (if status m k = None then status m else (status m)(k \<mapsto> TaskCompleted))"
    and since_complete: "since (complete m k) = since m"
    and task_complete: "task (complete m k) = task m"
    and inv_complete: "inv m \<Longrightarrow> inv (complete m k)"
    and all_done_iff: "inv m \<Longrightarrow> lib_ok L \<Longrightarrow>
          all_done L m \<longleftrightarrow> (\<forall>k st. status m k = Some st \<longrightarrow> st = TaskCompleted)"
begin

lemma completed_stable:
  assumes "status m k = Some TaskCompleted"
  shows "status (assign now m j) k = Some TaskCompleted"
    and "status (complete m j) k = Some TaskCompleted"
  using assms by (auto simp: status_assign status_complete)

lemma pending_live:
  assumes "inv m" and "lib_ok L" and "pending L now m = Some t"
  shows "status m (task_id t) \<in> {Some TaskPending, Some TaskAssigned}"
  using pending_Some [OF assms] by auto

lemma assigned_after_pending:
  assumes "inv m" and "lib_ok L" and "pending L now m = Some t"
  shows "status (assign now' m (task_id t)) (task_id t) = Some TaskAssigned"
    and "since (assign now' m (task_id t)) (task_id t) = Some now'"
  using pending_live [OF assms] by (auto simp: status_assign since_assign)

text \<open>A task that was handed out is not handed out again before its time-out.\<close>

lemma not_pending_before_timeout:
  assumes "inv m" and "lib_ok L" and "status m k = Some TaskAssigned" and "since m k = Some t0"
    and "now - t0 \<le> TaskTimeout" and "pending L now m = Some t"
  shows "task_id t \<noteq> k"
  using pending_Some [OF assms(1,2,6)] assms(3-5) by auto

text \<open>A worker that asks when some task is pending or overdue is given a task.\<close>

lemma pending_if_overdue:
  assumes "inv m" and "lib_ok L" and "status m k = Some st" and "st \<noteq> TaskCompleted"
    and "st = TaskAssigned \<Longrightarrow> now - zget (since m) 0 k > TaskTimeout"
  shows "\<exists>t. pending L now m = Some t"
proof (rule ccontr)
  assume "\<not> ?thesis"
  then have "pending L now m = None" by simp
  from pending_None [OF assms(1,2) this assms(3)] assms(4,5) show False by auto
qed

definition open_tasks :: "'m \<Rightarrow> 'k set" where
  "open_tasks m = {k \<in> dom (status m). status m k \<noteq> Some TaskCompleted}"

lemma open_tasks_assign: "open_tasks (assign now m k) = open_tasks m"
  by (auto simp: open_tasks_def status_assign split: if_splits)

lemma open_tasks_complete: "open_tasks (complete m k) = open_tasks m - {k}"
  by (auto simp: open_tasks_def status_complete split: if_splits)

lemma all_done_open_tasks:
  "inv m \<Longrightarrow> lib_ok L \<Longrightarrow> all_done L m \<longleftrightarrow> open_tasks m = {}"
  by (auto simp: all_done_iff open_tasks_def)

lemma complete_progress:
  assumes "inv m" and "k \<in> open_tasks m"
  shows "Suc (card (open_tasks (complete m k))) = card (open_tasks m)"
proof -
  have "finite (open_tasks m)"
    using inv_finite [OF assms(1)] by (simp add: open_tasks_def)
  then show ?thesis
    using assms(2) by (simp only: open_tasks_complete card_Suc_Diff1)
qed

text \<open>Completing every task, in any order and however often, finishes the table.\<close>

lemma complete_all:
  assumes "inv m" and "lib_ok L" and "dom (status m) \<subseteq> set ks"
  shows "all_done L (foldl complete m ks)"
proof -
  have "inv (foldl complete m ks) \<and> open_tasks (foldl complete m ks) = open_tasks m - set ks" for ks
    using assms(1)
    by (induction ks rule: rev_induct) (auto simp: inv_complete open_tasks_complete)
  then have "inv (foldl complete m ks)" and "open_tasks (foldl complete m ks) = open_tasks m - set ks"
    by blast+
  moreover have "open_tasks m - set ks = {}"
    using assms(3) by (auto simp: open_tasks_def)
  ultimately show ?thesis
    using assms(2) by (simp add: all_done_open_tasks)
qed

end

text \<open>The selection rule of \<open>GetPendingTask\<close>, shared by the two managers.\<close>

lemma find_by_key:
  assumes L: "lo_ok L" and fin: "finite (dom tasks)"
    and ids: "\<forall>k t. tasks k = Some t \<longrightarrow> ident t = k"
  shows "lo_Find L (lo_Entries L tasks) (\<lambda>e. P (fst e)) = Some x \<Longrightarrow>
           tasks (ident (snd x)) = Some (snd x) \<and> P (ident (snd x))"
    and "lo_Find L (lo_Entries L tasks) (\<lambda>e. P (fst e)) = None \<Longrightarrow> tasks k = Some t \<Longrightarrow> \<not> P k"
proof -
  have mem: "(k, t) \<in> set (lo_Entries L tasks) \<longleftrightarrow> tasks k = Some t" for k t
    by (rule lo_EntriesD [OF L fin])
  show "tasks (ident (snd x)) = Some (snd x) \<and> P (ident (snd x))"
    if "lo_Find L (lo_Entries L tasks) (\<lambda>e. P (fst e)) = Some x"
    using lo_FindD(1) [OF L that] mem [of "fst x" "snd x"] ids by auto
  show "\<not> P k" if "lo_Find L (lo_Entries L tasks) (\<lambda>e. P (fst e)) = None" "tasks k = Some t"
    using lo_FindD(2) [OF L that(1)] mem [of k t] that(2) by fastforce
qed

lemma map_invD:
  assumes "map_inv m"
  shows "finite (dom (m_tasks m))" and "dom (m_statusMap m) = dom (m_tasks m)"
    and "\<forall>k t. m_tasks m k = Some t \<longrightarrow> MapTask_Id t = k"
    and "m_statusMap m k = Some TaskAssigned \<Longrightarrow> \<exists>t0. m_assignedTime m k = Some t0"
  using assms by (auto simp: map_inv_def)

lemma reduce_invD:
  assumes "reduce_inv r"
  shows "finite (dom (r_tasks r))" and "dom (r_statusMap r) = dom (r_tasks r)"
    and "\<forall>k t. r_tasks r k = Some t \<longrightarrow> ReduceTask_Id t = k"
    and "r_statusMap r k = Some TaskAssigned \<Longrightarrow> \<exists>t0. r_assignedTime r k = Some t0"
  using assms by (auto simp: reduce_inv_def)

lemma pending_select:
  assumes L: "lo_ok L" and fin: "finite (dom tasks)" and dom: "dom stat = dom tasks"
    and ids: "\<forall>k t. tasks k = Some t \<longrightarrow> ident t = k"
    and sel: "r = (let entries = lo_Entries L tasks in
      case lo_Find L entries (\<lambda>e. zget stat TaskPending (fst e) = TaskPending) of
        Some e \<Rightarrow> Some (snd e)
      | None \<Rightarrow>
        (case lo_Find L entries (\<lambda>e. zget stat TaskPending (fst e) = TaskAssigned \<and>
                 now - zget tm 0 (fst e) > TaskTimeout) of
           Some e \<Rightarrow> Some (snd e)
         | None \<Rightarrow> None))"
  shows "r = Some t \<Longrightarrow> tasks (ident t) = Some t \<and>
           (stat (ident t) = Some TaskPending \<or>
            (stat (ident t) = Some TaskAssigned \<and> now - zget tm 0 (ident t) > TaskTimeout \<and>
             (\<forall>k. stat k \<noteq> Some TaskPending)))"
    and "r = None \<Longrightarrow> stat k = Some st \<Longrightarrow>
           st = TaskCompleted \<or> (st = TaskAssigned \<and> now - zget tm 0 k \<le> TaskTimeout)"
proof -
  note fresh = find_by_key [OF L fin ids,
      where P = "\<lambda>k. zget stat TaskPending k = TaskPending"]
  note late = find_by_key [OF L fin ids,
      where P = "\<lambda>k. zget stat TaskPending k = TaskAssigned \<and> now - zget tm 0 k > TaskTimeout"]
  have st: "tasks k = Some u \<Longrightarrow> zget stat TaskPending k = v \<Longrightarrow> stat k = Some v" for k u v
    using dom domI [of tasks k u] by (auto simp: zget_def split: option.splits)
  have tk: "stat k = Some v \<Longrightarrow> \<exists>u. tasks k = Some u" for k v
    using dom by blast
  show "tasks (ident t) = Some t \<and>
           (stat (ident t) = Some TaskPending \<or>
            (stat (ident t) = Some TaskAssigned \<and> now - zget tm 0 (ident t) > TaskTimeout \<and>
             (\<forall>k. stat k \<noteq> Some TaskPending)))" if r: "r = Some t"
  proof (cases "lo_Find L (lo_Entries L tasks) (\<lambda>e. zget stat TaskPending (fst e) = TaskPending)")
    case (Some e)
    then have "snd e = t" using r sel by simp
    with fresh(1) [OF Some] st show ?thesis by auto
  next
    case None
    then obtain e where e: "lo_Find L (lo_Entries L tasks) (\<lambda>e. zget stat TaskPending (fst e) = TaskAssigned \<and>
                 now - zget tm 0 (fst e) > TaskTimeout) = Some e" and "snd e = t"
      using r sel by (auto split: option.splits)
    moreover have "stat k \<noteq> Some TaskPending" for k
      using fresh(2) [OF None, of k] tk [of k] by auto
    ultimately show ?thesis
      using late(1) [OF e] st by auto
  qed
  show "st = TaskCompleted \<or> (st = TaskAssigned \<and> now - zget tm 0 k \<le> TaskTimeout)"
    if r: "r = None" and k: "stat k = Some st"
  proof -
    have n1: "lo_Find L (lo_Entries L tasks) (\<lambda>e. zget stat TaskPending (fst e) = TaskPending) = None"
      using r sel by (auto simp: Let_def split: option.splits)
    then have n2: "lo_Find L (lo_Entries L tasks) (\<lambda>e. zget stat TaskPending (fst e) = TaskAssigned \<and>
                 now - zget tm 0 (fst e) > TaskTimeout) = None"
      using r sel by (auto split: option.splits)
    obtain u where u: "tasks k = Some u" using tk [OF k] by blast
    show ?thesis
      using fresh(2) [OF n1 u] late(2) [OF n2 u] k by (cases st) auto
  qed
qed

section \<open>Both managers implement the contract\<close>

lemma map_inv_assign: "map_inv m \<Longrightarrow> map_inv (snd (MapTaskManager_AssignTask now m k))"
  by (auto simp: map_inv_def MapTaskManager_AssignTask_def split: option.splits)

lemma map_inv_complete: "map_inv m \<Longrightarrow> map_inv (snd (MapTaskManager_CompleteTask m k))"
  by (auto simp: map_inv_def MapTaskManager_CompleteTask_def split: option.splits)

lemma reduce_inv_assign: "reduce_inv r \<Longrightarrow> reduce_inv (snd (ReduceTaskManager_AssignTask now r k))"
  by (auto simp: reduce_inv_def ReduceTaskManager_AssignTask_def split: option.splits)

lemma reduce_inv_complete: "reduce_inv r \<Longrightarrow> reduce_inv (snd (ReduceTaskManager_CompleteTask r k))"
  by (auto simp: reduce_inv_def ReduceTaskManager_CompleteTask_def split: option.splits)

lemma reduce_inv_AddFile: "reduce_inv r \<Longrightarrow> reduce_inv (snd (ReduceTaskManager_AddFile r k f))"
  by (auto simp: reduce_inv_def ReduceTaskManager_AddFile_def split: option.splits)

interpretation mapm: task_manager
  lo_ok map_inv m_tasks MapTask_Id m_statusMap m_assignedTime
  MapTaskManager_GetPendingTask
  "\<lambda>now m k. snd (MapTaskManager_AssignTask now m k)"
  "\<lambda>m k. snd (MapTaskManager_CompleteTask m k)"
  MapTaskManager_AllCompleted
proof (unfold_locales, goal_cases)
  case (4 m L now t)
  note inv = map_invD [OF 4(1)]
  show ?case
    using pending_select(1) [OF 4(2) inv(1-3) MapTaskManager_GetPendingTask_def 4(3)]
    by simp
next
  case (5 m L now k st)
  note inv = map_invD [OF 5(1)]
  show ?case
    using pending_select(2) [OF 5(2) inv(1-3) MapTaskManager_GetPendingTask_def 5(3,4)]
    by simp
next
  case (9 m now k)
  then show ?case by (rule map_inv_assign)
next
  case (13 m k)
  then show ?case by (rule map_inv_complete)
next
  case (14 m L)
  then show ?case
    using lo_EveryBy_Values [OF 14(2), of "m_statusMap m"] map_invD(1,2) [OF 14(1)]
    by (simp add: MapTaskManager_AllCompleted_def)
qed (auto simp: map_invD MapTaskManager_AssignTask_def
       MapTaskManager_CompleteTask_def split: option.splits)

interpretation redm: task_manager
  lo_ok reduce_inv r_tasks ReduceTask_Id r_statusMap r_assignedTime
  ReduceTaskManager_GetPendingTask
  "\<lambda>now r k. snd (ReduceTaskManager_AssignTask now r k)"
  "\<lambda>r k. snd (ReduceTaskManager_CompleteTask r k)"
  ReduceTaskManager_AllCompleted
proof (unfold_locales, goal_cases)
  case (4 r L now t)
  note inv = reduce_invD [OF 4(1)]
  show ?case
    using pending_select(1) [OF 4(2) inv(1-3) ReduceTaskManager_GetPendingTask_def 4(3)]
    by simp
next
  case (5 r L now k st)
  note inv = reduce_invD [OF 5(1)]
  show ?case
    using pending_select(2) [OF 5(2) inv(1-3) ReduceTaskManager_GetPendingTask_def 5(3,4)]
    by simp
next
  case (9 r now k)
  then show ?case by (rule reduce_inv_assign)
next
  case (13 r k)
  then show ?case by (rule reduce_inv_complete)
next
  case (14 r L)
  then show ?case
    using lo_EveryBy_Values [OF 14(2), of "r_statusMap r"] reduce_invD(1,2) [OF 14(1)]
    by (simp add: ReduceTaskManager_AllCompleted_def)
qed (auto simp: reduce_invD ReduceTaskManager_AssignTask_def
       ReduceTaskManager_CompleteTask_def split: option.splits)

section \<open>Construction and counting\<close>

lemma NewMapTaskManager_fields [mr_simps]:
  "m_tasks (NewMapTaskManager files n) f =
     (if f \<in> set files then Some \<lparr>MapTask_Id = f, NReduce = n\<rparr> else None)"
  "m_statusMap (NewMapTaskManager files n) f = (if f \<in> set files then Some TaskPending else None)"
  "m_assignedTime (NewMapTaskManager files n) = Map.empty"
  "m_nReduce (NewMapTaskManager files n) = n"
  unfolding NewMapTaskManager_def by (induction files rule: rev_induct) auto

lemma NewReduceTaskManager_fields [mr_simps]:
  "r_tasks (NewReduceTaskManager n) i =
     (if 0 \<le> i \<and> i < n then Some \<lparr>ReduceTask_Id = i, Filenames = []\<rparr> else None)"
  "r_statusMap (NewReduceTaskManager n) i = (if 0 \<le> i \<and> i < n then Some TaskPending else None)"
  "r_assignedTime (NewReduceTaskManager n) = Map.empty"
proof -
  let ?f = "\<lambda>m i. m\<lparr>r_tasks := (r_tasks m)(i \<mapsto> \<lparr>ReduceTask_Id = i, Filenames = []\<rparr>),
                    r_statusMap := (r_statusMap m)(i \<mapsto> TaskPending)\<rparr>"
  let ?z = "\<lparr>r_tasks = Map.empty, r_statusMap = Map.empty, r_assignedTime = Map.empty\<rparr>"
  have "r_tasks (foldl ?f ?z is) i = (if i \<in> set is then Some \<lparr>ReduceTask_Id = i, Filenames = []\<rparr> else None) \<and>
    r_statusMap (foldl ?f ?z is) i = (if i \<in> set is then Some TaskPending else None) \<and>
    r_assignedTime (foldl ?f ?z is) = Map.empty" for i and "is"
    by (induction "is" rule: rev_induct) auto
  then show "r_tasks (NewReduceTaskManager n) i =
     (if 0 \<le> i \<and> i < n then Some \<lparr>ReduceTask_Id = i, Filenames = []\<rparr> else None)"
    and "r_statusMap (NewReduceTaskManager n) i = (if 0 \<le> i \<and> i < n then Some TaskPending else None)"
    and "r_assignedTime (NewReduceTaskManager n) = Map.empty"
    unfolding NewReduceTaskManager_def by auto
qed

lemma map_inv_New: "map_inv (NewMapTaskManager files n)"
proof -
  have "dom (m_tasks (NewMapTaskManager files n)) = set files"
    by (auto simp: dom_def mr_simps split: if_splits)
  moreover have "dom (m_statusMap (NewMapTaskManager files n)) = set files"
    by (auto simp: dom_def mr_simps split: if_splits)
  ultimately show ?thesis
    by (auto simp: map_inv_def mr_simps split: if_splits)
qed

lemma reduce_inv_New: "reduce_inv (NewReduceTaskManager n)"
proof -
  have "dom (r_tasks (NewReduceTaskManager n)) = {0..<n}"
    by (auto simp: dom_def mr_simps split: if_splits)
  moreover have "dom (r_statusMap (NewReduceTaskManager n)) = {0..<n}"
    by (auto simp: dom_def mr_simps split: if_splits)
  ultimately show ?thesis
    by (auto simp: reduce_inv_def mr_simps split: if_splits)
qed

lemma status_partition:
  assumes "finite (dom stat)"
  shows "card {k. stat k = Some TaskPending} + card {k. stat k = Some TaskAssigned} +
         card {k. stat k = Some TaskCompleted} = card (dom stat)"
proof -
  let ?S = "\<lambda>v. {k. stat k = Some v}"
  have fin: "finite (?S v)" for v
    by (rule finite_subset [OF _ assms]) (auto simp: dom_def)
  have "dom stat = ?S TaskPending \<union> ?S TaskAssigned \<union> ?S TaskCompleted"
    by (auto simp: dom_def) (metis TaskStatus.exhaust)
  moreover have "card (?S TaskPending \<union> ?S TaskAssigned \<union> ?S TaskCompleted) =
      card (?S TaskPending \<union> ?S TaskAssigned) + card (?S TaskCompleted)"
    by (intro card_Un_disjoint finite_UnI fin) auto
  moreover have "card (?S TaskPending \<union> ?S TaskAssigned) = card (?S TaskPending) + card (?S TaskAssigned)"
    by (intro card_Un_disjoint fin) auto
  ultimately show ?thesis by simp
qed

lemma map_counts:
  assumes "map_inv m" and "lo_ok L"
  shows "MapTaskManager_GetPendingCount L m + MapTaskManager_GetAssignedCount L m +
         MapTaskManager_GetCompletedCount L m = MapTaskManager_GetTaskCount m"
  using status_partition [of "m_statusMap m"] map_invD(1,2) [OF assms(1)]
  by (simp add: MapTaskManager_GetPendingCount_def MapTaskManager_GetAssignedCount_def
      MapTaskManager_GetCompletedCount_def MapTaskManager_GetTaskCount_def
      lo_CountBy_Values [OF assms(2)])

lemma reduce_counts:
  assumes "reduce_inv r" and "lo_ok L"
  shows "ReduceTaskManager_GetPendingCount L r + ReduceTaskManager_GetAssignedCount L r +
         ReduceTaskManager_GetCompletedCount L r = ReduceTaskManager_GetTaskCount r"
  using status_partition [of "r_statusMap r"] reduce_invD(1,2) [OF assms(1)]
  by (simp add: ReduceTaskManager_GetPendingCount_def ReduceTaskManager_GetAssignedCount_def
      ReduceTaskManager_GetCompletedCount_def ReduceTaskManager_GetTaskCount_def
      lo_CountBy_Values [OF assms(2)])

end
