(* ===== verification/MR_Coordinator.thy ===== *)
theory MR_Coordinator
  imports MR_Tasks
begin

text \<open>
  The MapReduce coordinator of \<open>mr/coordinator.go\<close>. Every RPC handler holds the
  coordinator's mutex from start to end, so each is one atomic state transformer; the order
  of handlers across workers is the order of the transformers. The two clock readings of
  \<open>AssignTask\<close> (one in \<open>GetPendingTask\<close>, one in the manager's \<open>AssignTask\<close>) are two
  arguments. \<open>ReportMapTask\<close> ranges over a Go map and takes the iteration order.
\<close>

record Coordinator =
  nReduce :: int
  workerID :: int
  mapManager :: MapTaskManager
  reduceMgr :: ReduceTaskManager
  kva :: "KeyValue list"

definition MakeCoordinator :: "string list \<Rightarrow> int \<Rightarrow> Coordinator" where
  "MakeCoordinator files nRed =
     \<lparr>nReduce = nRed, workerID = 0, mapManager = NewMapTaskManager files nRed,
      reduceMgr = NewReduceTaskManager nRed, kva = []\<rparr>"

definition Coordinator_Register :: "Coordinator \<Rightarrow> int \<times> Coordinator" where
  "Coordinator_Register c = (workerID c + 1, c\<lparr>workerID := workerID c + 1\<rparr>)"

definition Coordinator_AssignTask ::
    "(string, MapTask) lo_lib \<Rightarrow> (int, ReduceTask) lo_lib \<Rightarrow> int \<Rightarrow> int \<Rightarrow> Coordinator \<Rightarrow>
     AssignTaskResponse \<times> Coordinator" where
  "Coordinator_AssignTask Lm Lr t1 t2 c =
     (case MapTaskManager_GetPendingTask Lm t1 (mapManager c) of
        Some task \<Rightarrow>
          (\<lparr>resp_MapTask = Some task, resp_ReduceTask = None\<rparr>,
           c\<lparr>mapManager := snd (MapTaskManager_AssignTask t2 (mapManager c) (MapTask_Id task))\<rparr>)
      | None \<Rightarrow>
          if \<not> MapTaskManager_AllCompleted Lm (mapManager c)
          then (\<lparr>resp_MapTask = None, resp_ReduceTask = None\<rparr>, c)
          else
            (case ReduceTaskManager_GetPendingTask Lr t1 (reduceMgr c) of
               Some task \<Rightarrow>
                 (\<lparr>resp_MapTask = None, resp_ReduceTask = Some task\<rparr>,
                  c\<lparr>reduceMgr := snd (ReduceTaskManager_AssignTask t2 (reduceMgr c) (ReduceTask_Id task))\<rparr>)
             | None \<Rightarrow> (\<lparr>resp_MapTask = None, resp_ReduceTask = None\<rparr>, c)))"

definition Coordinator_ReportMapTask :: "int list \<Rightarrow> ReportMapTaskRequest \<Rightarrow> Coordinator \<Rightarrow> Coordinator" where
  "Coordinator_ReportMapTask ks req c =
     (if MapTaskManager_IsTaskCompleted (mapManager c) (MapTask_Id (rmt_MapTask req)) then c
      else c\<lparr>mapManager := snd (MapTaskManager_CompleteTask (mapManager c) (MapTask_Id (rmt_MapTask req))),
             reduceMgr := foldl (\<lambda>r i. snd (ReduceTaskManager_AddFile r i (the (ReduceTaskMap req i))))
                            (reduceMgr c) ks\<rparr>)"

definition Coordinator_ReportReduceTask :: "ReportReduceTaskRequest \<Rightarrow> Coordinator \<Rightarrow> Coordinator" where
  "Coordinator_ReportReduceTask req c =
     (if ReduceTaskManager_IsTaskCompleted (reduceMgr c) (ReduceTask_Id (rrt_ReduceTask req)) then c
      else c\<lparr>reduceMgr := snd (ReduceTaskManager_CompleteTask (reduceMgr c) (ReduceTask_Id (rrt_ReduceTask req)))\<rparr>)"

definition Coordinator_Done ::
    "(string, MapTask) lo_lib \<Rightarrow> (int, ReduceTask) lo_lib \<Rightarrow> Coordinator \<Rightarrow> bool" where
  "Coordinator_Done Lm Lr c =
     (if \<not> MapTaskManager_AllCompleted Lm (mapManager c) then False
      else if \<not> ReduceTaskManager_AllCompleted Lr (reduceMgr c) then False
      else True)"

definition Coordinator_IsDone ::
    "(string, MapTask) lo_lib \<Rightarrow> (int, ReduceTask) lo_lib \<Rightarrow> Coordinator \<Rightarrow> bool" where
  "Coordinator_IsDone Lm Lr c = Coordinator_Done Lm Lr c"

section \<open>Invariant\<close>

definition coord_inv :: "Coordinator \<Rightarrow> bool" where
  "coord_inv c \<longleftrightarrow> map_inv (mapManager c) \<and> reduce_inv (reduceMgr c)"

lemma coord_inv_Make: "coord_inv (MakeCoordinator files n)"
  by (simp add: coord_inv_def MakeCoordinator_def map_inv_New reduce_inv_New)

lemma reduce_inv_AddFiles:
  "reduce_inv r \<Longrightarrow> reduce_inv (foldl (\<lambda>r i. snd (ReduceTaskManager_AddFile r i (f i))) r ks)"
  by (induction ks arbitrary: r) (auto intro: reduce_inv_AddFile)

lemma coord_inv_Register: "coord_inv c \<Longrightarrow> coord_inv (snd (Coordinator_Register c))"
  by (simp add: coord_inv_def Coordinator_Register_def)

lemma coord_inv_AssignTask: "coord_inv c \<Longrightarrow> coord_inv (snd (Coordinator_AssignTask Lm Lr t1 t2 c))"
  by (auto simp: coord_inv_def Coordinator_AssignTask_def map_inv_assign reduce_inv_assign
      split: option.splits)

lemma coord_inv_ReportMapTask: "coord_inv c \<Longrightarrow> coord_inv (Coordinator_ReportMapTask ks req c)"
  by (simp add: coord_inv_def Coordinator_ReportMapTask_def map_inv_complete reduce_inv_AddFiles)

lemma coord_inv_ReportReduceTask: "coord_inv c \<Longrightarrow> coord_inv (Coordinator_ReportReduceTask req c)"
  by (simp add: coord_inv_def Coordinator_ReportReduceTask_def reduce_inv_complete)

lemmas coord_inv_ops =
  coord_inv_Make coord_inv_Register coord_inv_AssignTask coord_inv_ReportMapTask coord_inv_ReportReduceTask

section \<open>What the handlers do\<close>

lemma AddFile_fields [mr_simps]:
  "r_statusMap (snd (ReduceTaskManager_AddFile r i f)) = r_statusMap r"
  "r_assignedTime (snd (ReduceTaskManager_AddFile r i f)) = r_assignedTime r"
  "r_tasks (snd (ReduceTaskManager_AddFile r i f)) j =
     (if j = i then map_option (\<lambda>t. t\<lparr>Filenames := Filenames t @ [f]\<rparr>) (r_tasks r i) else r_tasks r j)"
  by (auto simp: ReduceTaskManager_AddFile_def split: option.splits)

lemma AddFiles_fields [mr_simps]:
  "r_statusMap (foldl (\<lambda>r i. snd (ReduceTaskManager_AddFile r i (f i))) r ks) = r_statusMap r"
  "r_assignedTime (foldl (\<lambda>r i. snd (ReduceTaskManager_AddFile r i (f i))) r ks) = r_assignedTime r"
  by (induction ks arbitrary: r) (auto simp: mr_simps)

lemma AddFiles_tasks:
  assumes "distinct ks"
  shows "r_tasks (foldl (\<lambda>r i. snd (ReduceTaskManager_AddFile r i (f i))) r ks) j =
     (if j \<in> set ks then map_option (\<lambda>t. t\<lparr>Filenames := Filenames t @ [f j]\<rparr>) (r_tasks r j) else r_tasks r j)"
  using assms by (induction ks arbitrary: r) (auto simp: mr_simps)

text \<open>The iteration order of the report's map does not matter.\<close>

lemma ReportMapTask_order_irrelevant:
  assumes "key_order (ReduceTaskMap req) ks" and "key_order (ReduceTaskMap req) ks'"
  shows "Coordinator_ReportMapTask ks req c = Coordinator_ReportMapTask ks' req c"
proof -
  let ?add = "\<lambda>ks. foldl (\<lambda>r i. snd (ReduceTaskManager_AddFile r i (the (ReduceTaskMap req i)))) (reduceMgr c) ks"
  have "r_tasks (?add ks) = r_tasks (?add ks')"
    using key_orderD [OF assms(1)] key_orderD [OF assms(2)] by (auto simp: AddFiles_tasks)
  then have "?add ks = ?add ks'"
    by (simp add: mr_simps)
  then show ?thesis by (simp add: Coordinator_ReportMapTask_def)
qed

lemma IsTaskCompleted_iff [simp]:
  "MapTaskManager_IsTaskCompleted m k \<longleftrightarrow> m_statusMap m k = Some TaskCompleted"
  "ReduceTaskManager_IsTaskCompleted r i \<longleftrightarrow> r_statusMap r i = Some TaskCompleted"
  by (auto simp: MapTaskManager_IsTaskCompleted_def ReduceTaskManager_IsTaskCompleted_def zget_def
      split: option.splits)

text \<open>A repeated report changes nothing.\<close>

lemma ReportMapTask_completes:
  assumes "m_statusMap (mapManager c) (MapTask_Id (rmt_MapTask req)) \<noteq> None"
  shows "m_statusMap (mapManager (Coordinator_ReportMapTask ks req c)) (MapTask_Id (rmt_MapTask req)) = Some TaskCompleted"
  using assms by (auto simp: Coordinator_ReportMapTask_def mapm.status_complete)

lemma ReportMapTask_ignored:
  "m_statusMap (mapManager c) (MapTask_Id (rmt_MapTask req)) = Some TaskCompleted \<Longrightarrow>
   Coordinator_ReportMapTask ks req c = c"
  by (simp add: Coordinator_ReportMapTask_def)

lemma ReportReduceTask_completes:
  assumes "r_statusMap (reduceMgr c) (ReduceTask_Id (rrt_ReduceTask req)) \<noteq> None"
  shows "r_statusMap (reduceMgr (Coordinator_ReportReduceTask req c)) (ReduceTask_Id (rrt_ReduceTask req)) = Some TaskCompleted"
  using assms by (auto simp: Coordinator_ReportReduceTask_def redm.status_complete)

lemma ReportReduceTask_ignored:
  "r_statusMap (reduceMgr c) (ReduceTask_Id (rrt_ReduceTask req)) = Some TaskCompleted \<Longrightarrow>
   Coordinator_ReportReduceTask req c = c"
  by (simp add: Coordinator_ReportReduceTask_def)

lemma Done_iff:
  assumes "coord_inv c" and "lo_ok Lm" and "lo_ok Lr"
  shows "Coordinator_Done Lm Lr c \<longleftrightarrow>
     (\<forall>k st. m_statusMap (mapManager c) k = Some st \<longrightarrow> st = TaskCompleted) \<and>
     (\<forall>i st. r_statusMap (reduceMgr c) i = Some st \<longrightarrow> st = TaskCompleted)"
  using assms by (simp add: Coordinator_Done_def coord_inv_def mapm.all_done_iff redm.all_done_iff)

text \<open>What a response of \<open>AssignTask\<close> tells about the state it was computed in.\<close>

lemma AssignTask_map:
  assumes "Coordinator_AssignTask Lm Lr t1 t2 c = (resp, c')" and "resp_MapTask resp = Some t"
  shows "MapTaskManager_GetPendingTask Lm t1 (mapManager c) = Some t"
    and "resp_ReduceTask resp = None"
    and "c' = c\<lparr>mapManager := snd (MapTaskManager_AssignTask t2 (mapManager c) (MapTask_Id t))\<rparr>"
  using assms by (auto simp: Coordinator_AssignTask_def split: option.splits if_splits)

lemma AssignTask_reduce:
  assumes "Coordinator_AssignTask Lm Lr t1 t2 c = (resp, c')" and "resp_ReduceTask resp = Some t"
  shows "ReduceTaskManager_GetPendingTask Lr t1 (reduceMgr c) = Some t"
    and "MapTaskManager_AllCompleted Lm (mapManager c)"
    and "resp_MapTask resp = None"
    and "c' = c\<lparr>reduceMgr := snd (ReduceTaskManager_AssignTask t2 (reduceMgr c) (ReduceTask_Id t))\<rparr>"
  using assms by (auto simp: Coordinator_AssignTask_def split: option.splits if_splits)

lemma AssignTask_nothing:
  assumes "Coordinator_AssignTask Lm Lr t1 t2 c = (resp, c')"
    and "resp_MapTask resp = None" and "resp_ReduceTask resp = None"
  shows "c' = c"
  using assms by (auto simp: Coordinator_AssignTask_def split: option.splits if_splits)

section \<open>Properties of the coordinator\<close>

text \<open>
  C24: The coordinator's time-out rule. A map task that is assigned is not given to another
  worker until more than \<open>TaskTimeout\<close> has passed since it was handed out, and no reduce task
  is given out while a map task is unfinished; conversely, when some map task is pending or
  overdue the asking worker is given a map task, and the table records it as assigned now.
\<close>

theorem AssignTask_timeout_rule:
  assumes "coord_inv c" and "lo_ok Lm" and "lo_ok Lr" and "Coordinator_AssignTask Lm Lr t1 t2 c = (resp, c')"
  shows "(\<forall>k t t0. m_statusMap (mapManager c) k = Some TaskAssigned \<and> m_assignedTime (mapManager c) k = Some t0 \<and>
            t1 - t0 \<le> TaskTimeout \<and> resp_MapTask resp = Some t \<longrightarrow> MapTask_Id t \<noteq> k) \<and>
         (\<forall>t k st. resp_ReduceTask resp = Some t \<and> m_statusMap (mapManager c) k = Some st \<longrightarrow> st = TaskCompleted) \<and>
         (\<forall>k. m_statusMap (mapManager c) k = Some TaskPending \<or>
              (m_statusMap (mapManager c) k = Some TaskAssigned \<and> t1 - zget (m_assignedTime (mapManager c)) 0 k > TaskTimeout) \<longrightarrow>
            (\<exists>t. resp_MapTask resp = Some t \<and>
               m_statusMap (mapManager c') (MapTask_Id t) = Some TaskAssigned \<and>
               m_assignedTime (mapManager c') (MapTask_Id t) = Some t2))"
proof -
  have mi: "map_inv (mapManager c)" using assms(1) by (simp add: coord_inv_def)
  note run = assms(4) and L = assms(2)
  have "MapTask_Id t \<noteq> k" if "m_statusMap (mapManager c) k = Some TaskAssigned"
    "m_assignedTime (mapManager c) k = Some t0" "t1 - t0 \<le> TaskTimeout" "resp_MapTask resp = Some t" for k t t0
    using mapm.not_pending_before_timeout [OF mi L that(1-3)] AssignTask_map(1) [OF run that(4)] by blast
  moreover have "st = TaskCompleted" if "resp_ReduceTask resp = Some t" "m_statusMap (mapManager c) k = Some st" for t k st
    using AssignTask_reduce(2) [OF run that(1)] mapm.all_done_iff [OF mi L] that(2) by blast
  moreover have "\<exists>t. resp_MapTask resp = Some t \<and> m_statusMap (mapManager c') (MapTask_Id t) = Some TaskAssigned \<and>
      m_assignedTime (mapManager c') (MapTask_Id t) = Some t2"
    if st: "m_statusMap (mapManager c) k = Some st" "st \<noteq> TaskCompleted"
      "st = TaskAssigned \<Longrightarrow> t1 - zget (m_assignedTime (mapManager c)) 0 k > TaskTimeout" for k st
  proof -
    obtain t where t: "MapTaskManager_GetPendingTask Lm t1 (mapManager c) = Some t"
      using mapm.pending_if_overdue [OF mi L st(1,2), of t1] st(3) by blast
    then have resp: "resp_MapTask resp = Some t" using run by (auto simp: Coordinator_AssignTask_def)
    show ?thesis
      using resp AssignTask_map(3) [OF run resp] mapm.assigned_after_pending [OF mi L t] by simp
  qed
  ultimately show ?thesis by (intro conjI allI impI) (blast, blast, metis TaskStatus.distinct(2,4,6))
qed

definition demo_coord :: Coordinator where
  "demo_coord = MakeCoordinator [''f''] 1"

theorem AssignTask_timeout_rule_witness:
  "\<exists>t c'. Coordinator_AssignTask lo_sorted lo_sorted 0 0 demo_coord =
      (\<lparr>resp_MapTask = Some t, resp_ReduceTask = None\<rparr>, c') \<and>
    m_statusMap (mapManager c') (MapTask_Id t) = Some TaskAssigned"
proof -
  obtain resp c' where run: "Coordinator_AssignTask lo_sorted lo_sorted 0 0 demo_coord = (resp, c')" by fastforce
  have "coord_inv demo_coord" by (simp add: demo_coord_def coord_inv_Make)
  moreover have "m_statusMap (mapManager demo_coord) ''f'' = Some TaskPending"
    by (simp add: demo_coord_def MakeCoordinator_def mr_simps)
  ultimately obtain t where "resp_MapTask resp = Some t" "m_statusMap (mapManager c') (MapTask_Id t) = Some TaskAssigned"
    using AssignTask_timeout_rule [OF _ lo_sorted_ok lo_sorted_ok run] by blast
  moreover from this(1) have "resp_ReduceTask resp = None" by (rule AssignTask_map(2) [OF run])
  ultimately show ?thesis
    using run by (intro exI [of _ t] exI [of _ c']) (simp add: AssignTaskResponse.equality)
qed

text \<open>
  C23: A map report counts once. Delivering the same report again, with whatever iteration order
  of its map, leaves the coordinator as the first delivery left it, and the order does not
  matter for the first delivery either.
\<close>

theorem ReportMapTask_exactly_once:
  assumes "key_order (ReduceTaskMap req) ks" and "key_order (ReduceTaskMap req) ks'"
    and "m_statusMap (mapManager c) (MapTask_Id (rmt_MapTask req)) \<noteq> None"
  shows "Coordinator_ReportMapTask ks' req c = Coordinator_ReportMapTask ks req c \<and>
    Coordinator_ReportMapTask ks' req (Coordinator_ReportMapTask ks req c) = Coordinator_ReportMapTask ks req c \<and>
    (\<forall>i g t. m_statusMap (mapManager c) (MapTask_Id (rmt_MapTask req)) \<noteq> Some TaskCompleted \<and>
           r_tasks (reduceMgr c) i = Some t \<and> ReduceTaskMap req i = Some g \<longrightarrow>
           r_tasks (reduceMgr (Coordinator_ReportMapTask ks req c)) i = Some (t\<lparr>Filenames := Filenames t @ [g]\<rparr>))"
  using ReportMapTask_order_irrelevant [OF assms(2,1)] ReportMapTask_ignored [OF ReportMapTask_completes [OF assms(3)]]
    key_orderD [OF assms(1)]
  by (auto simp: Coordinator_ReportMapTask_def AddFiles_tasks)

theorem ReportMapTask_exactly_once_witness:
  "let req = \<lparr>rmt_WorkerID = 1, rmt_MapTask = \<lparr>MapTask_Id = ''f'', NReduce = 1\<rparr>, ReduceTaskMap = [0 \<mapsto> ''tmp'']\<rparr>
   in Coordinator_ReportMapTask [0] req (Coordinator_ReportMapTask [0] req demo_coord) = Coordinator_ReportMapTask [0] req demo_coord"
  unfolding Let_def
  by (rule ReportMapTask_exactly_once [THEN conjunct2, THEN conjunct1])
    (auto simp: key_order_def demo_coord_def MakeCoordinator_def mr_simps)

text \<open>
  \<open>Done\<close> is final: once the coordinator answers that the job is done, no request changes
  that, every later request for work is answered with no task, and every report is ignored.
\<close>

theorem Done_stable:
  assumes "coord_inv c" and "lo_ok Lm" and "lo_ok Lr" and "Coordinator_Done Lm Lr c"
  shows "Coordinator_Done Lm Lr (snd (Coordinator_Register c)) \<and>
    Coordinator_AssignTask Lm Lr t1 t2 c = (\<lparr>resp_MapTask = None, resp_ReduceTask = None\<rparr>, c) \<and>
    (m_statusMap (mapManager c) (MapTask_Id (rmt_MapTask mreq)) \<noteq> None \<longrightarrow> Coordinator_ReportMapTask ks mreq c = c) \<and>
    (r_statusMap (reduceMgr c) (ReduceTask_Id (rrt_ReduceTask rreq)) \<noteq> None \<longrightarrow> Coordinator_ReportReduceTask rreq c = c)"
proof -
  have mi: "map_inv (mapManager c)" and ri: "reduce_inv (reduceMgr c)" using assms(1) by (auto simp: coord_inv_def)
  have d: "\<forall>k st. m_statusMap (mapManager c) k = Some st \<longrightarrow> st = TaskCompleted"
    "\<forall>i st. r_statusMap (reduceMgr c) i = Some st \<longrightarrow> st = TaskCompleted"
    using assms(4) Done_iff [OF assms(1-3)] by blast+
  have "MapTaskManager_GetPendingTask Lm t1 (mapManager c) = None"
    using mapm.pending_live [OF mi assms(2)] d(1) by (metis TaskStatus.distinct(3,5) empty_iff insert_iff not_None_eq)
  moreover have "ReduceTaskManager_GetPendingTask Lr t1 (reduceMgr c) = None"
    using redm.pending_live [OF ri assms(3)] d(2) by (metis TaskStatus.distinct(3,5) empty_iff insert_iff not_None_eq)
  ultimately have "Coordinator_AssignTask Lm Lr t1 t2 c = (\<lparr>resp_MapTask = None, resp_ReduceTask = None\<rparr>, c)"
    by (simp add: Coordinator_AssignTask_def)
  moreover have "Coordinator_Done Lm Lr (snd (Coordinator_Register c))"
    using assms(4) by (simp add: Coordinator_Done_def Coordinator_Register_def split: if_splits)
  ultimately show ?thesis using d by (auto intro: ReportMapTask_ignored ReportReduceTask_ignored)
qed

theorem Done_stable_witness:
  "Coordinator_AssignTask lo_sorted lo_sorted 5 6 (MakeCoordinator [] 0) =
     (\<lparr>resp_MapTask = None, resp_ReduceTask = None\<rparr>, MakeCoordinator [] 0)"
proof -
  have "Coordinator_Done lo_sorted lo_sorted (MakeCoordinator [] 0)"
    unfolding Done_iff [OF coord_inv_Make lo_sorted_ok lo_sorted_ok] by (simp add: MakeCoordinator_def mr_simps)
  then show ?thesis using Done_stable [OF coord_inv_Make lo_sorted_ok lo_sorted_ok] by blast
qed

text \<open>
  \<open>ReportMapTask\<close> ignores whether \<open>CompleteTask\<close> knew the task: a report for a file that
  the job does not have completes nothing, yet its intermediate files are added to the reduce
  tasks, and they are added again each time the report is repeated.
\<close>

theorem ReportMapTask_unknown_task:
  assumes "m_statusMap (mapManager c) (MapTask_Id (rmt_MapTask req)) = None"
    and "key_order (ReduceTaskMap req) ks" and "r_tasks (reduceMgr c) i = Some t" and "ReduceTaskMap req i = Some g"
  shows "mapManager (Coordinator_ReportMapTask ks req c) = mapManager c \<and>
    r_tasks (reduceMgr (Coordinator_ReportMapTask ks req c)) i = Some (t\<lparr>Filenames := Filenames t @ [g]\<rparr>) \<and>
    r_tasks (reduceMgr (Coordinator_ReportMapTask ks req (Coordinator_ReportMapTask ks req c))) i =
       Some (t\<lparr>Filenames := Filenames t @ [g, g]\<rparr>)"
  using assms key_orderD [OF assms(2)]
  by (auto simp: Coordinator_ReportMapTask_def AddFiles_tasks MapTaskManager_CompleteTask_def)

theorem ReportMapTask_unknown_task_witness:
  "let req = \<lparr>rmt_WorkerID = 1, rmt_MapTask = \<lparr>MapTask_Id = ''other'', NReduce = 1\<rparr>, ReduceTaskMap = [0 \<mapsto> ''tmp'']\<rparr>
   in r_tasks (reduceMgr (Coordinator_ReportMapTask [0] req (Coordinator_ReportMapTask [0] req demo_coord))) 0 =
      Some \<lparr>ReduceTask_Id = 0, Filenames = [''tmp'', ''tmp'']\<rparr>"
  unfolding Let_def
  by (subst ReportMapTask_unknown_task [THEN conjunct2, THEN conjunct2])
    (auto simp: key_order_def demo_coord_def MakeCoordinator_def mr_simps)

text \<open>
  The progress counters agree with each other: in both tables the pending, assigned and
  completed tasks add up to the number of tasks, and the table reports that all are completed
  exactly when the completed count is the task count.
\<close>

theorem counts_partition:
  assumes "coord_inv c" and "lo_ok Lm" and "lo_ok Lr"
  shows "MapTaskManager_GetPendingCount Lm (mapManager c) + MapTaskManager_GetAssignedCount Lm (mapManager c) +
         MapTaskManager_GetCompletedCount Lm (mapManager c) = MapTaskManager_GetTaskCount (mapManager c) \<and>
         ReduceTaskManager_GetPendingCount Lr (reduceMgr c) + ReduceTaskManager_GetAssignedCount Lr (reduceMgr c) +
         ReduceTaskManager_GetCompletedCount Lr (reduceMgr c) = ReduceTaskManager_GetTaskCount (reduceMgr c) \<and>
         (MapTaskManager_AllCompleted Lm (mapManager c) \<longleftrightarrow>
            MapTaskManager_GetCompletedCount Lm (mapManager c) = MapTaskManager_GetTaskCount (mapManager c))"
proof -
  have mi: "map_inv (mapManager c)" and ri: "reduce_inv (reduceMgr c)" using assms(1) by (auto simp: coord_inv_def)
  let ?st = "m_statusMap (mapManager c)"
  have fin: "finite (dom ?st)" and dom: "dom ?st = dom (m_tasks (mapManager c))" using map_invD [OF mi] by auto
  have "(\<forall>k st. ?st k = Some st \<longrightarrow> st = TaskCompleted) \<longleftrightarrow> {k. ?st k = Some TaskCompleted} = dom ?st"
    unfolding dom_def set_eq_iff mem_Collect_eq by (metis not_None_eq option.inject)
  also have "\<dots> \<longleftrightarrow> card {k. ?st k = Some TaskCompleted} = card (dom ?st)"
    using card_subset_eq [OF fin, of "{k. ?st k = Some TaskCompleted}"] by fastforce
  finally have "MapTaskManager_AllCompleted Lm (mapManager c) \<longleftrightarrow>
      MapTaskManager_GetCompletedCount Lm (mapManager c) = MapTaskManager_GetTaskCount (mapManager c)"
    using mapm.all_done_iff [OF mi assms(2)] lo_CountBy_Values [OF assms(2) fin] dom
    by (simp add: MapTaskManager_GetCompletedCount_def MapTaskManager_GetTaskCount_def)
  with map_counts [OF mi assms(2)] reduce_counts [OF ri assms(3)] show ?thesis by simp
qed

theorem counts_partition_witness:
  "MapTaskManager_GetPendingCount lo_sorted (mapManager demo_coord) + MapTaskManager_GetAssignedCount lo_sorted (mapManager demo_coord) +
     MapTaskManager_GetCompletedCount lo_sorted (mapManager demo_coord) = 1"
proof -
  have "dom (m_tasks (NewMapTaskManager [''f''] 1)) = {''f''}" by (auto simp: dom_def mr_simps split: if_splits)
  then have "MapTaskManager_GetTaskCount (mapManager demo_coord) = 1"
    by (simp add: demo_coord_def MakeCoordinator_def MapTaskManager_GetTaskCount_def)
  moreover have "coord_inv demo_coord" by (simp add: demo_coord_def coord_inv_Make)
  ultimately show ?thesis using counts_partition [OF _ lo_sorted_ok lo_sorted_ok] by fastforce
qed

end
