(* ===== verification/MR_Worker.thy ===== *)
theory MR_Worker
  imports MR_Coordinator
begin

text \<open>
  The MapReduce worker (\<open>mr/worker.go\<close>) and its intermediate files (\<open>mr/util.go\<close>).

  An intermediate file is the sequence of JSON values written to it: \<open>Enc kv\<close> is one value
  as \<open>json.Encoder\<close> writes it and \<open>Junk\<close> is anything \<open>json.Decoder\<close> rejects.
  Operating system outcomes (a temporary file that cannot be created, a write that fails part
  way, an RPC whose request or reply is lost) are arguments, so every error return of the code
  is a branch here. The plugin's \<open>mapf\<close> and \<open>reducef\<close>, the input files and the
  functions of the \<open>lo\<close> package are parameters; \<open>lo_worker_ok\<close> states the documented
  behaviour of the latter.
\<close>

section \<open>Hashing keys to reduce tasks\<close>

definition ihash :: "string \<Rightarrow> int" where
  "ihash key = uint (fnv32a key AND 0x7fffffff)"

lemma ihash_nonneg: "0 \<le> ihash key"
  by (simp add: ihash_def)

lemma ihash_bound: "ihash key \<le> 0x7fffffff"
proof -
  have "fnv32a key AND 0x7fffffff \<le> (0x7fffffff :: 32 word)"
    by (rule word_and_le1)
  then have "uint (fnv32a key AND 0x7fffffff) \<le> uint (0x7fffffff :: 32 word)"
    by (simp only: word_le_def)
  then show ?thesis by (simp add: ihash_def)
qed

definition partition_of :: "int \<Rightarrow> KeyValue \<Rightarrow> int" where
  "partition_of nRed kv = go_rem (ihash (Key kv)) nRed"

lemma partition_of_bounds:
  assumes "0 < nRed"
  shows "0 \<le> partition_of nRed kv" and "partition_of nRed kv < nRed"
  using go_rem_bounds [OF ihash_nonneg assms] by (simp_all add: partition_of_def)

section \<open>Intermediate files\<close>

datatype chunk = Enc KeyValue | Junk

type_synonym kvfs = "string \<rightharpoonup> chunk list"

fun decode_loop :: "chunk list \<Rightarrow> KeyValue list" where
  "decode_loop [] = []"
| "decode_loop (Enc kv # cs) = kv # decode_loop cs"
| "decode_loop (Junk # cs) = []"

definition ReadKeyValues :: "kvfs \<Rightarrow> string \<Rightarrow> KeyValue list option" where
  "ReadKeyValues fs filename =
     (case fs filename of None \<Rightarrow> None | Some cs \<Rightarrow> Some (decode_loop cs))"

text \<open>
  \<open>os.CreateTemp\<close> never reuses an existing name. The outcome of a call of
  \<open>WriteKeyValues\<close> is the chosen name and, if writing fails, after how many values.
\<close>

datatype tmp_outcome = CreateFails | EncodeFails string nat | Written string

definition WriteKeyValues :: "tmp_outcome \<Rightarrow> kvfs \<Rightarrow> KeyValue list \<Rightarrow> (string + string) \<times> kvfs" where
  "WriteKeyValues out fs kvs =
     (case out of
        CreateFails \<Rightarrow> (Inl ''create'', fs)
      | EncodeFails f n \<Rightarrow>
          if f \<in> dom fs then (Inl ''create'', fs)
          else if n < length kvs then (Inl ''encode'', fs(f \<mapsto> map Enc (take n kvs)))
          else (Inr f, fs(f \<mapsto> map Enc kvs))
      | Written f \<Rightarrow>
          if f \<in> dom fs then (Inl ''create'', fs) else (Inr f, fs(f \<mapsto> map Enc kvs)))"

lemma decode_loop_Enc [simp]: "decode_loop (map Enc kvs) = kvs"
  by (induction kvs) auto

lemma decode_loop_append: "decode_loop (map Enc kvs @ Junk # cs) = kvs"
  by (induction kvs) auto

lemma WriteKeyValues_ok:
  assumes "WriteKeyValues out fs kvs = (Inr f, fs')"
  shows "fs' = fs(f \<mapsto> map Enc kvs)" and "fs f = None"
  using assms by (auto simp: WriteKeyValues_def split: tmp_outcome.splits if_splits)

lemma WriteKeyValues_mono:
  assumes "WriteKeyValues out fs kvs = (r, fs')"
  shows "fs \<subseteq>\<^sub>m fs'"
  using assms
  by (auto simp: WriteKeyValues_def map_le_def split: tmp_outcome.splits if_splits)

section \<open>The lo functions of the worker\<close>

record lo_worker =
  lo_GroupByInt :: "KeyValue list \<Rightarrow> (KeyValue \<Rightarrow> int) \<Rightarrow> (int \<rightharpoonup> KeyValue list)"
  lo_GroupByString :: "KeyValue list \<Rightarrow> (KeyValue \<Rightarrow> string) \<Rightarrow> (string \<rightharpoonup> KeyValue list)"
  lo_FlatMap :: "string list \<Rightarrow> (string \<Rightarrow> KeyValue list) \<Rightarrow> KeyValue list"
  lo_Map :: "KeyValue list \<Rightarrow> (KeyValue \<Rightarrow> string) \<Rightarrow> string list"

definition group_spec :: "'a list \<Rightarrow> ('a \<Rightarrow> 'k) \<Rightarrow> ('k \<rightharpoonup> 'a list)" where
  "group_spec xs f = (\<lambda>k. let ys = filter (\<lambda>x. f x = k) xs in if ys = [] then None else Some ys)"

definition lo_worker_ok :: "lo_worker \<Rightarrow> bool" where
  "lo_worker_ok W \<longleftrightarrow>
     (\<forall>xs f. lo_GroupByInt W xs f = group_spec xs f) \<and>
     (\<forall>xs f. lo_GroupByString W xs f = group_spec xs f) \<and>
     (\<forall>xs f. lo_FlatMap W xs f = concat (map f xs)) \<and>
     (\<forall>xs f. lo_Map W xs f = map f xs)"

lemma group_spec_Some: "group_spec xs f k = Some ys \<longleftrightarrow> ys \<noteq> [] \<and> ys = filter (\<lambda>x. f x = k) xs"
  by (auto simp: group_spec_def Let_def)

lemma group_spec_None: "group_spec xs f k = None \<longleftrightarrow> filter (\<lambda>x. f x = k) xs = []"
  by (simp add: group_spec_def Let_def)

lemma the_group_spec: "k \<in> dom (group_spec xs f) \<Longrightarrow> the (group_spec xs f k) = filter (\<lambda>x. f x = k) xs"
  by (auto simp: group_spec_def Let_def split: if_splits)

lemma dom_group_spec: "dom (group_spec xs f) = f ` set xs"
  by (auto simp: group_spec_def Let_def dom_def filter_empty_conv split: if_splits)

definition lo_worker_std :: lo_worker where
  "lo_worker_std = \<lparr>lo_GroupByInt = group_spec, lo_GroupByString = group_spec,
     lo_FlatMap = (\<lambda>xs f. concat (map f xs)), lo_Map = (\<lambda>xs f. map f xs)\<rparr>"

lemma lo_worker_std_ok: "lo_worker_ok lo_worker_std"
  by (simp add: lo_worker_ok_def lo_worker_std_def)

section \<open>Remote calls with retries\<close>

text \<open>
  One attempt of \<open>call\<close> has one of the outcomes of \<open>call_outcome\<close>. Every RPC of the worker is
  attempted at most \<open>RPCRetryCount\<close> times.
\<close>

definition RPCRetryCount :: nat where
  "RPCRetryCount = 3"

fun retry :: "nat \<Rightarrow> (nat \<Rightarrow> call_outcome) \<Rightarrow> nat \<Rightarrow> ('c \<Rightarrow> 'r \<times> 'c) \<Rightarrow> 'c \<Rightarrow> 'r option \<times> 'c" where
  "retry 0 os i h c = (None, c)"
| "retry (Suc n) os i h c =
     (case os i of
        CallOK \<Rightarrow> (let (r, c') = h c in (Some r, c'))
      | ReplyLost \<Rightarrow> retry n os (Suc i) h (snd (h c))
      | CallLost \<Rightarrow> retry n os (Suc i) h c)"

record JobWorker =
  jw_workerID :: int
  mapf :: "string \<Rightarrow> string \<Rightarrow> KeyValue list"
  reducef :: "string \<Rightarrow> string list \<Rightarrow> string"

definition JobWorker_Register :: "(nat \<Rightarrow> call_outcome) \<Rightarrow> JobWorker \<Rightarrow> Coordinator \<Rightarrow> bool \<times> JobWorker \<times> Coordinator" where
  "JobWorker_Register os w c =
     (case retry RPCRetryCount os 0 Coordinator_Register c of
        (Some wid, c') \<Rightarrow> (True, w\<lparr>jw_workerID := wid\<rparr>, c')
      | (None, c') \<Rightarrow> (False, w, c'))"

definition JobWorker_IsWaiting ::
    "(string, MapTask) lo_lib \<Rightarrow> (int, ReduceTask) lo_lib \<Rightarrow> (nat \<Rightarrow> call_outcome) \<Rightarrow> Coordinator \<Rightarrow> bool" where
  "JobWorker_IsWaiting Lm Lr os c =
     (case fst (retry RPCRetryCount os 0 (\<lambda>c. (Coordinator_IsDone Lm Lr c, c)) c) of
        Some done \<Rightarrow> \<not> done
      | None \<Rightarrow> False)"

section \<open>Map tasks\<close>

datatype task_err = ReadFailed | WriteFailed | ReportFailed | ZeroDivide

fun write_groups ::
    "(int \<rightharpoonup> KeyValue list) \<Rightarrow> (int \<Rightarrow> tmp_outcome) \<Rightarrow> int list \<Rightarrow> (int \<rightharpoonup> string) \<Rightarrow> kvfs \<Rightarrow>
     (task_err + (int \<rightharpoonup> string)) \<times> kvfs" where
  "write_groups taskMap tmps [] reduceTaskMap fs = (Inr reduceTaskMap, fs)"
| "write_groups taskMap tmps (k # ks) reduceTaskMap fs =
     (case WriteKeyValues (tmps k) fs (the (taskMap k)) of
        (Inl e, fs') \<Rightarrow> (Inl WriteFailed, fs')
      | (Inr f, fs') \<Rightarrow> write_groups taskMap tmps ks (reduceTaskMap(k \<mapsto> f)) fs')"

text \<open>
  The part of \<open>mapTask\<close> before the report: read the input, run the plugin's map function,
  group by partition, write one file per partition. \<open>ks\<close> is the iteration order of the
  grouped map.
\<close>

definition mapTask_files ::
    "lo_worker \<Rightarrow> JobWorker \<Rightarrow> (string \<rightharpoonup> string) \<Rightarrow> int list \<Rightarrow> (int \<Rightarrow> tmp_outcome) \<Rightarrow> MapTask \<Rightarrow> kvfs \<Rightarrow>
     (task_err + (int \<rightharpoonup> string)) \<times> kvfs" where
  "mapTask_files W w input ks tmps task fs =
     (case input (MapTask_Id task) of
        None \<Rightarrow> (Inl ReadFailed, fs)
      | Some content \<Rightarrow>
          (let kvs = mapf w (MapTask_Id task) content in
           if kvs \<noteq> [] \<and> NReduce task = 0 then (Inl ZeroDivide, fs)
           else write_groups (lo_GroupByInt W kvs (partition_of (NReduce task))) tmps ks Map.empty fs))"

definition JobWorker_mapTask ::
    "lo_worker \<Rightarrow> JobWorker \<Rightarrow> (string \<rightharpoonup> string) \<Rightarrow> int list \<Rightarrow> (int \<Rightarrow> tmp_outcome) \<Rightarrow>
     (nat \<Rightarrow> call_outcome) \<Rightarrow> int list \<Rightarrow> MapTask \<Rightarrow> kvfs \<Rightarrow> Coordinator \<Rightarrow>
     task_err option \<times> kvfs \<times> Coordinator" where
  "JobWorker_mapTask W w input ks tmps os ks' task fs c =
     (case mapTask_files W w input ks tmps task fs of
        (Inl e, fs') \<Rightarrow> (Some e, fs', c)
      | (Inr reduceTaskMap, fs') \<Rightarrow>
          (let req = \<lparr>rmt_WorkerID = jw_workerID w, rmt_MapTask = task, ReduceTaskMap = reduceTaskMap\<rparr>;
               (r, c') = retry RPCRetryCount os 0 (\<lambda>c. ((), Coordinator_ReportMapTask ks' req c)) c
           in (if r = None then Some ReportFailed else None, fs', c')))"

section \<open>Reduce tasks\<close>

definition newline :: char where "newline = CHR 0x0A"

definition output_line :: "string \<Rightarrow> string \<Rightarrow> string" where
  "output_line key output = key @ '' '' @ output @ [newline]"

definition read_or_empty :: "kvfs \<Rightarrow> string \<Rightarrow> KeyValue list" where
  "read_or_empty fs item = (case ReadKeyValues fs item of None \<Rightarrow> [] | Some kvs \<Rightarrow> kvs)"

text \<open>The lines of the output, in the iteration order \<open>ks\<close> of the grouped map.\<close>

definition reduceTask_lines ::
    "lo_worker \<Rightarrow> JobWorker \<Rightarrow> string list \<Rightarrow> ReduceTask \<Rightarrow> kvfs \<Rightarrow> string list" where
  "reduceTask_lines W w ks task fs =
     (let allKVs = lo_FlatMap W (Filenames task) (read_or_empty fs);
          taskMap = lo_GroupByString W allKVs Key
      in map (\<lambda>key. output_line key (reducef w key (lo_Map W (the (taskMap key)) Value))) ks)"

definition out_name :: "int \<Rightarrow> string" where
  "out_name i = ''mr-out-'' @ Itoa i"

datatype out_outcome = OutCreateFails | OutWriteFails nat | OutWritten

text \<open>
  Writing at offset 0 of a freshly truncated file; another worker may have written the same
  file in between, so the written bytes replace a prefix of what is there.
\<close>

definition overlay :: "string \<Rightarrow> string \<Rightarrow> string" where
  "overlay content old = content @ drop (length content) old"

definition JobWorker_reduceTask ::
    "lo_worker \<Rightarrow> JobWorker \<Rightarrow> string list \<Rightarrow> out_outcome \<Rightarrow> (nat \<Rightarrow> call_outcome) \<Rightarrow> ReduceTask \<Rightarrow> kvfs \<Rightarrow>
     (string \<rightharpoonup> string) \<Rightarrow> Coordinator \<Rightarrow> task_err option \<times> (string \<rightharpoonup> string) \<times> Coordinator" where
  "JobWorker_reduceTask W w ks out os task fs outs c =
     (let content = concat (reduceTask_lines W w ks task fs);
          filename = out_name (ReduceTask_Id task)
      in case out of
           OutCreateFails \<Rightarrow> (Some WriteFailed, outs, c)
         | OutWriteFails n \<Rightarrow> (Some WriteFailed, outs(filename \<mapsto> take n content), c)
         | OutWritten \<Rightarrow>
             (let req = \<lparr>rrt_WorkerID = jw_workerID w, rrt_ReduceTask = task, rrt_Filename = filename\<rparr>;
                  (r, c') = retry RPCRetryCount os 0 (\<lambda>c. ((), Coordinator_ReportReduceTask req c)) c
              in (if r = None then Some ReportFailed else None, outs(filename \<mapsto> content), c')))"

text \<open>
  \<open>JobWorker.AssignTask\<close>: ask for a task and run it. The result says whether the worker
  counts the attempt as a success.
\<close>

definition JobWorker_AssignTask ::
    "(string, MapTask) lo_lib \<Rightarrow> (int, ReduceTask) lo_lib \<Rightarrow> int \<Rightarrow> int \<Rightarrow> (nat \<Rightarrow> call_outcome) \<Rightarrow>
     (MapTask \<Rightarrow> kvfs \<Rightarrow> Coordinator \<Rightarrow> task_err option \<times> kvfs \<times> Coordinator) \<Rightarrow>
     (ReduceTask \<Rightarrow> kvfs \<Rightarrow> (string \<rightharpoonup> string) \<Rightarrow> Coordinator \<Rightarrow> task_err option \<times> (string \<rightharpoonup> string) \<times> Coordinator) \<Rightarrow>
     kvfs \<Rightarrow> (string \<rightharpoonup> string) \<Rightarrow> Coordinator \<Rightarrow> bool \<times> kvfs \<times> (string \<rightharpoonup> string) \<times> Coordinator" where
  "JobWorker_AssignTask Lm Lr t1 t2 os runMap runReduce fs outs c =
     (case retry RPCRetryCount os 0 (Coordinator_AssignTask Lm Lr t1 t2) c of
        (None, c1) \<Rightarrow> (False, fs, outs, c1)
      | (Some resp, c1) \<Rightarrow>
          (let (e1, fs1, c2) =
             (case resp_MapTask resp of None \<Rightarrow> (None, fs, c1) | Some t \<Rightarrow> runMap t fs c1)
           in if e1 \<noteq> None then (False, fs1, outs, c2)
              else
                (let (e2, outs1, c3) =
                   (case resp_ReduceTask resp of None \<Rightarrow> (None, outs, c2) | Some t \<Rightarrow> runReduce t fs1 outs c2)
                 in (e2 = None, fs1, outs1, c3))))"

section \<open>Facts about map tasks\<close>

lemma write_groups_mono:
  "write_groups taskMap tmps ks m fs = (r, fs') \<Longrightarrow> fs \<subseteq>\<^sub>m fs'"
proof (induction taskMap tmps ks m fs rule: write_groups.induct)
  case (2 taskMap tmps k ks m fs)
  obtain r1 fs1 where w: "WriteKeyValues (tmps k) fs (the (taskMap k)) = (r1, fs1)"
    by fastforce
  then have "fs \<subseteq>\<^sub>m fs1" by (rule WriteKeyValues_mono)
  moreover have "fs1 \<subseteq>\<^sub>m fs'"
  proof (cases r1)
    case (Inl e)
    then show ?thesis using "2.prems" w by simp
  next
    case (Inr f)
    with "2.prems" w have "write_groups taskMap tmps ks (m(k \<mapsto> f)) fs1 = (r, fs')" by simp
    with "2.IH" [OF w [symmetric] Inr] show ?thesis by blast
  qed
  ultimately show ?case by (rule map_le_trans)
qed simp

lemma write_groups_ok:
  assumes "write_groups taskMap tmps ks m fs = (Inr m', fs')" and "distinct ks"
  shows "\<forall>k. k \<notin> set ks \<longrightarrow> m' k = m k"
    and "\<forall>k\<in>set ks. \<exists>f. m' k = Some f \<and> fs f = None \<and> fs' f = Some (map Enc (the (taskMap k)))"
  using assms
proof (induction taskMap tmps ks m fs rule: write_groups.induct)
  case (1 taskMap tmps m fs)
  {
    case 1
    then show ?case by simp
  next
    case 2
    then show ?case by simp
  }
next
  case (2 taskMap tmps k ks m fs)
  {
    case prems: 1
    then obtain f fs1 where w: "WriteKeyValues (tmps k) fs (the (taskMap k)) = (Inr f, fs1)"
      and rest: "write_groups taskMap tmps ks (m(k \<mapsto> f)) fs1 = (Inr m', fs')"
      by (auto split: prod.splits sum.splits)
    from "2.IH"(1) [OF w [symmetric] refl rest] prems show ?case by auto
  next
    case prems: 2
    then obtain f fs1 where w: "WriteKeyValues (tmps k) fs (the (taskMap k)) = (Inr f, fs1)"
      and rest: "write_groups taskMap tmps ks (m(k \<mapsto> f)) fs1 = (Inr m', fs')"
      by (auto split: prod.splits sum.splits)
    note IH = "2.IH" [OF w [symmetric] refl rest]
    note f = WriteKeyValues_ok [OF w]
    have "m' k = Some f" using IH(1) prems by auto
    moreover have "fs' f = Some (map Enc (the (taskMap k)))"
      using write_groups_mono [OF rest] f by (auto simp: map_le_def dom_def)
    moreover have "\<exists>g. m' j = Some g \<and> fs g = None \<and> fs' g = Some (map Enc (the (taskMap j)))"
      if j: "j \<in> set ks" for j
    proof -
      from IH(2) j prems obtain g where "m' j = Some g" "fs1 g = None" "fs' g = Some (map Enc (the (taskMap j)))"
        by auto
      then show ?thesis using f(1) by (cases "g = f") auto
    qed
    ultimately show ?case using f(2) by auto
  }
qed

text \<open>
  A successful map task has written, for each partition that its output touches, exactly the
  pairs of that partition, in order, to a new file; it touches no file that existed before.
\<close>

lemma mapTask_files_ok:
  assumes W: "lo_worker_ok W"
    and run: "mapTask_files W w input ks tmps task fs = (Inr m, fs')"
    and ks: "\<And>content. input (MapTask_Id task) = Some content \<Longrightarrow>
        key_order (lo_GroupByInt W (mapf w (MapTask_Id task) content) (partition_of (NReduce task))) ks"
  obtains content where "input (MapTask_Id task) = Some content"
    and "\<And>i. m i = None \<longleftrightarrow> filter (\<lambda>kv. partition_of (NReduce task) kv = i) (mapf w (MapTask_Id task) content) = []"
    and "\<And>i f. m i = Some f \<Longrightarrow> fs f = None \<and>
        fs' f = Some (map Enc (filter (\<lambda>kv. partition_of (NReduce task) kv = i) (mapf w (MapTask_Id task) content)))"
    and "fs \<subseteq>\<^sub>m fs'"
proof -
  from run obtain content where c: "input (MapTask_Id task) = Some content"
    by (auto simp: mapTask_files_def split: option.splits)
  let ?kvs = "mapf w (MapTask_Id task) content"
  let ?g = "group_spec ?kvs (partition_of (NReduce task))"
  have g: "lo_GroupByInt W ?kvs (partition_of (NReduce task)) = ?g"
    using W by (simp add: lo_worker_ok_def)
  from run c g have wg: "write_groups ?g tmps ks Map.empty fs = (Inr m, fs')"
    by (auto simp: mapTask_files_def Let_def split: if_splits)
  from ks [OF c] g have ko: "distinct ks" "set ks = dom ?g"
    by (auto simp: key_order_def)
  note ok = write_groups_ok [OF wg ko(1)]
  have none: "m i = None \<longleftrightarrow> filter (\<lambda>kv. partition_of (NReduce task) kv = i) ?kvs = []" for i
  proof -
    have "i \<in> set ks \<longleftrightarrow> filter (\<lambda>kv. partition_of (NReduce task) kv = i) ?kvs \<noteq> []"
      by (simp add: ko(2) domIff group_spec_None)
    then show ?thesis using ok by (cases "i \<in> set ks") auto
  qed
  have some: "fs f = None \<and> fs' f = Some (map Enc (filter (\<lambda>kv. partition_of (NReduce task) kv = i) ?kvs))"
    if "m i = Some f" for i f
  proof -
    have "i \<in> set ks" using ok(1) that by (cases "i \<in> set ks") auto
    moreover from this have "the (?g i) = filter (\<lambda>kv. partition_of (NReduce task) kv = i) ?kvs"
      using ko(2) by (simp add: the_group_spec)
    ultimately show ?thesis using ok(2) that by auto
  qed
  show thesis
    using c none some write_groups_mono [OF wg] by (rule that)
qed

lemma mapTask_files_mono:
  "mapTask_files W w input ks tmps task fs = (r, fs') \<Longrightarrow> fs \<subseteq>\<^sub>m fs'"
  by (auto simp: mapTask_files_def Let_def write_groups_mono split: option.splits if_splits)

section \<open>Retried calls of an idempotent handler\<close>

lemma retry_states:
  assumes "snd (h c) = d" and "snd (h d) = d" and "c' \<in> {c, d}"
  shows "snd (retry n os i h c') \<in> {c', d} \<and> (fst (retry n os i h c') \<noteq> None \<longrightarrow> snd (retry n os i h c') = d)"
  using assms(3)
proof (induction n arbitrary: i c')
  case (Suc n)
  then have "snd (h c') = d" using assms by auto
  with Suc show ?case by (cases "os i") (auto split: prod.splits)
qed simp

lemma retry_idem:
  assumes "snd (h (snd (h c))) = snd (h c)"
  shows "snd (retry n os i h c) \<in> {c, snd (h c)}"
    and "fst (retry n os i h c) \<noteq> None \<Longrightarrow> snd (retry n os i h c) = snd (h c)"
  using retry_states [OF refl assms, of c n os i] by auto

section \<open>Facts about reduce tasks\<close>

text \<open>
  The specification of a reduce phase over a collection of pairs: one line per distinct key.
  For a reduce function that ignores the order of its values it depends on the multiset of
  pairs only.
\<close>

definition ref_lines :: "(string \<Rightarrow> string list \<Rightarrow> string) \<Rightarrow> KeyValue list \<Rightarrow> string multiset" where
  "ref_lines rf xs =
     image_mset (\<lambda>k. output_line k (rf k (map Value (filter (\<lambda>kv. Key kv = k) xs)))) (mset_set (Key ` set xs))"

definition order_insensitive :: "(string \<Rightarrow> string list \<Rightarrow> string) \<Rightarrow> bool" where
  "order_insensitive rf \<longleftrightarrow> (\<forall>k vs vs'. mset vs = mset vs' \<longrightarrow> rf k vs = rf k vs')"

lemma ref_lines_cong:
  assumes "order_insensitive rf" and "mset xs = mset ys"
  shows "ref_lines rf xs = ref_lines rf ys"
proof -
  have "Key ` set xs = Key ` set ys"
    using assms(2) by (metis set_mset_mset)
  moreover have "rf k (map Value (filter (\<lambda>kv. Key kv = k) xs)) = rf k (map Value (filter (\<lambda>kv. Key kv = k) ys))" for k
    using assms unfolding order_insensitive_def by (metis mset_filter mset_map)
  ultimately show ?thesis by (simp add: ref_lines_def)
qed

lemma reduceTask_lines_mset:
  assumes W: "lo_worker_ok W"
    and ks: "key_order (lo_GroupByString W (lo_FlatMap W (Filenames task) (read_or_empty fs)) Key) ks"
  shows "mset (reduceTask_lines W w ks task fs) =
    ref_lines (reducef w) (concat (map (read_or_empty fs) (Filenames task)))"
proof -
  let ?xs = "concat (map (read_or_empty fs) (Filenames task))"
  have W': "lo_FlatMap W (Filenames task) (read_or_empty fs) = ?xs"
    "lo_GroupByString W ?xs Key = group_spec ?xs Key" "\<And>xs f. lo_Map W xs f = map f xs"
    using W by (simp_all add: lo_worker_ok_def)
  have d: "distinct ks" "set ks = Key ` set ?xs"
    using ks W' by (simp_all add: key_order_def dom_group_spec)
  have "the (group_spec ?xs Key k) = filter (\<lambda>kv. Key kv = k) ?xs" if "k \<in> set ks" for k
    using that d(2) by (intro the_group_spec) (simp add: dom_group_spec)
  then have "reduceTask_lines W w ks task fs =
      map (\<lambda>k. output_line k (reducef w k (map Value (filter (\<lambda>kv. Key kv = k) ?xs)))) ks"
    by (simp add: reduceTask_lines_def W' Let_def)
  moreover have "mset ks = mset_set (Key ` set ?xs)"
    using d by (metis mset_set_set)
  ultimately show ?thesis by (simp add: ref_lines_def)
qed

text \<open>
  Splitting the pairs by a property of their keys splits the lines: this is why hashing the
  keys to reduce tasks is sound.
\<close>

lemma ref_lines_split:
  "ref_lines rf xs = ref_lines rf (filter (\<lambda>kv. Q (Key kv)) xs) + ref_lines rf (filter (\<lambda>kv. \<not> Q (Key kv)) xs)"
proof -
  let ?l = "\<lambda>ys k. output_line k (rf k (map Value (filter (\<lambda>kv. Key kv = k) ys)))"
  have sub: "filter (\<lambda>kv. Key kv = k) (filter (\<lambda>kv. R (Key kv)) xs) = filter (\<lambda>kv. Key kv = k) xs" if "R k" for R k
    using that by (auto simp: filter_filter intro: filter_cong)
  have half: "ref_lines rf (filter (\<lambda>kv. R (Key kv)) xs) = image_mset (?l xs) (mset_set {k \<in> Key ` set xs. R k})" for R
  proof -
    have "Key ` set (filter (\<lambda>kv. R (Key kv)) xs) = {k \<in> Key ` set xs. R k}" by auto
    moreover have "image_mset (?l (filter (\<lambda>kv. R (Key kv)) xs)) (mset_set {k \<in> Key ` set xs. R k}) =
        image_mset (?l xs) (mset_set {k \<in> Key ` set xs. R k})"
      by (intro image_mset_cong) (simp add: sub del: filter_filter)
    ultimately show ?thesis by (simp add: ref_lines_def)
  qed
  have "mset_set (Key ` set xs) = mset_set {k \<in> Key ` set xs. Q k} + mset_set {k \<in> Key ` set xs. \<not> Q k}"
    by (subst mset_set_Union [symmetric]) (auto intro: arg_cong [where f = mset_set])
  then show ?thesis
    unfolding half [of Q] half [of "\<lambda>k. \<not> Q k"] by (simp add: ref_lines_def)
qed

lemma ref_lines_parts:
  assumes "finite I"
  shows "ref_lines rf (filter (\<lambda>kv. h (Key kv) \<in> I) xs) = (\<Sum>i\<in>I. ref_lines rf (filter (\<lambda>kv. h (Key kv) = i) xs))"
  using assms
proof induction
  case empty
  then show ?case by (simp add: ref_lines_def)
next
  case (insert i I)
  let ?ys = "filter (\<lambda>kv. h (Key kv) \<in> insert i I) xs"
  have "ref_lines rf ?ys = ref_lines rf (filter (\<lambda>kv. h (Key kv) = i) ?ys) + ref_lines rf (filter (\<lambda>kv. h (Key kv) \<noteq> i) ?ys)"
    by (rule ref_lines_split [of rf ?ys "\<lambda>k. h k = i"])
  moreover have "filter (\<lambda>kv. h (Key kv) = i) ?ys = filter (\<lambda>kv. h (Key kv) = i) xs"
    "filter (\<lambda>kv. h (Key kv) \<noteq> i) ?ys = filter (\<lambda>kv. h (Key kv) \<in> I) xs"
    using insert.hyps(2) by (auto simp: filter_filter intro: filter_cong)
  ultimately show ?case using insert by simp
qed

section \<open>Properties of the worker\<close>

text \<open>
  Intermediate files round-trip: what \<open>WriteKeyValues\<close> reports as written is what
  \<open>ReadKeyValues\<close> gives back, whatever else is written afterwards; a write that fails part
  way leaves a prefix that decodes to a prefix of the pairs; and a file is never overwritten.
\<close>

theorem KeyValues_roundtrip:
  fixes fs :: kvfs
  shows "(case WriteKeyValues out fs kvs of
      (Inr f, fs') \<Rightarrow> fs f = None \<and> ReadKeyValues fs' f = Some kvs \<and>
        (\<forall>out' kvs'. ReadKeyValues (snd (WriteKeyValues out' fs' kvs')) f = Some kvs)
    | (Inl e, fs') \<Rightarrow> \<forall>g. fs g = None \<and> fs' g \<noteq> None \<longrightarrow> (\<exists>n. ReadKeyValues fs' g = Some (take n kvs))) \<and>
   fs \<subseteq>\<^sub>m snd (WriteKeyValues out fs kvs)"
proof -
  obtain r fs' where w: "WriteKeyValues out fs kvs = (r, fs')" by fastforce
  have mono: "fs \<subseteq>\<^sub>m fs'" using w by (rule WriteKeyValues_mono)
  show ?thesis
  proof (cases r)
    case (Inl e)
    then show ?thesis
      using w mono
      by (auto simp: WriteKeyValues_def ReadKeyValues_def split: tmp_outcome.splits if_splits) blast
  next
    case (Inr f)
    note f = WriteKeyValues_ok [OF w [unfolded Inr]]
    have "ReadKeyValues (snd (WriteKeyValues out' fs' kvs')) f = Some kvs" for out' kvs'
    proof -
      have "fs' \<subseteq>\<^sub>m snd (WriteKeyValues out' fs' kvs')" by (rule WriteKeyValues_mono [OF surjective_pairing])
      then have "snd (WriteKeyValues out' fs' kvs') f = Some (map Enc kvs)"
        using f(1) by (metis domI fun_upd_same map_le_def)
      then show ?thesis by (simp add: ReadKeyValues_def)
    qed
    then show ?thesis using w Inr f mono by (simp add: ReadKeyValues_def)
  qed
qed

theorem KeyValues_roundtrip_witness:
  "ReadKeyValues (snd (WriteKeyValues (Written ''t'') Map.empty [\<lparr>Key = ''k'', Value = ''v''\<rparr>])) ''t''
     = Some [\<lparr>Key = ''k'', Value = ''v''\<rparr>]"
  using KeyValues_roundtrip [where out = "Written ''t''" and fs = Map.empty and kvs = "[\<lparr>Key = ''k'', Value = ''v''\<rparr>]"]
  by (simp add: WriteKeyValues_def)

text \<open>
  C26: A map task that succeeds has split the plugin's output by \<open>ihash(key) % nReduce\<close>: the
  report names one new file per partition that is not empty, each holds exactly the pairs of
  its partition in the plugin's order, every partition number is below \<open>nReduce\<close>, and the
  files together hold every pair once.
\<close>

theorem mapTask_partitions_output:
  assumes "lo_worker_ok W" and "0 < NReduce task" and "input (MapTask_Id task) = Some content"
    and "key_order (lo_GroupByInt W (mapf w (MapTask_Id task) content) (partition_of (NReduce task))) ks"
    and "mapTask_files W w input ks tmps task fs = (Inr m, fs')"
  shows "(\<forall>i f. m i = Some f \<longrightarrow> 0 \<le> i \<and> i < NReduce task \<and> fs f = None \<and>
      ReadKeyValues fs' f = Some (filter (\<lambda>kv. go_rem (ihash (Key kv)) (NReduce task) = i) (mapf w (MapTask_Id task) content))) \<and>
    mset (concat (map (\<lambda>i. read_or_empty fs' (the (m i))) ks)) = mset (mapf w (MapTask_Id task) content)"
proof -
  let ?kvs = "mapf w (MapTask_Id task) content" and ?p = "partition_of (NReduce task)"
  have ko: "\<And>c. input (MapTask_Id task) = Some c \<Longrightarrow>
      key_order (lo_GroupByInt W (mapf w (MapTask_Id task) c) ?p) ks"
    using assms(3,4) by simp
  have none: "m i = None \<longleftrightarrow> filter (\<lambda>kv. ?p kv = i) ?kvs = []"
    and some: "m i = Some f \<Longrightarrow> fs f = None \<and> fs' f = Some (map Enc (filter (\<lambda>kv. ?p kv = i) ?kvs))" for i f
    by (rule mapTask_files_ok [OF assms(1,5) ko]; use assms(3) in simp)+
  have "0 \<le> i \<and> i < NReduce task" if "m i = Some f" for i f
  proof -
    have "filter (\<lambda>kv. ?p kv = i) ?kvs \<noteq> []" using that none [of i] by simp
    then obtain kv where "?p kv = i" by (auto simp: filter_empty_conv)
    then show ?thesis using partition_of_bounds [OF assms(2)] by blast
  qed
  moreover have ks: "distinct ks" "set ks = ?p ` set ?kvs"
    using assms(1,4) by (auto simp: key_order_def lo_worker_ok_def dom_group_spec)
  have "read_or_empty fs' (the (m i)) = filter (\<lambda>kv. ?p kv = i) ?kvs" if "i \<in> set ks" for i
  proof -
    have "m i \<noteq> None" using that ks(2) none [of i] by (auto simp: filter_empty_conv)
    then show ?thesis using some by (auto simp: read_or_empty_def ReadKeyValues_def)
  qed
  then have eq: "map (\<lambda>i. read_or_empty fs' (the (m i))) ks = map (\<lambda>i. filter (\<lambda>kv. ?p kv = i) ?kvs) ks"
    by simp
  have "mset (concat (map (\<lambda>i. read_or_empty fs' (the (m i))) ks)) = mset ?kvs"
    unfolding eq by (rule mset_group_by [OF ks(1)]) (simp add: ks(2))
  ultimately show ?thesis using some by (auto simp: ReadKeyValues_def partition_of_def)
qed

definition demo_worker :: JobWorker where
  "demo_worker = \<lparr>jw_workerID = 1, mapf = (\<lambda>f c. [\<lparr>Key = ''k'', Value = c\<rparr>, \<lparr>Key = ''l'', Value = f\<rparr>]),
     reducef = (\<lambda>k vs. concat vs)\<rparr>"

theorem mapTask_partitions_output_witness:
  "\<exists>m fs'. mapTask_files lo_worker_std demo_worker [''f'' \<mapsto> ''text''] [0] (\<lambda>_. Written ''tmp'') \<lparr>MapTask_Id = ''f'', NReduce = 1\<rparr> Map.empty = (Inr m, fs')
     \<and> mset (read_or_empty fs' ''tmp'') = {#\<lparr>Key = ''k'', Value = ''text''\<rparr>, \<lparr>Key = ''l'', Value = ''f''\<rparr>#}"
proof -
  let ?kvs = "[\<lparr>Key = ''k'', Value = ''text''\<rparr>, \<lparr>Key = ''l'', Value = ''f''\<rparr>]"
  have p: "partition_of 1 kv = 0" for kv by (simp add: partition_of_def go_rem_nonneg ihash_nonneg)
  have ko: "key_order (group_spec ?kvs (partition_of 1)) [0]"
    by (simp add: key_order_def dom_group_spec p)
  have run: "mapTask_files lo_worker_std demo_worker [''f'' \<mapsto> ''text''] [0] (\<lambda>_. Written ''tmp'') \<lparr>MapTask_Id = ''f'', NReduce = 1\<rparr> Map.empty
      = (Inr [0 \<mapsto> ''tmp''], [''tmp'' \<mapsto> map Enc ?kvs])"
    by (simp add: mapTask_files_def demo_worker_def lo_worker_std_def WriteKeyValues_def group_spec_def p)
  from mapTask_partitions_output [OF lo_worker_std_ok _ _ _ run, of "''text''"] ko run
  show ?thesis by (simp add: demo_worker_def lo_worker_std_def)
qed

text \<open>
  Lost requests and lost replies do not damage the job: however the (at most three)
  attempts of the final report of a map task go, the coordinator ends up either untouched or as
  after exactly one delivery, and if the worker sees success it is the latter.
\<close>

theorem mapTask_reports_at_most_once:
  assumes "JobWorker_mapTask W w input ks tmps os ks' task fs c = (res, fs', c')"
    and "m_statusMap (mapManager c) (MapTask_Id task) \<noteq> None"
  shows "(c' = c \<or> (\<exists>m. c' = Coordinator_ReportMapTask ks' \<lparr>rmt_WorkerID = jw_workerID w, rmt_MapTask = task, ReduceTaskMap = m\<rparr> c)) \<and>
    (res = None \<longrightarrow> m_statusMap (mapManager c') (MapTask_Id task) = Some TaskCompleted)"
proof (cases "mapTask_files W w input ks tmps task fs")
  case (Pair r fs1)
  show ?thesis
  proof (cases r)
    case (Inl e)
    then show ?thesis using assms(1) Pair by (auto simp: JobWorker_mapTask_def)
  next
    case (Inr m)
    let ?req = "\<lparr>rmt_WorkerID = jw_workerID w, rmt_MapTask = task, ReduceTaskMap = m\<rparr>"
    let ?h = "\<lambda>c. ((), Coordinator_ReportMapTask ks' ?req c)"
    have comp: "m_statusMap (mapManager (Coordinator_ReportMapTask ks' ?req c)) (MapTask_Id task) = Some TaskCompleted"
      using ReportMapTask_completes [of c ?req ks'] assms(2) by simp
    then have "snd (?h (snd (?h c))) = snd (?h c)" by (simp add: ReportMapTask_ignored)
    note once = retry_idem [of ?h c, OF this, of RPCRetryCount os 0]
    have "c' = snd (retry RPCRetryCount os 0 ?h c)" "res = None \<longleftrightarrow> fst (retry RPCRetryCount os 0 ?h c) \<noteq> None"
      using assms(1) Pair Inr by (auto simp: JobWorker_mapTask_def split: prod.splits if_splits)
    then show ?thesis using once comp by auto
  qed
qed

theorem mapTask_reports_at_most_once_witness:
  "\<exists>c'. JobWorker_mapTask lo_worker_std demo_worker [''f'' \<mapsto> ''text''] [0] (\<lambda>_. Written ''tmp'') (\<lambda>i. if i = 0 then ReplyLost else CallOK) [0]
      \<lparr>MapTask_Id = ''f'', NReduce = 1\<rparr> Map.empty demo_coord = (None, [''tmp'' \<mapsto> [Enc \<lparr>Key = ''k'', Value = ''text''\<rparr>, Enc \<lparr>Key = ''l'', Value = ''f''\<rparr>]], c')
    \<and> m_statusMap (mapManager c') ''f'' = Some TaskCompleted"
proof -
  let ?run = "JobWorker_mapTask lo_worker_std demo_worker [''f'' \<mapsto> ''text''] [0] (\<lambda>_. Written ''tmp'') (\<lambda>i. if i = 0 then ReplyLost else CallOK) [0]
      \<lparr>MapTask_Id = ''f'', NReduce = 1\<rparr> Map.empty demo_coord"
  have p: "partition_of 1 kv = 0" for kv by (simp add: partition_of_def go_rem_nonneg ihash_nonneg)
  obtain c' where run: "?run = (None, [''tmp'' \<mapsto> [Enc \<lparr>Key = ''k'', Value = ''text''\<rparr>, Enc \<lparr>Key = ''l'', Value = ''f''\<rparr>]], c')"
    by (simp add: JobWorker_mapTask_def mapTask_files_def demo_worker_def lo_worker_std_def WriteKeyValues_def
        group_spec_def p RPCRetryCount_def eval_nat_numeral Let_def)
  have "m_statusMap (mapManager demo_coord) ''f'' \<noteq> None" by (simp add: demo_coord_def MakeCoordinator_def mr_simps)
  with mapTask_reports_at_most_once [OF run] run show ?thesis by simp
qed

text \<open>
  C38: A reduce task that cannot read one of its intermediate files carries on without it: the
  output lacks those pairs, yet the task is reported as completed.
\<close>

theorem reduceTask_drops_unreadable_files:
  assumes W: "lo_worker_ok W" and missing: "fs g = None" and files: "Filenames task = gs @ [g]"
    and ks: "key_order (lo_GroupByString W (lo_FlatMap W gs (read_or_empty fs)) Key) ks"
    and known: "r_statusMap (reduceMgr c) (ReduceTask_Id task) \<noteq> None"
    and run: "JobWorker_reduceTask W w ks OutWritten (\<lambda>_. CallOK) task fs outs c = (res, outs', c')"
  shows "res = None \<and> r_statusMap (reduceMgr c') (ReduceTask_Id task) = Some TaskCompleted \<and>
    outs' (out_name (ReduceTask_Id task)) = Some (concat (reduceTask_lines W w ks (task\<lparr>Filenames := gs\<rparr>) fs))"
proof -
  have "lo_FlatMap W (gs @ [g]) (read_or_empty fs) = lo_FlatMap W gs (read_or_empty fs)"
    using W missing by (simp add: lo_worker_ok_def read_or_empty_def ReadKeyValues_def)
  then have "reduceTask_lines W w ks task fs = reduceTask_lines W w ks (task\<lparr>Filenames := gs\<rparr>) fs"
    using files by (simp add: reduceTask_lines_def)
  moreover have "c' = Coordinator_ReportReduceTask \<lparr>rrt_WorkerID = jw_workerID w, rrt_ReduceTask = task,
      rrt_Filename = out_name (ReduceTask_Id task)\<rparr> c" and "res = None"
    and "outs' = outs(out_name (ReduceTask_Id task) \<mapsto> concat (reduceTask_lines W w ks task fs))"
    using run by (auto simp: JobWorker_reduceTask_def Let_def RPCRetryCount_def eval_nat_numeral)
  ultimately show ?thesis
    using ReportReduceTask_completes [of c "\<lparr>rrt_WorkerID = jw_workerID w, rrt_ReduceTask = task,
      rrt_Filename = out_name (ReduceTask_Id task)\<rparr>"] known by simp
qed

theorem reduceTask_drops_unreadable_files_witness:
  "\<exists>outs' c'. JobWorker_reduceTask lo_worker_std demo_worker [] OutWritten (\<lambda>_. CallOK)
       \<lparr>ReduceTask_Id = 0, Filenames = [''lost'']\<rparr> Map.empty Map.empty demo_coord = (None, outs', c') \<and>
     r_statusMap (reduceMgr c') 0 = Some TaskCompleted \<and> outs' (out_name 0) = Some []"
proof -
  let ?t = "\<lparr>ReduceTask_Id = 0, Filenames = [''lost'']\<rparr>"
  obtain res outs' c' where run: "JobWorker_reduceTask lo_worker_std demo_worker [] OutWritten (\<lambda>_. CallOK) ?t
      Map.empty Map.empty demo_coord = (res, outs', c')" by (metis prod_cases3)
  have ko: "key_order (lo_GroupByString lo_worker_std (lo_FlatMap lo_worker_std [] (read_or_empty Map.empty)) Key) []"
    by (simp add: key_order_def lo_worker_std_def dom_group_spec)
  have "r_statusMap (reduceMgr demo_coord) (ReduceTask_Id ?t) \<noteq> None"
    by (simp add: demo_coord_def MakeCoordinator_def mr_simps)
  from reduceTask_drops_unreadable_files [OF lo_worker_std_ok _ _ ko this run, of "''lost''"]
  show ?thesis using run by (simp add: reduceTask_lines_def)
qed

end
