(* ===== verification/MR_Sequential.thy ===== *)
theory MR_Sequential
  imports MR_Worker
begin

text \<open>
  The sequential MapReduce of \<open>main/mrsequential.go\<close>, which the tests use as the reference
  for the distributed one, and the application plugins of \<open>mrapps/\<close>.

  \<open>sort.Sort\<close> is not stable, so the sorted list is any permutation that is sorted by key:
  the program takes the sorting function as an argument and \<open>sorts_by_key\<close> says what is
  known of it. Text is a list of characters; \<open>unicode.IsLetter\<close> is a parameter of the
  plugins that split words.
\<close>

section \<open>main/mrsequential.go\<close>

definition sorts_by_key :: "(KeyValue list \<Rightarrow> KeyValue list) \<Rightarrow> bool" where
  "sorts_by_key srt \<longleftrightarrow> (\<forall>xs. mset (srt xs) = mset xs \<and> sorted (map Key (srt xs)))"

fun seq_map :: "(string \<Rightarrow> string \<Rightarrow> KeyValue list) \<Rightarrow> (string \<rightharpoonup> string) \<Rightarrow> string list \<Rightarrow>
    KeyValue list \<Rightarrow> go_exit + KeyValue list" where
  "seq_map mf input [] intermediate = Inr intermediate"
| "seq_map mf input (filename # fs) intermediate =
     (case input filename of
        None \<Rightarrow> Inl (Fatal ''cannot open'')
      | Some content \<Rightarrow> seq_map mf input fs (intermediate @ mf filename content))"

text \<open>The two nested index loops: one line per maximal run of equal keys.\<close>

function seq_reduce :: "(string \<Rightarrow> string list \<Rightarrow> string) \<Rightarrow> KeyValue list \<Rightarrow> string list" where
  "seq_reduce rf [] = []"
| "seq_reduce rf (kv # kvs) =
     output_line (Key kv) (rf (Key kv) (map Value (kv # takeWhile (\<lambda>x. Key x = Key kv) kvs)))
     # seq_reduce rf (dropWhile (\<lambda>x. Key x = Key kv) kvs)"
  by pat_completeness auto
termination
  by (relation "measure (\<lambda>(rf, kvs). length kvs)") (auto simp: less_Suc_eq_le length_dropWhile_le)

definition mrsequential ::
    "(KeyValue list \<Rightarrow> KeyValue list) \<Rightarrow> (string \<Rightarrow> string \<Rightarrow> KeyValue list) \<Rightarrow> (string \<Rightarrow> string list \<Rightarrow> string) \<Rightarrow>
     (string \<rightharpoonup> string) \<Rightarrow> string list \<Rightarrow> go_exit + string list" where
  "mrsequential srt mf rf input files =
     (if files = [] then Inl (Fatal ''Usage'')
      else and_then (seq_map mf input files []) (\<lambda>intermediate. Inr (seq_reduce rf (srt intermediate))))"

section \<open>mrapps\<close>

definition wc_Map :: "(char \<Rightarrow> bool) \<Rightarrow> string \<Rightarrow> string \<Rightarrow> KeyValue list" where
  "wc_Map isLetter filename contents =
     map (\<lambda>w. \<lparr>Key = w, Value = ''1''\<rparr>) (FieldsFunc contents (\<lambda>r. \<not> isLetter r))"

definition wc_Reduce :: "string \<Rightarrow> string list \<Rightarrow> string" where
  "wc_Reduce key values = Itoa (int (length values))"

text \<open>The words of a document, each once, in the iteration order chosen by \<open>ord\<close>.\<close>

definition indexer_Map :: "(char \<Rightarrow> bool) \<Rightarrow> (string set \<Rightarrow> string list) \<Rightarrow> string \<Rightarrow> string \<Rightarrow> KeyValue list" where
  "indexer_Map isLetter ord document value =
     map (\<lambda>w. \<lparr>Key = w, Value = document\<rparr>) (ord (set (FieldsFunc value (\<lambda>x. \<not> isLetter x))))"

definition indexer_Reduce :: "string \<Rightarrow> string list \<Rightarrow> string" where
  "indexer_Reduce key values =
     (let vs = sort_Strings values in Itoa (int (length vs)) @ '' '' @ Join vs '','')"

text \<open>\<open>maybeCrash\<close> of \<open>crash.go\<close>: \<open>rr\<close> is the random number below 1000; \<open>None\<close> is \<open>os.Exit\<close>.\<close>

definition crash_maybeCrash :: "nat \<Rightarrow> unit option" where
  "crash_maybeCrash rr = (if rr < 330 then None else Some ())"

definition nocrash_Map :: "string \<Rightarrow> string \<Rightarrow> KeyValue list" where
  "nocrash_Map filename contents =
     [\<lparr>Key = ''a'', Value = filename\<rparr>,
      \<lparr>Key = ''b'', Value = Itoa (int (length filename))\<rparr>,
      \<lparr>Key = ''c'', Value = Itoa (int (length contents))\<rparr>,
      \<lparr>Key = ''d'', Value = ''xyzzy''\<rparr>]"

definition nocrash_Reduce :: "string \<Rightarrow> string list \<Rightarrow> string" where
  "nocrash_Reduce key values = Join (sort_Strings values) '' ''"

definition crash_Map :: "nat \<Rightarrow> string \<Rightarrow> string \<Rightarrow> KeyValue list option" where
  "crash_Map rr filename contents = map_option (\<lambda>_.
     [\<lparr>Key = ''a'', Value = filename\<rparr>,
      \<lparr>Key = ''b'', Value = Itoa (int (length filename))\<rparr>,
      \<lparr>Key = ''c'', Value = Itoa (int (length contents))\<rparr>,
      \<lparr>Key = ''d'', Value = ''xyzzy''\<rparr>]) (crash_maybeCrash rr)"

definition crash_Reduce :: "nat \<Rightarrow> string \<Rightarrow> string list \<Rightarrow> string option" where
  "crash_Reduce rr key values =
     map_option (\<lambda>_. Join (sort_Strings values) '' '') (crash_maybeCrash rr)"

definition early_exit_Map :: "string \<Rightarrow> string \<Rightarrow> KeyValue list" where
  "early_exit_Map filename contents = [\<lparr>Key = filename, Value = ''1''\<rparr>]"

definition early_exit_Reduce :: "string \<Rightarrow> string list \<Rightarrow> string" where
  "early_exit_Reduce key values = Itoa (int (length values))"

definition rtiming_Map :: "string \<Rightarrow> string \<Rightarrow> KeyValue list" where
  "rtiming_Map filename contents =
     map (\<lambda>k. \<lparr>Key = k, Value = ''1''\<rparr>) [''a'', ''b'', ''c'', ''d'', ''e'', ''f'', ''g'', ''h'', ''i'', ''j'']"

definition mtiming_Reduce :: "string \<Rightarrow> string list \<Rightarrow> string" where
  "mtiming_Reduce key values = Join (sort_Strings values) '' ''"

section \<open>The sequential program meets the specification\<close>

lemma seq_map_Inr:
  "seq_map mf input files acc = Inr xs \<longleftrightarrow>
     (\<forall>f\<in>set files. input f \<noteq> None) \<and> xs = acc @ concat (map (\<lambda>f. mf f (the (input f))) files)"
  by (induction mf input files acc rule: seq_map.induct) (auto split: option.splits)

lemma seq_reduce_mset:
  assumes "sorted (map Key xs)"
  shows "mset (seq_reduce rf xs) = ref_lines rf xs"
  using assms
proof (induction rf xs rule: seq_reduce.induct)
  case (1 rf)
  show ?case by (simp add: ref_lines_def)
next
  case (2 rf kv kvs)
  let ?same = "takeWhile (\<lambda>x. Key x = Key kv) kvs"
  let ?rest = "dropWhile (\<lambda>x. Key x = Key kv) kvs"
  have split: "kvs = ?same @ ?rest" by simp
  have sorted: "sorted (map Key (?same @ ?rest))" and le: "\<forall>x\<in>set kvs. Key kv \<le> Key x"
    using "2.prems" by auto
  have rest_sorted: "sorted (map Key ?rest)"
    using sorted by (simp only: map_append sorted_append)
  have gt: "Key x \<noteq> Key kv" if "x \<in> set ?rest" for x
  proof -
    from that obtain y ys where r: "?rest = y # ys" by (cases ?rest) auto
    then have "Key y \<noteq> Key kv" using hd_dropWhile [of "\<lambda>x. Key x = Key kv" kvs] by simp
    moreover have "Key kv \<le> Key y"
      using le set_dropWhileD [of y "\<lambda>x. Key x = Key kv" kvs] r by simp
    ultimately have "Key kv < Key y" by simp
    moreover have "Key y \<le> Key x"
      using rest_sorted that r by auto
    ultimately show ?thesis by auto
  qed
  have same: "Key x = Key kv" if "x \<in> set ?same" for x
    using that by (auto dest: set_takeWhileD)
  have filt: "filter P kvs = filter P ?same @ filter P ?rest" for P
    by (metis filter_append split)
  have f1: "filter (\<lambda>x. Key x = Key kv) (kv # kvs) = kv # ?same"
  proof -
    have "filter (\<lambda>x. Key x = Key kv) ?same = ?same"
      by (intro filter_True ballI) (rule same)
    moreover have "filter (\<lambda>x. Key x = Key kv) ?rest = []"
      by (intro filter_False ballI) (rule gt)
    ultimately show ?thesis by (simp only: filter.simps filt simp_thms if_True append_Nil2)
  qed
  have f2: "filter (\<lambda>x. Key x = k) (kv # kvs) = filter (\<lambda>x. Key x = k) ?rest" if "k \<in> Key ` set ?rest" for k
  proof -
    have ne: "k \<noteq> Key kv" using that gt by (metis imageE)
    then have "filter (\<lambda>x. Key x = k) ?same = []"
      using same by (intro filter_False ballI) metis
    with ne show ?thesis by (simp only: filter.simps filt simp_thms if_False append_Nil not_sym [OF ne])
  qed
  have keys: "Key ` set (kv # kvs) = insert (Key kv) (Key ` set ?rest)"
  proof -
    have "set kvs = set ?same \<union> set ?rest" by (metis split set_append)
    moreover have "Key ` set ?same \<subseteq> {Key kv}" by (intro image_subsetI, drule same, simp)
    ultimately show ?thesis by auto
  qed
  have "ref_lines rf (kv # kvs) =
     add_mset (output_line (Key kv) (rf (Key kv) (map Value (kv # ?same)))) (ref_lines rf ?rest)"
    unfolding ref_lines_def keys
  proof (subst mset_set.insert)
    show "finite (Key ` set ?rest)" by simp
    show "Key kv \<notin> Key ` set ?rest" using gt by (metis imageE)
    show "image_mset (\<lambda>k. output_line k (rf k (map Value (filter (\<lambda>x. Key x = k) (kv # kvs)))))
        (add_mset (Key kv) (mset_set (Key ` set ?rest))) =
      add_mset (output_line (Key kv) (rf (Key kv) (map Value (kv # ?same))))
        (image_mset (\<lambda>k. output_line k (rf k (map Value (filter (\<lambda>x. Key x = k) ?rest)))) (mset_set (Key ` set ?rest)))"
      unfolding image_mset_add_mset f1
      by (intro arg_cong [where f = "add_mset _"] image_mset_cong) (simp only: f2 finite_set_mset_mset_set finite_imageI List.finite_set)
  qed
  then show ?case using "2.IH" rest_sorted by simp
qed

lemma mrsequential_spec:
  assumes srt: "sorts_by_key srt" and "order_insensitive rf"
    and run: "mrsequential srt mf rf input files = Inr lines"
  shows "\<forall>f\<in>set files. input f \<noteq> None"
    and "mset lines = ref_lines rf (concat (map (\<lambda>f. mf f (the (input f))) files))"
proof -
  from run obtain xs where xs: "seq_map mf input files [] = Inr xs" and l: "lines = seq_reduce rf (srt xs)"
    by (auto simp: mrsequential_def and_then_eq_Inr split: if_splits)
  from xs show "\<forall>f\<in>set files. input f \<noteq> None" by (simp add: seq_map_Inr)
  from xs have "xs = concat (map (\<lambda>f. mf f (the (input f))) files)" by (simp add: seq_map_Inr)
  moreover have "mset lines = ref_lines rf (srt xs)"
    using srt unfolding l by (intro seq_reduce_mset) (simp add: sorts_by_key_def)
  moreover have "ref_lines rf (srt xs) = ref_lines rf xs"
    using srt by (intro ref_lines_cong assms(2)) (simp add: sorts_by_key_def)
  ultimately show "mset lines = ref_lines rf (concat (map (\<lambda>f. mf f (the (input f))) files))" by simp
qed

section \<open>The plugins' reduce functions ignore the order of values\<close>

lemma order_insensitive_plugins:
  "order_insensitive wc_Reduce" "order_insensitive indexer_Reduce" "order_insensitive nocrash_Reduce"
  "order_insensitive early_exit_Reduce" "order_insensitive mtiming_Reduce"
  by (auto simp: order_insensitive_def wc_Reduce_def indexer_Reduce_def nocrash_Reduce_def
      early_exit_Reduce_def mtiming_Reduce_def dest: mset_eq_length cong: sort_Strings_cong)

section \<open>Properties of the sequential program\<close>

text \<open>
  The sequential program either stops with a fatal error, which happens exactly when it is
  given no file or one of the files cannot be read, or prints for every key the map function
  emitted exactly one line, computed from all values of that key.
\<close>

theorem mrsequential_total:
  assumes "sorts_by_key srt" and "order_insensitive rf"
  shows "((\<exists>e. mrsequential srt mf rf input files = Inl e) \<longleftrightarrow> files = [] \<or> (\<exists>f\<in>set files. input f = None)) \<and>
    (\<forall>lines. mrsequential srt mf rf input files = Inr lines \<longrightarrow>
       mset lines = ref_lines rf (concat (map (\<lambda>f. mf f (the (input f))) files)))"
proof -
  have "(\<exists>xs. seq_map mf input files acc = Inr xs) \<longleftrightarrow> (\<forall>f\<in>set files. input f \<noteq> None)" for acc
    by (auto simp: seq_map_Inr)
  then have "(\<exists>lines. mrsequential srt mf rf input files = Inr lines) \<longleftrightarrow> files \<noteq> [] \<and> (\<forall>f\<in>set files. input f \<noteq> None)"
    by (auto simp: mrsequential_def and_then_eq_Inr)
  moreover have "(\<exists>e. r = Inl e) \<longleftrightarrow> \<not> (\<exists>x. r = Inr x)" for r :: "go_exit + string list"
    by (cases r) auto
  ultimately show ?thesis using mrsequential_spec(2) [OF assms] by auto
qed

theorem mrsequential_total_witness:
  "mrsequential (sort_key Key) nocrash_Map nocrash_Reduce [''f'' \<mapsto> ''x''] [''f'', ''missing''] \<in> range Inl"
proof -
  have "sorts_by_key (sort_key Key)" by (simp add: sorts_by_key_def)
  from mrsequential_total [OF this order_insensitive_plugins(3), of nocrash_Map "[''f'' \<mapsto> ''x'']" "[''f'', ''missing'']"]
  show ?thesis by auto
qed

text \<open>
  Word count counts words: for every word that occurs in the input files, \<open>mrsequential\<close>
  with the \<open>wc\<close> plugin prints one line with the number of its occurrences.
\<close>

theorem wc_counts_words:
  assumes "sorts_by_key srt" and "mrsequential srt (wc_Map isLetter) wc_Reduce input files = Inr lines"
  shows "mset lines =
    (let ws = concat (map (\<lambda>f. FieldsFunc (the (input f)) (\<lambda>r. \<not> isLetter r)) files)
     in image_mset (\<lambda>w. output_line w (Itoa (int (count (mset ws) w)))) (mset_set (set ws)))"
proof -
  let ?ws = "concat (map (\<lambda>f. FieldsFunc (the (input f)) (\<lambda>r. \<not> isLetter r)) files)"
  have kvs: "concat (map (\<lambda>f. wc_Map isLetter f (the (input f))) files) = map (\<lambda>w. \<lparr>Key = w, Value = ''1''\<rparr>) ?ws"
    by (simp add: wc_Map_def map_concat comp_def)
  have "wc_Reduce w (map Value (filter (\<lambda>kv. Key kv = w) (map (\<lambda>w. \<lparr>Key = w, Value = ''1''\<rparr>) xs))) =
      Itoa (int (count (mset xs) w))" for w xs
    by (simp add: wc_Reduce_def filter_map comp_def count_mset count_list_eq_length_filter) (metis (mono_tags, lifting) filter_cong)
  then show ?thesis
    using mrsequential_spec(2) [OF assms(1) order_insensitive_plugins(1) assms(2)] kvs
    by (simp add: ref_lines_def Let_def image_image)
qed

theorem wc_counts_words_witness:
  "\<exists>lines. mrsequential (sort_key Key) (wc_Map (\<lambda>c. c \<noteq> CHR '' '')) wc_Reduce [''f'' \<mapsto> ''to be to''] [''f''] = Inr lines \<and>
     mset lines = {#output_line ''be'' ''1'', output_line ''to'' ''2''#}"
proof -
  have srt: "sorts_by_key (sort_key Key)" by (simp add: sorts_by_key_def)
  have run: "mrsequential (sort_key Key) (wc_Map (\<lambda>c. c \<noteq> CHR '' '')) wc_Reduce [''f'' \<mapsto> ''to be to''] [''f''] =
      Inr [output_line ''be'' ''1'', output_line ''to'' ''2'']" by code_simp
  have ws: "FieldsFunc ''to be to'' (\<lambda>r. \<not> r \<noteq> CHR '' '') = [''to'', ''be'', ''to'']" by code_simp
  have "Itoa 1 = ''1''" "Itoa 2 = ''2''" by code_simp+
  with wc_counts_words [OF srt run] run ws show ?thesis by (simp add: insert_commute)
qed

end
