(* ===== verification/MR_System.thy ===== *)
theory MR_System
  imports MR_Sequential
begin

text \<open>
  A whole MapReduce job: one coordinator, any number of workers, and the files they share, as
  a step relation. Workers crash by taking no further step; a request can be delivered late,
  never, or several times (the sets of reports only grow), as it is when \<open>call\<close> is retried
  or a worker is slow. The steps are the functions of the other theories:

  \<^item> \<open>register\<close>, \<open>assign\<close>, \<open>map_report\<close>, \<open>reduce_report\<close>: the coordinator's handlers;
  \<^item> \<open>map_run\<close>: the body of \<open>JobWorker.mapTask\<close> before its report, for any task that was ever
    handed out, with every outcome of the file operations;
  \<^item> \<open>reduce_create\<close> and \<open>reduce_write\<close>: \<open>JobWorker.reduceTask\<close> truncates its output file
    (\<open>os.Create\<close>) and later writes it; between the two other steps can happen.

  The main result is that the output of a finished job has the lines of the sequential program.
\<close>

record mr_job =
  j_files :: "string list"
  j_nReduce :: int
  j_input :: "string \<rightharpoonup> string"
  j_worker :: JobWorker
  j_W :: lo_worker
  j_Lm :: "(string, MapTask) lo_lib"
  j_Lr :: "(int, ReduceTask) lo_lib"

record mr_sys =
  s_coord :: Coordinator
  s_kv :: kvfs
  s_out :: "string \<rightharpoonup> string"
  s_maps :: "MapTask set"
  s_reduces :: "ReduceTask set"
  s_map_reports :: "ReportMapTaskRequest set"
  s_reduce_reports :: "ReportReduceTaskRequest set"
  s_writers :: "(ReduceTask \<times> string) multiset"

definition mr_init :: "mr_job \<Rightarrow> kvfs \<Rightarrow> mr_sys" where
  "mr_init J kv0 =
     \<lparr>s_coord = MakeCoordinator (j_files J) (j_nReduce J), s_kv = kv0, s_out = Map.empty,
      s_maps = {}, s_reduces = {}, s_map_reports = {}, s_reduce_reports = {}, s_writers = {#}\<rparr>"

inductive mr_step :: "mr_job \<Rightarrow> mr_sys \<Rightarrow> mr_sys \<Rightarrow> bool" for J where
  register:
    "mr_step J s (s\<lparr>s_coord := snd (Coordinator_Register (s_coord s))\<rparr>)"
| assign:
    "Coordinator_AssignTask (j_Lm J) (j_Lr J) t1 t2 (s_coord s) = (resp, c') \<Longrightarrow>
     mr_step J s (s\<lparr>s_coord := c', s_maps := s_maps s \<union> set_option (resp_MapTask resp),
                    s_reduces := s_reduces s \<union> set_option (resp_ReduceTask resp)\<rparr>)"
| map_fail:
    "t \<in> s_maps s \<Longrightarrow>
     mapTask_files (j_W J) (j_worker J) (j_input J) ks tmps t (s_kv s) = (Inl e, kv') \<Longrightarrow>
     mr_step J s (s\<lparr>s_kv := kv'\<rparr>)"
| map_run:
    "t \<in> s_maps s \<Longrightarrow>
     (\<And>content. j_input J (MapTask_Id t) = Some content \<Longrightarrow>
        key_order (lo_GroupByInt (j_W J) (mapf (j_worker J) (MapTask_Id t) content) (partition_of (NReduce t))) ks) \<Longrightarrow>
     mapTask_files (j_W J) (j_worker J) (j_input J) ks tmps t (s_kv s) = (Inr m, kv') \<Longrightarrow>
     mr_step J s (s\<lparr>s_kv := kv',
        s_map_reports := insert \<lparr>rmt_WorkerID = wid, rmt_MapTask = t, ReduceTaskMap = m\<rparr> (s_map_reports s)\<rparr>)"
| map_report:
    "req \<in> s_map_reports s \<Longrightarrow> key_order (ReduceTaskMap req) ks \<Longrightarrow>
     mr_step J s (s\<lparr>s_coord := Coordinator_ReportMapTask ks req (s_coord s)\<rparr>)"
| reduce_create:
    "t \<in> s_reduces s \<Longrightarrow>
     key_order (lo_GroupByString (j_W J) (lo_FlatMap (j_W J) (Filenames t) (read_or_empty (s_kv s))) Key) ks \<Longrightarrow>
     mr_step J s (s\<lparr>s_out := (s_out s)(out_name (ReduceTask_Id t) \<mapsto> []),
        s_writers := add_mset (t, concat (reduceTask_lines (j_W J) (j_worker J) ks t (s_kv s))) (s_writers s)\<rparr>)"
| reduce_write:
    "(t, content) \<in># s_writers s \<Longrightarrow> s_out s (out_name (ReduceTask_Id t)) = Some old \<Longrightarrow>
     mr_step J s (s\<lparr>s_out := (s_out s)(out_name (ReduceTask_Id t) \<mapsto> overlay content old),
        s_writers := s_writers s - {#(t, content)#},
        s_reduce_reports := insert \<lparr>rrt_WorkerID = wid, rrt_ReduceTask = t,
            rrt_Filename = out_name (ReduceTask_Id t)\<rparr> (s_reduce_reports s)\<rparr>)"
| reduce_report:
    "req \<in> s_reduce_reports s \<Longrightarrow>
     mr_step J s (s\<lparr>s_coord := Coordinator_ReportReduceTask req (s_coord s)\<rparr>)"

inductive mr_reach :: "mr_job \<Rightarrow> kvfs \<Rightarrow> mr_sys \<Rightarrow> bool" for J kv0 where
  start: "mr_reach J kv0 (mr_init J kv0)"
| step: "mr_reach J kv0 s \<Longrightarrow> mr_step J s t \<Longrightarrow> mr_reach J kv0 t"

section \<open>The invariant\<close>

definition job_ok :: "mr_job \<Rightarrow> bool" where
  "job_ok J \<longleftrightarrow> distinct (j_files J) \<and> 0 < j_nReduce J \<and> lo_worker_ok (j_W J) \<and> lo_ok (j_Lm J) \<and> lo_ok (j_Lr J) \<and>
     order_insensitive (reducef (j_worker J))"

definition kvs_of :: "mr_job \<Rightarrow> string \<Rightarrow> KeyValue list" where
  "kvs_of J f = mapf (j_worker J) f (the (j_input J f))"

definition part :: "mr_job \<Rightarrow> int \<Rightarrow> KeyValue list \<Rightarrow> KeyValue list" where
  "part J i xs = filter (\<lambda>kv. partition_of (j_nReduce J) kv = i) xs"

definition good_report :: "mr_job \<Rightarrow> kvfs \<Rightarrow> ReportMapTaskRequest \<Rightarrow> bool" where
  "good_report J kv req \<longleftrightarrow>
     (\<exists>f\<in>set (j_files J). rmt_MapTask req = \<lparr>MapTask_Id = f, NReduce = j_nReduce J\<rparr> \<and> j_input J f \<noteq> None \<and>
       (\<forall>i. ReduceTaskMap req i = None \<longleftrightarrow> part J i (kvs_of J f) = []) \<and>
       (\<forall>i g. ReduceTaskMap req i = Some g \<longrightarrow> kv g = Some (map Enc (part J i (kvs_of J f)))))"

definition gathers :: "mr_job \<Rightarrow> kvfs \<Rightarrow> int \<Rightarrow> string list \<Rightarrow> string list \<Rightarrow> bool" where
  "gathers J kv i ds Fs \<longleftrightarrow> (\<forall>g\<in>set Fs. kv g \<noteq> None) \<and>
     concat (map (read_or_empty kv) Fs) = part J i (concat (map (kvs_of J) ds))"

definition valid_output :: "mr_job \<Rightarrow> int \<Rightarrow> string \<Rightarrow> bool" where
  "valid_output J i c \<longleftrightarrow> (\<exists>ls. c = concat ls \<and>
     mset ls = ref_lines (reducef (j_worker J)) (part J i (concat (map (kvs_of J) (j_files J)))))"

definition completed :: "mr_sys \<Rightarrow> string set" where
  "completed s = {f. m_statusMap (mapManager (s_coord s)) f = Some TaskCompleted}"

definition inv_tables :: "mr_job \<Rightarrow> mr_sys \<Rightarrow> bool" where
  "inv_tables J s \<longleftrightarrow> coord_inv (s_coord s) \<and>
     (\<forall>f. m_tasks (mapManager (s_coord s)) f =
        (if f \<in> set (j_files J) then Some \<lparr>MapTask_Id = f, NReduce = j_nReduce J\<rparr> else None)) \<and>
     dom (r_tasks (reduceMgr (s_coord s))) = {0..<j_nReduce J} \<and>
     s_maps s \<subseteq> (\<lambda>f. \<lparr>MapTask_Id = f, NReduce = j_nReduce J\<rparr>) ` set (j_files J)"

definition inv_files :: "mr_job \<Rightarrow> mr_sys \<Rightarrow> bool" where
  "inv_files J s \<longleftrightarrow> (\<forall>req\<in>s_map_reports s. good_report J (s_kv s) req) \<and>
     (\<exists>ds. distinct ds \<and> set ds = completed s \<and> (\<forall>f\<in>set ds. j_input J f \<noteq> None) \<and>
        (\<forall>i rt. r_tasks (reduceMgr (s_coord s)) i = Some rt \<longrightarrow> gathers J (s_kv s) i ds (Filenames rt)))"

definition inv_frozen :: "mr_job \<Rightarrow> mr_sys \<Rightarrow> bool" where
  "inv_frozen J s \<longleftrightarrow> (\<forall>rt\<in>s_reduces s. set (j_files J) \<subseteq> completed s \<and>
     r_tasks (reduceMgr (s_coord s)) (ReduceTask_Id rt) = Some rt)"

definition inv_outputs :: "mr_job \<Rightarrow> mr_sys \<Rightarrow> bool" where
  "inv_outputs J s \<longleftrightarrow>
     (\<forall>w\<in>#s_writers s. fst w \<in> s_reduces s \<and> valid_output J (ReduceTask_Id (fst w)) (snd w) \<and>
        s_out s (out_name (ReduceTask_Id (fst w))) \<noteq> None) \<and>
     (\<forall>i c. s_out s (out_name i) = Some c \<longrightarrow>
        valid_output J i c \<or> (c = [] \<and> (\<exists>w\<in>#s_writers s. ReduceTask_Id (fst w) = i))) \<and>
     (\<forall>req\<in>s_reduce_reports s. s_out s (out_name (ReduceTask_Id (rrt_ReduceTask req))) \<noteq> None) \<and>
     (\<forall>i. r_statusMap (reduceMgr (s_coord s)) i = Some TaskCompleted \<longrightarrow> s_out s (out_name i) \<noteq> None)"

definition mr_inv :: "mr_job \<Rightarrow> mr_sys \<Rightarrow> bool" where
  "mr_inv J s \<longleftrightarrow> inv_tables J s \<and> inv_files J s \<and> inv_frozen J s \<and> inv_outputs J s"

section \<open>Helper facts\<close>

lemma out_name_inj [simp]: "out_name i = out_name j \<longleftrightarrow> i = j"
  by (simp add: out_name_def Itoa_inj)

lemma good_report_mono: "good_report J kv req \<Longrightarrow> kv \<subseteq>\<^sub>m kv' \<Longrightarrow> good_report J kv' req"
  unfolding good_report_def map_le_def by (metis domI)

lemma read_or_empty_mono: "kv g \<noteq> None \<Longrightarrow> kv \<subseteq>\<^sub>m kv' \<Longrightarrow> read_or_empty kv' g = read_or_empty kv g"
  by (auto simp: read_or_empty_def ReadKeyValues_def map_le_def dom_def)

lemma gathers_mono:
  assumes "gathers J kv i ds Fs" and "kv \<subseteq>\<^sub>m kv'"
  shows "gathers J kv' i ds Fs"
proof -
  have "map (read_or_empty kv') Fs = map (read_or_empty kv) Fs"
    using assms by (auto simp: gathers_def read_or_empty_mono)
  then have "concat (map (read_or_empty kv') Fs) = concat (map (read_or_empty kv) Fs)"
    by (rule arg_cong)
  moreover have "\<forall>g\<in>set Fs. kv' g \<noteq> None"
    using assms unfolding gathers_def map_le_def by (metis domIff)
  ultimately show ?thesis using assms(1) by (simp only: gathers_def simp_thms)
qed

lemma gathers_add:
  assumes "gathers J kv i ds Fs" and "kv g = Some (map Enc (part J i (kvs_of J f)))"
  shows "gathers J kv i (ds @ [f]) (Fs @ [g])"
  using assms by (auto simp: gathers_def part_def read_or_empty_def ReadKeyValues_def)

lemma gathers_skip:
  assumes "gathers J kv i ds Fs" and "part J i (kvs_of J f) = []"
  shows "gathers J kv i (ds @ [f]) Fs"
  using assms by (auto simp: gathers_def part_def)

lemma valid_output_length:
  assumes "valid_output J i c" and "valid_output J i c'"
  shows "length c = length c'"
proof -
  have "length (concat ls) = length (concat ls')" if "mset ls = mset ls'" for ls ls' :: "string list"
    using mset_concat_perm [OF that, of "\<lambda>x. x"] by (metis list.map_ident mset_eq_length)
  then show ?thesis using assms unfolding valid_output_def by metis
qed

lemma overlay_valid:
  assumes "valid_output J i c" and "valid_output J i old \<or> old = []"
  shows "overlay c old = c"
  using assms valid_output_length [of J i c old] by (auto simp: overlay_def)

lemma part_concat_perm:
  "mset fs = mset gs \<Longrightarrow> mset (part J i (concat (map (kvs_of J) fs))) = mset (part J i (concat (map (kvs_of J) gs)))"
  unfolding part_def mset_filter by (intro arg_cong [where f = "filter_mset _"] mset_concat_perm)

lemma completed_files:
  assumes "inv_tables J s"
  shows "completed s \<subseteq> set (j_files J)"
proof -
  have "dom (m_statusMap (mapManager (s_coord s))) = dom (m_tasks (mapManager (s_coord s)))"
    using assms by (auto simp: inv_tables_def coord_inv_def map_inv_def)
  moreover have "dom (m_tasks (mapManager (s_coord s))) = set (j_files J)"
    using assms by (auto simp: inv_tables_def split: if_splits)
  ultimately show ?thesis by (auto simp: completed_def)
qed

text \<open>A reduce task that was handed out reads every pair of its partition, once.\<close>

lemma reduce_content_valid:
  assumes J: "job_ok J" and inv: "mr_inv J s" and t: "t \<in> s_reduces s"
    and ks: "key_order (lo_GroupByString (j_W J) (lo_FlatMap (j_W J) (Filenames t) (read_or_empty (s_kv s))) Key) ks"
  shows "valid_output J (ReduceTask_Id t) (concat (reduceTask_lines (j_W J) (j_worker J) ks t (s_kv s)))"
proof -
  let ?i = "ReduceTask_Id t"
  from inv t have full: "set (j_files J) \<subseteq> completed s"
    and tk: "r_tasks (reduceMgr (s_coord s)) ?i = Some t"
    by (auto simp: mr_inv_def inv_frozen_def)
  from inv obtain ds where ds: "distinct ds" "set ds = completed s" "gathers J (s_kv s) ?i ds (Filenames t)"
    using tk by (auto simp: mr_inv_def inv_files_def)
  have "set ds = set (j_files J)"
    using ds(2) full completed_files [of J s] inv by (auto simp: mr_inv_def)
  then have "mset ds = mset (j_files J)"
    using ds(1) J by (simp add: job_ok_def set_eq_iff_mset_eq_distinct [symmetric])
  then have perm: "mset (part J ?i (concat (map (kvs_of J) ds))) = mset (part J ?i (concat (map (kvs_of J) (j_files J))))"
    by (rule part_concat_perm)
  have "mset (reduceTask_lines (j_W J) (j_worker J) ks t (s_kv s)) =
      ref_lines (reducef (j_worker J)) (part J ?i (concat (map (kvs_of J) ds)))"
    using reduceTask_lines_mset [OF _ ks] J ds(3) by (simp add: job_ok_def gathers_def)
  also have "\<dots> = ref_lines (reducef (j_worker J)) (part J ?i (concat (map (kvs_of J) (j_files J))))"
    using J perm by (intro ref_lines_cong) (simp_all add: job_ok_def)
  finally show ?thesis unfolding valid_output_def by blast
qed

section \<open>Every step keeps the invariant\<close>

lemma mr_inv_init: "job_ok J \<Longrightarrow> mr_inv J (mr_init J kv0)"
proof -
  assume "job_ok J"
  let ?s = "mr_init J kv0"
  have d: "dom (r_tasks (NewReduceTaskManager (j_nReduce J))) = {0..<j_nReduce J}"
    by (auto simp: mr_simps dom_def split: if_splits)
  have "completed ?s = {}"
    by (auto simp: completed_def mr_init_def MakeCoordinator_def mr_simps split: if_splits)
  moreover have "gathers J kv0 i [] (Filenames rt)" if "r_tasks (NewReduceTaskManager (j_nReduce J)) i = Some rt" for i rt
    using that by (auto simp: gathers_def part_def mr_simps split: if_splits)
  ultimately have "inv_files J ?s"
    unfolding inv_files_def by (intro conjI exI [of _ "[]"]) (auto simp: mr_init_def MakeCoordinator_def)
  moreover have "inv_tables J ?s"
    using d coord_inv_Make [of "j_files J" "j_nReduce J"]
    by (auto simp: inv_tables_def mr_init_def MakeCoordinator_def mr_simps)
  moreover have "inv_frozen J ?s" "inv_outputs J ?s"
    by (auto simp: inv_frozen_def inv_outputs_def mr_init_def MakeCoordinator_def mr_simps split: if_splits)
  ultimately show ?thesis by (simp add: mr_inv_def)
qed

lemma mr_inv_coord_frame:
  assumes inv: "mr_inv J s" and ci: "coord_inv c'"
    and m: "m_tasks (mapManager c') = m_tasks (mapManager (s_coord s))"
    and st: "\<And>f. m_statusMap (mapManager c') f = Some TaskCompleted \<longleftrightarrow> m_statusMap (mapManager (s_coord s)) f = Some TaskCompleted"
    and r: "r_tasks (reduceMgr c') = r_tasks (reduceMgr (s_coord s))"
    and rst: "\<And>i. r_statusMap (reduceMgr c') i = Some TaskCompleted \<Longrightarrow>
        r_statusMap (reduceMgr (s_coord s)) i = Some TaskCompleted \<or> s_out s (out_name i) \<noteq> None"
  shows "mr_inv J (s\<lparr>s_coord := c'\<rparr>)"
proof -
  have "completed (s\<lparr>s_coord := c'\<rparr>) = completed s"
    by (simp add: completed_def st)
  moreover have "\<forall>i. r_statusMap (reduceMgr c') i = Some TaskCompleted \<longrightarrow> s_out s (out_name i) \<noteq> None"
    using rst inv unfolding mr_inv_def inv_outputs_def by blast
  ultimately show ?thesis
    using inv ci m r
    by (auto simp: mr_inv_def inv_tables_def inv_files_def inv_frozen_def inv_outputs_def)
qed

lemma mr_inv_register:
  "mr_inv J s \<Longrightarrow> mr_inv J (s\<lparr>s_coord := snd (Coordinator_Register (s_coord s))\<rparr>)"
  by (rule mr_inv_coord_frame)
    (auto simp: Coordinator_Register_def mr_inv_def inv_tables_def coord_inv_def)

lemma mr_inv_assign:
  assumes J: "job_ok J" and inv: "mr_inv J s"
    and run: "Coordinator_AssignTask (j_Lm J) (j_Lr J) t1 t2 (s_coord s) = (resp, c')"
  shows "mr_inv J (s\<lparr>s_coord := c', s_maps := s_maps s \<union> set_option (resp_MapTask resp),
                    s_reduces := s_reduces s \<union> set_option (resp_ReduceTask resp)\<rparr>)"
proof -
  let ?c = "s_coord s"
  have ci: "coord_inv ?c" using inv by (simp add: mr_inv_def inv_tables_def)
  have mi: "map_inv (mapManager ?c)" and ri: "reduce_inv (reduceMgr ?c)"
    using ci by (auto simp: coord_inv_def)
  have lib: "lo_ok (j_Lm J)" "lo_ok (j_Lr J)" using J by (auto simp: job_ok_def)
  have ci': "coord_inv c'" using coord_inv_AssignTask [OF ci, of "j_Lm J" "j_Lr J" t1 t2] run by simp
  have base: "mr_inv J (s\<lparr>s_coord := c'\<rparr>)"
  proof (rule mr_inv_coord_frame [OF inv ci'])
  qed (use run in \<open>auto simp: Coordinator_AssignTask_def mapm.task_assign redm.task_assign
        mapm.status_assign redm.status_assign split: option.splits if_splits\<close>)
  have maps: "set_option (resp_MapTask resp) \<subseteq> (\<lambda>f. \<lparr>MapTask_Id = f, NReduce = j_nReduce J\<rparr>) ` set (j_files J)"
  proof
    fix t assume "t \<in> set_option (resp_MapTask resp)"
    then have "MapTaskManager_GetPendingTask (j_Lm J) t1 (mapManager ?c) = Some t"
      using AssignTask_map(1) [OF run] by (simp add: elem_set)
    from mapm.pending_Some [OF mi lib(1) this]
    have "m_tasks (mapManager ?c) (MapTask_Id t) = Some t" by simp
    with inv have "MapTask_Id t \<in> set (j_files J)" "t = \<lparr>MapTask_Id = MapTask_Id t, NReduce = j_nReduce J\<rparr>"
      by (auto simp: mr_inv_def inv_tables_def split: if_splits)
    then show "t \<in> (\<lambda>f. \<lparr>MapTask_Id = f, NReduce = j_nReduce J\<rparr>) ` set (j_files J)"
      by (rule rev_image_eqI)
  qed
  have reds: "set (j_files J) \<subseteq> completed (s\<lparr>s_coord := c'\<rparr>) \<and> r_tasks (reduceMgr c') (ReduceTask_Id rt) = Some rt"
    if "rt \<in> set_option (resp_ReduceTask resp)" for rt
  proof -
    from that have rt: "resp_ReduceTask resp = Some rt" by (simp add: elem_set)
    note as = AssignTask_reduce [OF run rt]
    have "m_statusMap (mapManager ?c) f = Some TaskCompleted" if "f \<in> set (j_files J)" for f
    proof -
      have "f \<in> dom (m_statusMap (mapManager ?c))"
        using that inv mi map_invD(2) [OF mi] by (auto simp: mr_inv_def inv_tables_def)
      then show ?thesis using as(2) mapm.all_done_iff [OF mi lib(1)] by auto
    qed
    moreover have "r_tasks (reduceMgr ?c) (ReduceTask_Id rt) = Some rt"
      using redm.pending_Some [OF ri lib(2) as(1)] by simp
    ultimately show ?thesis
      unfolding as(4) by (auto simp: completed_def redm.task_assign)
  qed
  from base maps reds show ?thesis
    unfolding mr_inv_def inv_tables_def inv_files_def inv_frozen_def inv_outputs_def completed_def
    by (intro conjI) (auto simp: completed_def)
qed

lemma mr_inv_files_grow:
  assumes inv: "mr_inv J s" and kv: "s_kv s \<subseteq>\<^sub>m kv'"
  shows "mr_inv J (s\<lparr>s_kv := kv'\<rparr>)"
proof -
  have "inv_files J (s\<lparr>s_kv := kv'\<rparr>)"
    using inv good_report_mono [OF _ kv] gathers_mono [OF _ kv]
    unfolding mr_inv_def inv_files_def completed_def by auto
  then show ?thesis
    using inv by (simp add: mr_inv_def inv_tables_def inv_frozen_def inv_outputs_def completed_def)
qed

lemma mr_inv_map_run:
  assumes J: "job_ok J" and inv: "mr_inv J s" and t: "t \<in> s_maps s"
    and ks: "\<And>content. j_input J (MapTask_Id t) = Some content \<Longrightarrow>
        key_order (lo_GroupByInt (j_W J) (mapf (j_worker J) (MapTask_Id t) content) (partition_of (NReduce t))) ks"
    and run: "mapTask_files (j_W J) (j_worker J) (j_input J) ks tmps t (s_kv s) = (Inr m, kv')"
  shows "mr_inv J (s\<lparr>s_kv := kv',
        s_map_reports := insert \<lparr>rmt_WorkerID = wid, rmt_MapTask = t, ReduceTaskMap = m\<rparr> (s_map_reports s)\<rparr>)"
proof -
  have W: "lo_worker_ok (j_W J)" using J by (simp add: job_ok_def)
  obtain f where f: "f \<in> set (j_files J)" "t = \<lparr>MapTask_Id = f, NReduce = j_nReduce J\<rparr>"
    using inv t by (auto simp: mr_inv_def inv_tables_def)
  obtain content where c: "j_input J (MapTask_Id t) = Some content"
    and none: "\<And>i. m i = None \<longleftrightarrow> filter (\<lambda>kv. partition_of (NReduce t) kv = i) (mapf (j_worker J) (MapTask_Id t) content) = []"
    and some: "\<And>i g. m i = Some g \<Longrightarrow> s_kv s g = None \<and>
        kv' g = Some (map Enc (filter (\<lambda>kv. partition_of (NReduce t) kv = i) (mapf (j_worker J) (MapTask_Id t) content)))"
    and mono: "s_kv s \<subseteq>\<^sub>m kv'"
    using mapTask_files_ok [OF W run ks] by blast
  have "good_report J kv' \<lparr>rmt_WorkerID = wid, rmt_MapTask = t, ReduceTaskMap = m\<rparr>"
    unfolding good_report_def using f c none some by (auto simp: part_def kvs_of_def)
  then show ?thesis
    using mr_inv_files_grow [OF inv mono]
    by (simp add: mr_inv_def inv_tables_def inv_files_def inv_frozen_def inv_outputs_def completed_def)
qed

lemma mr_inv_map_report:
  assumes J: "job_ok J" and inv: "mr_inv J s" and req: "req \<in> s_map_reports s"
    and ks: "key_order (ReduceTaskMap req) ks"
  shows "mr_inv J (s\<lparr>s_coord := Coordinator_ReportMapTask ks req (s_coord s)\<rparr>)"
proof (cases "m_statusMap (mapManager (s_coord s)) (MapTask_Id (rmt_MapTask req)) = Some TaskCompleted")
  case True
  then show ?thesis using inv by (simp add: ReportMapTask_ignored)
next
  case False
  let ?c = "s_coord s" and ?c' = "Coordinator_ReportMapTask ks req (s_coord s)"
  let ?s' = "s\<lparr>s_coord := ?c'\<rparr>"
  from inv req have "good_report J (s_kv s) req" by (auto simp: mr_inv_def inv_files_def)
  then obtain f where f: "f \<in> set (j_files J)" "rmt_MapTask req = \<lparr>MapTask_Id = f, NReduce = j_nReduce J\<rparr>" "j_input J f \<noteq> None"
    and none: "\<And>i. ReduceTaskMap req i = None \<longleftrightarrow> part J i (kvs_of J f) = []"
    and some: "\<And>i g. ReduceTaskMap req i = Some g \<Longrightarrow> s_kv s g = Some (map Enc (part J i (kvs_of J f)))"
    by (auto simp: good_report_def)
  have mi: "map_inv (mapManager ?c)" using inv by (simp add: mr_inv_def inv_tables_def coord_inv_def)
  have known: "m_statusMap (mapManager ?c) f \<noteq> None"
    using f(1) inv map_invD(2) [OF mi] by (auto simp: mr_inv_def inv_tables_def domIff [symmetric])
  have notdone: "f \<notin> completed s" using False f(2) by (simp add: completed_def)
  have no_reduces: "s_reduces s = {}"
    using inv notdone f(1) by (auto simp: mr_inv_def inv_frozen_def)
  have comp: "completed ?s' = insert f (completed s)"
    using False f(2) known by (auto simp: completed_def Coordinator_ReportMapTask_def mapm.status_complete)
  have tasks: "r_tasks (reduceMgr ?c') i = (if i \<in> dom (ReduceTaskMap req)
      then map_option (\<lambda>t. t\<lparr>Filenames := Filenames t @ [the (ReduceTaskMap req i)]\<rparr>) (r_tasks (reduceMgr ?c) i)
      else r_tasks (reduceMgr ?c) i)" for i
    using False key_orderD [OF ks] by (simp add: Coordinator_ReportMapTask_def AddFiles_tasks)
  obtain ds where ds: "distinct ds" "set ds = completed s" "\<forall>f\<in>set ds. j_input J f \<noteq> None"
    "\<And>i rt. r_tasks (reduceMgr ?c) i = Some rt \<Longrightarrow> gathers J (s_kv s) i ds (Filenames rt)"
    using inv by (auto simp: mr_inv_def inv_files_def)
  have "gathers J (s_kv s) i (ds @ [f]) (Filenames rt)" if rt: "r_tasks (reduceMgr ?c') i = Some rt" for i rt
  proof (cases "ReduceTaskMap req i")
    case None
    then have "r_tasks (reduceMgr ?c) i = Some rt" using rt tasks [of i] by (simp add: domIff)
    then show ?thesis using None none [of i] by (intro gathers_skip ds(4)) simp_all
  next
    case (Some g)
    then obtain rt0 where "r_tasks (reduceMgr ?c) i = Some rt0" "Filenames rt = Filenames rt0 @ [g]"
      using rt tasks [of i] by (auto simp: domIff)
    then show ?thesis using some [OF Some] ds(4) by (simp add: gathers_add)
  qed
  then have "inv_files J ?s'"
    using inv ds(1-3) f notdone comp unfolding inv_files_def mr_inv_def
    by (intro conjI exI [of _ "ds @ [f]"]) auto
  moreover have "inv_tables J ?s'"
  proof -
    have "dom (r_tasks (reduceMgr ?c')) = dom (r_tasks (reduceMgr ?c))"
      by (auto simp: tasks dom_def split: if_splits)
    then show ?thesis
      using inv False coord_inv_ReportMapTask [of ?c ks req]
      by (auto simp: mr_inv_def inv_tables_def Coordinator_ReportMapTask_def mapm.task_complete)
  qed
  moreover have "inv_frozen J ?s'" using no_reduces by (simp add: inv_frozen_def)
  moreover have "inv_outputs J ?s'"
    using inv False by (auto simp: mr_inv_def inv_outputs_def Coordinator_ReportMapTask_def mr_simps)
  ultimately show ?thesis by (simp add: mr_inv_def)
qed

lemma inv_outputs_create:
  assumes out: "inv_outputs J s" and t: "t \<in> s_reduces s" and v: "valid_output J (ReduceTask_Id t) c"
  shows "inv_outputs J (s\<lparr>s_out := (s_out s)(out_name (ReduceTask_Id t) \<mapsto> []),
        s_writers := add_mset (t, c) (s_writers s)\<rparr>)"
  using out t v unfolding inv_outputs_def by (intro conjI) (auto split: if_splits)

lemma mr_inv_reduce_create:
  assumes J: "job_ok J" and inv: "mr_inv J s" and t: "t \<in> s_reduces s"
    and ks: "key_order (lo_GroupByString (j_W J) (lo_FlatMap (j_W J) (Filenames t) (read_or_empty (s_kv s))) Key) ks"
  shows "mr_inv J (s\<lparr>s_out := (s_out s)(out_name (ReduceTask_Id t) \<mapsto> []),
        s_writers := add_mset (t, concat (reduceTask_lines (j_W J) (j_worker J) ks t (s_kv s))) (s_writers s)\<rparr>)"
  using inv inv_outputs_create [OF _ t reduce_content_valid [OF assms]]
  by (simp add: mr_inv_def inv_tables_def inv_files_def inv_frozen_def completed_def)

lemma mr_inv_reduce_write:
  assumes inv: "mr_inv J s" and w: "(t, content) \<in># s_writers s"
    and old: "s_out s (out_name (ReduceTask_Id t)) = Some old"
  shows "mr_inv J (s\<lparr>s_out := (s_out s)(out_name (ReduceTask_Id t) \<mapsto> overlay content old),
        s_writers := s_writers s - {#(t, content)#},
        s_reduce_reports := insert \<lparr>rrt_WorkerID = wid, rrt_ReduceTask = t,
            rrt_Filename = out_name (ReduceTask_Id t)\<rparr> (s_reduce_reports s)\<rparr>)"
proof -
  let ?i = "ReduceTask_Id t"
  have out: "inv_outputs J s" using inv by (simp add: mr_inv_def)
  have c: "valid_output J ?i content" using out w by (auto simp: inv_outputs_def)
  have "valid_output J ?i old \<or> old = []" using out old unfolding inv_outputs_def by blast
  with c have ov: "overlay content old = content" by (rule overlay_valid)
  have keep: "w' \<in># s_writers s - {#(t, content)#}" if "w' \<in># s_writers s" "ReduceTask_Id (fst w') \<noteq> ?i" for w'
    using that by (metis fst_conv in_diff_count insert_DiffM insert_noteq_member w count_add_mset)
  have "\<forall>i c'. ((s_out s)(out_name ?i \<mapsto> content)) (out_name i) = Some c' \<longrightarrow>
        valid_output J i c' \<or> (c' = [] \<and> (\<exists>w'\<in>#s_writers s - {#(t, content)#}. ReduceTask_Id (fst w') = i))"
  proof (intro allI impI)
    fix i c' assume a: "((s_out s)(out_name ?i \<mapsto> content)) (out_name i) = Some c'"
    show "valid_output J i c' \<or> (c' = [] \<and> (\<exists>w'\<in>#s_writers s - {#(t, content)#}. ReduceTask_Id (fst w') = i))"
    proof (cases "i = ?i")
      case True then show ?thesis using a c by simp
    next
      case False
      then have "s_out s (out_name i) = Some c'" using a by simp
      then show ?thesis using out keep False unfolding inv_outputs_def by blast
    qed
  qed
  moreover have "\<forall>w'\<in>#s_writers s - {#(t, content)#}. fst w' \<in> s_reduces s \<and>
      valid_output J (ReduceTask_Id (fst w')) (snd w') \<and> s_out s (out_name (ReduceTask_Id (fst w'))) \<noteq> None"
    using out by (auto simp: inv_outputs_def dest: in_diffD)
  ultimately show ?thesis
    using inv ov by (simp add: mr_inv_def inv_tables_def inv_files_def inv_frozen_def inv_outputs_def completed_def)
qed

lemma mr_inv_reduce_report:
  assumes inv: "mr_inv J s" and req: "req \<in> s_reduce_reports s"
  shows "mr_inv J (s\<lparr>s_coord := Coordinator_ReportReduceTask req (s_coord s)\<rparr>)"
proof -
  have ci: "coord_inv (s_coord s)" using inv by (simp add: mr_inv_def inv_tables_def)
  have o: "s_out s (out_name (ReduceTask_Id (rrt_ReduceTask req))) \<noteq> None"
    using inv req by (auto simp: mr_inv_def inv_outputs_def)
  show ?thesis
    by (rule mr_inv_coord_frame [OF inv])
      (use o coord_inv_ReportReduceTask [OF ci] in \<open>auto simp: Coordinator_ReportReduceTask_def
         redm.task_complete redm.status_complete split: if_splits\<close>)
qed

lemma mr_step_inv:
  assumes "mr_step J s s'" and J: "job_ok J" and inv: "mr_inv J s"
  shows "mr_inv J s'"
  using assms(1)
proof cases
  case register then show ?thesis using mr_inv_register [OF inv] by simp
next
  case assign then show ?thesis using mr_inv_assign [OF J inv] by simp
next
  case (map_fail t ks tmps e kv')
  then show ?thesis using mr_inv_files_grow [OF inv mapTask_files_mono] by simp
next
  case map_run then show ?thesis using mr_inv_map_run [OF J inv] by blast
next
  case map_report then show ?thesis using mr_inv_map_report [OF J inv] by simp
next
  case reduce_create then show ?thesis using mr_inv_reduce_create [OF J inv] by simp
next
  case reduce_write then show ?thesis using mr_inv_reduce_write [OF inv] by simp
next
  case reduce_report then show ?thesis using mr_inv_reduce_report [OF inv] by simp
qed

lemma mr_reach_inv: "mr_reach J kv0 s \<Longrightarrow> job_ok J \<Longrightarrow> mr_inv J s"
  by (induction rule: mr_reach.induct) (auto intro: mr_inv_init mr_step_inv)

section \<open>A finished job\<close>

lemma part_lines:
  assumes "0 < j_nReduce J"
  shows "(\<Sum>i\<in>{0..<j_nReduce J}. ref_lines rf (part J i xs)) = ref_lines rf xs"
proof -
  let ?h = "\<lambda>k. go_rem (ihash k) (j_nReduce J)"
  have "filter (\<lambda>kv. ?h (Key kv) \<in> {0..<j_nReduce J}) xs = xs"
    using go_rem_bounds [OF ihash_nonneg assms] by (simp add: filter_id_conv)
  then show ?thesis
    using ref_lines_parts [of "{0..<j_nReduce J}" rf ?h xs] by (simp add: part_def partition_of_def)
qed

text \<open>
  When the coordinator reports that the job is done and no worker still has an output file
  open, each of the output files holds the lines of its partition.
\<close>

lemma done_outputs:
  assumes J: "job_ok J" and r: "mr_reach J kv0 s" and w: "s_writers s = {#}"
    and d: "Coordinator_Done (j_Lm J) (j_Lr J) (s_coord s)" and i: "0 \<le> i" "i < j_nReduce J"
  obtains c where "s_out s (out_name i) = Some c" and "valid_output J i c"
proof -
  have inv: "mr_inv J s" using mr_reach_inv [OF r J] .
  then have ci: "coord_inv (s_coord s)" by (simp add: mr_inv_def inv_tables_def)
  have "i \<in> dom (r_tasks (reduceMgr (s_coord s)))"
    using inv i by (auto simp: mr_inv_def inv_tables_def)
  moreover have "dom (r_statusMap (reduceMgr (s_coord s))) = dom (r_tasks (reduceMgr (s_coord s)))"
    using ci by (auto simp: coord_inv_def reduce_inv_def)
  ultimately obtain st where st: "r_statusMap (reduceMgr (s_coord s)) i = Some st" by auto
  with d ci J have "st = TaskCompleted" by (simp add: Done_iff job_ok_def)
  with st inv have "s_out s (out_name i) \<noteq> None" by (auto simp: mr_inv_def inv_outputs_def)
  then obtain c where c: "s_out s (out_name i) = Some c" by auto
  with inv w have "valid_output J i c" by (fastforce simp: mr_inv_def inv_outputs_def)
  with c show ?thesis by (rule that)
qed

end
