(* ===== verification/MR_Progress.thy ===== *)
theory MR_Progress
  imports MR_System
begin

text \<open>
  A MapReduce job cannot get stuck: from every reachable state, whatever crashed or was lost
  before, there are steps that finish it. The argument picks the steps of one healthy worker
  that asks for a task once every outstanding one is overdue, runs it with working file
  operations and reports it; each such round completes one more task.
\<close>

section \<open>A map task whose file operations work\<close>

lemma write_groups_finite:
  "write_groups taskMap tmps ks m fs = (r, fs') \<Longrightarrow> finite (dom fs) \<Longrightarrow> finite (dom fs')"
proof (induction taskMap tmps ks m fs rule: write_groups.induct)
  case (2 taskMap tmps k ks m fs)
  obtain r1 fs1 where w: "WriteKeyValues (tmps k) fs (the (taskMap k)) = (r1, fs1)" by fastforce
  have "finite (dom fs1)"
    using w "2.prems"(2) by (auto simp: WriteKeyValues_def split: tmp_outcome.splits if_splits)
  then show ?case using "2.IH" [OF w [symmetric]] "2.prems"(1) w by (cases r1) (simp_all del: fun_upd_apply)
qed simp

lemma mapTask_files_finite:
  "mapTask_files W w input ks tmps task fs = (r, fs') \<Longrightarrow> finite (dom fs) \<Longrightarrow> finite (dom fs')"
  by (auto simp: mapTask_files_def Let_def dest: write_groups_finite split: option.splits if_splits)

lemma mr_reach_finite: "mr_reach J kv0 s \<Longrightarrow> finite (dom kv0) \<Longrightarrow> finite (dom (s_kv s))"
proof (induction rule: mr_reach.induct)
  case (step s t)
  then have "finite (dom (s_kv s))" by simp
  with step(2) show ?case by cases (auto dest: mapTask_files_finite)
qed (simp add: mr_init_def)

definition fresh_name :: "kvfs \<Rightarrow> int \<Rightarrow> string" where
  "fresh_name fs k = replicate (Suc (\<Sum>f\<in>dom fs. length f)) (CHR ''x'') @ Itoa k"

lemma fresh_name_new:
  assumes "finite (dom fs)"
  shows "fresh_name fs k \<notin> dom fs"
proof
  assume "fresh_name fs k \<in> dom fs"
  then have "length (fresh_name fs k) \<le> (\<Sum>f\<in>dom fs. length f)"
    using assms by (intro member_le_sum) auto
  then show False by (simp add: fresh_name_def)
qed

lemma fresh_name_inj: "fresh_name fs j = fresh_name fs k \<longleftrightarrow> j = k"
  by (simp add: fresh_name_def Itoa_inj)

lemma write_groups_succeeds:
  assumes "distinct ks" and "\<forall>k\<in>set ks. nm k \<notin> dom fs" and "inj nm"
  shows "\<exists>m' fs'. write_groups taskMap (\<lambda>k. Written (nm k)) ks m fs = (Inr m', fs')"
  using assms
proof (induction ks arbitrary: m fs)
  case (Cons k ks)
  have "WriteKeyValues (Written (nm k)) fs (the (taskMap k)) = (Inr (nm k), fs(nm k \<mapsto> map Enc (the (taskMap k))))"
    using Cons.prems by (simp add: WriteKeyValues_def)
  moreover have "\<forall>j\<in>set ks. nm j \<notin> dom (fs(nm k \<mapsto> map Enc (the (taskMap k))))"
    using Cons.prems by (auto simp: inj_eq)
  ultimately show ?case using Cons.IH [of "fs(nm k \<mapsto> map Enc (the (taskMap k)))" "m(k \<mapsto> nm k)"] Cons.prems
    by (simp del: fun_upd_apply)
qed simp

lemma mapTask_files_succeeds:
  assumes "finite (dom fs)" and "input (MapTask_Id task) = Some content" and "NReduce task \<noteq> 0" and "distinct ks"
  shows "\<exists>tmps m' fs'. mapTask_files W w input ks tmps task fs = (Inr m', fs')"
proof -
  let ?g = "lo_GroupByInt W (mapf w (MapTask_Id task) content) (partition_of (NReduce task))"
  have "\<exists>m' fs'. write_groups ?g (\<lambda>k. Written (fresh_name fs k)) ks Map.empty fs = (Inr m', fs')"
    using assms by (intro write_groups_succeeds) (auto simp: fresh_name_new inj_def fresh_name_inj)
  then show ?thesis using assms(2,3) by (auto simp: mapTask_files_def Let_def)
qed

section \<open>Rounds\<close>

abbreviation mr_steps :: "mr_job \<Rightarrow> mr_sys \<Rightarrow> mr_sys \<Rightarrow> bool" where
  "mr_steps J \<equiv> (mr_step J)\<^sup>*\<^sup>*"

text \<open>Steps during which at most \<open>N\<close> output files are open.\<close>

abbreviation mr_steps_upto :: "mr_job \<Rightarrow> nat \<Rightarrow> mr_sys \<Rightarrow> mr_sys \<Rightarrow> bool" where
  "mr_steps_upto J N \<equiv> (\<lambda>s t. mr_step J s t \<and> size (s_writers t) \<le> N)\<^sup>*\<^sup>*"

text \<open>The same without the coordinator.\<close>

abbreviation mr_flush :: "mr_job \<Rightarrow> nat \<Rightarrow> mr_sys \<Rightarrow> mr_sys \<Rightarrow> bool" where
  "mr_flush J N \<equiv> (\<lambda>s t. mr_step J s t \<and> size (s_writers t) \<le> N \<and> s_coord t = s_coord s)\<^sup>*\<^sup>*"

lemma mr_steps_upto_steps: "mr_steps_upto J N s t \<Longrightarrow> mr_steps J s t"
  by (erule rtranclp_mono [THEN predicate2D, rotated]) blast

lemma mr_reach_steps: "mr_steps J s t \<Longrightarrow> mr_reach J kv0 s \<Longrightarrow> mr_reach J kv0 t"
  by (induction rule: rtranclp_induct) (auto intro: mr_reach.step)

definition unfinished :: "mr_sys \<Rightarrow> nat" where
  "unfinished s = card (mapm.open_tasks (mapManager (s_coord s))) + card (redm.open_tasks (reduceMgr (s_coord s)))"

lemma map_handout:
  assumes J: "job_ok J" and inv: "mr_inv J s" and k: "k \<in> mapm.open_tasks (mapManager (s_coord s))"
  obtains t s1 where "mr_step J s s1" and "t \<in> s_maps s1" and "s_kv s1 = s_kv s" and "unfinished s1 = unfinished s"
    and "s_writers s1 = s_writers s" and "MapTask_Id t \<in> mapm.open_tasks (mapManager (s_coord s1))"
proof -
  let ?c = "s_coord s" and ?m = "mapManager (s_coord s)"
  have mi: "map_inv ?m" using inv by (simp add: mr_inv_def inv_tables_def coord_inv_def)
  have lib: "lo_ok (j_Lm J)" using J by (simp add: job_ok_def)
  let ?now = "zget (m_assignedTime ?m) 0 k + TaskTimeout + 1"
  obtain t where t: "MapTaskManager_GetPendingTask (j_Lm J) ?now ?m = Some t"
    using mapm.pending_if_overdue [OF mi lib, of k _ ?now] k by (auto simp: mapm.open_tasks_def)
  let ?m1 = "snd (MapTaskManager_AssignTask 0 ?m (MapTask_Id t))"
  let ?s1 = "s\<lparr>s_coord := ?c\<lparr>mapManager := ?m1\<rparr>, s_maps := s_maps s \<union> {t}\<rparr>"
  have "mr_step J s ?s1"
    using mr_step.assign [of J ?now 0 s "\<lparr>resp_MapTask = Some t, resp_ReduceTask = None\<rparr>" "?c\<lparr>mapManager := ?m1\<rparr>"]
    by (simp add: Coordinator_AssignTask_def t)
  moreover have "MapTask_Id t \<in> mapm.open_tasks ?m"
    using mapm.pending_live [OF mi lib t] by (auto simp: mapm.open_tasks_def)
  ultimately show thesis
    by (intro that [of ?s1 t]) (simp_all add: unfinished_def mapm.open_tasks_assign)
qed

lemma good_report_finite: "good_report J kv req \<Longrightarrow> finite (dom (ReduceTaskMap req))"
proof -
  assume "good_report J kv req"
  then obtain xs where "\<And>i. ReduceTaskMap req i = None \<longleftrightarrow> part J i xs = []" unfolding good_report_def by auto
  then have "i \<in> dom (ReduceTaskMap req) \<longleftrightarrow> i \<in> partition_of (j_nReduce J) ` set xs" for i
    by (auto simp: part_def filter_empty_conv domIff image_iff)
  then show ?thesis by (metis finite_imageI finite_set set_eqI)
qed

lemma map_execute:
  assumes J: "job_ok J" and inv: "mr_inv J s" and fin: "finite (dom (s_kv s))" and t: "t \<in> s_maps s"
    and input: "\<forall>f\<in>set (j_files J). j_input J f \<noteq> None"
  obtains req kv' where "rmt_MapTask req = t" and "finite (dom (ReduceTaskMap req))"
    and "mr_step J s (s\<lparr>s_kv := kv', s_map_reports := insert req (s_map_reports s)\<rparr>)"
proof -
  have W: "lo_worker_ok (j_W J)" using J by (simp add: job_ok_def)
  have f: "MapTask_Id t \<in> set (j_files J)" "NReduce t = j_nReduce J"
    using inv t by (auto simp: mr_inv_def inv_tables_def)
  then obtain content where c: "j_input J (MapTask_Id t) = Some content" using input by blast
  let ?g = "lo_GroupByInt (j_W J) (mapf (j_worker J) (MapTask_Id t) content) (partition_of (NReduce t))"
  have "finite (dom ?g)" using W by (simp add: lo_worker_ok_def dom_group_spec)
  then obtain ks where ks: "key_order ?g ks" using key_order_exists by blast
  obtain tmps m kv' where run: "mapTask_files (j_W J) (j_worker J) (j_input J) ks tmps t (s_kv s) = (Inr m, kv')"
    using mapTask_files_succeeds [of "s_kv s" "j_input J" t content ks "j_W J" "j_worker J"] c f(2) J fin
      key_orderD(1) [OF ks] by (auto simp: job_ok_def)
  let ?req = "\<lparr>rmt_WorkerID = 0, rmt_MapTask = t, ReduceTaskMap = m\<rparr>"
  have step: "mr_step J s (s\<lparr>s_kv := kv', s_map_reports := insert ?req (s_map_reports s)\<rparr>)"
    by (rule mr_step.map_run [OF t _ run]) (use c ks in auto)
  have "good_report J kv' ?req"
    using mr_step_inv [OF step J inv] by (auto simp: mr_inv_def inv_files_def)
  then have "finite (dom (ReduceTaskMap ?req))" by (rule good_report_finite)
  then show thesis using step that [of ?req kv'] by simp
qed

lemma map_round:
  assumes J: "job_ok J" and r: "mr_reach J kv0 s" and fin: "finite (dom kv0)"
    and input: "\<forall>f\<in>set (j_files J). j_input J f \<noteq> None"
    and k: "k \<in> mapm.open_tasks (mapManager (s_coord s))" and N: "size (s_writers s) \<le> N"
  shows "\<exists>s'. mr_steps_upto J N s s' \<and> unfinished s' < unfinished s \<and> s_writers s' = s_writers s"
proof -
  have inv: "mr_inv J s" using mr_reach_inv [OF r J] .
  obtain t s1 where step1: "mr_step J s s1" and t: "t \<in> s_maps s1" and kv: "s_kv s1 = s_kv s"
    and u1: "unfinished s1 = unfinished s" and ws: "s_writers s1 = s_writers s" and live: "MapTask_Id t \<in> mapm.open_tasks (mapManager (s_coord s1))"
    by (rule map_handout [OF J inv k])
  have inv1: "mr_inv J s1" using mr_step_inv [OF step1 J inv] .
  have "finite (dom (s_kv s1))" using mr_reach_finite [OF r fin] kv by simp
  then obtain req kv' where req: "rmt_MapTask req = t" and "finite (dom (ReduceTaskMap req))"
    and step2: "mr_step J s1 (s1\<lparr>s_kv := kv', s_map_reports := insert req (s_map_reports s1)\<rparr>)" (is "mr_step J s1 ?s2")
    by (rule map_execute [OF J inv1 _ t input])
  from this(2) obtain ks where ks: "key_order (ReduceTaskMap req) ks" using key_order_exists by blast
  let ?s3 = "?s2\<lparr>s_coord := Coordinator_ReportMapTask ks req (s_coord ?s2)\<rparr>"
  have step3: "mr_step J ?s2 ?s3" by (rule mr_step.map_report) (use ks in auto)
  have "mapManager (s_coord ?s3) = snd (MapTaskManager_CompleteTask (mapManager (s_coord s1)) (MapTask_Id t))"
    and "redm.open_tasks (reduceMgr (s_coord ?s3)) = redm.open_tasks (reduceMgr (s_coord s1))"
    using live req by (auto simp: Coordinator_ReportMapTask_def redm.open_tasks_def mapm.open_tasks_def mr_simps)
  moreover have "map_inv (mapManager (s_coord s1))"
    using inv1 by (simp add: mr_inv_def inv_tables_def coord_inv_def)
  ultimately have "unfinished ?s3 < unfinished s"
    using mapm.complete_progress [OF _ live] u1 by (simp add: unfinished_def)
  moreover have "mr_steps_upto J N s ?s3"
    using step1 step2 step3 ws N by (auto intro!: converse_rtranclp_into_rtranclp [of _ s s1] converse_rtranclp_into_rtranclp [of _ s1 ?s2])
  ultimately show ?thesis using ws by (intro exI [of _ ?s3]) simp
qed

lemma reduce_handout:
  assumes J: "job_ok J" and inv: "mr_inv J s"
    and maps: "mapm.open_tasks (mapManager (s_coord s)) = {}"
    and k: "k \<in> redm.open_tasks (reduceMgr (s_coord s))"
  obtains t s1 where "mr_step J s s1" and "t \<in> s_reduces s1" and "unfinished s1 = unfinished s" and "s_writers s1 = s_writers s"
    and "ReduceTask_Id t \<in> redm.open_tasks (reduceMgr (s_coord s1))"
proof -
  let ?c = "s_coord s" and ?r = "reduceMgr (s_coord s)"
  have mi: "map_inv (mapManager ?c)" and ri: "reduce_inv ?r"
    using inv by (simp_all add: mr_inv_def inv_tables_def coord_inv_def)
  have lib: "lo_ok (j_Lm J)" "lo_ok (j_Lr J)" using J by (auto simp: job_ok_def)
  let ?now = "zget (r_assignedTime ?r) 0 k + TaskTimeout + 1"
  obtain t where t: "ReduceTaskManager_GetPendingTask (j_Lr J) ?now ?r = Some t"
    using redm.pending_if_overdue [OF ri lib(2), of k _ ?now] k by (auto simp: redm.open_tasks_def)
  have all: "MapTaskManager_AllCompleted (j_Lm J) (mapManager ?c)"
    using mapm.all_done_open_tasks [OF mi lib(1)] maps by simp
  have none: "MapTaskManager_GetPendingTask (j_Lm J) ?now (mapManager ?c) = None"
  proof (cases "MapTaskManager_GetPendingTask (j_Lm J) ?now (mapManager ?c)")
    case (Some u)
    from mapm.pending_live [OF mi lib(1) Some] maps show ?thesis by (auto simp: mapm.open_tasks_def)
  qed
  let ?r1 = "snd (ReduceTaskManager_AssignTask 0 ?r (ReduceTask_Id t))"
  let ?s1 = "s\<lparr>s_coord := ?c\<lparr>reduceMgr := ?r1\<rparr>, s_reduces := s_reduces s \<union> {t}\<rparr>"
  have "mr_step J s ?s1"
    using mr_step.assign [of J ?now 0 s "\<lparr>resp_MapTask = None, resp_ReduceTask = Some t\<rparr>" "?c\<lparr>reduceMgr := ?r1\<rparr>"]
    by (simp add: Coordinator_AssignTask_def t none all)
  moreover have "ReduceTask_Id t \<in> redm.open_tasks ?r"
    using redm.pending_live [OF ri lib(2) t] by (auto simp: redm.open_tasks_def)
  ultimately show thesis
    by (intro that [of ?s1 t]) (simp_all add: unfinished_def redm.open_tasks_assign)
qed

lemma reduce_round:
  assumes J: "job_ok J" and inv: "mr_inv J s"
    and maps: "mapm.open_tasks (mapManager (s_coord s)) = {}"
    and k: "k \<in> redm.open_tasks (reduceMgr (s_coord s))" and N: "size (s_writers s) < N"
  shows "\<exists>s'. mr_steps_upto J N s s' \<and> unfinished s' < unfinished s \<and> s_writers s' = s_writers s"
proof -
  have W: "lo_worker_ok (j_W J)" using J by (auto simp: job_ok_def)
  obtain t s1 where step1: "mr_step J s s1" and t: "t \<in> s_reduces s1"
    and u1: "unfinished s1 = unfinished s" and ws: "s_writers s1 = s_writers s" and live: "ReduceTask_Id t \<in> redm.open_tasks (reduceMgr (s_coord s1))"
    by (rule reduce_handout [OF J inv maps k])
  have ri: "reduce_inv (reduceMgr (s_coord s1))"
    using mr_step_inv [OF step1 J inv] by (simp add: mr_inv_def inv_tables_def coord_inv_def)
  let ?g = "lo_GroupByString (j_W J) (lo_FlatMap (j_W J) (Filenames t) (read_or_empty (s_kv s1))) Key"
  have "finite (dom ?g)" using W by (simp add: lo_worker_ok_def dom_group_spec)
  then obtain ks where ks: "key_order ?g ks" using key_order_exists by blast
  let ?n = "out_name (ReduceTask_Id t)" and ?con = "concat (reduceTask_lines (j_W J) (j_worker J) ks t (s_kv s1))"
  define s2 where "s2 = s1\<lparr>s_out := (s_out s1)(?n \<mapsto> []), s_writers := add_mset (t, ?con) (s_writers s1)\<rparr>"
  have step2: "mr_step J s1 s2" unfolding s2_def by (rule mr_step.reduce_create [OF t ks])
  let ?req = "\<lparr>rrt_WorkerID = 0, rrt_ReduceTask = t, rrt_Filename = ?n\<rparr>"
  define s3 where "s3 = s2\<lparr>s_out := (s_out s2)(?n \<mapsto> overlay ?con []), s_writers := s_writers s2 - {#(t, ?con)#},
      s_reduce_reports := insert ?req (s_reduce_reports s2)\<rparr>"
  have step3: "mr_step J s2 s3"
    unfolding s3_def by (rule mr_step.reduce_write) (simp_all add: s2_def)
  define s4 where "s4 = s3\<lparr>s_coord := Coordinator_ReportReduceTask ?req (s_coord s3)\<rparr>"
  have step4: "mr_step J s3 s4"
    unfolding s4_def by (rule mr_step.reduce_report) (simp add: s3_def)
  have "reduceMgr (s_coord s4) = snd (ReduceTaskManager_CompleteTask (reduceMgr (s_coord s1)) (ReduceTask_Id t))"
    and "mapManager (s_coord s4) = mapManager (s_coord s1)"
    using live by (auto simp: s4_def s3_def s2_def Coordinator_ReportReduceTask_def redm.open_tasks_def)
  then have "unfinished s4 < unfinished s"
    using redm.complete_progress [OF ri live] u1 by (simp add: unfinished_def)
  moreover have w: "size (s_writers s1) \<le> N" "size (s_writers s2) \<le> N" "s_writers s3 = s_writers s" "s_writers s4 = s_writers s"
    using ws N by (simp_all add: s4_def s3_def s2_def)
  then have "mr_steps_upto J N s s4"
    using step1 step2 step3 step4 N
    by (auto intro!: converse_rtranclp_into_rtranclp [of _ s s1] converse_rtranclp_into_rtranclp [of _ s1 s2] converse_rtranclp_into_rtranclp [of _ s2 s3])
  ultimately show ?thesis using w(4) by blast
qed

text \<open>Workers that hold an output file open can all finish writing it.\<close>

lemma flush_writers:
  assumes "mr_reach J kv0 s" and "job_ok J" and "size (s_writers s) \<le> N"
  shows "\<exists>s'. mr_flush J N s s' \<and> s_writers s' = {#}"
  using assms
proof (induction "size (s_writers s)" arbitrary: s)
  case 0
  then show ?case by auto
next
  case (Suc n)
  then obtain t con ws where w: "s_writers s = add_mset (t, con) ws" by (metis size_eq_Suc_imp_eq_union add_mset_add_single surj_pair)
  have "s_out s (out_name (ReduceTask_Id t)) \<noteq> None"
    using mr_reach_inv [OF Suc.prems(1,2)] w by (auto simp: mr_inv_def inv_outputs_def)
  then obtain old where old: "s_out s (out_name (ReduceTask_Id t)) = Some old" by auto
  let ?s1 = "s\<lparr>s_out := (s_out s)(out_name (ReduceTask_Id t) \<mapsto> overlay con old),
        s_writers := s_writers s - {#(t, con)#},
        s_reduce_reports := insert \<lparr>rrt_WorkerID = 0, rrt_ReduceTask = t,
            rrt_Filename = out_name (ReduceTask_Id t)\<rparr> (s_reduce_reports s)\<rparr>"
  have step: "mr_step J s ?s1" by (rule mr_step.reduce_write [OF _ old]) (simp add: w)
  have N: "size (s_writers ?s1) \<le> N" using Suc.prems(3) w by simp
  then have "\<exists>s'. mr_flush J N ?s1 s' \<and> s_writers s' = {#}"
    using Suc.hyps(2) w by (intro Suc.hyps(1) mr_reach.step [OF Suc.prems(1) step] Suc.prems(2)) simp_all
  then obtain s' where s': "mr_flush J N ?s1 s'" "s_writers s' = {#}" by blast
  have "mr_flush J N s s'" by (rule converse_rtranclp_into_rtranclp [OF _ s'(1)]) (use step N in simp)
  then show ?case using s'(2) by blast
qed

lemma can_finish_upto:
  assumes "mr_reach J kv0 s" and "job_ok J" and "finite (dom kv0)"
    and "\<forall>f\<in>set (j_files J). j_input J f \<noteq> None" and "s_writers s = {#}" and "0 < N"
  shows "\<exists>s'. mr_steps_upto J N s s' \<and> Coordinator_Done (j_Lm J) (j_Lr J) (s_coord s') \<and> s_writers s' = {#}"
  using assms(1-5)
proof (induction "unfinished s" arbitrary: s rule: less_induct)
  case less
  show ?case
  proof (cases "mapm.open_tasks (mapManager (s_coord s)) = {} \<and> redm.open_tasks (reduceMgr (s_coord s)) = {}")
    case True
    have "coord_inv (s_coord s)" using mr_reach_inv [OF less.prems(1,2)] by (simp add: mr_inv_def inv_tables_def)
    then have "Coordinator_Done (j_Lm J) (j_Lr J) (s_coord s)"
      using less.prems(2) True mapm.all_done_open_tasks redm.all_done_open_tasks
      by (simp add: Coordinator_Done_def coord_inv_def job_ok_def)
    then show ?thesis using less.prems(5) by blast
  next
    case False
    have N: "size (s_writers s) \<le> N" "size (s_writers s) < N" using less.prems(5) assms(6) by simp_all
    from False obtain s1 where s1: "mr_steps_upto J N s s1" "unfinished s1 < unfinished s" "s_writers s1 = s_writers s"
      using map_round [OF less.prems(2,1,3,4) _ N(1)] reduce_round [OF less.prems(2) mr_reach_inv [OF less.prems(1,2)] _ _ N(2)] by blast
    with less.hyps [OF s1(2) mr_reach_steps [OF mr_steps_upto_steps [OF s1(1)] less.prems(1)] less.prems(2-4) s1(3) [unfolded less.prems(5)]]
    show ?thesis by (meson rtranclp_trans)
  qed
qed

lemma can_finish_from:
  assumes "mr_reach J kv0 s" and "job_ok J" and "finite (dom kv0)"
    and "\<forall>f\<in>set (j_files J). j_input J f \<noteq> None" and "size (s_writers s) \<le> N" and "0 < N"
  shows "\<exists>s'. mr_steps_upto J N s s' \<and> Coordinator_Done (j_Lm J) (j_Lr J) (s_coord s') \<and> s_writers s' = {#}"
proof -
  obtain s1 where "mr_flush J N s s1" "s_writers s1 = {#}"
    using flush_writers [OF assms(1,2,5)] by blast
  moreover from this(1) have "mr_steps_upto J N s s1" by (rule rtranclp_mono [THEN predicate2D, rotated]) blast
  ultimately have s1: "mr_steps_upto J N s s1" "s_writers s1 = {#}" by simp_all
  have "mr_reach J kv0 s1" using mr_reach_steps [OF mr_steps_upto_steps [OF s1(1)] assms(1)] .
  from can_finish_upto [OF this assms(2-4) s1(2) assms(6)] show ?thesis using s1(1) by (meson rtranclp_trans)
qed

lemma can_finish:
  assumes "mr_reach J kv0 s" and "job_ok J" and "finite (dom kv0)"
    and "\<forall>f\<in>set (j_files J). j_input J f \<noteq> None"
  shows "\<exists>s'. mr_steps J s s' \<and> Coordinator_Done (j_Lm J) (j_Lr J) (s_coord s') \<and> s_writers s' = {#}"
  using can_finish_from [OF assms le_SucI [OF order.refl] zero_less_Suc] mr_steps_upto_steps by blast

section \<open>Completed reduce tasks were handed out\<close>

definition inv_handed :: "mr_sys \<Rightarrow> bool" where
  "inv_handed s \<longleftrightarrow> (\<forall>w\<in>#s_writers s. fst w \<in> s_reduces s) \<and>
     (\<forall>req\<in>s_reduce_reports s. rrt_ReduceTask req \<in> s_reduces s) \<and>
     (\<forall>i. r_statusMap (reduceMgr (s_coord s)) i = Some TaskCompleted \<longrightarrow> (\<exists>t\<in>s_reduces s. ReduceTask_Id t = i))"

lemma inv_handed_frame:
  assumes "inv_handed s" and "s_writers s' = s_writers s" and "s_reduce_reports s' = s_reduce_reports s"
    and "s_reduces s \<subseteq> s_reduces s'"
    and "\<And>i. r_statusMap (reduceMgr (s_coord s')) i = Some TaskCompleted \<Longrightarrow>
      r_statusMap (reduceMgr (s_coord s)) i = Some TaskCompleted \<or> (\<exists>t\<in>s_reduces s. ReduceTask_Id t = i)"
  shows "inv_handed s'"
  using assms unfolding inv_handed_def by (metis subsetD)

lemma inv_handed_step:
  assumes "mr_step J s s'" and inv: "inv_handed s"
  shows "inv_handed s'"
  using assms(1)
proof cases
  case register
  then show ?thesis by (intro inv_handed_frame [OF inv]) (auto simp: Coordinator_Register_def)
next
  case assign
  then show ?thesis
    by (intro inv_handed_frame [OF inv])
      (auto simp: Coordinator_AssignTask_def redm.status_assign split: option.splits if_splits)
next
  case map_report
  then show ?thesis
    by (intro inv_handed_frame [OF inv]) (auto simp: Coordinator_ReportMapTask_def mr_simps split: if_splits)
next
  case (reduce_report req)
  have "rrt_ReduceTask req \<in> s_reduces s" using inv reduce_report(2) by (auto simp: inv_handed_def)
  then show ?thesis
    unfolding reduce_report(1)
    by (intro inv_handed_frame [OF inv])
      (auto simp: Coordinator_ReportReduceTask_def redm.status_complete split: if_splits)
qed (use inv in \<open>auto simp: inv_handed_def dest: in_diffD\<close>)

lemma inv_handed_reach: "mr_reach J kv0 s \<Longrightarrow> inv_handed s"
proof (induction rule: mr_reach.induct)
  case start
  then show ?case by (simp add: inv_handed_def mr_init_def MakeCoordinator_def mr_simps)
next
  case (step s t)
  from step(2,3) show ?case by (rule inv_handed_step)
qed

section \<open>Properties of a whole job\<close>

text \<open>Summing up the partitions.\<close>

lemma done_equals_sequential:
  assumes J: "job_ok J" and r: "mr_reach J kv0 s" and d: "Coordinator_Done (j_Lm J) (j_Lr J) (s_coord s)"
    and w: "s_writers s = {#}" and srt: "sorts_by_key srt"
    and seq: "mrsequential srt (mapf (j_worker J)) (reducef (j_worker J)) (j_input J) (j_files J) = Inr lines"
  shows "\<exists>out. (\<forall>i. 0 \<le> i \<and> i < j_nReduce J \<longrightarrow> s_out s (out_name i) = Some (concat (out i))) \<and>
     mset (concat (map out [0..j_nReduce J - 1])) = mset lines"
proof -
  let ?X = "concat (map (kvs_of J) (j_files J))" and ?rf = "reducef (j_worker J)" and ?n = "j_nReduce J"
  have "\<exists>ls. s_out s (out_name i) = Some (concat ls) \<and> mset ls = ref_lines ?rf (part J i ?X)"
    if "0 \<le> i" "i < ?n" for i
    using done_outputs [OF J r w d that] by (auto simp: valid_output_def)
  then obtain out where out: "\<And>i. 0 \<le> i \<Longrightarrow> i < ?n \<Longrightarrow>
      s_out s (out_name i) = Some (concat (out i)) \<and> mset (out i) = ref_lines ?rf (part J i ?X)"
    by metis
  have "mset (concat (map out [0..?n - 1])) = sum_list (map (\<lambda>i. mset (out i)) [0..?n - 1])"
    by (simp add: mset_concat comp_def)
  also have "\<dots> = (\<Sum>i\<in>{0..<?n}. mset (out i))"
    by (subst sum_list_distinct_conv_sum_set) (auto intro: sum.cong)
  also have "\<dots> = (\<Sum>i\<in>{0..<?n}. ref_lines ?rf (part J i ?X))"
    using out by (intro sum.cong) auto
  also have "\<dots> = ref_lines ?rf ?X"
    using J by (intro part_lines) (simp add: job_ok_def)
  also have "\<dots> = mset lines"
    using mrsequential_spec(2) [OF srt _ seq] J by (simp add: job_ok_def kvs_of_def [abs_def])
  finally show ?thesis using out by blast
qed

text \<open>
  C1: Whenever the coordinator of a MapReduce job says that it is done and no worker still has
  an output file open, the output files together contain exactly the lines that
  \<open>mrsequential\<close> prints for the same plugin and input files, whatever the workers did: crashed,
  ran a task twice, were late, lost or repeated their calls.
\<close>

theorem mapreduce_equals_sequential:
  assumes J: "job_ok J" and r: "mr_reach J kv0 s" and d: "Coordinator_Done (j_Lm J) (j_Lr J) (s_coord s)"
    and w: "s_writers s = {#}" and srt: "sorts_by_key srt"
    and seq: "mrsequential srt (mapf (j_worker J)) (reducef (j_worker J)) (j_input J) (j_files J) = Inr lines"
  shows "\<exists>out. (\<forall>i. 0 \<le> i \<and> i < j_nReduce J \<longrightarrow> s_out s (out_name i) = Some (concat (out i))) \<and>
     mset (concat (map out [0..j_nReduce J - 1])) = mset lines"
  using assms by (rule done_equals_sequential)

text \<open>A small job, for the witnesses: one input file, one reduce task, the word count plugin.\<close>

definition demo_job :: mr_job where
  "demo_job = \<lparr>j_files = [''in''], j_nReduce = 1, j_input = [''in'' \<mapsto> ''a b a''],
     j_worker = \<lparr>jw_workerID = 0, mapf = wc_Map (\<lambda>c. c \<noteq> CHR '' ''), reducef = wc_Reduce\<rparr>,
     j_W = lo_worker_std, j_Lm = lo_sorted, j_Lr = lo_sorted\<rparr>"

lemma demo_job_ok: "job_ok demo_job"
  using order_insensitive_plugins by (simp add: job_ok_def demo_job_def lo_worker_std_ok lo_sorted_ok)

definition key_sort :: "KeyValue list \<Rightarrow> KeyValue list" where
  "key_sort xs = sort_key Key xs"

lemma key_sort_sorts: "sorts_by_key key_sort"
  by (simp add: sorts_by_key_def key_sort_def)

lemma demo_job_sequential:
  "mrsequential key_sort (mapf (j_worker demo_job)) (reducef (j_worker demo_job)) (j_input demo_job) (j_files demo_job)
     = Inr [output_line ''a'' ''2'', output_line ''b'' ''1'']"
  unfolding demo_job_def mr_job.simps JobWorker.simps by code_simp

lemma demo_job_done:
  "\<exists>s. mr_reach demo_job Map.empty s \<and> Coordinator_Done (j_Lm demo_job) (j_Lr demo_job) (s_coord s) \<and> s_writers s = {#}"
  using can_finish [OF mr_reach.start [of demo_job Map.empty] demo_job_ok] mr_reach_steps [OF _ mr_reach.start]
  by (fastforce simp: demo_job_def)

theorem mapreduce_equals_sequential_witness:
  "\<exists>s out. mr_reach demo_job Map.empty s \<and> s_out s ''mr-out-0'' = Some (concat out) \<and>
     mset out = {#output_line ''a'' ''2'', output_line ''b'' ''1''#}"
proof -
  obtain s where s: "mr_reach demo_job Map.empty s" "Coordinator_Done (j_Lm demo_job) (j_Lr demo_job) (s_coord s)"
    "s_writers s = {#}" using demo_job_done by blast
  from mapreduce_equals_sequential [OF demo_job_ok s key_sort_sorts demo_job_sequential]
  obtain out where out: "\<forall>i. 0 \<le> i \<and> i < j_nReduce demo_job \<longrightarrow> s_out s (out_name i) = Some (concat (out i))"
    "mset (concat (map out [0..j_nReduce demo_job - 1])) = {#output_line ''a'' ''2'', output_line ''b'' ''1''#}"
    by auto
  have "j_nReduce demo_job = 1" "out_name 0 = ''mr-out-0''" by (simp add: demo_job_def) code_simp
  with out s(1) show ?thesis by (intro exI [of _ s] exI [of _ "out 0"]) auto
qed





text \<open>
  C22: A reduce task is handed out only after every map task has completed, its file list can no
  longer change, and reading the listed files gives every pair that the map function produced
  for its partition, each exactly once, over all input files.
\<close>

theorem reduce_task_input_complete:
  assumes J: "job_ok J" and r: "mr_reach J kv0 s" and t: "t \<in> s_reduces s"
  shows "(\<forall>f\<in>set (j_files J). m_statusMap (mapManager (s_coord s)) f = Some TaskCompleted) \<and>
    r_tasks (reduceMgr (s_coord s)) (ReduceTask_Id t) = Some t \<and>
    mset (concat (map (read_or_empty (s_kv s)) (Filenames t))) =
      mset (filter (\<lambda>kv. go_rem (ihash (Key kv)) (j_nReduce J) = ReduceTask_Id t)
        (concat (map (\<lambda>f. mapf (j_worker J) f (the (j_input J f))) (j_files J))))"
proof -
  have inv: "mr_inv J s" using mr_reach_inv [OF r J] .
  then have full: "set (j_files J) \<subseteq> completed s" and tk: "r_tasks (reduceMgr (s_coord s)) (ReduceTask_Id t) = Some t"
    using t by (auto simp: mr_inv_def inv_frozen_def)
  obtain ds where ds: "distinct ds" "set ds = completed s" "gathers J (s_kv s) (ReduceTask_Id t) ds (Filenames t)"
    using inv tk by (auto simp: mr_inv_def inv_files_def)
  have "set ds = set (j_files J)" using ds(2) full completed_files [of J s] inv by (auto simp: mr_inv_def)
  then have "mset ds = mset (j_files J)"
    using ds(1) J by (simp add: job_ok_def set_eq_iff_mset_eq_distinct [symmetric])
  from part_concat_perm [OF this, of J "ReduceTask_Id t"] ds(3) full tk show ?thesis
    by (auto simp: gathers_def part_def partition_of_def kvs_of_def [abs_def] completed_def)
qed

theorem reduce_task_input_complete_witness:
  "\<exists>s t. mr_reach demo_job Map.empty s \<and> t \<in> s_reduces s \<and>
     m_statusMap (mapManager (s_coord s)) ''in'' = Some TaskCompleted"
proof -
  obtain s where s: "mr_reach demo_job Map.empty s" "Coordinator_Done (j_Lm demo_job) (j_Lr demo_job) (s_coord s)"
    using demo_job_done by blast
  have inv: "mr_inv demo_job s" using mr_reach_inv [OF s(1) demo_job_ok] .
  then have ci: "coord_inv (s_coord s)" by (simp add: mr_inv_def inv_tables_def)
  have "0 \<in> dom (r_statusMap (reduceMgr (s_coord s)))"
    using inv ci by (auto simp: mr_inv_def inv_tables_def coord_inv_def reduce_inv_def demo_job_def)
  then have "r_statusMap (reduceMgr (s_coord s)) 0 = Some TaskCompleted"
    using Done_iff [OF ci] s(2) demo_job_ok by (auto simp: job_ok_def)
  then obtain t where "t \<in> s_reduces s" using inv_handed_reach [OF s(1)] by (auto simp: inv_handed_def)
  with reduce_task_input_complete [OF demo_job_ok s(1)] s(1) show ?thesis by (auto simp: demo_job_def)
qed

end
