(* ===== verification/MR_Main.thy ===== *)
theory MR_Main
  imports MR_Progress
begin

text \<open>
  The processes of a MapReduce job: \<open>main/mrcoordinator.go\<close>, \<open>main/mrworker.go\<close> and the loop
  \<open>Worker\<close> of \<open>mr/worker.go\<close>, and the run of one coordinator with one worker: the worker stops
  after one round per task, and the output is that of the sequential program.

  What the environment decides in one round of the worker (clock readings, outcomes of calls and
  file operations, iteration orders of maps) is a record \<open>work_env\<close>. A run that is longer than the
  given rounds is \<open>StillRunning\<close>.
\<close>

section \<open>main/mrcoordinator.go\<close>

definition mrcoordinator_main :: "string list \<Rightarrow> go_exit + Coordinator" where
  "mrcoordinator_main args =
     (if length args < 3 then Inl (Fatal ''Usage: mrcoordinator sockname inputfiles...'')
      else Inr (MakeCoordinator (drop 2 args) 10))"

text \<open>The loop that waits for \<open>Done\<close>, over the states of the coordinator at its polls.\<close>

fun wait_done :: "(string, MapTask) lo_lib \<Rightarrow> (int, ReduceTask) lo_lib \<Rightarrow> Coordinator list \<Rightarrow> Coordinator option" where
  "wait_done Lm Lr [] = None"
| "wait_done Lm Lr (m # ms) = (if Coordinator_Done Lm Lr m then Some m else wait_done Lm Lr ms)"

section \<open>main/mrworker.go\<close>

record mr_plugin =
  pl_Map :: "(string \<Rightarrow> string \<Rightarrow> KeyValue list) option"
  pl_Reduce :: "(string \<Rightarrow> string list \<Rightarrow> string) option"

definition loadPlugin :: "(string \<rightharpoonup> mr_plugin) \<Rightarrow> string \<Rightarrow> go_exit + (string \<Rightarrow> string \<Rightarrow> KeyValue list) \<times> (string \<Rightarrow> string list \<Rightarrow> string)" where
  "loadPlugin plugins filename =
     (case plugins filename of
        None \<Rightarrow> Inl (Fatal (''cannot load plugin '' @ filename))
      | Some p \<Rightarrow>
          (case pl_Map p of
             None \<Rightarrow> Inl (Fatal (''cannot find Map in '' @ filename))
           | Some mf \<Rightarrow>
               (case pl_Reduce p of
                  None \<Rightarrow> Inl (Fatal (''cannot find Reduce in '' @ filename))
                | Some rf \<Rightarrow> Inr (mf, rf))))"

text \<open>The arguments that \<open>main\<close> passes to \<open>Worker\<close>.\<close>

definition mrworker_main :: "(string \<rightharpoonup> mr_plugin) \<Rightarrow> string list \<Rightarrow> go_exit + string \<times> JobWorker" where
  "mrworker_main plugins args =
     (if length args \<noteq> 3 then Inl (Fatal ''Usage: mrworker xxx.so sockname'')
      else and_then (loadPlugin plugins (args ! 1)) (\<lambda>(mf, rf).
        Inr (args ! 2, \<lparr>jw_workerID = 0, mapf = mf, reducef = rf\<rparr>)))"

section \<open>mr/worker.go: Worker\<close>

record work_env =
  we_done :: "nat \<Rightarrow> call_outcome"
  we_t1 :: int
  we_t2 :: int
  we_assign :: "nat \<Rightarrow> call_outcome"
  we_groups :: "(int \<rightharpoonup> KeyValue list) \<Rightarrow> int list"
  we_tmps :: "kvfs \<Rightarrow> int \<Rightarrow> tmp_outcome"
  we_reports :: "(int \<rightharpoonup> string) \<Rightarrow> int list"
  we_keys :: "(string \<rightharpoonup> KeyValue list) \<Rightarrow> string list"
  we_out :: out_outcome
  we_report :: "nat \<Rightarrow> call_outcome"

type_synonym work_state = "kvfs \<times> (string \<rightharpoonup> string) \<times> Coordinator"

definition map_groups :: "mr_job \<Rightarrow> JobWorker \<Rightarrow> MapTask \<Rightarrow> int \<rightharpoonup> KeyValue list" where
  "map_groups J w t = (case j_input J (MapTask_Id t) of None \<Rightarrow> Map.empty
     | Some content \<Rightarrow> lo_GroupByInt (j_W J) (mapf w (MapTask_Id t) content) (partition_of (NReduce t)))"

definition run_map :: "mr_job \<Rightarrow> JobWorker \<Rightarrow> work_env \<Rightarrow> MapTask \<Rightarrow> kvfs \<Rightarrow> Coordinator \<Rightarrow> task_err option \<times> kvfs \<times> Coordinator" where
  "run_map J w e t fs c =
     (let ks = we_groups e (map_groups J w t);
          ks' = (case fst (mapTask_files (j_W J) w (j_input J) ks (we_tmps e fs) t fs) of Inl _ \<Rightarrow> [] | Inr m \<Rightarrow> we_reports e m)
      in JobWorker_mapTask (j_W J) w (j_input J) ks (we_tmps e fs) (we_report e) ks' t fs c)"

definition run_reduce :: "mr_job \<Rightarrow> JobWorker \<Rightarrow> work_env \<Rightarrow> ReduceTask \<Rightarrow> kvfs \<Rightarrow> (string \<rightharpoonup> string) \<Rightarrow> Coordinator \<Rightarrow>
    task_err option \<times> (string \<rightharpoonup> string) \<times> Coordinator" where
  "run_reduce J w e t fs outs c =
     JobWorker_reduceTask (j_W J) w (we_keys e (lo_GroupByString (j_W J) (lo_FlatMap (j_W J) (Filenames t) (read_or_empty fs)) Key))
       (we_out e) (we_report e) t fs outs c"

definition work_round :: "mr_job \<Rightarrow> JobWorker \<Rightarrow> work_env \<Rightarrow> work_state \<Rightarrow> work_state" where
  "work_round J w e = (\<lambda>(fs, outs, c).
     snd (JobWorker_AssignTask (j_Lm J) (j_Lr J) (we_t1 e) (we_t2 e) (we_assign e) (run_map J w e) (run_reduce J w e) fs outs c))"

datatype worker_exit = NotRegistered | WorkerDone | StillRunning

fun work_loop :: "mr_job \<Rightarrow> JobWorker \<Rightarrow> work_env list \<Rightarrow> work_state \<Rightarrow> worker_exit \<times> work_state" where
  "work_loop J w [] st = (StillRunning, st)"
| "work_loop J w (e # es) st =
     (if \<not> JobWorker_IsWaiting (j_Lm J) (j_Lr J) (we_done e) (snd (snd st)) then (WorkerDone, st)
      else work_loop J w es (work_round J w e st))"

definition Worker :: "mr_job \<Rightarrow> (nat \<Rightarrow> call_outcome) \<Rightarrow> work_env list \<Rightarrow> work_state \<Rightarrow> worker_exit \<times> work_state" where
  "Worker J os es = (\<lambda>(fs, outs, c).
     case JobWorker_Register os (j_worker J) c of
       (False, w, c') \<Rightarrow> (NotRegistered, fs, outs, c')
     | (True, w, c') \<Rightarrow> work_loop J w es (fs, outs, c'))"

section \<open>One healthy worker\<close>

text \<open>Calls get through at the first attempt, file operations work, temporary names are new.\<close>

definition healthy :: "work_env \<Rightarrow> bool" where
  "healthy e \<longleftrightarrow> we_done e 0 = CallOK \<and> we_assign e 0 = CallOK \<and> we_report e 0 = CallOK \<and> we_out e = OutWritten \<and>
     (\<forall>m. finite (dom m) \<longrightarrow> key_order m (we_groups e m)) \<and> (\<forall>m. finite (dom m) \<longrightarrow> key_order m (we_reports e m)) \<and>
     (\<forall>m. finite (dom m) \<longrightarrow> key_order m (we_keys e m)) \<and>
     (\<forall>fs. finite (dom fs) \<longrightarrow> (\<exists>nm. inj nm \<and> (\<forall>k. nm k \<notin> dom fs) \<and> we_tmps e fs = (\<lambda>k. Written (nm k))))"

text \<open>No task is in the hands of a worker.\<close>

definition idle :: "Coordinator \<Rightarrow> bool" where
  "idle c \<longleftrightarrow> (\<forall>k. m_statusMap (mapManager c) k \<noteq> Some TaskAssigned) \<and> (\<forall>i. r_statusMap (reduceMgr c) i \<noteq> Some TaskAssigned)"

text \<open>A state of the job that the worker is in between two rounds.\<close>

definition between :: "mr_job \<Rightarrow> kvfs \<Rightarrow> mr_sys \<Rightarrow> work_state \<Rightarrow> bool" where
  "between J kv0 s st \<longleftrightarrow> mr_reach J kv0 s \<and> st = (s_kv s, s_out s, s_coord s) \<and> s_writers s = {#} \<and> idle (s_coord s)"

lemma retry_first: "os 0 = CallOK \<Longrightarrow> retry RPCRetryCount os 0 h c = (Some (fst (h c)), snd (h c))"
  by (simp add: RPCRetryCount_def eval_nat_numeral Let_def split: prod.splits)

lemma same_worker:
  "mapTask_files W (w\<lparr>jw_workerID := x\<rparr>) input ks tmps t fs = mapTask_files W w input ks tmps t fs"
  "reduceTask_lines W (w\<lparr>jw_workerID := x\<rparr>) keys rt fs = reduceTask_lines W w keys rt fs"
  "map_groups J (w\<lparr>jw_workerID := x\<rparr>) t = map_groups J w t"
  by (simp_all add: mapTask_files_def reduceTask_lines_def map_groups_def split: option.split)

lemma mapTask_files_healthy:
  assumes "healthy e" and "finite (dom fs)" and "input (MapTask_Id task) = Some content" and "NReduce task \<noteq> 0" and "distinct ks"
  shows "\<exists>m fs'. mapTask_files W w input ks (we_tmps e fs) task fs = (Inr m, fs')"
proof -
  obtain nm where nm: "inj nm" "\<forall>k. nm k \<notin> dom fs" "we_tmps e fs = (\<lambda>k. Written (nm k))"
    using assms(1,2) unfolding healthy_def by blast
  then show ?thesis using assms(3-) write_groups_succeeds [of ks nm fs] by (simp add: mapTask_files_def Let_def)
qed
lemma map_groups_finite: "lo_worker_ok (j_W J) \<Longrightarrow> finite (dom (map_groups J w t))"
  by (auto simp: map_groups_def lo_worker_ok_def dom_group_spec split: option.splits)

text \<open>A round while map tasks are open: hand out, run, report.\<close>

lemma map_work_round:
  assumes J: "job_ok J" and e: "healthy e" and fin: "finite (dom kv0)" and input: "\<forall>f\<in>set (j_files J). j_input J f \<noteq> None"
    and st: "between J kv0 s st" and k: "k \<in> mapm.open_tasks (mapManager (s_coord s))" and w: "w = (j_worker J)\<lparr>jw_workerID := wid\<rparr>"
  shows "\<exists>s'. between J kv0 s' (work_round J w e st) \<and> unfinished s' < unfinished s"
proof -
  let ?c = "s_coord s" and ?m = "mapManager (s_coord s)"
  have r: "mr_reach J kv0 s" and idle: "idle ?c" using st by (simp_all add: between_def)
  have inv: "mr_inv J s" using mr_reach_inv [OF r J] .
  have mi: "map_inv ?m" using inv by (simp add: mr_inv_def inv_tables_def coord_inv_def)
  have lib: "lo_ok (j_Lm J)" and W: "lo_worker_ok (j_W J)" using J by (simp_all add: job_ok_def)
  have "m_statusMap ?m k = Some TaskPending" using k idle by (auto simp: mapm.open_tasks_def idle_def) (metis TaskStatus.exhaust)
  then obtain t where t: "MapTaskManager_GetPendingTask (j_Lm J) (we_t1 e) ?m = Some t" using mapm.pending_if_overdue [OF mi lib] by blast
  have tk: "m_tasks ?m (MapTask_Id t) = Some t" and pend: "m_statusMap ?m (MapTask_Id t) = Some TaskPending"
    using mapm.pending_Some [OF mi lib t] idle by (auto simp: idle_def)
  define c1 where "c1 = ?c\<lparr>mapManager := snd (MapTaskManager_AssignTask (we_t2 e) ?m (MapTask_Id t))\<rparr>"
  have asg: "Coordinator_AssignTask (j_Lm J) (j_Lr J) (we_t1 e) (we_t2 e) ?c = (\<lparr>resp_MapTask = Some t, resp_ReduceTask = None\<rparr>, c1)"
    by (simp add: Coordinator_AssignTask_def t c1_def)
  define s1 where "s1 = s\<lparr>s_coord := c1, s_maps := s_maps s \<union> {t}\<rparr>"
  have step1: "mr_step J s s1" using mr_step.assign [OF asg] by (simp add: s1_def)
  have f: "MapTask_Id t \<in> set (j_files J)" "NReduce t = j_nReduce J"
    using inv tk unfolding mr_inv_def inv_tables_def by (metis MapTask.select_convs(2) option.distinct(1) option.inject)+
  then obtain content where con: "j_input J (MapTask_Id t) = Some content" using input by blast
  let ?ks = "we_groups e (map_groups J w t)"
  have ks: "key_order (map_groups J w t) ?ks" using e map_groups_finite [OF W] by (simp add: healthy_def)
  have kvfin: "finite (dom (s_kv s))" using mr_reach_finite [OF r fin] .
  obtain m kv' where run: "mapTask_files (j_W J) w (j_input J) ?ks (we_tmps e (s_kv s)) t (s_kv s) = (Inr m, kv')"
    using mapTask_files_healthy [of e "s_kv s" "j_input J" t content ?ks "j_W J" w] e kvfin con key_orderD(1) [OF ks] f(2) J by (auto simp: job_ok_def)
  define req where "req = \<lparr>rmt_WorkerID = wid, rmt_MapTask = t, ReduceTaskMap = m\<rparr>"
  define s2 where "s2 = s1\<lparr>s_kv := kv', s_map_reports := insert req (s_map_reports s1)\<rparr>"
  have step2: "mr_step J s1 s2" unfolding s2_def req_def
    by (rule mr_step.map_run [of t s1 J ?ks "we_tmps e (s_kv s)"]) (use con ks run in \<open>auto simp: s1_def map_groups_def w same_worker\<close>)
  have inv2: "mr_inv J s2" using mr_step_inv [OF step2 J mr_step_inv [OF step1 J inv]] .
  then have "good_report J kv' req" by (simp add: mr_inv_def inv_files_def s2_def)
  then have ks': "key_order m (we_reports e m)" using good_report_finite [of J kv' req] e by (simp add: req_def healthy_def)
  define s3 where "s3 = s2\<lparr>s_coord := Coordinator_ReportMapTask (we_reports e m) req (s_coord s2)\<rparr>"
  have step3: "mr_step J s2 s3" unfolding s3_def by (rule mr_step.map_report) (simp_all add: s2_def req_def ks')
  have round: "work_round J w e st = (s_kv s3, s_out s3, s_coord s3)"
    using st asg run e
    by (simp add: between_def work_round_def JobWorker_AssignTask_def retry_first healthy_def run_map_def Let_def JobWorker_mapTask_def
        s3_def s2_def s1_def req_def w)
  have c1: "m_statusMap (mapManager c1) (MapTask_Id t) = Some TaskAssigned" "MapTask_Id t \<in> mapm.open_tasks (mapManager c1)" "map_inv (mapManager c1)"
    using pend map_inv_assign [OF mi] by (auto simp: c1_def mapm.open_tasks_assign mapm.status_assign) (auto simp: mapm.open_tasks_def)
  have fields: "mapManager (s_coord s3) = snd (MapTaskManager_CompleteTask (mapManager c1) (MapTask_Id t))"
    "r_statusMap (reduceMgr (s_coord s3)) = r_statusMap (reduceMgr ?c)" "redm.open_tasks (reduceMgr (s_coord s3)) = redm.open_tasks (reduceMgr ?c)"
    using c1(1) by (simp_all add: s3_def s2_def s1_def req_def Coordinator_ReportMapTask_def redm.open_tasks_def mr_simps c1_def)
  have "unfinished s3 < unfinished s"
    using mapm.complete_progress [OF c1(3,2)] fields(1,3) by (simp add: unfinished_def c1_def mapm.open_tasks_assign)
  moreover have "idle (s_coord s3)"
    using idle c1(1) fields(1,2) pend by (auto simp: idle_def mapm.status_complete c1_def mapm.status_assign)
  moreover have "mr_reach J kv0 s3" using r step1 step2 step3 by (meson mr_reach.step)
  moreover have "s_writers s3 = {#}" using st by (simp add: between_def s3_def s2_def s1_def)
  ultimately have "between J kv0 s3 (work_round J w e st)" using round unfolding between_def by blast
  then show ?thesis using \<open>unfinished s3 < unfinished s\<close> by blast
qed

text \<open>A round when the map tasks are completed.\<close>

lemma reduce_work_round:
  assumes J: "job_ok J" and e: "healthy e" and st: "between J kv0 s st"
    and maps: "mapm.open_tasks (mapManager (s_coord s)) = {}" and k: "k \<in> redm.open_tasks (reduceMgr (s_coord s))"
    and w: "w = (j_worker J)\<lparr>jw_workerID := wid\<rparr>"
  shows "\<exists>s'. between J kv0 s' (work_round J w e st) \<and> unfinished s' < unfinished s"
proof -
  let ?c = "s_coord s" and ?r = "reduceMgr (s_coord s)"
  have r: "mr_reach J kv0 s" and idle: "idle ?c" using st by (simp_all add: between_def)
  have inv: "mr_inv J s" using mr_reach_inv [OF r J] .
  have mi: "map_inv (mapManager ?c)" and ri: "reduce_inv ?r" using inv by (simp_all add: mr_inv_def inv_tables_def coord_inv_def)
  have lib: "lo_ok (j_Lm J)" "lo_ok (j_Lr J)" and W: "lo_worker_ok (j_W J)" using J by (simp_all add: job_ok_def)
  have "r_statusMap ?r k = Some TaskPending" using k idle by (auto simp: redm.open_tasks_def idle_def) (metis TaskStatus.exhaust)
  then obtain t where t: "ReduceTaskManager_GetPendingTask (j_Lr J) (we_t1 e) ?r = Some t" using redm.pending_if_overdue [OF ri lib(2)] by blast
  have pend: "r_statusMap ?r (ReduceTask_Id t) = Some TaskPending"
    using redm.pending_Some [OF ri lib(2) t] idle by (auto simp: idle_def)
  have all: "MapTaskManager_AllCompleted (j_Lm J) (mapManager ?c)" using mapm.all_done_open_tasks [OF mi lib(1)] maps by simp
  have none: "MapTaskManager_GetPendingTask (j_Lm J) (we_t1 e) (mapManager ?c) = None"
  proof (cases "MapTaskManager_GetPendingTask (j_Lm J) (we_t1 e) (mapManager ?c)")
    case (Some u)
    from mapm.pending_live [OF mi lib(1) Some] maps show ?thesis by (auto simp: mapm.open_tasks_def)
  qed
  define c1 where "c1 = ?c\<lparr>reduceMgr := snd (ReduceTaskManager_AssignTask (we_t2 e) ?r (ReduceTask_Id t))\<rparr>"
  have asg: "Coordinator_AssignTask (j_Lm J) (j_Lr J) (we_t1 e) (we_t2 e) ?c = (\<lparr>resp_MapTask = None, resp_ReduceTask = Some t\<rparr>, c1)"
    by (simp add: Coordinator_AssignTask_def t none all c1_def)
  define s1 where "s1 = s\<lparr>s_coord := c1, s_reduces := s_reduces s \<union> {t}\<rparr>"
  have step1: "mr_step J s s1" using mr_step.assign [OF asg] by (simp add: s1_def)
  let ?g = "lo_GroupByString (j_W J) (lo_FlatMap (j_W J) (Filenames t) (read_or_empty (s_kv s))) Key"
  have ks: "key_order ?g (we_keys e ?g)" using e W by (simp add: healthy_def lo_worker_ok_def dom_group_spec)
  let ?n = "out_name (ReduceTask_Id t)" and ?con = "concat (reduceTask_lines (j_W J) w (we_keys e ?g) t (s_kv s))"
  define s2 where "s2 = s1\<lparr>s_out := (s_out s1)(?n \<mapsto> []), s_writers := add_mset (t, ?con) (s_writers s1)\<rparr>"
  have step2: "mr_step J s1 s2" unfolding s2_def w same_worker
    using mr_step.reduce_create [of t s1 J "we_keys e ?g"] ks by (simp add: s1_def)
  define req where "req = \<lparr>rrt_WorkerID = wid, rrt_ReduceTask = t, rrt_Filename = ?n\<rparr>"
  define s3 where "s3 = s2\<lparr>s_out := (s_out s2)(?n \<mapsto> overlay ?con []), s_writers := s_writers s2 - {#(t, ?con)#},
      s_reduce_reports := insert req (s_reduce_reports s2)\<rparr>"
  have step3: "mr_step J s2 s3" unfolding s3_def req_def by (rule mr_step.reduce_write) (simp_all add: s2_def)
  define s4 where "s4 = s3\<lparr>s_coord := Coordinator_ReportReduceTask req (s_coord s3)\<rparr>"
  have step4: "mr_step J s3 s4" unfolding s4_def by (rule mr_step.reduce_report) (simp add: s3_def)
  have round: "work_round J w e st = (s_kv s4, s_out s4, s_coord s4)"
    using st asg e
    by (simp add: between_def work_round_def JobWorker_AssignTask_def retry_first healthy_def run_reduce_def Let_def JobWorker_reduceTask_def
        s4_def s3_def s2_def s1_def req_def w overlay_def same_worker)
  have c1: "ReduceTask_Id t \<in> redm.open_tasks (reduceMgr c1)" "reduce_inv (reduceMgr c1)"
    using pend ri by (simp_all add: c1_def redm.open_tasks_assign reduce_inv_assign) (auto simp: redm.open_tasks_def)
  have fields: "reduceMgr (s_coord s4) = snd (ReduceTaskManager_CompleteTask (reduceMgr c1) (ReduceTask_Id t))" "mapManager (s_coord s4) = mapManager ?c"
    using c1(1) by (auto simp: s4_def s3_def s2_def s1_def req_def c1_def Coordinator_ReportReduceTask_def redm.open_tasks_def)
  have "unfinished s4 < unfinished s"
    using redm.complete_progress [OF c1(2,1)] fields by (simp add: unfinished_def c1_def redm.open_tasks_assign)
  moreover have "idle (s_coord s4)"
    using idle fields pend by (auto simp: idle_def redm.status_complete c1_def redm.status_assign)
  moreover have "mr_reach J kv0 s4" using r step1 step2 step3 step4 by (meson mr_reach.step)
  moreover have "s_writers s4 = {#}" using st by (simp add: between_def s4_def s3_def s2_def s1_def)
  ultimately have "between J kv0 s4 (work_round J w e st)" using round unfolding between_def by blast
  then show ?thesis using \<open>unfinished s4 < unfinished s\<close> by blast
qed

lemma done_or_open:
  assumes "job_ok J" and "coord_inv c"
  shows "Coordinator_Done (j_Lm J) (j_Lr J) c \<longleftrightarrow> mapm.open_tasks (mapManager c) = {} \<and> redm.open_tasks (reduceMgr c) = {}"
  using assms mapm.all_done_open_tasks redm.all_done_open_tasks by (simp add: Coordinator_Done_def coord_inv_def job_ok_def)

lemma work_loop_finishes:
  assumes J: "job_ok J" and fin: "finite (dom kv0)" and input: "\<forall>f\<in>set (j_files J). j_input J f \<noteq> None"
    and w: "w = (j_worker J)\<lparr>jw_workerID := wid\<rparr>"
    and "between J kv0 s st" and "\<forall>e\<in>set es. healthy e" and "unfinished s < length es"
  shows "\<exists>s' st'. work_loop J w es st = (WorkerDone, st') \<and> between J kv0 s' st' \<and> Coordinator_Done (j_Lm J) (j_Lr J) (s_coord s')"
  using assms(5-)
proof (induction es arbitrary: s st)
  case (Cons e es)
  have e: "healthy e" using Cons.prems(2) by simp
  have c: "snd (snd st) = s_coord s" using Cons.prems(1) by (simp add: between_def)
  have ci: "coord_inv (s_coord s)"
    using mr_reach_inv [OF _ J] Cons.prems(1) by (fastforce simp: between_def mr_inv_def inv_tables_def)
  have wait: "JobWorker_IsWaiting (j_Lm J) (j_Lr J) (we_done e) (s_coord s) \<longleftrightarrow> \<not> Coordinator_Done (j_Lm J) (j_Lr J) (s_coord s)"
    using e by (simp add: JobWorker_IsWaiting_def retry_first healthy_def Coordinator_IsDone_def)
  show ?case
  proof (cases "Coordinator_Done (j_Lm J) (j_Lr J) (s_coord s)")
    case True
    then show ?thesis using Cons.prems(1) c wait by auto
  next
    case False
    then obtain k where "k \<in> mapm.open_tasks (mapManager (s_coord s)) \<or>
        mapm.open_tasks (mapManager (s_coord s)) = {} \<and> redm.open_tasks (reduceMgr (s_coord s)) \<noteq> {}" using done_or_open [OF J ci] by blast
    then obtain s1 where s1: "between J kv0 s1 (work_round J w e st)" "unfinished s1 < unfinished s"
      using map_work_round [OF J e fin input Cons.prems(1) _ w] reduce_work_round [OF J e Cons.prems(1) _ _ w] by blast
    then show ?thesis using Cons.IH [OF s1(1)] Cons.prems(2,3) False c wait by simp
  qed
qed simp

lemma unfinished_init:
  assumes "job_ok J"
  shows "unfinished (mr_init J kv0) \<le> length (j_files J) + nat (j_nReduce J)"
proof -
  let ?c = "MakeCoordinator (j_files J) (j_nReduce J)"
  have "mr_inv J (mr_init J kv0)" by (rule mr_inv_init [OF assms])
  then have t: "\<forall>f. m_tasks (mapManager ?c) f = (if f \<in> set (j_files J) then Some \<lparr>MapTask_Id = f, NReduce = j_nReduce J\<rparr> else None)"
    "dom (r_tasks (reduceMgr ?c)) = {0..<j_nReduce J}" "coord_inv ?c" by (simp_all add: mr_inv_def inv_tables_def mr_init_def)
  then have "mapm.open_tasks (mapManager ?c) \<subseteq> set (j_files J)" "redm.open_tasks (reduceMgr ?c) \<subseteq> {0..<j_nReduce J}"
    by (auto simp: mapm.open_tasks_def redm.open_tasks_def coord_inv_def map_inv_def reduce_inv_def split: if_splits)
  from card_mono [OF _ this(1)] card_mono [OF _ this(2)] card_length [of "j_files J"]
  have "card (mapm.open_tasks (mapManager ?c)) \<le> length (j_files J)" "card (redm.open_tasks (reduceMgr ?c)) \<le> nat (j_nReduce J)"
    by simp_all
  then show ?thesis by (simp add: unfinished_def mr_init_def)
qed

text \<open>Registration may be executed several times before its answer arrives.\<close>

lemma register_steps:
  assumes "JobWorker_Register os w0 (s_coord s) = (True, w, c')" and "between J kv0 s (fs, outs, s_coord s)"
  shows "\<exists>s'. between J kv0 s' (fs, outs, c') \<and> unfinished s' = unfinished s" and "\<exists>wid. w = w0\<lparr>jw_workerID := wid\<rparr>"
proof -
  let ?reg = "\<lambda>c. snd (Coordinator_Register c)"
  have step: "between J kv0 (s\<lparr>s_coord := ?reg (s_coord s)\<rparr>) (fs, outs, ?reg (s_coord s)) \<and> unfinished (s\<lparr>s_coord := ?reg (s_coord s)\<rparr>) = unfinished s"
    if "between J kv0 s (fs, outs, s_coord s)" for s
    using that mr_reach.step [OF _ mr_step.register] by (auto simp: between_def idle_def Coordinator_Register_def unfinished_def)
  have "\<exists>s'. between J kv0 s' (fs, outs, snd (retry n os i Coordinator_Register (s_coord s))) \<and>
      unfinished s' = unfinished s \<and> s_coord s' = snd (retry n os i Coordinator_Register (s_coord s))"
    if "between J kv0 s (fs, outs, s_coord s)" for n i s
    using that
  proof (induction n arbitrary: i s)
    case (Suc n)
    note one = step [OF Suc.prems]
    show ?case using Suc.IH [of "s\<lparr>s_coord := ?reg (s_coord s)\<rparr>" "Suc i"] Suc.IH [OF Suc.prems, of "Suc i"] one
      by (cases "os i") (auto simp: Let_def split: prod.splits)
  qed auto
  from this [OF assms(2), of RPCRetryCount 0] show "\<exists>s'. between J kv0 s' (fs, outs, c') \<and> unfinished s' = unfinished s"
    using assms(1) by (auto simp: JobWorker_Register_def split: prod.splits option.splits)
  show "\<exists>wid. w = w0\<lparr>jw_workerID := wid\<rparr>" using assms(1) by (auto simp: JobWorker_Register_def split: prod.splits option.splits)
qed

lemma idle_new: "idle (MakeCoordinator files n)"
  by (auto simp: idle_def MakeCoordinator_def mr_simps split: if_splits)

section \<open>The whole job\<close>

text \<open>
  C8: The two programs \<open>mrcoordinator\<close> and \<open>mrworker\<close> together do the job. A worker that registers
  with a coordinator started on readable input files, and whose calls and file operations work,
  leaves its loop after at most one round per input file and reduce task. At that moment the
  loop of the coordinator's \<open>main\<close> ends too, and the ten output files hold exactly the lines
  that \<open>mrsequential\<close> prints for the same plugin and files.
\<close>

theorem worker_finishes_job:
  assumes main: "mrcoordinator_main args = Inr c0" and wmain: "mrworker_main plugins wargs = Inr (sock, j_worker J)"
    and job: "job_ok J" "j_files J = drop 2 args" "j_nReduce J = 10" and input: "\<forall>f\<in>set (drop 2 args). j_input J f \<noteq> None"
    and fin: "finite (dom kv0)" and reg: "JobWorker_Register os (j_worker J) c0 = (True, w, c1)"
    and es: "\<forall>e\<in>set es. healthy e" "length (drop 2 args) + 10 < length es"
    and seq: "sorts_by_key srt" "mrsequential srt (mapf (j_worker J)) (reducef (j_worker J)) (j_input J) (drop 2 args) = Inr lines"
  shows "\<exists>kv outs c out. Worker J os es (kv0, Map.empty, c0) = (WorkerDone, kv, outs, c) \<and>
     (\<forall>polls. wait_done (j_Lm J) (j_Lr J) (polls @ [c]) \<noteq> None) \<and>
     (\<forall>i. 0 \<le> i \<and> i < 10 \<longrightarrow> outs (out_name i) = Some (concat (out i))) \<and> mset (concat (map out [0..9])) = mset lines"
proof -
  let ?s = "mr_init J kv0"
  have c0: "s_coord ?s = c0" using main job by (auto simp: mr_init_def mrcoordinator_main_def split: if_splits)
  have start: "between J kv0 ?s (kv0, Map.empty, c0)"
    using mr_reach.start [of J kv0] idle_new c0 by (auto simp: between_def mr_init_def)
  from register_steps [of os "j_worker J" ?s w c1 J kv0 kv0 Map.empty] reg start c0
  obtain s1 wid where s1: "between J kv0 s1 (kv0, Map.empty, c1)" "unfinished s1 = unfinished ?s" "w = (j_worker J)\<lparr>jw_workerID := wid\<rparr>" by auto
  have "unfinished s1 < length es" using s1(2) unfinished_init [OF job(1), of kv0] job(2,3) es(2) by simp
  from work_loop_finishes [OF job(1) fin _ s1(3,1) es(1) this] input job(2)
  obtain s' where run: "work_loop J w es (kv0, Map.empty, c1) = (WorkerDone, s_kv s', s_out s', s_coord s')"
    and s': "mr_reach J kv0 s'" "s_writers s' = {#}" and d: "Coordinator_Done (j_Lm J) (j_Lr J) (s_coord s')"
    by (auto simp: between_def)
  have W: "Worker J os es (kv0, Map.empty, c0) = (WorkerDone, s_kv s', s_out s', s_coord s')" using reg run by (simp add: Worker_def)
  from done_equals_sequential [OF job(1) s'(1) d s'(2) seq(1)] seq(2) job(2,3)
  obtain out where "\<forall>i. 0 \<le> i \<and> i < 10 \<longrightarrow> s_out s' (out_name i) = Some (concat (out i))" "mset (concat (map out [0..9])) = mset lines" by auto
  moreover have "wait_done (j_Lm J) (j_Lr J) (polls @ [s_coord s']) \<noteq> None" for polls by (induction polls) (simp_all add: d)
  ultimately show ?thesis using W by (intro exI [of _ "s_kv s'"] exI [of _ "s_out s'"] exI [of _ "s_coord s'"] exI [of _ out]) simp
qed

text \<open>A healthy environment, and a job of the two programs on one input file.\<close>

definition calm :: work_env where
  "calm = \<lparr>we_done = (\<lambda>_. CallOK), we_t1 = 0, we_t2 = 0, we_assign = (\<lambda>_. CallOK), we_groups = (\<lambda>m. sorted_list_of_set (dom m)),
     we_tmps = (\<lambda>fs k. Written (fresh_name fs k)), we_reports = (\<lambda>m. sorted_list_of_set (dom m)),
     we_keys = (\<lambda>m. sorted_list_of_set (dom m)), we_out = OutWritten, we_report = (\<lambda>_. CallOK)\<rparr>"

lemma calm_healthy: "healthy calm"
proof -
  have "\<exists>nm. inj nm \<and> (\<forall>k. nm k \<notin> dom fs) \<and> we_tmps calm fs = (\<lambda>k. Written (nm k))" if "finite (dom fs)" for fs
    using that fresh_name_new fresh_name_inj by (intro exI [of _ "fresh_name fs"]) (simp add: calm_def inj_def del: dom_def)
  then show ?thesis by (auto simp: healthy_def calm_def key_order_def)
qed

definition wc_plugin :: mr_plugin where
  "wc_plugin = \<lparr>pl_Map = Some (wc_Map (\<lambda>c. c \<noteq> CHR '' '')), pl_Reduce = Some wc_Reduce\<rparr>"

theorem worker_finishes_job_witness:
  "\<exists>kv outs c out. Worker (demo_job\<lparr>j_nReduce := 10\<rparr>) (\<lambda>_. CallOK) (replicate 12 calm)
       (Map.empty, Map.empty, MakeCoordinator [''in''] 10) = (WorkerDone, kv, outs, c) \<and>
     (\<forall>i. 0 \<le> i \<and> i < 10 \<longrightarrow> outs (out_name i) = Some (concat (out i))) \<and>
     mset (concat (map out [0..9])) = {#output_line ''a'' ''2'', output_line ''b'' ''1''#}"
proof -
  let ?J = "demo_job\<lparr>j_nReduce := 10\<rparr>" and ?args = "[''mrcoordinator'', ''sock'', ''in'']"
  have "mrcoordinator_main ?args = Inr (MakeCoordinator [''in''] 10)" by (simp add: mrcoordinator_main_def)
  moreover have "mrworker_main [''wc.so'' \<mapsto> wc_plugin] [''mrworker'', ''wc.so'', ''sock''] = Inr (''sock'', j_worker ?J)"
    by (simp add: mrworker_main_def loadPlugin_def wc_plugin_def demo_job_def)
  moreover have "job_ok ?J" using demo_job_ok by (simp add: job_ok_def)
  moreover have "JobWorker_Register (\<lambda>_. CallOK) (j_worker ?J) (MakeCoordinator [''in''] 10)
      = (True, (j_worker ?J)\<lparr>jw_workerID := 1\<rparr>, snd (Coordinator_Register (MakeCoordinator [''in''] 10)))"
    by (simp add: JobWorker_Register_def retry_first Coordinator_Register_def MakeCoordinator_def)
  ultimately show ?thesis
    using worker_finishes_job [of ?args "MakeCoordinator [''in''] 10" "[''wc.so'' \<mapsto> wc_plugin]" "[''mrworker'', ''wc.so'', ''sock'']" "''sock''"
        ?J Map.empty "\<lambda>_. CallOK" "(j_worker ?J)\<lparr>jw_workerID := 1\<rparr>" _ "replicate 12 calm" key_sort
        "[output_line ''a'' ''2'', output_line ''b'' ''1'']"] demo_job_sequential calm_healthy key_sort_sorts
    by (simp add: demo_job_def) blast
qed

end
