(* ===== verification/MR_Test.thy ===== *)
theory MR_Test
  imports MR_Progress
begin

text \<open>
  The acceptance check of the MapReduce tests (\<open>mr/util.go\<close>): the sorted output of the sequential
  program is compared with the sorted output files of the distributed job.

  The programs \<open>find\<close>, \<open>sort\<close> and \<open>cmp\<close> are run as processes. A directory is the list of the
  names of its files in the order in which \<open>find\<close> visits them. \<open>sort\<close> is an argument: the lines of
  its input files to the lines of its output, of which the check uses only that the result does not
  depend on the order of the input lines. \<open>cmp\<close> compares contents.
\<close>

section \<open>mr/util.go\<close>

text \<open>The lines of a text; a last line without a newline counts.\<close>

fun text_lines :: "string \<Rightarrow> string list" where
  "text_lines [] = []"
| "text_lines (c # cs) =
     (if c = newline then [] # text_lines cs
      else case text_lines cs of [] \<Rightarrow> [[c]] | l # ls \<Rightarrow> (c # l) # ls)"

definition findFiles :: "string list \<Rightarrow> (string \<Rightarrow> bool) \<Rightarrow> string list" where
  "findFiles dir s = filter s dir"

text \<open>The pattern \<open>mr-out-[0-9]\<close>.\<close>

definition out_pattern :: "string \<Rightarrow> bool" where
  "out_pattern f \<longleftrightarrow> take 7 f = ''mr-out-'' \<and> length f = 8 \<and> is_digit (last f)"

definition mergeOutput :: "(string list \<Rightarrow> string list) \<Rightarrow> string list \<Rightarrow> (string \<rightharpoonup> string) \<Rightarrow> go_exit + string list" where
  "mergeOutput sort_prog dir fs =
     (let files = findFiles dir out_pattern in
      if length files < 1 then Inl (Fatal ''reduce created no mr-out-X output files!'')
      else Inr (sort_prog (concat (map (\<lambda>f. text_lines (the (fs f))) files))))"

definition mkCorrectOutput ::
    "(string list \<Rightarrow> string list) \<Rightarrow> (KeyValue list \<Rightarrow> KeyValue list) \<Rightarrow> (string \<Rightarrow> string \<Rightarrow> KeyValue list) \<Rightarrow>
     (string \<Rightarrow> string list \<Rightarrow> string) \<Rightarrow> (string \<rightharpoonup> string) \<Rightarrow> string list \<Rightarrow> go_exit + string list" where
  "mkCorrectOutput sort_prog srt mf rf input files =
     and_then (mrsequential srt mf rf input files) (\<lambda>ls. Inr (sort_prog (text_lines (concat ls))))"

definition runCmp :: "string list \<Rightarrow> string list \<Rightarrow> string \<Rightarrow> go_exit + unit" where
  "runCmp f1 f2 msg = (if f1 \<noteq> f2 then Inl (Fatal msg) else Inr ())"

definition GenReduceTaskFilename :: "string \<Rightarrow> int \<Rightarrow> int \<Rightarrow> string" where
  "GenReduceTaskFilename filename workerId reduceId = ''mr-'' @ filename @ ''-'' @ Itoa workerId @ ''-'' @ Itoa reduceId"

text \<open>\<open>rnd\<close> is the random string.\<close>

definition coordinatorSock :: "string \<Rightarrow> string" where
  "coordinatorSock rnd = ''/tmp/5840-mr-'' @ rnd"

section \<open>Lines\<close>

lemma text_lines_append: "text_lines (a @ newline # b) = text_lines (a @ [newline]) @ text_lines b"
proof (induction a)
  case (Cons c a)
  have "text_lines (a @ [newline]) \<noteq> []" by (cases a) (auto split: list.splits)
  then show ?case using Cons by (auto split: list.splits)
qed simp

lemma text_lines_concat:
  assumes "\<forall>l\<in>set ls. \<exists>a. l = a @ [newline]"
  shows "text_lines (concat ls) = concat (map text_lines ls)"
  using assms
proof (induction ls)
  case (Cons l ls)
  then obtain a where "l = a @ [newline]" by auto
  then show ?case using Cons text_lines_append [of a "concat ls"] by simp
qed simp

lemma ref_lines_newline: "l \<in># ref_lines rf xs \<Longrightarrow> \<exists>a. l = a @ [newline]"
  by (auto simp: ref_lines_def output_line_def)

section \<open>The output files of a job\<close>

lemma out_name_pattern:
  assumes "0 \<le> i"
  shows "out_pattern (out_name i) \<longleftrightarrow> i < 10"
proof -
  have "length (itoa_nat n) = 1 \<longleftrightarrow> n < 10" for n
    by (subst itoa_nat.simps) (auto simp: itoa_nat_neq_Nil)
  moreover have "nat i < 10 \<longleftrightarrow> i < 10" using assms by linarith
  moreover have "is_digit (last (itoa_nat (nat i)))"
    using itoa_nat_digits [OF last_in_set [OF itoa_nat_neq_Nil]] by (simp add: is_digit_def)
  ultimately show ?thesis using assms by (simp add: out_pattern_def out_name_def Itoa_def itoa_nat_neq_Nil)
qed

lemma out_files:
  assumes "mr_reach J kv0 s" and "job_ok J"
  shows "dom (s_out s) \<subseteq> out_name ` {0..<j_nReduce J}"
  using assms(1)
proof (induction rule: mr_reach.induct)
  case start
  then show ?case by (simp add: mr_init_def)
next
  case (step s t)
  have inv: "mr_inv J s" by (rule mr_reach_inv [OF step(1) assms(2)])
  have ids: "ReduceTask_Id rt \<in> {0..<j_nReduce J}" if "rt \<in> s_reduces s" for rt
    using inv that by (auto simp: mr_inv_def inv_frozen_def inv_tables_def)
  have writers: "fst w \<in> s_reduces s" if "w \<in># s_writers s" for w using inv that by (simp add: mr_inv_def inv_outputs_def)
  from step(2) show ?case
  proof cases
    case (reduce_create rt ks)
    then have "dom (s_out t) = insert (out_name (ReduceTask_Id rt)) (dom (s_out s))" by (simp del: fun_upd_apply)
    then show ?thesis using step.IH ids [of rt] reduce_create(2) by blast
  next
    case (reduce_write rt content old wid)
    then have "dom (s_out t) = insert (out_name (ReduceTask_Id rt)) (dom (s_out s))" by (simp del: fun_upd_apply)
    then show ?thesis using step.IH ids [OF writers [OF reduce_write(2)]] by auto
  qed (use step.IH in auto)
qed

lemma merged_lines:
  assumes J: "job_ok J" and r: "mr_reach J kv0 s" and d: "Coordinator_Done (j_Lm J) (j_Lr J) (s_coord s)" and w: "s_writers s = {#}"
    and dir: "key_order (s_out s) dir"
  shows "mset (concat (map (\<lambda>f. text_lines (the (s_out s f))) dir)) =
    (\<Sum>l\<in>#ref_lines (reducef (j_worker J)) (concat (map (kvs_of J) (j_files J))). mset (text_lines l))"
proof -
  let ?X = "concat (map (kvs_of J) (j_files J))" and ?rf = "reducef (j_worker J)" and ?n = "j_nReduce J"
  let ?lines = "\<lambda>M. (\<Sum>l\<in>#M. mset (text_lines l))"
  have out: "mset (text_lines (the (s_out s (out_name i)))) = ?lines (ref_lines ?rf (part J i ?X))" if "i \<in> {0..<?n}" for i
  proof -
    from that have "0 \<le> i" "i < ?n" by auto
    from done_outputs [OF J r w d this] obtain ls
      where ls: "s_out s (out_name i) = Some (concat ls)" "mset ls = ref_lines ?rf (part J i ?X)" by (auto simp: valid_output_def)
    then have "\<forall>l\<in>set ls. \<exists>a. l = a @ [newline]" using ref_lines_newline by (metis set_mset_mset)
    then have "mset (text_lines (concat ls)) = ?lines (mset ls)"
      by (simp add: text_lines_concat mset_concat comp_def flip: sum_mset_sum_list)
    then show ?thesis using ls by simp
  qed
  have dom: "set dir = out_name ` {0..<?n}"
  proof -
    have "out_name i \<in> dom (s_out s)" if "0 \<le> i" "i < ?n" for i using done_outputs [OF J r w d that] by blast
    then have "out_name ` {0..<?n} \<subseteq> dom (s_out s)" by (simp add: image_subset_iff)
    then show ?thesis using out_files [OF r J] dir unfolding key_order_def by blast
  qed
  have "mset (concat (map (\<lambda>f. text_lines (the (s_out s f))) dir)) = (\<Sum>f\<in>set dir. mset (text_lines (the (s_out s f))))"
    using dir by (simp add: mset_concat comp_def key_order_def sum_list_distinct_conv_sum_set)
  also have "\<dots> = (\<Sum>i\<in>{0..<?n}. mset (text_lines (the (s_out s (out_name i)))))"
    unfolding dom by (rule sum.reindex_cong [of out_name]) (auto simp: inj_on_def out_name_inj)
  also have "\<dots> = (\<Sum>i\<in>{0..<?n}. ?lines (ref_lines ?rf (part J i ?X)))" using out by (intro sum.cong) auto
  also have "\<dots> = ?lines (\<Sum>i\<in>{0..<?n}. ref_lines ?rf (part J i ?X))" by (induction rule: finite_induct [OF finite_atLeastLessThan_int]) simp_all
  also have "\<dots> = ?lines (ref_lines ?rf ?X)" using J by (subst part_lines) (simp_all add: job_ok_def)
  finally show ?thesis .
qed

section \<open>The test accepts a finished job\<close>

lemma test_accepts:
  assumes J: "job_ok J" "j_nReduce J \<le> 10" and r: "mr_reach J kv0 s" and d: "Coordinator_Done (j_Lm J) (j_Lr J) (s_coord s)"
    and w: "s_writers s = {#}" and dir: "key_order (s_out s) dir" and srt: "sorts_by_key srt"
    and input: "j_files J \<noteq> []" "\<forall>f\<in>set (j_files J). j_input J f \<noteq> None"
    and sort_prog: "\<And>xs ys. mset xs = mset ys \<Longrightarrow> sort_prog xs = sort_prog ys"
  shows "and_then (mkCorrectOutput sort_prog srt (mapf (j_worker J)) (reducef (j_worker J)) (j_input J) (j_files J)) (\<lambda>correct.
      and_then (mergeOutput sort_prog dir (s_out s)) (\<lambda>merged. runCmp merged correct msg)) = Inr ()"
proof -
  let ?rf = "reducef (j_worker J)" and ?X = "concat (map (kvs_of J) (j_files J))"
  have oi: "order_insensitive ?rf" using J(1) by (simp add: job_ok_def)
  obtain ls where ls: "mrsequential srt (mapf (j_worker J)) ?rf (j_input J) (j_files J) = Inr ls"
    using input seq_map_Inr [THEN iffD2, OF conjI [OF input(2) refl], of "mapf (j_worker J)" "[]"] by (simp add: mrsequential_def)
  have "mset ls = ref_lines ?rf ?X" using mrsequential_spec(2) [OF srt oi ls] by (simp add: kvs_of_def [abs_def])
  moreover from this have "text_lines (concat ls) = concat (map text_lines ls)"
    using ref_lines_newline by (intro text_lines_concat) (metis set_mset_mset)
  ultimately have lines: "mset (text_lines (concat ls)) = mset (concat (map (\<lambda>f. text_lines (the (s_out s f))) dir))"
    using merged_lines [OF J(1) r d w dir] by (simp add: mset_concat comp_def flip: sum_mset_sum_list)
  have "out_pattern f" if "f \<in> set dir" for f
  proof -
    have "f \<in> out_name ` {0..<j_nReduce J}" using out_files [OF r J(1)] dir that unfolding key_order_def by blast
    then obtain i where "f = out_name i" "0 \<le> i" "i < j_nReduce J" by auto
    then show ?thesis using out_name_pattern [of i] J(2) by simp
  qed
  then have all: "findFiles dir out_pattern = dir" by (simp add: findFiles_def filter_id_conv)
  moreover have "dir \<noteq> []"
  proof -
    have "0 < j_nReduce J" using J(1) by (simp add: job_ok_def)
    then have "out_name 0 \<in> dom (s_out s)" using done_outputs [OF J(1) r w d order.refl] by blast
    then show ?thesis using dir by (auto simp: key_order_def)
  qed
  ultimately have "mergeOutput sort_prog dir (s_out s) = Inr (sort_prog (text_lines (concat ls)))"
    using sort_prog [OF lines] by (simp add: mergeOutput_def Let_def Suc_le_eq not_less)
  then show ?thesis using ls by (simp add: mkCorrectOutput_def runCmp_def)
qed

text \<open>
  The acceptance test of the MapReduce lab passes for every finished job with at most ten
  reduce tasks, however the workers ran: the merged and sorted output files are, byte for byte,
  the sorted output of the sequential program. The bound is that of the pattern
  \<open>mr-out-[0-9]\<close>, which matches no output file of a higher number.
\<close>

theorem mr_test_passes:
  assumes J: "job_ok J" "j_nReduce J \<le> 10" and r: "mr_reach J kv0 s" and d: "Coordinator_Done (j_Lm J) (j_Lr J) (s_coord s)"
    and w: "s_writers s = {#}" and dir: "key_order (s_out s) dir" and srt: "sorts_by_key srt"
    and input: "j_files J \<noteq> []" "\<forall>f\<in>set (j_files J). j_input J f \<noteq> None"
    and sort_prog: "\<And>xs ys. mset xs = mset ys \<Longrightarrow> sort_prog xs = sort_prog ys"
  shows "and_then (mkCorrectOutput sort_prog srt (mapf (j_worker J)) (reducef (j_worker J)) (j_input J) (j_files J)) (\<lambda>correct.
      and_then (mergeOutput sort_prog dir (s_out s)) (\<lambda>merged. runCmp merged correct msg)) = Inr () \<and>
    (\<forall>i \<ge> 10. \<not> out_pattern (out_name i))"
  using test_accepts [OF assms] out_name_pattern by simp

theorem mr_test_passes_witness:
  "\<exists>s dir. mr_reach demo_job Map.empty s \<and>
     and_then (mkCorrectOutput sort key_sort (mapf (j_worker demo_job)) (reducef (j_worker demo_job)) (j_input demo_job) (j_files demo_job)) (\<lambda>correct.
       and_then (mergeOutput sort dir (s_out s)) (\<lambda>merged. runCmp merged correct ''mr-wc-all'')) = Inr ()"
proof -
  obtain s where s: "mr_reach demo_job Map.empty s" "Coordinator_Done (j_Lm demo_job) (j_Lr demo_job) (s_coord s)"
    "s_writers s = {#}" using demo_job_done by blast
  have "finite (dom (s_out s))" using out_files [OF s(1) demo_job_ok] by (rule finite_subset) simp
  then obtain dir where dir: "key_order (s_out s) dir" using key_order_exists by blast
  have "j_nReduce demo_job \<le> 10" "j_files demo_job \<noteq> []" "\<forall>f\<in>set (j_files demo_job). j_input demo_job f \<noteq> None" by (simp_all add: demo_job_def)
  moreover have "mset xs = mset ys \<Longrightarrow> sort xs = sort ys" for xs ys :: "string list" by (metis mset_sort properties_for_sort sorted_sort)
  ultimately show ?thesis
    using mr_test_passes [OF demo_job_ok _ s dir key_sort_sorts, where sort_prog = sort and msg = "''mr-wc-all''"] s(1) by blast
qed

end
