(* ===== verification/Lab_RPC.thy ===== *)
theory Lab_RPC
  imports Go_Std
begin

text \<open>
  The simulated network of \<open>labrpc/labrpc.go\<close>: client ends, servers with their services, and
  the routing of requests with losses, delays and dead servers.

  Server objects are compared by address, so the network maps server names to addresses of a
  heap of servers. The state that a server's handlers work on is one value of type \<open>'s\<close>. A
  handler takes the encoded arguments and gives the encoded reply; \<open>None\<close> stands for arguments
  that do not decode, a fatal error of \<open>Unmarshall\<close>. \<open>processReq\<close> runs concurrently with
  changes of the network: it gets the network it reads first and the network when it looks
  again before replying. Its random numbers are fields of \<open>net_choice\<close>; delays have no effect of
  their own. Byte and call counters have the width they have in Go.
\<close>

type_synonym bytes = "8 word list"

record ('e) reqMsg =
  req_endname :: 'e
  req_svcMeth :: string
  req_args :: bytes

record replyMsg =
  rep_ok :: bool
  rep_reply :: bytes

definition no_reply :: replyMsg where
  "no_reply = \<lparr>rep_ok = False, rep_reply = []\<rparr>"

section \<open>Services and servers\<close>

text \<open>What reflection tells \<open>MakeService\<close> about a method of the receiver.\<close>

record 's method_info =
  mi_name :: string
  mi_PkgPath :: string
  mi_NumIn :: nat
  mi_In2_is_Ptr :: bool
  mi_NumOut :: nat
  mi_call :: "bytes \<Rightarrow> 's \<Rightarrow> (bytes \<times> 's) option"

record 's Service =
  svc_name :: string
  svc_methods :: "string \<rightharpoonup> 's method_info"

definition MakeService :: "string \<Rightarrow> 's method_info list \<Rightarrow> 's Service" where
  "MakeService name ms =
     foldl (\<lambda>svc m.
       if mi_PkgPath m \<noteq> [] \<or> mi_NumIn m \<noteq> 3 \<or> \<not> mi_In2_is_Ptr m \<or> mi_NumOut m \<noteq> 0 then svc
       else svc\<lparr>svc_methods := (svc_methods svc)(mi_name m \<mapsto> m)\<rparr>)
     \<lparr>svc_name = name, svc_methods = Map.empty\<rparr> ms"

definition Service_dispatch :: "'s Service \<Rightarrow> string \<Rightarrow> 'e reqMsg \<Rightarrow> 's \<Rightarrow> go_exit + replyMsg \<times> 's" where
  "Service_dispatch svc methname req st =
     (case svc_methods svc methname of
        Some m \<Rightarrow>
          (case mi_call m (req_args req) st of
             None \<Rightarrow> Inl (Fatal ''Unmarshall fatal'')
           | Some (r, st') \<Rightarrow> Inr (\<lparr>rep_ok = True, rep_reply = r\<rparr>, st'))
      | None \<Rightarrow> Inl (Fatal ''unknown method''))"

record 's Server =
  srv_services :: "string \<rightharpoonup> 's Service"
  srv_count :: int
  srv_dispatchf :: "(string \<Rightarrow> bytes \<Rightarrow> 's \<Rightarrow> (bytes \<times> bool) \<times> 's) option"
  srv_state :: 's

definition MakeServer :: "'s \<Rightarrow> 's Server" where
  "MakeServer st = \<lparr>srv_services = Map.empty, srv_count = 0, srv_dispatchf = None, srv_state = st\<rparr>"

definition Server_SetDispatch :: "(string \<Rightarrow> bytes \<Rightarrow> 's \<Rightarrow> (bytes \<times> bool) \<times> 's) \<Rightarrow> 's Server \<Rightarrow> 's Server" where
  "Server_SetDispatch f rs = rs\<lparr>srv_dispatchf := Some f\<rparr>"

definition Server_AddService :: "'s Service \<Rightarrow> 's Server \<Rightarrow> 's Server" where
  "Server_AddService svc rs = rs\<lparr>srv_services := (srv_services rs)(svc_name svc \<mapsto> svc)\<rparr>"

definition Server_GetCount :: "'s Server \<Rightarrow> int" where
  "Server_GetCount rs = srv_count rs"

text \<open>A method name without a dot makes the slice expression \<open>svcMeth[:dot]\<close> panic.\<close>

definition Server_dispatch :: "'s Server \<Rightarrow> 'e reqMsg \<Rightarrow> go_exit + replyMsg \<times> 's Server" where
  "Server_dispatch rs req =
     (let rs1 = rs\<lparr>srv_count := srv_count rs + 1\<rparr> in
      case LastIndex (req_svcMeth req) (CHR ''.'') of
        None \<Rightarrow> Inl (Panic ''slice bounds out of range'')
      | Some dot \<Rightarrow>
          (let serviceName = take dot (req_svcMeth req); methodName = drop (dot + 1) (req_svcMeth req) in
           case srv_dispatchf rs of
             Some f \<Rightarrow>
               (case f (req_svcMeth req) (req_args req) (srv_state rs) of
                  ((rep, ok), st') \<Rightarrow> Inr (\<lparr>rep_ok = ok, rep_reply = rep\<rparr>, rs1\<lparr>srv_state := st'\<rparr>))
           | None \<Rightarrow>
               (case srv_services rs serviceName of
                  None \<Rightarrow> Inl (Fatal ''unknown service'')
                | Some svc \<Rightarrow>
                    (case Service_dispatch svc methodName req (srv_state rs) of
                       Inl e \<Rightarrow> Inl e
                     | Inr (rep, st') \<Rightarrow> Inr (rep, rs1\<lparr>srv_state := st'\<rparr>)))))"

definition Server_Dispatch :: "'s Server \<Rightarrow> string \<Rightarrow> 'e \<Rightarrow> bytes \<Rightarrow> go_exit + (bytes \<times> bool) \<times> 's Server" where
  "Server_Dispatch rs svcMeth clnt args =
     (case Server_dispatch rs \<lparr>req_endname = clnt, req_svcMeth = svcMeth, req_args = args\<rparr> of
        Inl e \<Rightarrow> Inl e
      | Inr (rep, rs') \<Rightarrow> Inr ((rep_reply rep, rep_ok rep), rs'))"

section \<open>The network\<close>

record 'e ClientEnd =
  ce_endname :: 'e
  ce_callf :: "('e \<Rightarrow> string \<Rightarrow> bytes \<Rightarrow> bytes \<times> bool) option"

record ('e, 'n) Network =
  rn_reliable :: bool
  rn_longDelays :: bool
  rn_longReordering :: bool
  rn_ends :: "'e \<rightharpoonup> 'e ClientEnd"
  rn_enabled :: "'e \<rightharpoonup> bool"
  rn_servers :: "'n \<rightharpoonup> nat"
  rn_connections :: "'e \<rightharpoonup> 'n"
  rn_count :: "32 word"
  rn_bytes :: "64 word"

definition MakeNetwork :: "('e, 'n) Network" where
  "MakeNetwork = \<lparr>rn_reliable = True, rn_longDelays = False, rn_longReordering = False, rn_ends = Map.empty,
     rn_enabled = Map.empty, rn_servers = Map.empty, rn_connections = Map.empty, rn_count = 0, rn_bytes = 0\<rparr>"

definition Network_Reliable :: "bool \<Rightarrow> ('e, 'n) Network \<Rightarrow> ('e, 'n) Network" where
  "Network_Reliable yes rn = rn\<lparr>rn_reliable := yes\<rparr>"

definition Network_IsReliable :: "('e, 'n) Network \<Rightarrow> bool" where
  "Network_IsReliable rn = rn_reliable rn"

definition Network_LongReordering :: "bool \<Rightarrow> ('e, 'n) Network \<Rightarrow> ('e, 'n) Network" where
  "Network_LongReordering yes rn = rn\<lparr>rn_longReordering := yes\<rparr>"

definition Network_LongDelays :: "bool \<Rightarrow> ('e, 'n) Network \<Rightarrow> ('e, 'n) Network" where
  "Network_LongDelays yes rn = rn\<lparr>rn_longDelays := yes\<rparr>"

definition Network_IsLongDelays :: "('e, 'n) Network \<Rightarrow> bool" where
  "Network_IsLongDelays rn = rn_longDelays rn"

definition Network_readEndnameInfo :: "'e \<Rightarrow> ('e, 'n) Network \<Rightarrow> bool \<times> 'n option \<times> nat option \<times> bool \<times> bool" where
  "Network_readEndnameInfo endname rn =
     (let enabled = zget (rn_enabled rn) False endname;
          servername = rn_connections rn endname;
          server = (case servername of None \<Rightarrow> None | Some n \<Rightarrow> rn_servers rn n)
      in (enabled, servername, server, rn_reliable rn, rn_longReordering rn))"

definition Network_isServerDead :: "'e \<Rightarrow> 'n \<Rightarrow> nat \<Rightarrow> ('e, 'n) Network \<Rightarrow> bool" where
  "Network_isServerDead endname servername server rn =
     (if zget (rn_enabled rn) False endname = False \<or> rn_servers rn servername \<noteq> Some server then True else False)"

definition Network_MakeEnd :: "'e \<Rightarrow> ('e, 'n) Network \<Rightarrow> go_exit + 'e ClientEnd \<times> ('e, 'n) Network" where
  "Network_MakeEnd endname rn =
     (if rn_ends rn endname \<noteq> None then Inl (Fatal ''MakeEnd: already exists'')
      else let e = \<lparr>ce_endname = endname, ce_callf = None\<rparr>
           in Inr (e, rn\<lparr>rn_ends := (rn_ends rn)(endname \<mapsto> e), rn_enabled := (rn_enabled rn)(endname \<mapsto> False),
                         rn_connections := (rn_connections rn)(endname := None)\<rparr>))"

definition Network_LookupEnd :: "'e \<Rightarrow> ('e, 'n) Network \<Rightarrow> go_exit + 'e ClientEnd" where
  "Network_LookupEnd endname rn =
     (case rn_ends rn endname of None \<Rightarrow> Inl (Fatal ''MakeEnd: doesn't exists'') | Some e \<Rightarrow> Inr e)"

definition Network_DeleteEnd :: "'e \<Rightarrow> ('e, 'n) Network \<Rightarrow> go_exit + ('e, 'n) Network" where
  "Network_DeleteEnd endname rn =
     (if rn_ends rn endname = None then Inl (Fatal ''MakeEnd: doesn't exists'')
      else Inr (rn\<lparr>rn_ends := (rn_ends rn)(endname := None), rn_enabled := (rn_enabled rn)(endname := None),
                   rn_connections := (rn_connections rn)(endname := None)\<rparr>))"

definition Network_AddServer :: "'n \<Rightarrow> nat \<Rightarrow> ('e, 'n) Network \<Rightarrow> ('e, 'n) Network" where
  "Network_AddServer servername rs rn = rn\<lparr>rn_servers := (rn_servers rn)(servername \<mapsto> rs)\<rparr>"

definition Network_DeleteServer :: "'n \<Rightarrow> ('e, 'n) Network \<Rightarrow> ('e, 'n) Network" where
  "Network_DeleteServer servername rn = rn\<lparr>rn_servers := (rn_servers rn)(servername := None)\<rparr>"

definition Network_Connect :: "'e \<Rightarrow> 'n \<Rightarrow> ('e, 'n) Network \<Rightarrow> ('e, 'n) Network" where
  "Network_Connect endname servername rn = rn\<lparr>rn_connections := (rn_connections rn)(endname \<mapsto> servername)\<rparr>"

definition Network_Enable :: "'e \<Rightarrow> bool \<Rightarrow> ('e, 'n) Network \<Rightarrow> ('e, 'n) Network" where
  "Network_Enable endname enabled rn = rn\<lparr>rn_enabled := (rn_enabled rn)(endname \<mapsto> enabled)\<rparr>"

text \<open>\<open>GetCount\<close> of a name without a server dereferences a nil pointer.\<close>

definition Network_GetCount :: "'n \<Rightarrow> (nat \<Rightarrow> 's Server) \<Rightarrow> ('e, 'n) Network \<Rightarrow> go_exit + int" where
  "Network_GetCount servername heap rn =
     (case rn_servers rn servername of
        None \<Rightarrow> Inl (Panic ''nil pointer dereference'')
      | Some p \<Rightarrow> Inr (Server_GetCount (heap p)))"

definition Network_GetTotalCount :: "('e, 'n) Network \<Rightarrow> int" where
  "Network_GetTotalCount rn = sint (rn_count rn)"

definition Network_GetTotalBytes :: "('e, 'n) Network \<Rightarrow> int" where
  "Network_GetTotalBytes rn = sint (rn_bytes rn)"

text \<open>The goroutine of \<open>MakeNetwork\<close> counts every request that reaches it.\<close>

definition count_request :: "'e reqMsg \<Rightarrow> ('e, 'n) Network \<Rightarrow> ('e, 'n) Network" where
  "count_request xreq rn =
     rn\<lparr>rn_count := rn_count rn + 1, rn_bytes := rn_bytes rn + of_nat (length (req_args xreq))\<rparr>"

record net_choice =
  ch_drop_request :: bool
  ch_reply_in_time :: bool
  ch_drop_reply :: bool

text \<open>
  The reply that the caller gets, the heap after the handler ran, and the reply bytes that are
  added to the network's count. \<open>ch_reply_in_time\<close> is false when a poll found the server dead
  before the handler answered; the handler's goroutine still runs.
\<close>

definition Network_processReq ::
    "('e, 'n) Network \<Rightarrow> net_choice \<Rightarrow> ('e, 'n) Network \<Rightarrow> (nat \<Rightarrow> 's Server) \<Rightarrow> 'e reqMsg \<Rightarrow>
     go_exit + replyMsg \<times> (nat \<Rightarrow> 's Server) \<times> nat" where
  "Network_processReq rn ch rn' heap req =
     (case Network_readEndnameInfo (req_endname req) rn of
        (True, Some servername, Some server, reliable, _) \<Rightarrow>
          if \<not> reliable \<and> ch_drop_request ch then Inr (no_reply, heap, 0)
          else
            (case Server_dispatch (heap server) req of
               Inl e \<Rightarrow> Inl e
             | Inr (reply, rs') \<Rightarrow>
                 (let heap' = heap(server := rs');
                      serverDead = Network_isServerDead (req_endname req) servername server rn'
                  in if \<not> ch_reply_in_time ch \<or> serverDead then Inr (no_reply, heap', 0)
                     else if \<not> reliable \<and> ch_drop_reply ch then Inr (no_reply, heap', 0)
                     else Inr (reply, heap', length (rep_reply reply))))
      | _ \<Rightarrow> Inr (no_reply, heap, 0))"

text \<open>
  \<open>ClientEnd.Call\<close>: \<open>send\<close> is the round trip of a request through the network, \<open>destroyed\<close> that the
  network has been cleaned up. \<open>enc\<close> and \<open>dec\<close> are \<open>Marshall\<close> and \<open>Unmarshall\<close>, which end the
  program when the value does not encode or the bytes do not decode.
\<close>

definition Marshall :: "('a \<Rightarrow> bytes option) \<Rightarrow> 'a \<Rightarrow> go_exit + bytes" where
  "Marshall enc args = (case enc args of None \<Rightarrow> Inl (Fatal ''Marshall fatal'') | Some b \<Rightarrow> Inr b)"

definition Unmarshall :: "(bytes \<Rightarrow> 'r option) \<Rightarrow> bytes \<Rightarrow> go_exit + 'r" where
  "Unmarshall dec b = (case dec b of None \<Rightarrow> Inl (Fatal ''Unmarshall fatal'') | Some r \<Rightarrow> Inr r)"

definition ClientEnd_SetCall :: "('e \<Rightarrow> string \<Rightarrow> bytes \<Rightarrow> bytes \<times> bool) \<Rightarrow> 'e ClientEnd \<Rightarrow> 'e ClientEnd" where
  "ClientEnd_SetCall f e = e\<lparr>ce_callf := Some f\<rparr>"

definition ClientEnd_Call ::
    "('a \<Rightarrow> bytes option) \<Rightarrow> (bytes \<Rightarrow> 'r option) \<Rightarrow> bool \<Rightarrow> ('e reqMsg \<Rightarrow> replyMsg) \<Rightarrow> 'e ClientEnd \<Rightarrow> string \<Rightarrow> 'a \<Rightarrow>
     go_exit + 'r option" where
  "ClientEnd_Call enc dec destroyed send e svcMeth args =
     and_then (Marshall enc args) (\<lambda>b.
       case ce_callf e of
         Some f \<Rightarrow>
           (case f (ce_endname e) svcMeth b of
              (rep, False) \<Rightarrow> Inr None
            | (rep, True) \<Rightarrow> and_then (Unmarshall dec rep) (\<lambda>r. Inr (Some r)))
       | None \<Rightarrow>
           if destroyed then Inr None
           else let rep = send \<lparr>req_endname = ce_endname e, req_svcMeth = svcMeth, req_args = b\<rparr>
                in if rep_ok rep then and_then (Unmarshall dec (rep_reply rep)) (\<lambda>r. Inr (Some r))
                   else Inr None)"

definition ClientEnd_Forward :: "bool \<Rightarrow> ('e reqMsg \<Rightarrow> replyMsg) \<Rightarrow> 'e ClientEnd \<Rightarrow> string \<Rightarrow> bytes \<Rightarrow> bytes \<times> bool" where
  "ClientEnd_Forward destroyed send e svcMeth args =
     (if destroyed then ([], False)
      else let rep = send \<lparr>req_endname = ce_endname e, req_svcMeth = svcMeth, req_args = args\<rparr>
           in (rep_reply rep, rep_ok rep))"

section \<open>Dispatch\<close>

lemma MakeService_methods:
  assumes "distinct (map mi_name ms)"
  shows "svc_methods (MakeService name ms) n =
    find (\<lambda>m. mi_name m = n \<and> mi_PkgPath m = [] \<and> mi_NumIn m = 3 \<and> mi_In2_is_Ptr m \<and> mi_NumOut m = 0) ms"
  using assms
proof (induction ms rule: rev_induct)
  case Nil
  then show ?case by (simp add: MakeService_def)
next
  case (snoc m ms)
  have "find P (ms @ [m]) = (case find P ms of None \<Rightarrow> if P m then Some m else None | Some x \<Rightarrow> Some x)" for P
    by (induction ms) auto
  moreover have "find (\<lambda>x. mi_name x = mi_name m \<and> Q x) ms = None" for Q
    using snoc.prems by (auto simp: find_None_iff) (metis imageI)
  ultimately show ?case
    using snoc by (auto simp: MakeService_def split: option.splits)
qed

lemma Server_dispatch_route:
  assumes "CHR ''.'' \<notin> set meth" and "srv_dispatchf rs = None" and "srv_services rs svc = Some S"
    and "svc_methods S meth = Some m" and "mi_call m (req_args req) (srv_state rs) = Some (r, st')"
    and "req_svcMeth req = svc @ CHR ''.'' # meth"
  shows "Server_dispatch rs req = Inr (\<lparr>rep_ok = True, rep_reply = r\<rparr>, rs\<lparr>srv_count := srv_count rs + 1, srv_state := st'\<rparr>)"
  using assms by (simp add: Server_dispatch_def LastIndex_append Service_dispatch_def Let_def)

lemma processReq_unreachable:
  assumes "\<not> zget (rn_enabled rn) False (req_endname req) \<or> rn_connections rn (req_endname req) = None \<or>
    (\<exists>name. rn_connections rn (req_endname req) = Some name \<and> rn_servers rn name = None)"
  shows "Network_processReq rn ch rn' heap req = Inr (no_reply, heap, 0)"
  using assms by (auto simp: Network_processReq_def Network_readEndnameInfo_def Let_def split: bool.splits option.splits)

section \<open>Properties of the network\<close>


text \<open>For the witnesses: one server with an echo method, one client end connected to it.\<close>

definition echo_server :: "nat Server" where
  "echo_server = Server_AddService (MakeService ''Echo''
     [\<lparr>mi_name = ''Do'', mi_PkgPath = [], mi_NumIn = 3, mi_In2_is_Ptr = True, mi_NumOut = 0, mi_call = (\<lambda>b n. Some (b, Suc n))\<rparr>])
     (MakeServer 0)"

definition echo_net :: "(nat, nat) Network" where
  "echo_net = Network_Enable 1 True (Network_Connect 1 5 (Network_AddServer 5 9 MakeNetwork))"

definition echo_req :: "nat reqMsg" where
  "echo_req = \<lparr>req_endname = 1, req_svcMeth = ''Echo.Do'', req_args = [7]\<rparr>"

lemma echo_dispatch:
  "Server_dispatch echo_server echo_req = Inr (\<lparr>rep_ok = True, rep_reply = [7]\<rparr>, echo_server\<lparr>srv_count := 1, srv_state := 1\<rparr>)"
  by (simp add: Server_dispatch_def echo_server_def echo_req_def Server_AddService_def MakeService_def MakeServer_def
      Service_dispatch_def)




text \<open>
  A reliable network is transparent for connected ends and a wall for the others. If the end
  is enabled and connected to a server that stays in place, the caller gets exactly what the
  server's dispatch of the request answers; a fresh end, a disabled end or an end whose server
  was deleted reaches nobody.
\<close>

theorem reliable_delivery:
  "(zget (rn_enabled rn) False (req_endname req) \<and> rn_connections rn (req_endname req) = Some name \<and> rn_servers rn name = Some server \<and>
     Network_IsReliable rn \<and> ch_reply_in_time ch \<longrightarrow>
     Network_processReq rn ch rn heap req =
       (case Server_dispatch (heap server) req of
          Inl e \<Rightarrow> Inl e
        | Inr (reply, rs') \<Rightarrow> Inr (reply, heap(server := rs'), length (rep_reply reply)))) \<and>
   Network_processReq (Network_Enable (req_endname req) False rn) ch rn' heap req = Inr (no_reply, heap, 0) \<and>
   Network_processReq (Network_DeleteServer name (Network_Connect (req_endname req) name rn)) ch rn' heap req = Inr (no_reply, heap, 0) \<and>
   (\<forall>e rn1. Network_MakeEnd (req_endname req) rn = Inr (e, rn1) \<longrightarrow>
      Network_LookupEnd (req_endname req) rn1 = Inr e \<and> Network_processReq rn1 ch rn' heap req = Inr (no_reply, heap, 0))"
proof (intro conjI impI allI)
  assume "zget (rn_enabled rn) False (req_endname req) \<and> rn_connections rn (req_endname req) = Some name \<and>
    rn_servers rn name = Some server \<and> Network_IsReliable rn \<and> ch_reply_in_time ch"
  then show "Network_processReq rn ch rn heap req =
       (case Server_dispatch (heap server) req of
          Inl e \<Rightarrow> Inl e
        | Inr (reply, rs') \<Rightarrow> Inr (reply, heap(server := rs'), length (rep_reply reply)))"
    by (auto simp: Network_processReq_def Network_readEndnameInfo_def Network_isServerDead_def Network_IsReliable_def
        Let_def split: sum.splits)
next
  fix e rn1
  assume "Network_MakeEnd (req_endname req) rn = Inr (e, rn1)"
  then show "Network_LookupEnd (req_endname req) rn1 = Inr e" "Network_processReq rn1 ch rn' heap req = Inr (no_reply, heap, 0)"
    by (auto simp: Network_MakeEnd_def Network_LookupEnd_def Let_def split: if_splits intro!: processReq_unreachable)
qed (rule processReq_unreachable, simp add: zget_def Network_Enable_def Network_DeleteServer_def Network_Connect_def)+

theorem reliable_delivery_witness:
  "\<exists>heap'. Network_processReq echo_net \<lparr>ch_drop_request = True, ch_reply_in_time = True, ch_drop_reply = True\<rparr> echo_net
     (\<lambda>_. echo_server) echo_req = Inr (\<lparr>rep_ok = True, rep_reply = [7]\<rparr>, heap', 1)"
proof -
  have "zget (rn_enabled echo_net) False (req_endname echo_req) \<and> rn_connections echo_net (req_endname echo_req) = Some 5 \<and>
      rn_servers echo_net 5 = Some 9 \<and> Network_IsReliable echo_net"
    by (simp add: echo_net_def echo_req_def Network_Enable_def Network_Connect_def Network_AddServer_def MakeNetwork_def
        Network_IsReliable_def)
  with reliable_delivery [of echo_net echo_req 5 9 "\<lparr>ch_drop_request = True, ch_reply_in_time = True, ch_drop_reply = True\<rparr>"
      "\<lambda>_. echo_server"]
  show ?thesis by (simp add: echo_dispatch)
qed

text \<open>
  \<open>dispatch\<close> routes a call \<open>Service.Method\<close> at the last dot: it runs exactly the named method
  of the named service, on the decoded arguments and the server's state, and counts the call;
  unknown services, unknown methods and undecodable arguments end the program with an error,
  and a name without a dot panics. Only exported methods with two arguments, the second a
  pointer, and no result can be called.
\<close>

theorem dispatch_routes:
  assumes "srv_dispatchf rs = None" and "distinct (map mi_name ms)" and "srv_services rs svc = Some (MakeService svc ms)"
    and "CHR ''.'' \<notin> set meth"
  shows "Server_dispatch rs \<lparr>req_endname = e, req_svcMeth = svc @ CHR ''.'' # meth, req_args = args\<rparr> =
      (case find (\<lambda>m. mi_name m = meth \<and> mi_PkgPath m = [] \<and> mi_NumIn m = 3 \<and> mi_In2_is_Ptr m \<and> mi_NumOut m = 0) ms of
         None \<Rightarrow> Inl (Fatal ''unknown method'')
       | Some m \<Rightarrow>
           (case mi_call m args (srv_state rs) of
              None \<Rightarrow> Inl (Fatal ''Unmarshall fatal'')
            | Some (r, st') \<Rightarrow> Inr (\<lparr>rep_ok = True, rep_reply = r\<rparr>, rs\<lparr>srv_count := srv_count rs + 1, srv_state := st'\<rparr>))) \<and>
    Server_dispatch rs \<lparr>req_endname = e, req_svcMeth = meth, req_args = args\<rparr> = Inl (Panic ''slice bounds out of range'') \<and>
    (srv_services rs svc' = None \<longrightarrow>
       Server_dispatch rs \<lparr>req_endname = e, req_svcMeth = svc' @ CHR ''.'' # meth, req_args = args\<rparr> = Inl (Fatal ''unknown service''))"
proof (intro conjI impI)
  have no_dot: "LastIndex meth (CHR ''.'') = None" using assms(4) by (simp add: LastIndex_None)
  show "Server_dispatch rs \<lparr>req_endname = e, req_svcMeth = meth, req_args = args\<rparr> = Inl (Panic ''slice bounds out of range'')"
    by (simp add: Server_dispatch_def no_dot Let_def)
  show "Server_dispatch rs \<lparr>req_endname = e, req_svcMeth = svc @ CHR ''.'' # meth, req_args = args\<rparr> =
      (case find (\<lambda>m. mi_name m = meth \<and> mi_PkgPath m = [] \<and> mi_NumIn m = 3 \<and> mi_In2_is_Ptr m \<and> mi_NumOut m = 0) ms of
         None \<Rightarrow> Inl (Fatal ''unknown method'')
       | Some m \<Rightarrow>
           (case mi_call m args (srv_state rs) of
              None \<Rightarrow> Inl (Fatal ''Unmarshall fatal'')
            | Some (r, st') \<Rightarrow> Inr (\<lparr>rep_ok = True, rep_reply = r\<rparr>, rs\<lparr>srv_count := srv_count rs + 1, srv_state := st'\<rparr>)))"
    using assms by (auto simp: Server_dispatch_def LastIndex_append Service_dispatch_def MakeService_methods Let_def
        split: option.splits)
  show "Server_dispatch rs \<lparr>req_endname = e, req_svcMeth = svc' @ CHR ''.'' # meth, req_args = args\<rparr> = Inl (Fatal ''unknown service'')"
    if "srv_services rs svc' = None"
    using that assms by (simp add: Server_dispatch_def LastIndex_append Let_def)
qed

theorem dispatch_routes_witness:
  "\<exists>rs'. Server_dispatch echo_server \<lparr>req_endname = 1 :: nat, req_svcMeth = ''Echo'' @ CHR ''.'' # ''Do'', req_args = [3]\<rparr> =
     Inr (\<lparr>rep_ok = True, rep_reply = [3]\<rparr>, rs')"
  by (subst dispatch_routes [where ms = "[\<lparr>mi_name = ''Do'', mi_PkgPath = [], mi_NumIn = 3, mi_In2_is_Ptr = True, mi_NumOut = 0, mi_call = (\<lambda>b n. Some (b, Suc n))\<rparr>]",
        THEN conjunct1])
    (auto simp: echo_server_def Server_AddService_def MakeService_def MakeServer_def)

end
