(* ===== verification/Tester_Servers.thy ===== *)
theory Tester_Servers
  imports Lab_RPC
begin

text \<open>
  One server of a test as the tester sees it: \<open>tester1/persister.go\<close>, \<open>tester1/srv.go\<close>, and the
  persister and argument handling of \<open>tester1/daemonclnt.go\<close> and \<open>tester1/daemonsrv.go\<close>.

  The operations work on the network of \<open>Lab_RPC\<close>, with strings as end names and server
  names. An index out of range panics. A running daemon is the persister that its process holds;
  starting a process and the sockets between tester and daemon are not modelled. Random end names
  are arguments. A \<open>nil\<close> byte slice and a \<open>nil\<close> list of end names are the empty list.
\<close>

type_synonym net = "(string, string) Network"

section \<open>tester1/persister.go\<close>

record Persister =
  raftstate :: bytes
  snapshot :: bytes

definition MakePersister :: Persister where
  "MakePersister = \<lparr>raftstate = [], snapshot = []\<rparr>"

definition clone :: "bytes \<Rightarrow> bytes" where
  "clone orig = orig"

definition Persister_Checkpoint :: "Persister \<Rightarrow> Persister" where
  "Persister_Checkpoint ps = MakePersister\<lparr>raftstate := clone (raftstate ps), snapshot := clone (snapshot ps)\<rparr>"

definition Persister_ReadRaftState :: "Persister \<Rightarrow> bytes" where
  "Persister_ReadRaftState ps = clone (raftstate ps)"

definition Persister_RaftStateSize :: "Persister \<Rightarrow> nat" where
  "Persister_RaftStateSize ps = length (raftstate ps)"

definition Persister_Save :: "bytes \<Rightarrow> bytes \<Rightarrow> Persister \<Rightarrow> Persister" where
  "Persister_Save rstate snap ps = ps\<lparr>raftstate := clone rstate, snapshot := clone snap\<rparr>"

definition Persister_ReadSnapshot :: "Persister \<Rightarrow> bytes" where
  "Persister_ReadSnapshot ps = clone (snapshot ps)"

definition Persister_SnapshotSize :: "Persister \<Rightarrow> nat" where
  "Persister_SnapshotSize ps = length (snapshot ps)"

section \<open>tester1/daemonclnt.go and tester1/daemonsrv.go\<close>

text \<open>The handlers of the daemon process, on the persister it holds.\<close>

definition DaemonSrv_Init :: "bytes \<Rightarrow> bytes \<Rightarrow> Persister" where
  "DaemonSrv_Init rstate snap = Persister_Save rstate snap MakePersister"

definition DaemonSrv_CheckpointPersister :: "Persister \<Rightarrow> bytes \<times> bytes" where
  "DaemonSrv_CheckpointPersister persister =
     (let p = Persister_Checkpoint persister in (Persister_ReadRaftState p, Persister_ReadSnapshot p))"

definition DaemonSrv_StateSize :: "Persister \<Rightarrow> nat \<times> nat" where
  "DaemonSrv_StateSize persister = (Persister_RaftStateSize persister, Persister_SnapshotSize persister)"

text \<open>The tester's side of the same calls.\<close>

definition DaemonClnt_init :: "Persister \<Rightarrow> Persister" where
  "DaemonClnt_init persister = DaemonSrv_Init (Persister_ReadRaftState persister) (Persister_ReadSnapshot persister)"

definition DaemonClnt_checkpointPersister :: "Persister \<Rightarrow> Persister" where
  "DaemonClnt_checkpointPersister dc =
     (case DaemonSrv_CheckpointPersister dc of (rstate, snap) \<Rightarrow> Persister_Save rstate snap MakePersister)"

definition DaemonClnt_stateSize :: "Persister \<Rightarrow> nat \<times> nat" where
  "DaemonClnt_stateSize dc = DaemonSrv_StateSize dc"

text \<open>The command line of a daemon, built by \<open>runDaemon\<close> and read by \<open>InitDaemon\<close>.\<close>

definition options :: "bool \<Rightarrow> string list" where
  "options UseRaftStateMachine = (if UseRaftStateMachine then [''--raft-state-machine''] else [])"

definition runDaemon_args :: "string list \<Rightarrow> bool \<Rightarrow> string \<Rightarrow> int \<Rightarrow> int \<Rightarrow> string list \<Rightarrow> string list" where
  "runDaemon_args pargs rsm endName gid srv endNames =
     pargs @ options rsm @ [Itoa gid, Itoa srv, Itoa (int (length endNames)), endName] @ endNames"

text \<open>The loop that skips options; \<open>args[0]\<close> of an empty argument panics.\<close>

fun skip_options :: "string list \<Rightarrow> nat \<Rightarrow> nat \<Rightarrow> go_exit + nat" where
  "skip_options [] i s = Inr s"
| "skip_options ([] # as) i s = Inl (Panic ''index out of range'')"
| "skip_options ((c # cs) # as) i s = (if c = CHR ''-'' then skip_options as (i + 1) (i + 1) else Inr s)"

text \<open>\<open>Inr None\<close> is the error that \<open>InitDaemon\<close> returns when a number does not parse.\<close>

definition InitDaemon_args :: "string list \<Rightarrow> go_exit + (int \<times> int \<times> string \<times> string list) option" where
  "InitDaemon_args args =
     and_then (skip_options args 0 0) (\<lambda>s.
     and_then (go_index args s) (\<lambda>a0.
     case Atoi a0 of None \<Rightarrow> Inr None | Some gid \<Rightarrow>
     and_then (go_index args (s + 1)) (\<lambda>a1.
     case Atoi a1 of None \<Rightarrow> Inr None | Some sid \<Rightarrow>
     and_then (go_index args (s + 2)) (\<lambda>a2.
     case Atoi a2 of None \<Rightarrow> Inr None | Some nsrv \<Rightarrow>
     and_then (go_index args (s + 3)) (\<lambda>testerEndName.
       if nsrv < 0 \<or> s + 4 + nat nsrv > length args then Inl (Panic ''slice bounds out of range'')
       else Inr (Some (gid, sid, testerEndName, take (nat nsrv) (drop (s + 4) args))))))))"

section \<open>tester1/srv.go\<close>

definition ServerName :: "int \<Rightarrow> int \<Rightarrow> string" where
  "ServerName gid i = ''server-'' @ Itoa gid @ ''-'' @ Itoa i"

record TServer =
  saved :: "Persister option"
  endNames :: "string list"
  dc :: "Persister option"

definition make_end :: "int \<Rightarrow> nat \<times> string \<Rightarrow> net \<Rightarrow> go_exit + net" where
  "make_end gid = (\<lambda>(j, name) net.
     and_then (Network_MakeEnd name net) (\<lambda>(_, net'). Inr (Network_Connect name (ServerName gid (int j)) net')))"

text \<open>\<open>names\<close> are the random end names that the loop draws.\<close>

definition makeServer :: "int \<Rightarrow> string list \<Rightarrow> net \<Rightarrow> go_exit + TServer \<times> net" where
  "makeServer gid names net =
     and_then (each (make_end gid) (List.enumerate 0 names) net) (\<lambda>net'.
       Inr (\<lparr>saved = None, endNames = names, dc = None\<rparr>, net'))"

definition TServer_startServer :: "int \<Rightarrow> string list \<Rightarrow> TServer \<Rightarrow> net \<Rightarrow> go_exit + TServer \<times> net" where
  "TServer_startServer gid names s net =
     and_then (makeServer gid names net) (\<lambda>(srv, net').
       Inr (srv\<lparr>saved := Some (case saved s of None \<Rightarrow> MakePersister | Some p \<Rightarrow> p)\<rparr>, net'))"

definition TServer_connect :: "bool list \<Rightarrow> nat list \<Rightarrow> TServer \<Rightarrow> net \<Rightarrow> go_exit + net" where
  "TServer_connect connected to s =
     each (\<lambda>j net. and_then (go_index connected j) (\<lambda>b.
       if b then and_then (go_index (endNames s) j) (\<lambda>endname. Inr (Network_Enable endname True net)) else Inr net)) to"

definition TServer_disconnect :: "nat list \<Rightarrow> TServer \<Rightarrow> net \<Rightarrow> go_exit + net" where
  "TServer_disconnect from s net =
     (if endNames s = [] then Inr net
      else each (\<lambda>j net. and_then (go_index (endNames s) j) (\<lambda>endname. Inr (Network_Enable endname False net))) from net)"

definition TServer_shutdownServer :: "TServer \<Rightarrow> TServer" where
  "TServer_shutdownServer s =
     (case dc s of None \<Rightarrow> s | Some d \<Rightarrow> s\<lparr>saved := Some (DaemonClnt_checkpointPersister d), dc := None\<rparr>)"

definition TServer_snapshotSize :: "TServer \<Rightarrow> go_exit + nat" where
  "TServer_snapshotSize s =
     (case dc s of
        Some d \<Rightarrow> Inr (snd (DaemonClnt_stateSize d))
      | None \<Rightarrow> (case saved s of None \<Rightarrow> Inl (Panic ''nil pointer dereference'') | Some p \<Rightarrow> Inr (Persister_SnapshotSize p)))"

definition TServer_raftSize :: "TServer \<Rightarrow> go_exit + nat" where
  "TServer_raftSize s =
     (case dc s of
        Some d \<Rightarrow> Inr (fst (DaemonClnt_stateSize d))
      | None \<Rightarrow> (case saved s of None \<Rightarrow> Inl (Panic ''nil pointer dereference'') | Some p \<Rightarrow> Inr (Persister_RaftStateSize p)))"

section \<open>The network as a switchboard\<close>

text \<open>
  The groups and the clients use the network as a board of switches: an end is on or off, and
  setting one end leaves the others alone.
\<close>

locale switchboard =
  fixes is_on :: "'n \<Rightarrow> 'e \<Rightarrow> bool"
    and set_end :: "'e \<Rightarrow> bool \<Rightarrow> 'n \<Rightarrow> 'n"
  assumes is_on_set: "is_on (set_end e b n) e' = (if e' = e then b else is_on n e')"
begin

definition set_ends :: "'e list \<Rightarrow> bool \<Rightarrow> 'n \<Rightarrow> 'n" where
  "set_ends es b n = foldl (\<lambda>n e. set_end e b n) n es"

lemma is_on_set_ends: "is_on (set_ends es b n) e = (if e \<in> set es then b else is_on n e)"
  by (induction es arbitrary: n) (auto simp: set_ends_def is_on_set)

lemma set_ends_simps [simp]:
  "set_ends [] b n = n"
  "set_ends (e # es) b n = set_ends es b (set_end e b n)"
  "set_ends (xs @ ys) b n = set_ends ys b (set_ends xs b n)"
  by (simp_all add: set_ends_def)

lemma set_ends_keeps:
  assumes "\<And>e n. f (set_end e b n) = f n"
  shows "f (set_ends es b n) = f n"
  by (induction es arbitrary: n) (simp_all add: assms)

end

definition end_on :: "net \<Rightarrow> string \<Rightarrow> bool" where
  "end_on net e = zget (rn_enabled net) False e"

interpretation sw: switchboard end_on Network_Enable
  by unfold_locales (simp add: end_on_def Network_Enable_def zget_def)

abbreviation enable_all :: "string list \<Rightarrow> bool \<Rightarrow> net \<Rightarrow> net" where
  "enable_all \<equiv> sw.set_ends"

lemma enable_all_fields [simp]:
  "rn_connections (enable_all es v net) = rn_connections net"
  "rn_servers (enable_all es v net) = rn_servers net"
  "rn_ends (enable_all es v net) = rn_ends net"
  "rn_reliable (enable_all es v net) = rn_reliable net"
  by (rule sw.set_ends_keeps, simp add: Network_Enable_def)+

text \<open>A request on an end that is off reaches nobody.\<close>

lemma processReq_off:
  "\<not> end_on net (req_endname req) \<Longrightarrow> Network_processReq net ch net' heap req = Inr (no_reply, heap, 0)"
  by (rule processReq_unreachable) (simp add: end_on_def)

text \<open>What \<open>makeServer\<close> does to the network.\<close>

lemma each_make_end:
  assumes "each (make_end gid) (List.enumerate k names) net = Inr net'"
  shows "distinct names \<and> set names \<inter> dom (rn_ends net) = {} \<and> dom (rn_ends net') = dom (rn_ends net) \<union> set names \<and>
    (\<forall>j<length names. rn_connections net' (names ! j) = Some (ServerName gid (int (k + j)))) \<and>
    (\<forall>e. e \<notin> set names \<longrightarrow> rn_connections net' e = rn_connections net e \<and> rn_enabled net' e = rn_enabled net e) \<and>
    (\<forall>e\<in>set names. rn_enabled net' e = Some False) \<and> rn_servers net' = rn_servers net"
  using assms
proof (induction names arbitrary: k net)
  case (Cons name names)
  then obtain net1 where m: "make_end gid (k, name) net = Inr net1" "each (make_end gid) (List.enumerate (Suc k) names) net1 = Inr net'"
    by (auto simp: and_then_eq_Inr)
  note IH = Cons.IH [OF m(2)]
  have n1: "rn_ends net name = None" "dom (rn_ends net1) = insert name (dom (rn_ends net))"
    "rn_connections net1 = (rn_connections net)(name \<mapsto> ServerName gid (int k))" "rn_enabled net1 = (rn_enabled net)(name \<mapsto> False)"
    "rn_servers net1 = rn_servers net"
    using m(1) by (auto simp: make_end_def and_then_eq_Inr Network_MakeEnd_def Network_Connect_def Let_def split: if_splits)
  have "name \<notin> set names" using IH n1(2) by auto
  moreover have "rn_connections net' ((name # names) ! j) = Some (ServerName gid (int (k + j)))" if "j < length (name # names)" for j
    using that IH n1(3) calculation by (cases j) auto
  ultimately show ?case using IH n1 by auto
qed auto

lemma makeServer_net:
  assumes "makeServer gid names net = Inr (s, net')"
  shows "s = \<lparr>saved = None, endNames = names, dc = None\<rparr> \<and> distinct names \<and> set names \<inter> dom (rn_ends net) = {} \<and>
    dom (rn_ends net') = dom (rn_ends net) \<union> set names \<and>
    (\<forall>j<length names. rn_connections net' (names ! j) = Some (ServerName gid (int j))) \<and>
    (\<forall>e. e \<notin> set names \<longrightarrow> rn_connections net' e = rn_connections net e \<and> rn_enabled net' e = rn_enabled net e) \<and>
    (\<forall>e\<in>set names. rn_enabled net' e = Some False) \<and> rn_servers net' = rn_servers net"
  using assms each_make_end [of gid 0 names net] by (auto simp: makeServer_def and_then_eq_Inr)

lemma skip_options_dashes:
  assumes "\<forall>a\<in>set opts. a \<noteq> [] \<and> hd a = CHR ''-''" and "c \<noteq> CHR ''-''" and "i = s"
  shows "skip_options (opts @ (c # cs) # rest) i s = Inr (s + length opts)"
  using assms
proof (induction opts arbitrary: i s)
  case (Cons a opts)
  obtain d ds where "a = d # ds" using Cons.prems(1) by (cases a) auto
  then show ?case using Cons by simp
qed simp
section \<open>Command lines\<close>

text \<open>
  A daemon reads back the command line that the tester builds for it: with program
  arguments that are options, \<open>InitDaemon\<close> gets the group, the server number, the tester's end
  and the server's ends that were given to \<open>runDaemon\<close>.
\<close>

theorem daemon_args_roundtrip:
  assumes "\<forall>a\<in>set pargs. a \<noteq> [] \<and> hd a = CHR ''-''" and "0 \<le> gid" and "gid < 2 ^ 63" and "- (2 ^ 63) \<le> srv" and "srv < 2 ^ 63"
    and "length ends < 2 ^ 63"
  shows "InitDaemon_args (runDaemon_args pargs rsm endName gid srv ends) = Inr (Some (gid, srv, endName, ends))"
proof -
  let ?opts = "pargs @ options rsm"
  obtain c cs where g: "Itoa gid = c # cs" by (cases "Itoa gid") (use assms(2) in \<open>simp_all add: Itoa_def\<close>)
  have "is_digit c" using itoa_nat_hd [of "nat gid"] g assms(2) by (simp add: Itoa_def)
  then have c: "c \<noteq> CHR ''-''" by (auto simp: is_digit_def)
  have opts: "\<forall>a\<in>set ?opts. a \<noteq> [] \<and> hd a = CHR ''-''" using assms(1) by (auto simp: options_def)
  define rest where "rest = [Itoa srv, Itoa (int (length ends)), endName] @ ends"
  have args: "runDaemon_args pargs rsm endName gid srv ends = ?opts @ Itoa gid # rest" by (simp add: runDaemon_args_def rest_def)
  have skip: "skip_options (?opts @ Itoa gid # rest) 0 0 = Inr (length ?opts)"
    using skip_options_dashes [OF opts c, of 0 0 cs rest] g by simp
  have idx: "go_index (?opts @ xs) (length ?opts + k) = go_index xs k" for xs and k :: nat
    unfolding go_index_def nth_append_length_plus by simp
  have at: "go_index (?opts @ Itoa gid # rest) (length ?opts) = Inr (Itoa gid)" "go_index (?opts @ Itoa gid # rest) (length ?opts + 1) = Inr (Itoa srv)"
    "go_index (?opts @ Itoa gid # rest) (length ?opts + 2) = Inr (Itoa (int (length ends)))"
    "go_index (?opts @ Itoa gid # rest) (length ?opts + 3) = Inr endName"
    by (simp_all only: idx idx [of _ 0, unfolded add_0_right]) (simp_all add: rest_def go_index_def)
  have nums: "Atoi (Itoa gid) = Some gid" "Atoi (Itoa srv) = Some srv" "Atoi (Itoa (int (length ends))) = Some (int (length ends))"
    using assms(2-6) by (simp_all add: Atoi_Itoa)
  have "drop (length ?opts + 4) (?opts @ Itoa gid # rest) = ends" by (simp add: rest_def)
  then show ?thesis unfolding args InitDaemon_args_def skip at and_then_Inr nums option.case by (simp add: rest_def)
qed

theorem daemon_args_roundtrip_witness:
  "InitDaemon_args (runDaemon_args [''--max-raft-state=1000''] False ''tester'' 0 1 [''x'', ''-y'']) = Inr (Some (0, 1, ''tester'', [''x'', ''-y'']))"
  by (rule daemon_args_roundtrip) simp_all

end
