(* ===== verification/Tester_Demux.thy ===== *)
theory Tester_Demux
  imports Go_Std
begin

text \<open>
  The connections between the tester and its daemons (\<open>tester1/demux\<close>): messages framed by their
  length on a byte stream (\<open>transport.go\<close>), the table of outstanding calls (\<open>callmap.go\<close>), and
  the client and server ends that match replies with calls by a tag (\<open>dmxclnt.go\<close>, \<open>dmxsrv.go\<close>).

  Bytes are \<open>8 word\<close>s, tags and lengths \<open>32 word\<close>s that wrap. The encoding of a message
  (\<open>labgob\<close>) is an argument. A stream that does not hold a complete message gives \<open>None\<close>: the
  reader waits for more, or sees the connection's error.
\<close>

type_synonym byte_list = "8 word list"

section \<open>tester1/demux/transport.go\<close>

type_synonym Ttag = "32 word"

record msg =
  msg_Tag :: Ttag
  msg_Data :: byte_list
  msg_Ok :: bool

definition le32 :: "32 word \<Rightarrow> byte_list" where
  "le32 w = [ucast w, ucast (drop_bit 8 w), ucast (drop_bit 16 w), ucast (drop_bit 24 w)]"

fun un_le32 :: "byte_list \<Rightarrow> 32 word" where
  "un_le32 [a, b, c, d] = ucast a OR push_bit 8 (ucast b) OR push_bit 16 (ucast c) OR push_bit 24 (ucast d)"
| "un_le32 _ = 0"

definition transport_WriteCall :: "(msg \<Rightarrow> byte_list) \<Rightarrow> Ttag \<Rightarrow> byte_list \<Rightarrow> bool \<Rightarrow> byte_list \<Rightarrow> byte_list" where
  "transport_WriteCall enc tag d ok wire =
     (let b = enc \<lparr>msg_Tag = tag, msg_Data = d, msg_Ok = ok\<rparr> in wire @ le32 (of_nat (length b)) @ b)"

definition transport_ReadCall :: "(byte_list \<Rightarrow> msg option) \<Rightarrow> byte_list \<Rightarrow> (go_exit + msg \<times> byte_list) option" where
  "transport_ReadCall dec wire =
     (if length wire < 4 then None
      else let nbyte = unat (un_le32 (take 4 wire)); rest = drop 4 wire in
        if length rest < nbyte then None
        else (case dec (take nbyte rest) of
                None \<Rightarrow> Some (Inl (Fatal ''Unmarshall fatal''))
              | Some m \<Rightarrow> Some (Inr (m, drop nbyte rest))))"

text \<open>What a loop of \<open>ReadCall\<close> gets out of a stream.\<close>

function read_calls :: "(byte_list \<Rightarrow> msg option) \<Rightarrow> byte_list \<Rightarrow> go_exit + msg list" where
  "read_calls dec wire =
     (case transport_ReadCall dec wire of
        None \<Rightarrow> Inr []
      | Some (Inl e) \<Rightarrow> Inl e
      | Some (Inr (m, rest)) \<Rightarrow> and_then (read_calls dec rest) (\<lambda>ms. Inr (m # ms)))"
  by pat_completeness auto
termination
  by (relation "measure (\<lambda>(dec, wire). length wire)")
    (auto simp: transport_ReadCall_def Let_def split: if_splits option.splits)

declare read_calls.simps [simp del]

section \<open>tester1/demux/callmap.go\<close>

text \<open>A channel is the number of the call that waits on it.\<close>

record callMap =
  cm_closed :: bool
  cm_calls :: "Ttag \<rightharpoonup> nat"

definition newCallMap :: callMap where
  "newCallMap = \<lparr>cm_closed = False, cm_calls = Map.empty\<rparr>"

definition callMap_close :: "callMap \<Rightarrow> callMap" where
  "callMap_close cm = cm\<lparr>cm_closed := True\<rparr>"

definition callMap_isClosed :: "callMap \<Rightarrow> bool" where
  "callMap_isClosed cm = cm_closed cm"

text \<open>\<open>None\<close> is the error ``conn closed''.\<close>

definition callMap_put :: "Ttag \<Rightarrow> nat \<Rightarrow> callMap \<Rightarrow> callMap option" where
  "callMap_put tag ch cm = (if cm_closed cm then None else Some (cm\<lparr>cm_calls := (cm_calls cm)(tag \<mapsto> ch)\<rparr>))"

definition callMap_remove :: "Ttag \<Rightarrow> callMap \<Rightarrow> nat option \<times> callMap" where
  "callMap_remove tag cm =
     (case cm_calls cm tag of
        Some ch \<Rightarrow> (Some ch, cm\<lparr>cm_calls := (cm_calls cm)(tag := None)\<rparr>)
      | None \<Rightarrow> (None, cm))"

text \<open>\<open>ks\<close> is the order of the loop over the map.\<close>

definition callMap_outstanding :: "Ttag list \<Rightarrow> callMap \<Rightarrow> Ttag list" where
  "callMap_outstanding ks cm = filter (\<lambda>t. cm_calls cm t \<noteq> None) ks"

section \<open>tester1/demux/dmxclnt.go and tester1/demux/dmxsrv.go\<close>

datatype dmx_reader = ReaderRuns | ReaderFails "Ttag list" | ReaderStopped

text \<open>
  A client end, the server end it talks to, and what is under way between them: calls that are
  registered but not yet written, requests on the way or being served, replies on the way. The
  calls are numbered; \<open>dm_req\<close> is what each asked and \<open>dm_result\<close> the reply, its flag, and
  whether it carries an error.
\<close>

record dmx_sys =
  dm_callmap :: callMap
  dm_nextTag :: Ttag
  dm_count :: nat
  dm_req :: "nat \<Rightarrow> byte_list"
  dm_unwritten :: "(Ttag \<times> byte_list) list"
  dm_requests :: "(Ttag \<times> byte_list) list"
  dm_replies :: "(Ttag \<times> byte_list \<times> bool) list"
  dm_result :: "nat \<rightharpoonup> byte_list \<times> bool \<times> bool"
  dm_reader :: dmx_reader
  dm_fatal :: bool

text \<open>The initial message of \<open>NewDemuxClnt\<close> takes tag 0.\<close>

definition NewDemuxClnt :: dmx_sys where
  "NewDemuxClnt = \<lparr>dm_callmap = newCallMap, dm_nextTag = 1, dm_count = 0, dm_req = (\<lambda>_. []), dm_unwritten = [], dm_requests = [],
     dm_replies = [], dm_result = Map.empty, dm_reader = ReaderRuns, dm_fatal = False\<rparr>"

definition DemuxClnt_tag :: "dmx_sys \<Rightarrow> Ttag \<times> dmx_sys" where
  "DemuxClnt_tag st = (dm_nextTag st, st\<lparr>dm_nextTag := dm_nextTag st + 1\<rparr>)"

definition DemuxClnt_reply :: "Ttag \<Rightarrow> byte_list \<Rightarrow> bool \<Rightarrow> bool \<Rightarrow> dmx_sys \<Rightarrow> dmx_sys" where
  "DemuxClnt_reply tag b oks err st =
     (case callMap_remove tag (dm_callmap st) of
        (Some ch, cm) \<Rightarrow> st\<lparr>dm_callmap := cm, dm_result := (dm_result st)(ch \<mapsto> (b, oks, err))\<rparr>
      | (None, cm) \<Rightarrow> st\<lparr>dm_fatal := True\<rparr>)"

text \<open>\<open>SendReceive\<close> up to the write: a new call takes a tag and is registered, or fails at once.\<close>

definition DemuxClnt_SendReceive :: "byte_list \<Rightarrow> dmx_sys \<Rightarrow> dmx_sys" where
  "DemuxClnt_SendReceive b st =
     (case DemuxClnt_tag st of
        (t, st1) \<Rightarrow>
          (let ch = dm_count st; st2 = st1\<lparr>dm_count := Suc ch, dm_req := (dm_req st)(ch := b)\<rparr> in
           case callMap_put t ch (dm_callmap st2) of
             None \<Rightarrow> st2\<lparr>dm_result := (dm_result st2)(ch \<mapsto> ([], False, True))\<rparr>
           | Some cm \<Rightarrow> st2\<lparr>dm_callmap := cm, dm_unwritten := dm_unwritten st2 @ [(t, b)]\<rparr>))"

definition DemuxClnt_Close :: "dmx_sys \<Rightarrow> dmx_sys" where
  "DemuxClnt_Close st =
     (if callMap_isClosed (dm_callmap st) then st else st\<lparr>dm_callmap := callMap_close (dm_callmap st)\<rparr>)"

text \<open>
  The steps of the two ends. \<open>answer req rep\<close> says that \<open>rep\<close> is a possible result of
  \<open>ServeRequest\<close>; the server works on its requests concurrently. A write may fail, and the
  connection may break at any time.
\<close>

inductive dmx_step :: "(byte_list \<Rightarrow> byte_list \<times> bool \<Rightarrow> bool) \<Rightarrow> dmx_sys \<Rightarrow> dmx_sys \<Rightarrow> bool" for answer where
  dmx_send: "dmx_step answer st (DemuxClnt_SendReceive b st)"
| dmx_write: "dm_unwritten st = xs @ (t, b) # ys \<Longrightarrow> written \<in> {[], [(t, b)]} \<Longrightarrow>
    dmx_step answer st (st\<lparr>dm_unwritten := xs @ ys, dm_requests := dm_requests st @ written\<rparr>)"
| dmx_serve: "dm_requests st = xs @ (t, b) # ys \<Longrightarrow> answer b (rep, ok) \<Longrightarrow> written \<in> {[], [(t, rep, ok)]} \<Longrightarrow>
    dmx_step answer st (st\<lparr>dm_requests := xs @ ys, dm_replies := dm_replies st @ written\<rparr>)"
| dmx_read: "dm_reader st = ReaderRuns \<Longrightarrow> dm_replies st = (t, rep, ok) # rs \<Longrightarrow>
    dmx_step answer st (DemuxClnt_reply t rep ok False (st\<lparr>dm_replies := rs\<rparr>))"
| dmx_break: "dm_reader st = ReaderRuns \<Longrightarrow> key_order (cm_calls (dm_callmap st)) ks \<Longrightarrow>
    dmx_step answer st (st\<lparr>dm_callmap := callMap_close (dm_callmap st),
      dm_reader := ReaderFails (callMap_outstanding ks (callMap_close (dm_callmap st)))\<rparr>)"
| dmx_fail: "dm_reader st = ReaderFails (t # ts) \<Longrightarrow>
    dmx_step answer st (DemuxClnt_reply t [] False True (st\<lparr>dm_reader := ReaderFails ts\<rparr>))"
| dmx_stop: "dm_reader st = ReaderFails [] \<Longrightarrow> dmx_step answer st (st\<lparr>dm_reader := ReaderStopped\<rparr>)"
| dmx_close: "dmx_step answer st (DemuxClnt_Close st)"

inductive dmx_reach :: "(byte_list \<Rightarrow> byte_list \<times> bool \<Rightarrow> bool) \<Rightarrow> dmx_sys \<Rightarrow> bool" for answer where
  dmx_init: "dmx_reach answer NewDemuxClnt"
| dmx_next: "dmx_reach answer st \<Longrightarrow> dmx_step answer st st' \<Longrightarrow> dmx_reach answer st'"

section \<open>Framing\<close>

lemma un_le32_le32: "un_le32 (le32 w) = w"
proof (rule bit_word_eqI)
  fix n assume n: "n < LENGTH(32)"
  have "bit (un_le32 (le32 w)) n \<longleftrightarrow> bit w n \<and> (n < 8 \<or> (8 \<le> n \<and> n < 16) \<or> (16 \<le> n \<and> n < 24) \<or> (24 \<le> n \<and> n < 32))"
    using n by (auto simp: le32_def bit_simps)
  then show "bit (un_le32 (le32 w)) n \<longleftrightarrow> bit w n" using n by simp linarith
qed

lemma length_le32 [simp]: "length (le32 w) = 4"
  by (simp add: le32_def)

definition frame :: "(msg \<Rightarrow> byte_list) \<Rightarrow> msg \<Rightarrow> byte_list" where
  "frame enc m = le32 (of_nat (length (enc m))) @ enc m"

lemma WriteCall_frame: "transport_WriteCall enc tag d ok wire = wire @ frame enc \<lparr>msg_Tag = tag, msg_Data = d, msg_Ok = ok\<rparr>"
  by (simp add: transport_WriteCall_def frame_def Let_def)

lemma ReadCall_frame:
  assumes "dec (enc m) = Some m" and "length (enc m) < 2 ^ 32"
  shows "transport_ReadCall dec (frame enc m @ rest) = Some (Inr (m, rest))"
proof -
  have "unat (of_nat (length (enc m)) :: 32 word) = length (enc m)" using assms(2) by (simp add: unsigned_of_nat take_bit_nat_eq_self)
  then show ?thesis using assms(1) by (simp add: transport_ReadCall_def frame_def un_le32_le32 Let_def)
qed

lemma ReadCall_incomplete:
  assumes "length (enc m) < 2 ^ 32" and "k < length (frame enc m)"
  shows "transport_ReadCall dec (take k (frame enc m)) = None"
proof (cases "k < 4")
  case True
  then show ?thesis using assms(2) by (simp add: transport_ReadCall_def)
next
  case False
  have "unat (of_nat (length (enc m)) :: 32 word) = length (enc m)" using assms(1) by (simp add: unsigned_of_nat take_bit_nat_eq_self)
  moreover have "take 4 (take k (frame enc m)) = le32 (of_nat (length (enc m)))" using False by (simp add: frame_def min_def)
  moreover have "length (take k (frame enc m)) = k" "length (frame enc m) = 4 + length (enc m)" using assms(2) by (simp_all add: frame_def)
  moreover have "k - 4 < length (enc m)" using calculation(4) assms(2) False by simp
  ultimately show ?thesis using False by (simp add: transport_ReadCall_def un_le32_le32 Let_def del: take_take length_take)
qed

lemma read_calls_prefix:
  assumes "\<forall>m\<in>set ms. dec (enc m) = Some m \<and> length (enc m) < 2 ^ 32"
  shows "\<exists>j \<le> length ms. read_calls dec (take k (concat (map (frame enc) ms))) = Inr (take j ms) \<and>
    (\<forall>i \<le> length ms. length (concat (map (frame enc) (take i ms))) \<le> k \<longrightarrow> i \<le> j)"
  using assms
proof (induction ms arbitrary: k)
  case Nil
  then show ?case by (simp add: read_calls.simps [of dec "[]"] transport_ReadCall_def)
next
  case (Cons m ms)
  let ?rest = "concat (map (frame enc) ms)" and ?n = "length (frame enc m)"
  have m: "dec (enc m) = Some m" "length (enc m) < 2 ^ 32" using Cons.prems by auto
  show ?case
  proof (cases "k < ?n")
    case True
    have "i = 0" if "length (concat (map (frame enc) (take i (m # ms)))) \<le> k" for i
      using that True by (cases i) auto
    moreover have "read_calls dec (take k (concat (map (frame enc) (m # ms)))) = Inr []"
      using ReadCall_incomplete [OF m(2) True, of dec] True by (simp add: read_calls.simps)
    ultimately show ?thesis by (intro exI [of _ 0]) simp
  next
    case False
    then have split: "take k (concat (map (frame enc) (m # ms))) = frame enc m @ take (k - ?n) ?rest" by simp
    have "\<forall>m\<in>set ms. dec (enc m) = Some m \<and> length (enc m) < 2 ^ 32" using Cons.prems by simp
    from Cons.IH [OF this, of "k - ?n"] obtain j where j: "j \<le> length ms" "read_calls dec (take (k - ?n) ?rest) = Inr (take j ms)"
      "\<forall>i \<le> length ms. length (concat (map (frame enc) (take i ms))) \<le> k - ?n \<longrightarrow> i \<le> j" by blast
    have "read_calls dec (take k (concat (map (frame enc) (m # ms)))) = Inr (take (Suc j) (m # ms))"
      unfolding split by (subst read_calls.simps) (simp add: ReadCall_frame [where dec = dec and enc = enc, OF m] j(2))
    moreover have "i \<le> Suc j" if "i \<le> length (m # ms)" "length (concat (map (frame enc) (take i (m # ms)))) \<le> k" for i
      using that j(3) by (cases i) auto
    ultimately show ?thesis using j(1) by (intro exI [of _ "Suc j"]) simp
  qed
qed

text \<open>The stream on which a list of messages has been written.\<close>

definition write_calls :: "(msg \<Rightarrow> byte_list) \<Rightarrow> msg list \<Rightarrow> byte_list" where
  "write_calls enc ms = fold (\<lambda>m. transport_WriteCall enc (msg_Tag m) (msg_Data m) (msg_Ok m)) ms []"

lemma write_calls_frames: "write_calls enc ms = concat (map (frame enc) ms)"
proof -
  have "fold (\<lambda>m. transport_WriteCall enc (msg_Tag m) (msg_Data m) (msg_Ok m)) ms w = w @ concat (map (frame enc) ms)" for w
  proof (induction ms arbitrary: w)
    case (Cons m ms)
    have "\<lparr>msg_Tag = msg_Tag m, msg_Data = msg_Data m, msg_Ok = msg_Ok m\<rparr> = m" by (cases m) simp
    then have "transport_WriteCall enc (msg_Tag m) (msg_Data m) (msg_Ok m) w = w @ frame enc m" by (simp only: WriteCall_frame)
    then show ?case using Cons.IH by simp
  qed simp
  then show ?thesis by (simp add: write_calls_def)
qed

text \<open>
  C34: Messages of less than \<open>2^32\<close> bytes that are written to a connection one after the other are
  read back in order and unchanged. Wherever the stream is cut, the reader gets a prefix of the
  messages without an error, and that prefix holds every message whose bytes have all arrived.
\<close>

theorem framing_roundtrip:
  assumes "\<forall>m\<in>set ms. dec (enc m) = Some m \<and> length (enc m) < 2 ^ 32"
  shows "read_calls dec (write_calls enc ms) = Inr ms \<and>
    (\<exists>j \<le> length ms. read_calls dec (take k (write_calls enc ms)) = Inr (take j ms) \<and>
       (\<forall>i \<le> length ms. length (write_calls enc (take i ms)) \<le> k \<longrightarrow> i \<le> j))"
  using read_calls_prefix [OF assms, of k] read_calls_prefix [OF assms, of "length (write_calls enc ms)"]
  by (auto simp: write_calls_frames)

theorem framing_roundtrip_witness:
  "read_calls (\<lambda>b. Some \<lparr>msg_Tag = ucast (hd b), msg_Data = tl b, msg_Ok = True\<rparr>)
     (write_calls (\<lambda>m. ucast (msg_Tag m) # msg_Data m) [\<lparr>msg_Tag = 1, msg_Data = [5, 6], msg_Ok = True\<rparr>, \<lparr>msg_Tag = 2, msg_Data = [], msg_Ok = True\<rparr>]) =
   Inr [\<lparr>msg_Tag = 1, msg_Data = [5, 6], msg_Ok = True\<rparr>, \<lparr>msg_Tag = 2, msg_Data = [], msg_Ok = True\<rparr>]"
  by (rule framing_roundtrip [THEN conjunct1]) simp

section \<open>Matching replies with calls\<close>

text \<open>The tag of a call; the initial message of the connection has tag 0.\<close>

definition tag_of :: "nat \<Rightarrow> Ttag" where
  "tag_of c = of_nat (Suc c)"

lemma tag_of_inj:
  assumes "tag_of c = tag_of d" and "c < n" and "d < n" and "n < 2 ^ 32"
  shows "c = d"
proof -
  have "unat (tag_of x) = Suc x" if "x < n" for x
    using that assms(4) by (simp add: tag_of_def unsigned_of_nat take_bit_nat_eq_self del: of_nat_Suc)
  then show ?thesis using assms by (metis Suc_inject)
qed

text \<open>The tags that are under way.\<close>

definition tags_underway :: "dmx_sys \<Rightarrow> Ttag list" where
  "tags_underway st = map fst (dm_unwritten st) @ map fst (dm_requests st) @ map fst (dm_replies st)"

text \<open>The table of outstanding calls: a call is in it exactly as long as it has no result.\<close>

definition table_inv :: "dmx_sys \<Rightarrow> bool" where
  "table_inv st \<longleftrightarrow> dm_nextTag st = tag_of (dm_count st) \<and>
     (\<forall>t c. cm_calls (dm_callmap st) t = Some c \<longrightarrow> c < dm_count st \<and> t = tag_of c \<and> dm_result st c = None) \<and>
     (\<forall>c < dm_count st. dm_result st c = None \<longrightarrow> cm_calls (dm_callmap st) (tag_of c) = Some c) \<and>
     (\<forall>c. dm_result st c \<noteq> None \<longrightarrow> c < dm_count st)"

text \<open>What is under way belongs to a call, and no tag is under way twice.\<close>

definition traffic_inv :: "(byte_list \<Rightarrow> byte_list \<times> bool \<Rightarrow> bool) \<Rightarrow> dmx_sys \<Rightarrow> bool" where
  "traffic_inv answer st \<longleftrightarrow> distinct (tags_underway st) \<and>
     (\<forall>t b. (t, b) \<in> set (dm_unwritten st) \<union> set (dm_requests st) \<longrightarrow> (\<exists>c < dm_count st. t = tag_of c \<and> b = dm_req st c)) \<and>
     (\<forall>t r. (t, r) \<in> set (dm_replies st) \<longrightarrow> (\<exists>c < dm_count st. t = tag_of c \<and> answer (dm_req st c) r))"

fun reader_inv :: "dmx_reader \<Rightarrow> dmx_sys \<Rightarrow> bool" where
  "reader_inv ReaderRuns st \<longleftrightarrow> set (tags_underway st) \<subseteq> dom (cm_calls (dm_callmap st))"
| "reader_inv (ReaderFails ts) st \<longleftrightarrow> cm_closed (dm_callmap st) \<and> distinct ts \<and> set ts = dom (cm_calls (dm_callmap st))"
| "reader_inv ReaderStopped st \<longleftrightarrow> cm_closed (dm_callmap st) \<and> dom (cm_calls (dm_callmap st)) = {}"

definition result_inv :: "(byte_list \<Rightarrow> byte_list \<times> bool \<Rightarrow> bool) \<Rightarrow> dmx_sys \<Rightarrow> bool" where
  "result_inv answer st \<longleftrightarrow> \<not> dm_fatal st \<and>
     (\<forall>c rep ok. dm_result st c = Some (rep, ok, False) \<longrightarrow> answer (dm_req st c) (rep, ok))"

definition dmx_inv :: "(byte_list \<Rightarrow> byte_list \<times> bool \<Rightarrow> bool) \<Rightarrow> dmx_sys \<Rightarrow> bool" where
  "dmx_inv answer st \<longleftrightarrow> table_inv st \<and> traffic_inv answer st \<and> reader_inv (dm_reader st) st \<and> result_inv answer st"

lemmas dmx_inv_defs = dmx_inv_def table_inv_def traffic_inv_def result_inv_def tags_underway_def

lemma dmx_inv_init: "dmx_inv answer NewDemuxClnt"
  by (simp add: dmx_inv_defs NewDemuxClnt_def newCallMap_def tag_of_def)

lemma tag_of_Suc: "tag_of c + 1 = tag_of (Suc c)"
  by (simp add: tag_of_def)

text \<open>The tag of the next call is new.\<close>

lemma next_tag_fresh:
  assumes "dmx_inv answer st" and "Suc (dm_count st) < 2 ^ 32"
  shows "tag_of (dm_count st) \<notin> set (tags_underway st)" and "cm_calls (dm_callmap st) (tag_of (dm_count st)) = None"
proof -
  have new: "tag_of c \<noteq> tag_of (dm_count st)" if "c < dm_count st" for c
    using tag_of_inj [of c "dm_count st" "Suc (dm_count st)"] that assms(2) by auto
  have "\<exists>c < dm_count st. t = tag_of c" if "t \<in> set (tags_underway st)" for t
  proof -
    from that have "(\<exists>b. (t, b) \<in> set (dm_unwritten st) \<union> set (dm_requests st)) \<or> (\<exists>r. (t, r) \<in> set (dm_replies st))"
      by (fastforce simp: tags_underway_def)
    then show ?thesis using assms(1) unfolding dmx_inv_def traffic_inv_def by blast
  qed
  then show "tag_of (dm_count st) \<notin> set (tags_underway st)" using new by metis
  have "c < dm_count st \<and> t = tag_of c" if "cm_calls (dm_callmap st) t = Some c" for t c
    using that assms(1) by (simp add: dmx_inv_def table_inv_def)
  then show "cm_calls (dm_callmap st) (tag_of (dm_count st)) = None" using new by (metis not_None_eq)
qed

lemma table_invI:
  assumes "dm_nextTag st = tag_of (dm_count st)"
    and "\<And>t c. cm_calls (dm_callmap st) t = Some c \<Longrightarrow> c < dm_count st \<and> t = tag_of c \<and> dm_result st c = None"
    and "\<And>c. c < dm_count st \<Longrightarrow> dm_result st c = None \<Longrightarrow> cm_calls (dm_callmap st) (tag_of c) = Some c"
    and "\<And>c. dm_result st c \<noteq> None \<Longrightarrow> c < dm_count st"
  shows "table_inv st"
  using assms unfolding table_inv_def by blast

lemma table_invD:
  assumes "dmx_inv answer st"
  shows "dm_nextTag st = tag_of (dm_count st)"
    and "cm_calls (dm_callmap st) t = Some c \<Longrightarrow> c < dm_count st \<and> t = tag_of c \<and> dm_result st c = None"
    and "c < dm_count st \<Longrightarrow> dm_result st c = None \<Longrightarrow> cm_calls (dm_callmap st) (tag_of c) = Some c"
    and "dm_result st c \<noteq> None \<Longrightarrow> c < dm_count st"
  using assms unfolding dmx_inv_def table_inv_def by blast+

lemma send_inv:
  assumes "dmx_inv answer st" and "dm_count (DemuxClnt_SendReceive b st) < 2 ^ 32"
  shows "dmx_inv answer (DemuxClnt_SendReceive b st)"
proof -
  let ?st = "DemuxClnt_SendReceive b st"
  note tab = table_invD [OF assms(1)]
  note tag = tab(1)
  have cnt: "dm_count ?st = Suc (dm_count st)"
    by (simp add: DemuxClnt_SendReceive_def DemuxClnt_tag_def Let_def split: option.splits)
  note fresh = next_tag_fresh [OF assms(1) assms(2) [unfolded cnt]]
  have old: "dm_result st (dm_count st) = None" using tab(4) by blast
  note unf = DemuxClnt_SendReceive_def DemuxClnt_tag_def Let_def callMap_put_def tag
  have "table_inv ?st"
  proof (rule table_invI)
    show "dm_nextTag ?st = tag_of (dm_count ?st)" by (simp add: unf tag_of_Suc)
  next
    fix t c assume "cm_calls (dm_callmap ?st) t = Some c"
    then show "c < dm_count ?st \<and> t = tag_of c \<and> dm_result ?st c = None"
      using tab(2) [of t c] old by (auto simp: unf split: if_splits)
  next
    fix c assume "c < dm_count ?st" "dm_result ?st c = None"
    then show "cm_calls (dm_callmap ?st) (tag_of c) = Some c"
      using tab(3) [of c] fresh(2) by (auto simp: unf less_Suc_eq split: if_splits)
  next
    fix c assume "dm_result ?st c \<noteq> None"
    then show "c < dm_count ?st" using tab(4) [of c] by (auto simp: unf less_Suc_eq split: if_splits)
  qed
  moreover have "traffic_inv answer ?st"
  proof -
    have "distinct (tags_underway ?st)" using assms(1) fresh(1) by (auto simp: unf dmx_inv_def traffic_inv_def tags_underway_def)
    moreover have "\<exists>c < dm_count ?st. t = tag_of c \<and> x = dm_req ?st c" if "(t, x) \<in> set (dm_unwritten ?st) \<union> set (dm_requests ?st)" for t x
    proof (cases "(t, x) \<in> set (dm_unwritten st) \<union> set (dm_requests st)")
      case True
      then obtain c where "c < dm_count st" "t = tag_of c" "x = dm_req st c" using assms(1) unfolding dmx_inv_def traffic_inv_def by blast
      then show ?thesis by (intro exI [of _ c]) (auto simp: unf)
    next
      case False
      then show ?thesis using that by (intro exI [of _ "dm_count st"]) (auto simp: unf split: if_splits)
    qed
    moreover have "\<exists>c < dm_count ?st. t = tag_of c \<and> answer (dm_req ?st c) r" if "(t, r) \<in> set (dm_replies ?st)" for t r
    proof -
      have "(t, r) \<in> set (dm_replies st)" using that by (auto simp: unf split: if_splits)
      then obtain c where "c < dm_count st" "t = tag_of c" "answer (dm_req st c) r" using assms(1) unfolding dmx_inv_def traffic_inv_def by blast
      then show ?thesis by (intro exI [of _ c]) (auto simp: unf)
    qed
    ultimately show ?thesis unfolding traffic_inv_def by blast
  qed
  moreover have "reader_inv (dm_reader ?st) ?st"
    using assms(1) by (cases "dm_reader st") (auto simp: unf dmx_inv_def tags_underway_def)
  moreover have "result_inv answer ?st"
    using assms(1) old by (auto simp: unf dmx_inv_def result_inv_def)
  ultimately show ?thesis by (simp add: dmx_inv_def)
qed

text \<open>Delivering a reply of an outstanding call.\<close>

lemma reply_registered:
  assumes "cm_calls (dm_callmap st) t = Some c"
  shows "DemuxClnt_reply t rep oks err st =
    st\<lparr>dm_callmap := (dm_callmap st)\<lparr>cm_calls := (cm_calls (dm_callmap st))(t := None)\<rparr>, dm_result := (dm_result st)(c \<mapsto> (rep, oks, err))\<rparr>"
  using assms by (simp add: DemuxClnt_reply_def callMap_remove_def)

lemma reply_table:
  assumes "table_inv st" and "cm_calls (dm_callmap st) t = Some c"
  shows "table_inv (DemuxClnt_reply t rep oks err st)"
proof -
  have tab: "dm_nextTag st = tag_of (dm_count st)"
    "\<And>t c. cm_calls (dm_callmap st) t = Some c \<Longrightarrow> c < dm_count st \<and> t = tag_of c \<and> dm_result st c = None"
    "\<And>c. c < dm_count st \<Longrightarrow> dm_result st c = None \<Longrightarrow> cm_calls (dm_callmap st) (tag_of c) = Some c"
    "\<And>c. dm_result st c \<noteq> None \<Longrightarrow> c < dm_count st"
    using assms(1) unfolding table_inv_def by blast+
  have own: "ta = t" if "cm_calls (dm_callmap st) ta = Some c" for ta using tab(2) [OF that] tab(2) [OF assms(2)] by simp
  show ?thesis
    unfolding reply_registered [OF assms(2)] using tab(1) tab(2) [OF assms(2)] assms(2) tab(2,3,4)
    by (intro table_invI) (auto split: if_splits dest: own)
qed

lemma distinct_submset:
  assumes "distinct xs" and "mset ys \<subseteq># mset xs"
  shows "distinct ys"
proof -
  have "count (mset ys) a = (if a \<in> set ys then 1 else 0)" for a
  proof -
    have "count (mset ys) a \<le> count (mset xs) a" using assms(2) by (rule mset_subset_eq_count)
    moreover have "count (mset xs) a \<le> 1" using assms(1) by (simp add: distinct_count_atmost_1)
    moreover have "a \<in> set ys \<longleftrightarrow> 0 < count (mset ys) a" by simp
    ultimately show ?thesis by (metis One_nat_def le_antisym less_one linorder_not_le order_trans Suc_leI)
  qed
  then show ?thesis by (simp add: distinct_count_atmost_1)
qed

lemma traffic_mono:
  assumes "traffic_inv answer st" and "distinct (tags_underway st')"
    and "set (dm_unwritten st') \<union> set (dm_requests st') \<subseteq> set (dm_unwritten st) \<union> set (dm_requests st)"
    and "set (dm_replies st') \<subseteq> set (dm_replies st) \<union> P" and "\<forall>(t, r) \<in> P. \<exists>c < dm_count st. t = tag_of c \<and> answer (dm_req st c) r"
    and "dm_count st' = dm_count st" and "dm_req st' = dm_req st"
  shows "traffic_inv answer st'"
  using assms(1) unfolding traffic_inv_def assms(6,7)
proof (elim conjE, intro conjI allI impI)
  show "distinct (tags_underway st')" by (rule assms(2))
next
  fix t b assume *: "\<forall>t b. (t, b) \<in> set (dm_unwritten st) \<union> set (dm_requests st) \<longrightarrow> (\<exists>c < dm_count st. t = tag_of c \<and> b = dm_req st c)"
    and "(t, b) \<in> set (dm_unwritten st') \<union> set (dm_requests st')"
  then have "(t, b) \<in> set (dm_unwritten st) \<union> set (dm_requests st)" using assms(3) by blast
  then show "\<exists>c < dm_count st. t = tag_of c \<and> b = dm_req st c" using * by blast
next
  fix t r assume *: "\<forall>t r. (t, r) \<in> set (dm_replies st) \<longrightarrow> (\<exists>c < dm_count st. t = tag_of c \<and> answer (dm_req st c) r)"
    and "(t, r) \<in> set (dm_replies st')"
  then have "(t, r) \<in> set (dm_replies st) \<or> (t, r) \<in> P" using assms(4) by blast
  then show "\<exists>c < dm_count st. t = tag_of c \<and> answer (dm_req st c) r" using * assms(5) by blast
qed

lemma traffic_invD:
  assumes "dmx_inv answer st"
  shows "traffic_inv answer st" and "distinct (tags_underway st)"
    and "(t, b) \<in> set (dm_unwritten st) \<union> set (dm_requests st) \<Longrightarrow> \<exists>c < dm_count st. t = tag_of c \<and> b = dm_req st c"
    and "(t, r) \<in> set (dm_replies st) \<Longrightarrow> \<exists>c < dm_count st. t = tag_of c \<and> answer (dm_req st c) r"
  using assms unfolding dmx_inv_def traffic_inv_def by blast+

text \<open>A step that only moves traffic on.\<close>

lemma traffic_only:
  assumes "dmx_inv answer st" and "traffic_inv answer st'" and "set (tags_underway st') \<subseteq> set (tags_underway st)"
    and "st' = st\<lparr>dm_unwritten := u, dm_requests := q, dm_replies := p\<rparr>"
  shows "dmx_inv answer st'"
proof -
  have "reader_inv (dm_reader st') st'" using assms(1,3) unfolding assms(4) by (cases "dm_reader st") (auto simp: dmx_inv_def)
  moreover have "table_inv st' \<and> result_inv answer st'" using assms(1) unfolding assms(4) by (simp add: dmx_inv_def table_inv_def result_inv_def)
  ultimately show ?thesis using assms(2) by (simp add: dmx_inv_def)
qed

lemma write_inv:
  assumes "dmx_inv answer st" and "dm_unwritten st = xs @ (t, b) # ys" and "written \<in> {[], [(t, b)]}"
  shows "dmx_inv answer (st\<lparr>dm_unwritten := xs @ ys, dm_requests := dm_requests st @ written\<rparr>)" (is "dmx_inv answer ?st")
proof -
  note tr = traffic_invD [OF assms(1)]
  have "distinct (tags_underway ?st)" by (rule distinct_submset [OF tr(2)]) (use assms(2,3) in \<open>auto simp: tags_underway_def\<close>)
  then have "traffic_inv answer ?st" by (rule traffic_mono [OF tr(1), where P = "{}"]) (use assms(2,3) in auto)
  then show ?thesis
    by (rule traffic_only [OF assms(1), where u = "xs @ ys" and q = "dm_requests st @ written" and p = "dm_replies st"])
      (use assms(2,3) in \<open>auto simp: tags_underway_def\<close>)
qed

lemma serve_inv:
  assumes "dmx_inv answer st" and "dm_requests st = xs @ (t, b) # ys" and "answer b (rep, ok)" and "written \<in> {[], [(t, rep, ok)]}"
  shows "dmx_inv answer (st\<lparr>dm_requests := xs @ ys, dm_replies := dm_replies st @ written\<rparr>)" (is "dmx_inv answer ?st")
proof -
  note tr = traffic_invD [OF assms(1)]
  obtain c where c: "c < dm_count st" "t = tag_of c" "b = dm_req st c" using tr(3) [of t b] assms(2) by auto
  then have answered: "\<forall>(t, r) \<in> {(t, rep, ok)}. \<exists>c < dm_count st. t = tag_of c \<and> answer (dm_req st c) r" using assms(3) by auto
  have "distinct (tags_underway ?st)" by (rule distinct_submset [OF tr(2)]) (use assms(2,4) in \<open>auto simp: tags_underway_def\<close>)
  then have "traffic_inv answer ?st"
    by (rule traffic_mono [OF tr(1) _ _ _ answered]) (use assms(2,4) in auto)
  then show ?thesis
    by (rule traffic_only [OF assms(1), where u = "dm_unwritten st" and q = "xs @ ys" and p = "dm_replies st @ written"])
      (use assms(2,4) in \<open>auto simp: tags_underway_def\<close>)
qed

lemma read_inv:
  assumes "dmx_inv answer st" and "dm_count st < 2 ^ 32" and "dm_reader st = ReaderRuns" and "dm_replies st = (t, rep, ok) # rs"
  shows "dmx_inv answer (DemuxClnt_reply t rep ok False (st\<lparr>dm_replies := rs\<rparr>))"
proof -
  let ?st = "st\<lparr>dm_replies := rs\<rparr>"
  have res: "result_inv answer st" and tab: "table_inv ?st" using assms(1) by (simp_all add: dmx_inv_def table_inv_def)
  note tr = traffic_invD [OF assms(1)]
  have underway: "set (tags_underway st) \<subseteq> dom (cm_calls (dm_callmap st))" using assms(1,3) by (simp add: dmx_inv_def)
  then obtain c where c: "cm_calls (dm_callmap st) t = Some c" using assms(4) by (auto simp: tags_underway_def)
  obtain c' where c': "c' < dm_count st" "t = tag_of c'" "answer (dm_req st c') (rep, ok)" using tr(4) [of t "(rep, ok)"] assms(4) by auto
  have "c' = c" using table_invD(2) [OF assms(1) c] tag_of_inj c'(1,2) assms(2) by metis
  note reg = reply_registered [of ?st t c, simplified, OF c]
  have "table_inv (DemuxClnt_reply t rep ok False ?st)" using reply_table [OF tab, of t c] c by simp
  moreover have "traffic_inv answer (DemuxClnt_reply t rep ok False ?st)"
    unfolding reg by (rule traffic_mono [OF tr(1), where P = "{}"]) (use tr(2) assms(4) in \<open>auto simp: tags_underway_def\<close>)
  moreover have "reader_inv (dm_reader (DemuxClnt_reply t rep ok False ?st)) (DemuxClnt_reply t rep ok False ?st)"
    unfolding reg using assms(3,4) underway tr(2) by (auto simp: tags_underway_def)
  moreover have "result_inv answer (DemuxClnt_reply t rep ok False ?st)"
    unfolding reg using res c'(3) \<open>c' = c\<close> by (auto simp: result_inv_def)
  ultimately show ?thesis by (simp add: dmx_inv_def)
qed

lemma fail_inv:
  assumes "dmx_inv answer st" and "dm_reader st = ReaderFails (t # ts)"
  shows "dmx_inv answer (DemuxClnt_reply t [] False True (st\<lparr>dm_reader := ReaderFails ts\<rparr>))"
proof -
  let ?st = "st\<lparr>dm_reader := ReaderFails ts\<rparr>"
  have closed: "cm_closed (dm_callmap st)" "distinct (t # ts)" "set (t # ts) = dom (cm_calls (dm_callmap st))" and tab: "table_inv ?st"
    using assms by (simp_all add: dmx_inv_def table_inv_def)
  then obtain c where c: "cm_calls (dm_callmap st) t = Some c" by auto
  note reg = reply_registered [of ?st t c, simplified, OF c]
  have "table_inv (DemuxClnt_reply t [] False True ?st)" using reply_table [OF tab, of t c] c by simp
  moreover have "traffic_inv answer (DemuxClnt_reply t [] False True ?st) \<and> result_inv answer (DemuxClnt_reply t [] False True ?st)"
    unfolding reg using assms(1) by (simp add: dmx_inv_def traffic_inv_def result_inv_def tags_underway_def)
  moreover have "reader_inv (ReaderFails ts) (DemuxClnt_reply t [] False True ?st)"
    unfolding reg using closed by auto
  ultimately show ?thesis by (simp add: dmx_inv_def reg)
qed

lemma parts_keep [simp]:
  "table_inv (st\<lparr>dm_callmap := callMap_close (dm_callmap st)\<rparr>) = table_inv st" "table_inv (st\<lparr>dm_reader := r\<rparr>) = table_inv st"
  "traffic_inv answer (st\<lparr>dm_callmap := cm\<rparr>) = traffic_inv answer st" "traffic_inv answer (st\<lparr>dm_reader := r\<rparr>) = traffic_inv answer st"
  "result_inv answer (st\<lparr>dm_callmap := cm\<rparr>) = result_inv answer st" "result_inv answer (st\<lparr>dm_reader := r\<rparr>) = result_inv answer st"
  by (simp_all add: table_inv_def traffic_inv_def result_inv_def tags_underway_def callMap_close_def)

lemma close_reader_inv [simp]:
  "reader_inv r st \<Longrightarrow> reader_inv r (st\<lparr>dm_callmap := callMap_close (dm_callmap st)\<rparr>)" "reader_inv r (st\<lparr>dm_reader := r'\<rparr>) = reader_inv r st"
  by (cases r; simp add: callMap_close_def tags_underway_def)+

lemma break_inv:
  assumes "dmx_inv answer st" and "key_order (cm_calls (dm_callmap st)) ks"
  shows "dmx_inv answer (st\<lparr>dm_callmap := callMap_close (dm_callmap st),
    dm_reader := ReaderFails (callMap_outstanding ks (callMap_close (dm_callmap st)))\<rparr>)"
proof -
  have "callMap_outstanding ks (callMap_close (dm_callmap st)) = ks"
    using assms(2) by (auto simp: callMap_outstanding_def callMap_close_def key_order_def intro: filter_True)
  then show ?thesis using assms by (simp add: dmx_inv_def) (simp add: callMap_close_def key_order_def)
qed

lemma stop_inv: "dmx_inv answer st \<Longrightarrow> dm_reader st = ReaderFails [] \<Longrightarrow> dmx_inv answer (st\<lparr>dm_reader := ReaderStopped\<rparr>)"
  by (simp add: dmx_inv_def)

lemma close_inv: "dmx_inv answer st \<Longrightarrow> dmx_inv answer (DemuxClnt_Close st)"
  by (simp add: DemuxClnt_Close_def dmx_inv_def)

lemma reply_count: "dm_count (DemuxClnt_reply t rep oks err st) = dm_count st"
  by (auto simp: DemuxClnt_reply_def split: prod.splits option.splits)

lemma step_count: "dmx_step answer st st' \<Longrightarrow> dm_count st \<le> dm_count st'"
  by (induction rule: dmx_step.induct)
    (simp_all add: reply_count DemuxClnt_SendReceive_def DemuxClnt_tag_def DemuxClnt_Close_def Let_def split: option.splits)

lemma step_count_le: "dmx_step answer st st' \<Longrightarrow> dm_count st' \<le> Suc (dm_count st)"
  by (induction rule: dmx_step.induct)
    (simp_all add: reply_count DemuxClnt_SendReceive_def DemuxClnt_tag_def DemuxClnt_Close_def Let_def split: option.splits)

lemma step_inv:
  assumes "dmx_step answer st st'" and "dmx_inv answer st" and "dm_count st' < 2 ^ 32"
  shows "dmx_inv answer st'"
  using assms
proof (cases rule: dmx_step.cases)
  case (dmx_read t rep ok rs)
  then show ?thesis using assms(2,3) read_inv [OF assms(2) _ dmx_read(2,3)] by (simp add: reply_count)
qed (use assms(2,3) in \<open>auto intro: send_inv write_inv serve_inv break_inv fail_inv stop_inv close_inv\<close>)

lemma reach_inv: "dmx_reach answer st \<Longrightarrow> dm_count st < 2 ^ 32 \<Longrightarrow> dmx_inv answer st"
proof (induction rule: dmx_reach.induct)
  case dmx_init
  show ?case by (rule dmx_inv_init)
next
  case (dmx_next st st')
  then show ?case using step_inv step_count le_less_trans by metis
qed

text \<open>The result of a call is final.\<close>

lemma reply_result:
  assumes "table_inv st" and "dm_result st c = Some r"
  shows "dm_result (DemuxClnt_reply t rep oks err st) c = Some r"
proof (cases "cm_calls (dm_callmap st) t")
  case None
  then show ?thesis using assms(2) by (simp add: DemuxClnt_reply_def callMap_remove_def)
next
  case (Some d)
  then have "dm_result st d = None" using assms(1) unfolding table_inv_def by blast
  then show ?thesis using assms(2) by (auto simp: reply_registered [OF Some])
qed

lemma send_result:
  assumes "dmx_inv answer st" and "dm_result st c = Some r"
  shows "dm_result (DemuxClnt_SendReceive b st) c = Some r"
proof -
  have "c < dm_count st" using table_invD(4) [OF assms(1), of c] assms(2) by simp
  then show ?thesis using assms(2) by (auto simp: DemuxClnt_SendReceive_def DemuxClnt_tag_def Let_def split: option.splits)
qed

lemma step_result:
  assumes "dmx_step answer st st'" and "dmx_inv answer st" and "dm_result st c = Some r"
  shows "dm_result st' c = Some r"
proof -
  have tab: "table_inv (st\<lparr>dm_replies := rs\<rparr>)" "table_inv (st\<lparr>dm_reader := rd\<rparr>)" for rs rd
    using assms(2) by (simp_all add: dmx_inv_def table_inv_def)
  show ?thesis
    using assms(1)
  proof (cases rule: dmx_step.cases)
    case (dmx_read t rep ok rs)
    then show ?thesis using reply_result [OF tab(1)] assms(3) by simp
  next
    case (dmx_fail t ts)
    then show ?thesis using reply_result [OF tab(2)] assms(3) by simp
  qed (use assms(3) send_result [OF assms(2,3)] in \<open>auto simp: DemuxClnt_Close_def\<close>)
qed

text \<open>
  C15: On a connection that has carried fewer than \<open>2^32 - 1\<close> calls, whatever the order in which
  requests are served and replies come back, and whether or not writes fail or the connection
  breaks: the client never meets a reply without a matching call (\<open>log.Fatalf\<close>), a call that
  returns without an error returns an answer of the server to its own request, the result of a
  call never changes, no call returns twice, and once the reader has stopped no call is left waiting.
\<close>

theorem demux_matches_replies:
  assumes "dmx_reach answer st" and "dm_count st < 2 ^ 32 - 1"
  shows "\<not> dm_fatal st \<and>
    (\<forall>c rep ok. dm_result st c = Some (rep, ok, False) \<longrightarrow> c < dm_count st \<and> answer (dm_req st c) (rep, ok)) \<and>
    (\<forall>st' c r. dmx_step answer st st' \<and> dm_result st c = Some r \<longrightarrow> dm_result st' c = Some r \<and> \<not> dm_fatal st') \<and>
    (dm_reader st = ReaderStopped \<longrightarrow> (\<forall>c < dm_count st. dm_result st c \<noteq> None))"
proof (intro conjI allI impI)
  have inv: "dmx_inv answer st" using assms by (intro reach_inv) simp_all
  note res = inv [unfolded dmx_inv_def, THEN conjunct2, THEN conjunct2, THEN conjunct2, unfolded result_inv_def]
  show "\<not> dm_fatal st" using res by blast
  fix c rep ok assume ok: "dm_result st c = Some (rep, ok, False)"
  then show "c < dm_count st" "answer (dm_req st c) (rep, ok)" using res table_invD(4) [OF inv, of c] by blast+
next
  have inv: "dmx_inv answer st" using assms by (intro reach_inv) simp_all
  fix st' c r assume step: "dmx_step answer st st' \<and> dm_result st c = Some r"
  then show "dm_result st' c = Some r" using step_result [OF _ inv] by blast
  have "dm_count st' < 2 ^ 32" using step step_count_le assms(2) by fastforce
  then have "dmx_inv answer st'" using step_inv step inv by blast
  then show "\<not> dm_fatal st'" by (simp add: dmx_inv_def result_inv_def)
next
  have inv: "dmx_inv answer st" using assms by (intro reach_inv) simp_all
  fix c assume "dm_reader st = ReaderStopped" "c < dm_count st"
  then show "dm_result st c \<noteq> None" using inv table_invD(3) [OF inv, of c] by (cases "dm_result st c") (auto simp: dmx_inv_def)
qed

theorem demux_matches_replies_witness:
  "\<exists>st. dmx_reach (\<lambda>b r. r = (rev b, True)) st \<and> dm_result st 0 = Some ([2, 1], True, False) \<and> dm_result st 1 = Some ([], False, True) \<and>
     dm_reader st = ReaderStopped \<and> dm_count st = 2 \<and> \<not> dm_fatal st"
proof -
  let ?answer = "\<lambda>b r. r = (rev b, True)" and ?s1 = "DemuxClnt_SendReceive [1, 2] NewDemuxClnt"
  let ?s2 = "?s1\<lparr>dm_unwritten := [], dm_requests := [(1, [1, 2])]\<rparr>"
  let ?s3 = "?s2\<lparr>dm_requests := [], dm_replies := [(1, [2, 1], True)]\<rparr>"
  let ?s4 = "DemuxClnt_reply 1 [2, 1] True False (?s3\<lparr>dm_replies := []\<rparr>)"
  let ?s5 = "DemuxClnt_SendReceive [3] ?s4"
  let ?s6 = "?s5\<lparr>dm_callmap := callMap_close (dm_callmap ?s5), dm_reader := ReaderFails (callMap_outstanding [2] (callMap_close (dm_callmap ?s5)))\<rparr>"
  let ?s7 = "DemuxClnt_reply 2 [] False True (?s6\<lparr>dm_reader := ReaderFails []\<rparr>)"
  let ?s8 = "?s7\<lparr>dm_reader := ReaderStopped\<rparr>"
  note unf = NewDemuxClnt_def newCallMap_def DemuxClnt_SendReceive_def DemuxClnt_tag_def callMap_put_def DemuxClnt_reply_def callMap_remove_def
    callMap_close_def callMap_outstanding_def Let_def
  have 1: "dmx_reach ?answer ?s1" by (rule dmx_reach.intros dmx_step.intros)+
  have 2: "dmx_reach ?answer ?s2" 
    using dmx_next [OF 1 dmx_write [of ?s1 "[]" 1 "[1, 2]" "[]" "[(1, [1, 2])]"]] by (simp add: unf)
  have 3: "dmx_reach ?answer ?s3"
    using dmx_next [OF 2 dmx_serve [of ?s2 "[]" 1 "[1, 2]" "[]" ?answer "[2, 1]" True "[(1, [2, 1], True)]"]] by (simp add: unf)
  have 4: "dmx_reach ?answer ?s4"
    by (rule dmx_next [OF 3 dmx_read]) (simp_all add: unf)
  have 5: "dmx_reach ?answer ?s5" by (rule dmx_next [OF 4 dmx_send])
  have 6: "dmx_reach ?answer ?s6"
    by (rule dmx_next [OF 5 dmx_break]) (auto simp: unf key_order_def)
  have 7: "dmx_reach ?answer ?s7"
    by (rule dmx_next [OF 6 dmx_fail]) (simp add: unf)
  have 8: "dmx_reach ?answer ?s8"
    by (rule dmx_next [OF 7 dmx_stop]) (simp add: unf)
  have "\<not> dm_fatal ?s8" by (rule demux_matches_replies [OF 8, THEN conjunct1]) (simp add: unf)
  moreover have "dm_result ?s8 0 = Some ([2, 1], True, False)" "dm_result ?s8 1 = Some ([], False, True)" "dm_count ?s8 = 2"
    by (simp_all add: unf)
  ultimately show ?thesis using 8 by (intro exI [of _ ?s8]) simp
qed

end
