(* ===== verification/Tester_Sockets.thy ===== *)
theory Tester_Sockets
  imports Tester_Servers Tester_Demux
begin

text \<open>
  Calls between the tester and its daemons (\<open>tester1/sockrpc\<close>), and the forwarding of lab calls
  over them: \<open>tester1/testsrv.go\<close>, \<open>tester1/testclnt.go\<close>, \<open>DaemonClnt.forward\<close> and
  \<open>DaemonSrv.forward\<close>.

  A call on a socket has one of the three outcomes of \<open>call_outcome\<close>; \<open>Tester_Demux\<close> shows that a
  reply that arrives is a reply to the call. A daemon is a process with a \<open>labrpc\<close> server, absent
  once it has died of a fatal error or has been killed. The outcomes of the calls to come are part
  of the daemon's state, so that forwarding can be the dispatch function of a server.
\<close>

section \<open>tester1/sockrpc\<close>

definition SockName :: "string \<Rightarrow> string" where
  "SockName endName = ''/tmp/6.5840-'' @ endName"

definition sockctl :: "string \<Rightarrow> string" where
  "sockctl sock = sock @ ''-ctl''"

record RPCArgs =
  ra_Method :: string
  ra_Args :: bytes

text \<open>\<open>send\<close> is \<open>SendReceive\<close> of the connection: the reply, its flag, and whether there was an error.\<close>

definition RPCClnt_RPC ::
    "(RPCArgs \<Rightarrow> bytes) \<Rightarrow> (bytes \<Rightarrow> 'd \<Rightarrow> (bytes \<times> bool \<times> bool) \<times> 'd) \<Rightarrow> string \<Rightarrow> bytes \<Rightarrow> 'd \<Rightarrow> (bytes \<times> bool) \<times> 'd" where
  "RPCClnt_RPC enc send method args d =
     (case send (enc \<lparr>ra_Method = method, ra_Args = args\<rparr>) d of
        ((rep, ok, err), d') \<Rightarrow> if err then (([], False), d') else ((rep, ok), d'))"

text \<open>\<open>None\<close> is the result \<open>false\<close>.\<close>

definition RPCClnt_RPCMarshall ::
    "(RPCArgs \<Rightarrow> bytes) \<Rightarrow> (bytes \<Rightarrow> 'd \<Rightarrow> (bytes \<times> bool \<times> bool) \<times> 'd) \<Rightarrow> ('a \<Rightarrow> bytes option) \<Rightarrow> (bytes \<Rightarrow> 'r option) \<Rightarrow>
     string \<Rightarrow> 'a \<Rightarrow> 'd \<Rightarrow> go_exit + 'r option \<times> 'd" where
  "RPCClnt_RPCMarshall enc send enca decr method args d =
     and_then (Marshall enca args) (\<lambda>b.
       case RPCClnt_RPC enc send method b d of
         ((rep, False), d') \<Rightarrow> Inr (None, d')
       | ((rep, True), d') \<Rightarrow> and_then (Unmarshall decr rep) (\<lambda>r. Inr (Some r, d')))"

text \<open>\<open>results\<close> are those of \<open>net.Dial\<close>: the loop stops at the first success.\<close>

fun dial :: "nat \<Rightarrow> bool list \<Rightarrow> bool" where
  "dial 0 results = False"
| "dial (Suc n) [] = False"
| "dial (Suc n) (ok # results) = (if ok then True else dial n results)"

definition MAXRETRY :: nat where
  "MAXRETRY = 100"

definition getDmx :: "bool list \<Rightarrow> go_exit + dmx_sys" where
  "getDmx results = (if dial MAXRETRY results then Inr NewDemuxClnt else Inl (Fatal ''Dial err''))"

definition NewRPCSrv :: "'s \<Rightarrow> 's Server" where
  "NewRPCSrv st = MakeServer st"

definition RPCSrv_AddService :: "'s Service \<Rightarrow> 's Server \<Rightarrow> 's Server" where
  "RPCSrv_AddService svc rpcs = Server_AddService svc rpcs"

definition RPCSrv_ServeRequest :: "(bytes \<Rightarrow> RPCArgs option) \<Rightarrow> string \<Rightarrow> bytes \<Rightarrow> 's Server \<Rightarrow> go_exit + (bytes \<times> bool) \<times> 's Server" where
  "RPCSrv_ServeRequest dec clntEnd b rpcs =
     and_then (Unmarshall dec b) (\<lambda>req. Server_Dispatch rpcs (ra_Method req) clntEnd (ra_Args req))"

section \<open>A daemon process\<close>

record 's daemon =
  dp_server :: "'s Server option"
  dp_outcomes :: "call_outcome list"

text \<open>The services that a program's start function returns are registered one after the other.\<close>

definition InitDaemon_services :: "'s \<Rightarrow> 's Service list \<Rightarrow> 's Server" where
  "InitDaemon_services st svcs = foldl (\<lambda>rpcs svc. RPCSrv_AddService svc rpcs) (NewRPCSrv st) svcs"

definition next_outcome :: "'s daemon \<Rightarrow> call_outcome" where
  "next_outcome d = (case dp_outcomes d of [] \<Rightarrow> CallOK | oc # _ \<Rightarrow> oc)"

text \<open>\<open>SendReceive\<close> on the connection to a daemon.\<close>

definition daemon_call :: "(bytes \<Rightarrow> RPCArgs option) \<Rightarrow> string \<Rightarrow> bytes \<Rightarrow> 's daemon \<Rightarrow> (bytes \<times> bool \<times> bool) \<times> 's daemon" where
  "daemon_call dec clntEnd b d =
     (let oc = next_outcome d; d1 = d\<lparr>dp_outcomes := tl (dp_outcomes d)\<rparr> in
      case dp_server d of
        None \<Rightarrow> (([], False, True), d1)
      | Some rpcs \<Rightarrow>
          if oc = CallLost then (([], False, True), d1)
          else (case RPCSrv_ServeRequest dec clntEnd b rpcs of
                  Inl e \<Rightarrow> (([], False, True), d1\<lparr>dp_server := None\<rparr>)
                | Inr ((rep, ok), rpcs') \<Rightarrow>
                    (if oc = ReplyLost then ([], False, True) else (rep, ok, False), d1\<lparr>dp_server := Some rpcs'\<rparr>)))"

section \<open>Forwarding\<close>

text \<open>\<open>DaemonClnt.forward\<close>: from the tester's network to a daemon.\<close>

definition DaemonClnt_forward ::
    "(RPCArgs \<Rightarrow> bytes) \<Rightarrow> (bytes \<Rightarrow> RPCArgs option) \<Rightarrow> string \<Rightarrow> bytes \<Rightarrow> 's daemon \<Rightarrow> (bytes \<times> bool) \<times> 's daemon" where
  "DaemonClnt_forward enc dec method args d = RPCClnt_RPC enc (daemon_call dec ''tester'') method args d"

definition DaemonClnt_kill :: "'s daemon \<Rightarrow> 's daemon" where
  "DaemonClnt_kill d = d\<lparr>dp_server := None\<rparr>"

text \<open>\<open>DaemonSrv.forward\<close> and \<open>TesterRPC.Forward\<close>: from a daemon to the tester's network.\<close>

record ForwardArgs =
  fa_Method :: string
  fa_End :: string
  fa_Args :: bytes
  fa_Id :: "64 word"

record ForwardReply =
  fr_Rep :: bytes
  fr_Ok :: bool

definition TesterRPC_Forward :: "net \<Rightarrow> bool \<Rightarrow> (string reqMsg \<Rightarrow> replyMsg) \<Rightarrow> ForwardArgs \<Rightarrow> go_exit + ForwardReply" where
  "TesterRPC_Forward net destroyed route args =
     and_then (Network_LookupEnd (fa_End args) net) (\<lambda>e.
       case ClientEnd_Forward destroyed route e (fa_Method args) (fa_Args args) of
         (rep, ok) \<Rightarrow> Inr \<lparr>fr_Rep = rep, fr_Ok = ok\<rparr>)"

text \<open>The counter \<open>ds.id\<close> is increased before its value is used.\<close>

definition DaemonSrv_forward ::
    "(string \<Rightarrow> ForwardArgs \<Rightarrow> 'd \<Rightarrow> go_exit + ForwardReply option \<times> 'd) \<Rightarrow> string \<Rightarrow> string \<Rightarrow> bytes \<Rightarrow> 64 word \<times> 'd \<Rightarrow>
     go_exit + (bytes \<times> bool) \<times> 64 word \<times> 'd" where
  "DaemonSrv_forward call e method b = (\<lambda>(id0, d).
     and_then (call ''TesterRPC.Forward'' \<lparr>fa_Method = method, fa_End = e, fa_Args = b, fa_Id = id0 + 1\<rparr> d) (\<lambda>(r, d').
       case r of
         None \<Rightarrow> Inr (([], False), id0 + 1, d')
       | Some reply \<Rightarrow> Inr ((fr_Rep reply, fr_Ok reply), id0 + 1, d')))"

section \<open>Lemmas\<close>

lemma dial_iff: "dial n results \<longleftrightarrow> True \<in> set (take n results)"
  by (induction n results rule: dial.induct) auto

lemma InitDaemon_services_find:
  assumes "distinct (map svc_name svcs)"
  shows "srv_services (InitDaemon_services st svcs) name = find (\<lambda>s. svc_name s = name) svcs \<and>
    srv_state (InitDaemon_services st svcs) = st \<and> srv_dispatchf (InitDaemon_services st svcs) = None"
  using assms
proof (induction svcs rule: rev_induct)
  case Nil
  then show ?case by (simp add: InitDaemon_services_def NewRPCSrv_def MakeServer_def)
next
  case (snoc s svcs)
  have "find P (svcs @ [s]) = (case find P svcs of None \<Rightarrow> if P s then Some s else None | Some x \<Rightarrow> Some x)" for P
    by (induction svcs) auto
  moreover have "find (\<lambda>x. svc_name x = svc_name s) svcs = None"
    using snoc.prems by (auto simp: find_None_iff) (metis imageI)
  ultimately show ?case using snoc by (auto simp: InitDaemon_services_def RPCSrv_AddService_def Server_AddService_def split: option.splits)
qed

text \<open>Forwarding to a daemon, by the outcome of the call on the socket.\<close>

lemma forward_outcome:
  assumes "dec (enc \<lparr>ra_Method = method, ra_Args = args\<rparr>) = Some \<lparr>ra_Method = method, ra_Args = args\<rparr>"
    and "dp_server d = Some rs"
    and "Server_dispatch rs \<lparr>req_endname = ''tester'', req_svcMeth = method, req_args = args\<rparr> = Inr (reply, rs')"
  shows "DaemonClnt_forward enc dec method args d =
    (case next_outcome d of
       CallLost \<Rightarrow> (([], False), d\<lparr>dp_outcomes := tl (dp_outcomes d)\<rparr>)
     | ReplyLost \<Rightarrow> (([], False), d\<lparr>dp_outcomes := tl (dp_outcomes d), dp_server := Some rs'\<rparr>)
     | CallOK \<Rightarrow> ((rep_reply reply, rep_ok reply), d\<lparr>dp_outcomes := tl (dp_outcomes d), dp_server := Some rs'\<rparr>))"
  using assms
  by (auto simp: DaemonClnt_forward_def RPCClnt_RPC_def daemon_call_def RPCSrv_ServeRequest_def Unmarshall_def Server_Dispatch_def Let_def
      split: call_outcome.splits)

text \<open>
  A call of a daemon on one of its ends, forwarded over a socket that works, is a request on the
  end of that name in the tester's network; the tester ends when it has no such end.
\<close>

lemma daemon_forward_routes:
  "DaemonSrv_forward (\<lambda>_ args d. and_then (TesterRPC_Forward net destroyed route args) (\<lambda>r. Inr (Some r, d))) e method b (n, d) =
    (case rn_ends net e of
       None \<Rightarrow> Inl (Fatal ''MakeEnd: doesn't exists'')
     | Some ce \<Rightarrow> Inr (ClientEnd_Forward destroyed route ce method b, n + 1, d))"
  by (simp add: DaemonSrv_forward_def TesterRPC_Forward_def Network_LookupEnd_def split: option.splits prod.splits)

end
