(* ===== verification/Tester_Groups.thy ===== *)
theory Tester_Groups
  imports Tester_Servers
begin

text \<open>
  Server groups (\<open>tester1/group.go\<close>): starting, killing and restarting servers, and cutting and
  healing the links between them. A group's state is its record and the network it shares with
  the clients. See \<open>Tester_Servers\<close> for what stands for a server and a daemon.
\<close>

section \<open>tester1/group.go\<close>

record ServerGrp =
  sg_srvs :: "TServer list"
  servernames :: "string list"
  sg_gid :: int
  connected :: "bool list"

type_synonym grp_state = "ServerGrp \<times> net"

text \<open>\<open>namess\<close> are the end names that each \<open>makeServer\<close> draws, one list per server.\<close>

fun make_servers :: "int \<Rightarrow> string list list \<Rightarrow> net \<Rightarrow> go_exit + TServer list \<times> net" where
  "make_servers gid [] net = Inr ([], net)"
| "make_servers gid (names # namess) net =
     and_then (makeServer gid names net) (\<lambda>(srv, net').
     and_then (make_servers gid namess net') (\<lambda>(srvs, net''). Inr (srv # srvs, net'')))"

definition makeSrvGrp :: "int \<Rightarrow> nat \<Rightarrow> string list list \<Rightarrow> net \<Rightarrow> go_exit + grp_state" where
  "makeSrvGrp gid n namess net =
     and_then (make_servers gid namess net) (\<lambda>(srvs, net').
       Inr (\<lparr>sg_srvs = srvs, servernames = map (\<lambda>i. ServerName gid (int i)) [0..<n], sg_gid = gid, connected = replicate n False\<rparr>, net'))"

definition ServerGrp_N :: "ServerGrp \<Rightarrow> nat" where
  "ServerGrp_N sg = length (sg_srvs sg)"

definition ServerGrp_SrvName :: "nat \<Rightarrow> ServerGrp \<Rightarrow> go_exit + string" where
  "ServerGrp_SrvName i sg = go_index (servernames sg) i"

fun srv_names_to :: "string list \<Rightarrow> nat list \<Rightarrow> go_exit + string list" where
  "srv_names_to names [] = Inr []"
| "srv_names_to names (i # to) =
     and_then (go_index names i) (\<lambda>n. and_then (srv_names_to names to) (\<lambda>ns. Inr (n # ns)))"

definition ServerGrp_SrvNamesTo :: "nat list \<Rightarrow> ServerGrp \<Rightarrow> go_exit + string list" where
  "ServerGrp_SrvNamesTo to sg = srv_names_to (servernames sg) to"

definition ServerGrp_all :: "ServerGrp \<Rightarrow> nat list" where
  "ServerGrp_all sg = [0..<length (sg_srvs sg)]"

definition ServerGrp_IsConnected :: "nat \<Rightarrow> ServerGrp \<Rightarrow> go_exit + bool" where
  "ServerGrp_IsConnected i sg = go_index (connected sg) i"

definition ServerGrp_connect :: "nat \<Rightarrow> nat list \<Rightarrow> grp_state \<Rightarrow> go_exit + grp_state" where
  "ServerGrp_connect i to = (\<lambda>(sg, net).
     and_then (go_index (connected sg) i) (\<lambda>_.
     let sg' = sg\<lparr>connected := (connected sg)[i := True]\<rparr> in
     and_then (go_index (sg_srvs sg') i) (\<lambda>s.
     and_then (TServer_connect (connected sg') to s net) (\<lambda>net1.
     and_then (each (\<lambda>j net.
         and_then (ServerGrp_IsConnected j sg') (\<lambda>b.
         if b then and_then (go_index (sg_srvs sg') j) (\<lambda>sj.
                   and_then (go_index (endNames sj) i) (\<lambda>endname. Inr (Network_Enable endname True net)))
         else Inr net)) to net1) (\<lambda>net2. Inr (sg', net2))))))"

definition ServerGrp_disconnect :: "nat \<Rightarrow> nat list \<Rightarrow> grp_state \<Rightarrow> go_exit + grp_state" where
  "ServerGrp_disconnect i from = (\<lambda>(sg, net).
     and_then (go_index (connected sg) i) (\<lambda>_.
     let sg' = sg\<lparr>connected := (connected sg)[i := False]\<rparr> in
     and_then (go_index (sg_srvs sg') i) (\<lambda>s.
     and_then (TServer_disconnect from s net) (\<lambda>net1.
     and_then (each (\<lambda>j net.
         and_then (go_index (sg_srvs sg') j) (\<lambda>sj.
         if endNames sj \<noteq> [] then and_then (go_index (endNames sj) i) (\<lambda>endname. Inr (Network_Enable endname False net))
         else Inr net)) from net1) (\<lambda>net2. Inr (sg', net2))))))"

definition ServerGrp_ConnectOne :: "nat \<Rightarrow> grp_state \<Rightarrow> go_exit + grp_state" where
  "ServerGrp_ConnectOne i st = ServerGrp_connect i (ServerGrp_all (fst st)) st"

definition ServerGrp_ConnectAll :: "grp_state \<Rightarrow> go_exit + grp_state" where
  "ServerGrp_ConnectAll st = each ServerGrp_ConnectOne (ServerGrp_all (fst st)) st"

definition ServerGrp_DisconnectAll :: "nat \<Rightarrow> grp_state \<Rightarrow> go_exit + grp_state" where
  "ServerGrp_DisconnectAll i st = ServerGrp_disconnect i (ServerGrp_all (fst st)) st"

text \<open>The largest size over the servers, as \<open>RaftSize\<close> and \<open>SnapshotSize\<close> compute it.\<close>

fun max_size :: "(TServer \<Rightarrow> go_exit + nat) \<Rightarrow> TServer list \<Rightarrow> nat \<Rightarrow> go_exit + nat" where
  "max_size sz [] acc = Inr acc"
| "max_size sz (s # ss) acc = and_then (sz s) (\<lambda>n. max_size sz ss (if n > acc then n else acc))"

definition ServerGrp_RaftSize :: "ServerGrp \<Rightarrow> go_exit + nat" where
  "ServerGrp_RaftSize sg = max_size TServer_raftSize (sg_srvs sg) 0"

definition ServerGrp_SnapshotSize :: "ServerGrp \<Rightarrow> go_exit + nat" where
  "ServerGrp_SnapshotSize sg = max_size TServer_snapshotSize (sg_srvs sg) 0"

text \<open>
  \<open>StartServer\<close>: \<open>names\<close> are the new end names, \<open>addr\<close> the address of the new \<open>labrpc\<close> server,
  \<open>run_ok\<close> whether the process starts. The boolean of the result is false for a returned error.
\<close>

definition ServerGrp_StartServer :: "nat \<Rightarrow> string list \<Rightarrow> nat \<Rightarrow> bool \<Rightarrow> grp_state \<Rightarrow> go_exit + bool \<times> grp_state" where
  "ServerGrp_StartServer i names addr run_ok = (\<lambda>(sg, net).
     and_then (go_index (sg_srvs sg) i) (\<lambda>s.
     and_then (TServer_startServer (sg_gid sg) names s net) (\<lambda>(srv, net1).
       let sg1 = sg\<lparr>sg_srvs := (sg_srvs sg)[i := srv]\<rparr> in
       if \<not> run_ok then Inr (False, sg1, net1)
       else
         let srv' = srv\<lparr>dc := map_option DaemonClnt_init (saved srv)\<rparr> in
         Inr (True, sg1\<lparr>sg_srvs := (sg_srvs sg1)[i := srv']\<rparr>,
              Network_AddServer (ServerName (sg_gid sg) (int i)) addr net1))))"

definition ServerGrp_ShutdownServer :: "nat \<Rightarrow> grp_state \<Rightarrow> go_exit + grp_state" where
  "ServerGrp_ShutdownServer i st =
     and_then (ServerGrp_disconnect i (ServerGrp_all (fst st)) st) (\<lambda>(sg, net).
     and_then (go_index (sg_srvs sg) i) (\<lambda>s.
       Inr (sg\<lparr>sg_srvs := (sg_srvs sg)[i := TServer_shutdownServer s]\<rparr>,
            Network_DeleteServer (ServerName (sg_gid sg) (int i)) net)))"

definition ServerGrp_Kill :: "nat list \<Rightarrow> grp_state \<Rightarrow> go_exit + grp_state" where
  "ServerGrp_Kill = each ServerGrp_ShutdownServer"

definition ServerGrp_Shutdown :: "grp_state \<Rightarrow> go_exit + grp_state" where
  "ServerGrp_Shutdown st = ServerGrp_Kill (ServerGrp_all (fst st)) st"

definition ServerGrp_StartSrvs :: "(nat \<times> string list \<times> nat \<times> bool) list \<Rightarrow> grp_state \<Rightarrow> go_exit + grp_state" where
  "ServerGrp_StartSrvs = each (\<lambda>(srv, names, addr, ok) st.
     and_then (ServerGrp_StartServer srv names addr ok st) (\<lambda>(_, st'). Inr st'))"

text \<open>The state of the loop of \<open>MakePartition\<close>: both arrays and \<open>j\<close>.\<close>

definition partition_put :: "nat \<Rightarrow> nat list \<times> nat list \<times> nat \<Rightarrow> go_exit + nat list \<times> nat list \<times> nat" where
  "partition_put i = (\<lambda>(p1, p2, j).
     if j < length p1 then Inr (p1[j := i], p2, j + 1)
     else if j - length p1 < length p2 then Inr (p1, p2[j - length p1 := i], j + 1)
     else Inl (Panic ''index out of range''))"

definition ServerGrp_MakePartition :: "nat \<Rightarrow> ServerGrp \<Rightarrow> go_exit + nat list \<times> nat list" where
  "ServerGrp_MakePartition l sg =
     (let n = length (sg_srvs sg) in
      and_then (each (\<lambda>i st. if i \<noteq> l then partition_put i st else Inr st) [0..<n]
                 (replicate (n div 2 + 1) 0, replicate (n div 2) 0, 0)) (\<lambda>(p1, p2, j).
        if p2 = [] then Inl (Panic ''index out of range'')
        else Inr (p1, p2[length p2 - 1 := l])))"

definition ServerGrp_Partition :: "nat list \<Rightarrow> nat list \<Rightarrow> grp_state \<Rightarrow> go_exit + grp_state" where
  "ServerGrp_Partition p1 p2 st =
     and_then (each (\<lambda>i st. and_then (ServerGrp_disconnect i p2 st) (ServerGrp_connect i p1)) p1 st)
       (each (\<lambda>i st. and_then (ServerGrp_disconnect i p1 st) (ServerGrp_connect i p2)) p2)"


section \<open>The links of a group\<close>

text \<open>
  In a well-formed group every server has one end per server, and no two ends have the same name.
\<close>

definition wf_group :: "ServerGrp \<Rightarrow> bool" where
  "wf_group sg \<longleftrightarrow> length (connected sg) = length (sg_srvs sg) \<and>
     (\<forall>s\<in>set (sg_srvs sg). length (endNames s) = length (sg_srvs sg)) \<and> distinct (concat (map endNames (sg_srvs sg)))"

definition link_name :: "ServerGrp \<Rightarrow> nat \<Rightarrow> nat \<Rightarrow> string" where
  "link_name sg i j = endNames (sg_srvs sg ! i) ! j"

definition link :: "grp_state \<Rightarrow> nat \<Rightarrow> nat \<Rightarrow> bool" where
  "link st i j \<longleftrightarrow> end_on (snd st) (link_name (fst st) i j)"

lemma distinct_concat_nth:
  assumes "distinct (concat xss)" "i < length xss" "j < length (xss ! i)" "i' < length xss" "j' < length (xss ! i')"
    "xss ! i ! j = xss ! i' ! j'"
  shows "i = i' \<and> j = j'"
  using assms
proof (induction xss arbitrary: i i')
  case (Cons xs xss)
  have no: "xs ! a \<noteq> xss ! b ! c" if "a < length xs" "b < length xss" "c < length (xss ! b)" for a b c
  proof -
    have "xs ! a \<in> set xs" "xss ! b ! c \<in> set (concat xss)" using that by (auto intro!: bexI [of _ "xss ! b"])
    then show ?thesis using Cons.prems(1) by auto
  qed
  show ?case
  proof (cases i; cases i')
    fix a b assume "i = Suc a" "i' = Suc b"
    then show ?thesis using Cons.IH [of a b] Cons.prems by simp
  next
    fix b assume i: "i = 0" "i' = Suc b"
    then show ?thesis using no [of j b j'] Cons.prems by simp
  next
    fix a assume i: "i = Suc a" "i' = 0"
    then show ?thesis using no [of j' a j] Cons.prems by simp
  qed (use Cons.prems in \<open>simp add: nth_eq_iff_index_eq\<close>)
qed simp

lemma link_name_inj:
  assumes "wf_group sg" "i < length (sg_srvs sg)" "j < length (sg_srvs sg)" "i' < length (sg_srvs sg)" "j' < length (sg_srvs sg)"
  shows "link_name sg i j = link_name sg i' j' \<longleftrightarrow> i = i' \<and> j = j'"
  using assms distinct_concat_nth [of "map endNames (sg_srvs sg)" i j i' j']
  by (auto simp: wf_group_def link_name_def)

text \<open>\<open>connect\<close> and \<open>disconnect\<close> in one step, for servers of the group.\<close>

definition group_ok :: "nat list \<Rightarrow> ServerGrp \<Rightarrow> bool" where
  "group_ok to sg \<longleftrightarrow> wf_group sg \<and> (\<forall>j\<in>set to. j < length (sg_srvs sg))"

definition mark :: "nat \<Rightarrow> bool \<Rightarrow> ServerGrp \<Rightarrow> ServerGrp" where
  "mark i b sg = sg\<lparr>connected := (connected sg)[i := b]\<rparr>"

lemma mark_simps [simp]:
  "sg_srvs (mark i b sg) = sg_srvs sg" "sg_gid (mark i b sg) = sg_gid sg" "servernames (mark i b sg) = servernames sg"
  "connected (mark i b sg) = (connected sg)[i := b]" "wf_group (mark i b sg) = wf_group sg"
  "link_name (mark i b sg) = link_name sg" "group_ok to (mark i b sg) = group_ok to sg"
  by (auto simp: mark_def wf_group_def link_name_def group_ok_def fun_eq_iff)

lemma endNames_length: "wf_group sg \<Longrightarrow> i < length (sg_srvs sg) \<Longrightarrow> length (endNames (sg_srvs sg ! i)) = length (sg_srvs sg)"
  by (auto simp: wf_group_def)

lemma ServerGrp_connect_eq:
  assumes ok: "group_ok (i # to) sg"
  shows "ServerGrp_connect i to (sg, net) = Inr (mark i True sg,
     enable_all (map (link_name sg i) (filter (\<lambda>j. connected (mark i True sg) ! j) to) @
                 map (\<lambda>j. link_name sg j i) (filter (\<lambda>j. connected (mark i True sg) ! j) to)) True net)"
proof -
  let ?c = "connected (mark i True sg)"
  have len: "length (connected sg) = length (sg_srvs sg)" "i < length (sg_srvs sg)"
    using ok by (auto simp: group_ok_def wf_group_def)
  have outs: "each (\<lambda>j net. and_then (go_index ?c j) (\<lambda>b.
       if b then and_then (go_index (endNames (sg_srvs sg ! i)) j) (\<lambda>endname. Inr (Network_Enable endname True net)) else Inr net)) to net =
      Inr (enable_all (map (link_name sg i) (filter (\<lambda>j. ?c ! j) to)) True net)" for net
    using ok by (induction to arbitrary: net) (auto simp: group_ok_def link_name_def endNames_length len)
  have ins: "each (\<lambda>j net.
         and_then (ServerGrp_IsConnected j (mark i True sg)) (\<lambda>b.
         if b then and_then (go_index (sg_srvs (mark i True sg)) j) (\<lambda>sj.
                   and_then (go_index (endNames sj) i) (\<lambda>endname. Inr (Network_Enable endname True net)))
         else Inr net)) to net =
      Inr (enable_all (map (\<lambda>j. link_name sg j i) (filter (\<lambda>j. ?c ! j) to)) True net)" for net
    using ok by (induction to arbitrary: net) (auto simp: group_ok_def link_name_def endNames_length len ServerGrp_IsConnected_def)
  show ?thesis
    using len outs ins by (simp add: ServerGrp_connect_def TServer_connect_def Let_def flip: mark_def)
qed

lemma ServerGrp_disconnect_eq:
  assumes ok: "group_ok (i # from) sg"
  shows "ServerGrp_disconnect i from (sg, net) = Inr (mark i False sg,
     enable_all (map (link_name sg i) from @ map (\<lambda>j. link_name sg j i) from) False net)"
proof -
  have len: "length (connected sg) = length (sg_srvs sg)" "i < length (sg_srvs sg)"
    using ok by (auto simp: group_ok_def wf_group_def)
  have ne: "endNames (sg_srvs sg ! j) \<noteq> []" if "j < length (sg_srvs sg)" for j
    using endNames_length [of sg j] that ok by (auto simp: group_ok_def)
  have outs: "each (\<lambda>j net. and_then (go_index (endNames (sg_srvs sg ! i)) j) (\<lambda>endname. Inr (Network_Enable endname False net))) from net =
      Inr (enable_all (map (link_name sg i) from) False net)" for net
    using ok by (induction "from" arbitrary: net) (auto simp: group_ok_def link_name_def endNames_length len)
  have ins: "each (\<lambda>j net.
         and_then (go_index (sg_srvs (mark i False sg)) j) (\<lambda>sj.
         if endNames sj \<noteq> [] then and_then (go_index (endNames sj) i) (\<lambda>endname. Inr (Network_Enable endname False net))
         else Inr net)) from net =
      Inr (enable_all (map (\<lambda>j. link_name sg j i) from) False net)" for net
    using ok by (induction "from" arbitrary: net) (auto simp: group_ok_def link_name_def endNames_length len ne)
  show ?thesis
    using len outs ins ne [OF len(2)] by (simp add: ServerGrp_disconnect_def TServer_disconnect_def Let_def flip: mark_def)
qed

text \<open>What they do to the links and to the connected flags.\<close>

lemma link_enable_all:
  "link (sg, enable_all es v net) i j = (if link_name sg i j \<in> set es then v else link (sg, net) i j)"
  by (simp add: link_def sw.is_on_set_ends)

lemma ServerGrp_connect_links:
  assumes ok: "group_ok (i # to) sg"
  shows "\<exists>sg' net'. ServerGrp_connect i to (sg, net) = Inr (sg', net') \<and> sg' = mark i True sg \<and>
    rn_servers net' = rn_servers net \<and> rn_connections net' = rn_connections net \<and>
    (\<forall>a<length (sg_srvs sg). \<forall>b<length (sg_srvs sg). link (sg', net') a b \<longleftrightarrow>
       link (sg, net) a b \<or> (a = i \<and> b \<in> set to \<and> connected sg' ! b) \<or> (b = i \<and> a \<in> set to \<and> connected sg' ! a))"
proof -
  have wf: "wf_group sg" "i < length (sg_srvs sg)" "\<forall>j\<in>set to. j < length (sg_srvs sg)" using ok by (auto simp: group_ok_def)
  have "link_name sg a b \<in> link_name sg i ` {j \<in> set to. P j} \<longleftrightarrow> a = i \<and> b \<in> set to \<and> P b"
    "link_name sg a b \<in> (\<lambda>j. link_name sg j i) ` {j \<in> set to. P j} \<longleftrightarrow> b = i \<and> a \<in> set to \<and> P a"
    if "a < length (sg_srvs sg)" "b < length (sg_srvs sg)" for a b P
    using wf that by (auto simp: link_name_inj image_iff)
  note mem = this
  have srv: "connected (mark i True sg) = (connected sg)[i := True]" "link (mark i True sg, net) = link (sg, net)"
    by (simp_all add: link_def fun_eq_iff)
  let ?net' = "enable_all (map (link_name sg i) (filter (\<lambda>j. connected (mark i True sg) ! j) to) @
                 map (\<lambda>j. link_name sg j i) (filter (\<lambda>j. connected (mark i True sg) ! j) to)) True net"
  have "link (mark i True sg, ?net') a b \<longleftrightarrow>
       link (sg, net) a b \<or> (a = i \<and> b \<in> set to \<and> connected (mark i True sg) ! b) \<or> (b = i \<and> a \<in> set to \<and> connected (mark i True sg) ! a)"
    if "a < length (sg_srvs sg)" "b < length (sg_srvs sg)" for a b
    using that by (auto simp: link_enable_all mem srv)
  then show ?thesis
    unfolding ServerGrp_connect_eq [OF ok]
    by (intro exI [of _ "mark i True sg"] exI [of _ ?net'] conjI refl allI impI) (simp_all only: enable_all_fields)
qed

lemma ServerGrp_disconnect_links:
  assumes ok: "group_ok (i # from) sg"
  shows "\<exists>sg' net'. ServerGrp_disconnect i from (sg, net) = Inr (sg', net') \<and> sg' = mark i False sg \<and>
    rn_servers net' = rn_servers net \<and> rn_connections net' = rn_connections net \<and>
    (\<forall>a<length (sg_srvs sg). \<forall>b<length (sg_srvs sg). link (sg', net') a b \<longleftrightarrow>
       link (sg, net) a b \<and> \<not> (a = i \<and> b \<in> set from) \<and> \<not> (b = i \<and> a \<in> set from))"
proof -
  have wf: "wf_group sg" "i < length (sg_srvs sg)" "\<forall>j\<in>set from. j < length (sg_srvs sg)" using ok by (auto simp: group_ok_def)
  have "link_name sg a b \<in> link_name sg i ` set from \<longleftrightarrow> a = i \<and> b \<in> set from"
    "link_name sg a b \<in> (\<lambda>j. link_name sg j i) ` set from \<longleftrightarrow> b = i \<and> a \<in> set from"
    if "a < length (sg_srvs sg)" "b < length (sg_srvs sg)" for a b
    using wf that by (auto simp: link_name_inj image_iff)
  note mem = this
  have srv: "link (mark i False sg, net) = link (sg, net)" by (simp add: link_def fun_eq_iff)
  let ?net' = "enable_all (map (link_name sg i) from @ map (\<lambda>j. link_name sg j i) from) False net"
  have "link (mark i False sg, ?net') a b \<longleftrightarrow>
       link (sg, net) a b \<and> \<not> (a = i \<and> b \<in> set from) \<and> \<not> (b = i \<and> a \<in> set from)"
    if "a < length (sg_srvs sg)" "b < length (sg_srvs sg)" for a b
    using that by (auto simp: link_enable_all mem srv)
  then show ?thesis
    unfolding ServerGrp_disconnect_eq [OF ok]
    by (intro exI [of _ "mark i False sg"] exI [of _ ?net'] conjI refl allI impI) (simp_all only: enable_all_fields)
qed

text \<open>
  One side of \<open>Partition\<close>: the servers of \<open>ps\<close> have lost the other side and got each other, and
  nothing else has changed for the links between servers that are not in \<open>ps\<close>.
\<close>

definition same_group :: "ServerGrp \<Rightarrow> ServerGrp \<Rightarrow> bool" where
  "same_group sg sg' \<longleftrightarrow> sg_srvs sg' = sg_srvs sg \<and> sg_gid sg' = sg_gid sg \<and> servernames sg' = servernames sg \<and>
     length (connected sg') = length (connected sg)"

lemma same_group_names: "same_group sg sg' \<Longrightarrow> link_name sg' = link_name sg"
  by (simp add: same_group_def link_name_def fun_eq_iff)

lemma same_group_ok: "same_group sg sg' \<Longrightarrow> group_ok to sg' = group_ok to sg"
  by (auto simp: same_group_def group_ok_def wf_group_def)

definition side_done :: "nat list \<Rightarrow> nat list \<Rightarrow> nat list \<Rightarrow> grp_state \<Rightarrow> grp_state \<Rightarrow> bool" where
  "side_done ps mine other st st' \<longleftrightarrow> same_group (fst st) (fst st') \<and>
     rn_servers (snd st') = rn_servers (snd st) \<and> rn_connections (snd st') = rn_connections (snd st) \<and>
     (\<forall>a\<in>set ps. connected (fst st') ! a \<and> (\<forall>b\<in>set ps. link st' a b) \<and> (\<forall>b\<in>set other. \<not> link st' a b \<and> \<not> link st' b a)) \<and>
     (\<forall>a b. a < length (sg_srvs (fst st)) \<and> b < length (sg_srvs (fst st)) \<and> (a \<notin> set mine \<or> b \<notin> set mine) \<and> link st' a b \<longrightarrow> link st a b) \<and>
     (\<forall>a b. a < length (sg_srvs (fst st)) \<and> b < length (sg_srvs (fst st)) \<and> a \<notin> set mine \<and> b \<notin> set mine \<and> link st a b \<longrightarrow> link st' a b) \<and>
     (\<forall>a. a \<notin> set mine \<longrightarrow> connected (fst st') ! a = connected (fst st) ! a)"

lemma partition_step:
  assumes ok: "group_ok (mine @ other) sg" and i: "i \<in> set mine" and dis: "set mine \<inter> set other = {}"
    and sd: "side_done ps mine other (sg0, net0) (sg, net)" and ps: "set ps \<subseteq> set mine"
  shows "\<exists>st'. and_then (ServerGrp_disconnect i other (sg, net)) (ServerGrp_connect i mine) = Inr st' \<and>
    side_done (ps @ [i]) mine other (sg0, net0) st'"
proof -
  let ?n = "length (sg_srvs sg)"
  have gi: "group_ok (i # other) sg" "group_ok (i # mine) (mark i False sg)" using ok i by (auto simp: group_ok_def)
  have n0: "?n = length (sg_srvs sg0)" "length (connected sg) = ?n" and same: "same_group sg0 sg"
    using sd ok by (auto simp: side_done_def same_group_def group_ok_def wf_group_def)
  have bound: "j < ?n" if "j \<in> set mine \<or> j \<in> set other" for j using ok that by (auto simp: group_ok_def)
  obtain net1 where d: "ServerGrp_disconnect i other (sg, net) = Inr (mark i False sg, net1)"
    "rn_servers net1 = rn_servers net" "rn_connections net1 = rn_connections net"
    and l1: "\<And>a b. a < ?n \<Longrightarrow> b < ?n \<Longrightarrow> link (mark i False sg, net1) a b \<longleftrightarrow>
       link (sg, net) a b \<and> \<not> (a = i \<and> b \<in> set other) \<and> \<not> (b = i \<and> a \<in> set other)"
    using ServerGrp_disconnect_links [OF gi(1), of net] by blast
  obtain net2 where c: "ServerGrp_connect i mine (mark i False sg, net1) = Inr (mark i True (mark i False sg), net2)"
    "rn_servers net2 = rn_servers net1" "rn_connections net2 = rn_connections net1"
    and l2: "\<And>a b. a < ?n \<Longrightarrow> b < ?n \<Longrightarrow> link (mark i True (mark i False sg), net2) a b \<longleftrightarrow>
       link (mark i False sg, net1) a b \<or> (a = i \<and> b \<in> set mine \<and> connected (mark i True (mark i False sg)) ! b) \<or>
       (b = i \<and> a \<in> set mine \<and> connected (mark i True (mark i False sg)) ! a)"
    using ServerGrp_connect_links [OF gi(2), of net1] by (auto simp del: mark_simps(4))
  let ?st = "(mark i True (mark i False sg), net2)"
  have conn: "connected (fst ?st) ! a \<longleftrightarrow> a = i \<or> connected sg ! a" if "a < ?n" for a
    using that n0(2) by (cases "a = i") simp_all
  have l: "link ?st a b \<longleftrightarrow> (link (sg, net) a b \<and> \<not> (a = i \<and> b \<in> set other) \<and> \<not> (b = i \<and> a \<in> set other)) \<or>
      (a = i \<and> b \<in> set mine \<and> (b = i \<or> connected sg ! b)) \<or> (b = i \<and> a \<in> set mine \<and> (a = i \<or> connected sg ! a))"
    if "a < ?n" "b < ?n" for a b using that l1 l2 conn by auto
  have old: "\<forall>a\<in>set ps. connected sg ! a \<and> (\<forall>b\<in>set ps. link (sg, net) a b) \<and> (\<forall>b\<in>set other. \<not> link (sg, net) a b \<and> \<not> link (sg, net) b a)"
    and keep: "\<And>a b. a < ?n \<Longrightarrow> b < ?n \<Longrightarrow> a \<notin> set mine \<or> b \<notin> set mine \<Longrightarrow> link (sg, net) a b \<Longrightarrow> link (sg0, net0) a b"
      "\<And>a b. a < ?n \<Longrightarrow> b < ?n \<Longrightarrow> a \<notin> set mine \<Longrightarrow> b \<notin> set mine \<Longrightarrow> link (sg0, net0) a b \<Longrightarrow> link (sg, net) a b"
    using sd n0(1) by (auto simp: side_done_def)
  have "connected (fst ?st) ! a \<and> (\<forall>b\<in>set (ps @ [i]). link ?st a b) \<and> (\<forall>b\<in>set other. \<not> link ?st a b \<and> \<not> link ?st b a)"
    if a: "a \<in> set (ps @ [i])" for a
  proof (intro conjI ballI)
    have am: "a \<in> set mine" using a ps i by auto
    then have an: "a < ?n" by (simp add: bound)
    have ac: "a = i \<or> connected sg ! a" using a old by auto
    show "connected (fst ?st) ! a" using conn [OF an] ac by blast
    show "link ?st a b" if "b \<in> set (ps @ [i])" for b
    proof -
      have b: "b \<in> set mine" "b = i \<or> connected sg ! b" using that ps i old by auto
      then show ?thesis using l [OF an bound, of b] a that am ac old dis by auto
    qed
    show "\<not> link ?st a b" "\<not> link ?st b a" if "b \<in> set other" for b
    proof -
      have b: "b < ?n" "b \<notin> set mine" "b \<noteq> i" using that dis i by (auto simp: bound)
      have "a = i \<or> a \<in> set ps" using a by auto
      then show "\<not> link ?st a b" "\<not> link ?st b a" using l [OF an b(1)] l [OF b(1) an] b that old by auto
    qed
  qed
  moreover have "link (sg0, net0) a b" if "a < ?n" "b < ?n" "a \<notin> set mine \<or> b \<notin> set mine" "link ?st a b" for a b
    using l [OF that(1,2)] that keep(1) [OF that(1-3)] i by auto
  moreover have "link ?st a b" if "a < ?n" "b < ?n" "a \<notin> set mine" "b \<notin> set mine" "link (sg0, net0) a b" for a b
    using l [OF that(1,2)] keep(2) [OF that] that i by auto
  moreover have "connected (fst ?st) ! a = connected sg0 ! a" if "a \<notin> set mine" for a
  proof -
    have "a \<noteq> i" "connected sg ! a = connected sg0 ! a" using that i sd by (auto simp: side_done_def)
    then show ?thesis by simp
  qed
  ultimately have "side_done (ps @ [i]) mine other (sg0, net0) ?st"
    using sd n0 d c unfolding side_done_def same_group_def by auto
  then show ?thesis using d(1) c(1) by auto
qed

lemma partition_side:
  assumes "group_ok (mine @ other) (fst st)" and "set mine \<inter> set other = {}"
  shows "\<exists>st'. each (\<lambda>i st. and_then (ServerGrp_disconnect i other st) (ServerGrp_connect i mine)) mine st = Inr st' \<and>
    side_done mine mine other st st'"
proof -
  let ?f = "\<lambda>i st. and_then (ServerGrp_disconnect i other st) (ServerGrp_connect i mine)"
  have "\<exists>st'. each ?f ps st = Inr st' \<and> side_done ps mine other st st'" if "set ps \<subseteq> set mine" for ps
    using that
  proof (induction ps rule: rev_induct)
    case Nil
    then show ?case by (simp add: side_done_def same_group_def)
  next
    case (snoc i ps)
    then obtain sg net where st: "each ?f ps st = Inr (sg, net)" "side_done ps mine other st (sg, net)" by auto
    then have ok: "group_ok (mine @ other) sg" using assms(1) by (auto simp: side_done_def same_group_ok)
    obtain st' where "?f i (sg, net) = Inr st'" "side_done (ps @ [i]) mine other st st'"
      using partition_step [OF ok _ assms(2), of i ps "fst st" "snd st" net] st(2) snoc.prems by auto
    then show ?case using st(1) by (auto simp: each_append)
  qed
  from this [of mine] show ?thesis by simp
qed

section \<open>The invariant of a group\<close>

text \<open>
  The ends of the group's servers exist in the network and end \<open>j\<close> of each leads to server \<open>j\<close>.
\<close>

definition grp_inv :: "grp_state \<Rightarrow> bool" where
  "grp_inv = (\<lambda>(sg, net). wf_group sg \<and>
     (\<forall>i<length (sg_srvs sg). \<forall>j<length (sg_srvs sg).
        rn_ends net (link_name sg i j) \<noteq> None \<and> rn_connections net (link_name sg i j) = Some (ServerName (sg_gid sg) (int j))))"

definition same_ends :: "net \<Rightarrow> net \<Rightarrow> bool" where
  "same_ends net net' \<longleftrightarrow> rn_ends net' = rn_ends net \<and> rn_connections net' = rn_connections net"

lemma same_ends_Enable: "same_ends net0 net \<Longrightarrow> same_ends net0 (Network_Enable e b net)"
  by (simp add: same_ends_def Network_Enable_def)

lemma grp_inv_same:
  assumes "grp_inv (sg, net)" "same_group sg sg'" "same_ends net net'"
  shows "grp_inv (sg', net')"
proof -
  have "group_ok [] sg' = group_ok [] sg" "link_name sg' = link_name sg" using assms(2) by (simp_all add: same_group_ok same_group_names)
  then have "wf_group sg'" "link_name sg' = link_name sg" using assms(1) by (auto simp: group_ok_def grp_inv_def)
  then show ?thesis using assms by (auto simp: grp_inv_def same_ends_def same_group_def)
qed

lemma ServerGrp_connect_keeps:
  assumes "ServerGrp_connect i to (sg, net) = Inr (sg', net')"
  shows "same_group sg sg' \<and> same_ends net net'"
proof -
  have "same_ends net net" by (simp add: same_ends_def)
  then have "same_ends net net'"
    using assms by (auto simp: ServerGrp_connect_def TServer_connect_def Let_def and_then_eq_Inr
        elim!: each_inv [where P = "same_ends net"] split: if_splits intro: same_ends_Enable)
  then show ?thesis using assms by (auto simp: ServerGrp_connect_def Let_def and_then_eq_Inr same_group_def)
qed

lemma ServerGrp_disconnect_keeps:
  assumes "ServerGrp_disconnect i from (sg, net) = Inr (sg', net')"
  shows "same_group sg sg' \<and> same_ends net net'"
proof -
  have "same_ends net net" by (simp add: same_ends_def)
  then have "same_ends net net'"
    using assms by (auto simp: ServerGrp_disconnect_def TServer_disconnect_def Let_def and_then_eq_Inr
        elim!: each_inv [where P = "same_ends net"] split: if_splits intro: same_ends_Enable)
  then show ?thesis using assms by (auto simp: ServerGrp_disconnect_def Let_def and_then_eq_Inr same_group_def)
qed

lemma make_servers_net:
  assumes "make_servers gid namess net = Inr (srvs, net')"
  shows "srvs = map (\<lambda>names. \<lparr>saved = None, endNames = names, dc = None\<rparr>) namess \<and> distinct (concat namess) \<and>
    set (concat namess) \<inter> dom (rn_ends net) = {} \<and> dom (rn_ends net') = dom (rn_ends net) \<union> set (concat namess) \<and>
    (\<forall>names\<in>set namess. \<forall>j<length names. rn_connections net' (names ! j) = Some (ServerName gid (int j))) \<and>
    (\<forall>e. e \<notin> set (concat namess) \<longrightarrow> rn_connections net' e = rn_connections net e)"
  using assms
proof (induction namess arbitrary: net srvs)
  case (Cons names namess)
  then obtain s net1 srvs1 where m: "makeServer gid names net = Inr (s, net1)" "make_servers gid namess net1 = Inr (srvs1, net')"
    and srvs: "srvs = s # srvs1" by (auto simp: and_then_eq_Inr)
  note IH = Cons.IH [OF m(2)] and new = makeServer_net [OF m(1)]
  have "set (concat namess) \<inter> dom (rn_ends net1) = {}" using IH by (elim conjE)
  moreover have "set names \<subseteq> dom (rn_ends net1)" using new by simp
  ultimately have dis: "set names \<inter> set (concat namess) = {}" by blast
  have "rn_connections net' (names ! j) = Some (ServerName gid (int j))" if "j < length names" for j
  proof -
    have "names ! j \<notin> set (concat namess)" using dis that by (metis IntI empty_iff nth_mem)
    then have "rn_connections net' (names ! j) = rn_connections net1 (names ! j)" using IH by blast
    then show ?thesis using new that by simp
  qed
  moreover have "dom (rn_ends net') = dom (rn_ends net) \<union> set (concat (names # namess))" using IH new by auto
  moreover have "set (concat (names # namess)) \<inter> dom (rn_ends net) = {}" using IH new by auto
  moreover have "distinct (concat (names # namess))" using IH new dis by simp
  moreover have "\<forall>e. e \<notin> set (concat (names # namess)) \<longrightarrow> rn_connections net' e = rn_connections net e" using IH new by simp
  ultimately show ?case using IH new srvs by simp
qed auto

lemma makeSrvGrp_inv:
  assumes "makeSrvGrp gid n namess net = Inr st" "length namess = n" "\<forall>names\<in>set namess. length names = n"
  shows "grp_inv st"
proof -
  obtain srvs net' where m: "make_servers gid namess net = Inr (srvs, net')"
    and st: "st = (\<lparr>sg_srvs = srvs, servernames = map (\<lambda>i. ServerName gid (int i)) [0..<n], sg_gid = gid, connected = replicate n False\<rparr>, net')"
    using assms(1) by (auto simp: makeSrvGrp_def and_then_eq_Inr)
  note f = make_servers_net [OF m]
  have srvs: "srvs = map (\<lambda>names. \<lparr>saved = None, endNames = names, dc = None\<rparr>) namess" using f by blast
  have names: "map endNames srvs = namess" by (simp add: srvs comp_def)
  have "rn_ends net' (namess ! i ! j) \<noteq> None \<and> rn_connections net' (namess ! i ! j) = Some (ServerName gid (int j))"
    if "i < n" "j < n" for i j
  proof -
    have nm: "namess ! i \<in> set namess" "j < length (namess ! i)" using assms(2,3) that by auto
    then have "namess ! i ! j \<in> set (concat namess)" by (auto intro!: bexI [of _ "namess ! i"])
    then show ?thesis using f nm by blast
  qed
  then show ?thesis using f assms(2,3) names by (auto simp: st grp_inv_def wf_group_def link_name_def srvs)
qed

lemma startServer_inv:
  assumes inv: "grp_inv (sg, net)" and s: "makeServer (sg_gid sg) names net = Inr (s0, net1)" and i: "i < length (sg_srvs sg)"
    and len: "length names = length (sg_srvs sg)" and s': "endNames s' = names"
  shows "grp_inv (sg\<lparr>sg_srvs := (sg_srvs sg)[i := s']\<rparr>, net1)"
proof -
  let ?n = "length (sg_srvs sg)" and ?sg = "sg\<lparr>sg_srvs := (sg_srvs sg)[i := s']\<rparr>"
  note new = makeServer_net [OF s]
  have wf: "wf_group sg" using inv by (simp add: grp_inv_def)
  have old: "link_name sg a b \<in> dom (rn_ends net)" if "a < ?n" "b < ?n" for a b using inv that by (auto simp: grp_inv_def)
  have name: "link_name ?sg a b = (if a = i then names ! b else link_name sg a b)" if "a < ?n" for a b
    using that i s' by (simp add: link_name_def nth_list_update)
  have others: "set (endNames x) \<subseteq> dom (rn_ends net)" if "x \<in> set (sg_srvs sg)" for x
  proof
    fix e assume "e \<in> set (endNames x)"
    then obtain b where "b < length (endNames x)" "e = endNames x ! b" by (metis in_set_conv_nth)
    moreover obtain a where "a < ?n" "sg_srvs sg ! a = x" using \<open>x \<in> set (sg_srvs sg)\<close> by (metis in_set_conv_nth)
    ultimately have "a < ?n" "sg_srvs sg ! a = x" "b < length (endNames x)" "e = endNames x ! b" by simp_all
    then show "e \<in> dom (rn_ends net)" using old [of a b] endNames_length [OF wf, of a] by (simp add: link_name_def)
  qed
  have split: "sg_srvs sg = take i (sg_srvs sg) @ sg_srvs sg ! i # drop (Suc i) (sg_srvs sg)" using i by (rule id_take_nth_drop)
  have upd: "(sg_srvs sg)[i := s'] = take i (sg_srvs sg) @ s' # drop (Suc i) (sg_srvs sg)" using i by (rule upd_conv_take_nth_drop)
  define A where "A = concat (map endNames (take i (sg_srvs sg)))"
  define B where "B = concat (map endNames (drop (Suc i) (sg_srvs sg)))"
  have "distinct (concat (map endNames (take i (sg_srvs sg) @ sg_srvs sg ! i # drop (Suc i) (sg_srvs sg))))"
    using wf split by (simp add: wf_group_def)
  then have AB: "distinct A" "distinct B" "set A \<inter> set B = {}" by (auto simp: A_def B_def)
  have known: "set (concat (map endNames xs)) \<subseteq> dom (rn_ends net)" if "set xs \<subseteq> set (sg_srvs sg)" for xs
    using that by (induction xs) (simp_all add: others)
  have "set A \<subseteq> dom (rn_ends net)" "set B \<subseteq> dom (rn_ends net)"
    unfolding A_def B_def by (intro known set_take_subset set_drop_subset)+
  moreover have "set names \<inter> dom (rn_ends net) = {}" using new by (elim conjE)
  moreover have "distinct names" using new by (elim conjE)
  ultimately have "set names \<inter> set A = {}" "set names \<inter> set B = {}" "distinct names" by blast+
  then have "distinct (A @ names @ B)" using AB by (simp add: Int_commute Int_Un_distrib)
  then have "distinct (concat (map endNames ((sg_srvs sg)[i := s'])))" by (simp add: upd A_def B_def s')
  moreover have "\<forall>x\<in>set ((sg_srvs sg)[i := s']). length (endNames x) = ?n"
    using wf len s' set_update_subset_insert [of "sg_srvs sg" i s'] by (auto simp: wf_group_def)
  ultimately have "wf_group ?sg" using wf by (simp add: wf_group_def)
  moreover have "rn_ends net1 (link_name ?sg a b) \<noteq> None \<and> rn_connections net1 (link_name ?sg a b) = Some (ServerName (sg_gid sg) (int b))"
    if "a < ?n" "b < ?n" for a b
  proof (cases "a = i")
    case True
    then have "link_name ?sg a b \<in> set names" "link_name ?sg a b = names ! b" using that len name [OF that(1)] by auto
    moreover have "dom (rn_ends net1) = dom (rn_ends net) \<union> set names" using new by (elim conjE)
    moreover have "rn_connections net1 (names ! b) = Some (ServerName (sg_gid sg) (int b))" using new that len by simp
    ultimately show ?thesis by auto
  next
    case False
    then have "link_name ?sg a b = link_name sg a b" "link_name sg a b \<notin> set names" using that name old [OF that] new by auto
    moreover have "dom (rn_ends net1) = dom (rn_ends net) \<union> set names" using new by (elim conjE)
    moreover have "rn_connections net1 (link_name sg a b) = rn_connections net (link_name sg a b)" using new calculation(2) by simp
    moreover have "rn_connections net (link_name sg a b) = Some (ServerName (sg_gid sg) (int b))" using inv that by (simp add: grp_inv_def)
    moreover have "link_name sg a b \<in> dom (rn_ends net1)" using old [OF that] calculation(3) by blast
    ultimately show ?thesis by auto
  qed
  ultimately show ?thesis by (simp add: grp_inv_def)
qed

lemma StartServer_parts:
  assumes "ServerGrp_StartServer i names addr run_ok (sg, net) = Inr (b, sg', net')"
  shows "\<exists>s0 net1 s'. i < length (sg_srvs sg) \<and> makeServer (sg_gid sg) names net = Inr (s0, net1) \<and> b = run_ok \<and>
    sg' = sg\<lparr>sg_srvs := (sg_srvs sg)[i := s']\<rparr> \<and> endNames s' = names \<and>
    saved s' = Some (case saved (sg_srvs sg ! i) of None \<Rightarrow> MakePersister | Some p \<Rightarrow> p) \<and>
    dc s' = (if run_ok then map_option DaemonClnt_init (saved s') else None) \<and>
    net' = (if run_ok then Network_AddServer (ServerName (sg_gid sg) (int i)) addr net1 else net1)"
proof -
  have i: "i < length (sg_srvs sg)" using assms by (auto simp: ServerGrp_StartServer_def and_then_eq_Inr go_index_def split: if_splits)
  then obtain s0 net1 where m: "makeServer (sg_gid sg) names net = Inr (s0, net1)"
    using assms by (auto simp: ServerGrp_StartServer_def and_then_eq_Inr TServer_startServer_def)
  then have "s0 = \<lparr>saved = None, endNames = names, dc = None\<rparr>" using makeServer_net by blast
  then show ?thesis using assms i m
    by (cases run_ok) (auto simp: ServerGrp_StartServer_def TServer_startServer_def Let_def)
qed

lemma ShutdownServer_parts:
  assumes "ServerGrp_ShutdownServer i (sg, net) = Inr (sg', net')"
  shows "\<exists>sg1 net1. ServerGrp_disconnect i (ServerGrp_all sg) (sg, net) = Inr (sg1, net1) \<and> i < length (sg_srvs sg) \<and>
    sg' = sg1\<lparr>sg_srvs := (sg_srvs sg)[i := TServer_shutdownServer (sg_srvs sg ! i)]\<rparr> \<and>
    net' = Network_DeleteServer (ServerName (sg_gid sg) (int i)) net1"
proof -
  obtain sg1 net1 where d: "ServerGrp_disconnect i (ServerGrp_all sg) (sg, net) = Inr (sg1, net1)"
    using assms by (auto simp: ServerGrp_ShutdownServer_def and_then_eq_Inr)
  then have "same_group sg sg1" using ServerGrp_disconnect_keeps by blast
  then show ?thesis using assms d
    by (auto simp: ServerGrp_ShutdownServer_def and_then_eq_Inr same_group_def go_index_def split: if_splits)
qed

lemma StartServer_inv:
  assumes "grp_inv (sg, net)" "ServerGrp_StartServer i names addr run_ok (sg, net) = Inr (b, sg', net')" "length names = ServerGrp_N sg"
  shows "grp_inv (sg', net')"
proof -
  obtain s0 net1 s' where p: "i < length (sg_srvs sg)" "makeServer (sg_gid sg) names net = Inr (s0, net1)"
    "sg' = sg\<lparr>sg_srvs := (sg_srvs sg)[i := s']\<rparr>" "endNames s' = names"
    "net' = (if run_ok then Network_AddServer (ServerName (sg_gid sg) (int i)) addr net1 else net1)"
    using StartServer_parts [OF assms(2)] by blast
  have "grp_inv (sg', net1)" using startServer_inv [OF assms(1) p(2,1)] p(3,4) assms(3) by (simp add: ServerGrp_N_def)
  then show ?thesis using grp_inv_same [of sg' net1 sg' net'] p(5)
    by (auto simp: same_group_def same_ends_def Network_AddServer_def)
qed

lemma shutdownServer_endNames [simp]: "endNames (TServer_shutdownServer s) = endNames s"
  by (simp add: TServer_shutdownServer_def split: option.splits)

lemma wf_group_names:
  "wf_group sg \<longleftrightarrow> length (connected sg) = length (sg_srvs sg) \<and>
     (\<forall>ns\<in>set (map endNames (sg_srvs sg)). length ns = length (sg_srvs sg)) \<and> distinct (concat (map endNames (sg_srvs sg)))"
  by (simp add: wf_group_def)

lemma ShutdownServer_inv:
  assumes "grp_inv (sg, net)" "ServerGrp_ShutdownServer i (sg, net) = Inr (sg', net')"
  shows "grp_inv (sg', net')"
proof -
  obtain sg1 net1 where p: "ServerGrp_disconnect i (ServerGrp_all sg) (sg, net) = Inr (sg1, net1)" "i < length (sg_srvs sg)"
    "sg' = sg1\<lparr>sg_srvs := (sg_srvs sg)[i := TServer_shutdownServer (sg_srvs sg ! i)]\<rparr>"
    "net' = Network_DeleteServer (ServerName (sg_gid sg) (int i)) net1" using ShutdownServer_parts [OF assms(2)] by blast
  have "grp_inv (sg1, net1)" "sg_srvs sg1 = sg_srvs sg"
    using grp_inv_same [OF assms(1)] ServerGrp_disconnect_keeps [OF p(1)] by (auto simp: same_group_def)
  moreover have "map endNames (sg_srvs sg') = map endNames (sg_srvs sg)" using p(2,3) by (simp add: map_update) (metis list_update_id nth_map)
  then have "link_name sg' a b = link_name sg1 a b" if "a < length (sg_srvs sg)" for a b
    using that p(2,3) calculation(2) by (cases "a = i") (simp_all add: link_name_def)
  moreover have "wf_group sg1" using calculation(1) by (simp add: grp_inv_def)
  then have "wf_group sg'" using calculation(2) p(3) \<open>map endNames (sg_srvs sg') = map endNames (sg_srvs sg)\<close>
    unfolding wf_group_names by (simp del: set_map)
  ultimately show ?thesis using p(3,4) by (auto simp: grp_inv_def Network_DeleteServer_def)
qed

lemma upt_split: "l < n \<Longrightarrow> [0..<n] = [0..<l] @ l # [Suc l..<n]"
  by (metis le_add1 less_imp_add_positive plus_nat.add_0 upt_add_eq_append upt_conv_Cons)

lemma partition_put_append:
  assumes "j < length p1 + length p2"
  shows "\<exists>p1' p2'. partition_put i (p1, p2, j) = Inr (p1', p2', j + 1) \<and> length p1' = length p1 \<and> length p2' = length p2 \<and>
    p1' @ p2' = (p1 @ p2)[j := i]"
  using assms by (cases "j < length p1") (auto simp: partition_put_def list_update_append)

text \<open>After the servers below \<open>m\<close>, the two arrays in a row hold those other than \<open>l\<close>, then zeros.\<close>

lemma MakePartition_loop:
  assumes "m \<le> a + b"
  shows "\<exists>p1 p2. each (\<lambda>i st. if i \<noteq> l then partition_put i st else Inr st) [0..<m] (replicate a 0, replicate b 0, 0) =
      Inr (p1, p2, length (filter (\<lambda>i. i \<noteq> l) [0..<m])) \<and> length p1 = a \<and> length p2 = b \<and>
    p1 @ p2 = filter (\<lambda>i. i \<noteq> l) [0..<m] @ replicate (a + b - length (filter (\<lambda>i. i \<noteq> l) [0..<m])) 0"
  using assms
proof (induction m)
  case 0
  then show ?case by (simp add: replicate_add)
next
  case (Suc m)
  let ?xs = "filter (\<lambda>i. i \<noteq> l) [0..<m]"
  obtain p1 p2 where IH: "each (\<lambda>i st. if i \<noteq> l then partition_put i st else Inr st) [0..<m] (replicate a 0, replicate b 0, 0) =
      Inr (p1, p2, length ?xs)" "length p1 = a" "length p2 = b" "p1 @ p2 = ?xs @ replicate (a + b - length ?xs) 0" using Suc by auto
  have xs: "length ?xs \<le> m" by (metis length_filter_le diff_zero length_upt)
  show ?case
  proof (cases "m = l")
    case True
    then show ?thesis using IH by (simp add: each_append)
  next
    case False
    obtain p1' p2' where put: "partition_put m (p1, p2, length ?xs) = Inr (p1', p2', length ?xs + 1)" "length p1' = a" "length p2' = b"
      "p1' @ p2' = (p1 @ p2)[length ?xs := m]" using partition_put_append [of "length ?xs" p1 p2 m] IH xs Suc.prems by auto
    have "replicate (a + b - length ?xs) (0 :: nat) = 0 # replicate (a + b - Suc (length ?xs)) 0"
      using xs Suc.prems by (simp flip: replicate_Suc add: Suc_diff_Suc)
    then have "p1' @ p2' = ?xs @ m # replicate (a + b - Suc (length ?xs)) 0"
      using put(4) IH(4) by (simp add: list_update_append)
    then show ?thesis using IH(1) put False by (simp add: each_append)
  qed
qed

text \<open>
  The life of a group: it is made, its servers are connected, disconnected, started and shut
  down, and the rest of the program changes other parts of the network.
\<close>

inductive grp_step :: "grp_state \<Rightarrow> grp_state \<Rightarrow> bool" where
  step_connect: "ServerGrp_connect i to st = Inr st' \<Longrightarrow> grp_step st st'"
| step_disconnect: "ServerGrp_disconnect i from st = Inr st' \<Longrightarrow> grp_step st st'"
| step_start: "ServerGrp_StartServer i names addr run_ok st = Inr (b, st') \<Longrightarrow> length names = ServerGrp_N (fst st) \<Longrightarrow> grp_step st st'"
| step_shutdown: "ServerGrp_ShutdownServer i st = Inr st' \<Longrightarrow> grp_step st st'"
| step_others: "(\<And>i j. i < ServerGrp_N sg \<Longrightarrow> j < ServerGrp_N sg \<Longrightarrow>
      rn_ends net' (link_name sg i j) = rn_ends net (link_name sg i j) \<and>
      rn_connections net' (link_name sg i j) = rn_connections net (link_name sg i j)) \<Longrightarrow> grp_step (sg, net) (sg, net')"

inductive grp_reach :: "nat \<Rightarrow> grp_state \<Rightarrow> bool" for n where
  reach_make: "makeSrvGrp gid n namess net = Inr st \<Longrightarrow> length namess = n \<Longrightarrow> (\<And>names. names \<in> set namess \<Longrightarrow> length names = n) \<Longrightarrow>
    grp_reach n st"
| reach_step: "grp_reach n st \<Longrightarrow> grp_step st st' \<Longrightarrow> grp_reach n st'"

lemma grp_step_inv:
  assumes "grp_step st st'" and "grp_inv st"
  shows "grp_inv st'"
  using assms
proof (cases rule: grp_step.cases)
  case (step_connect i to)
  then show ?thesis using assms(2) grp_inv_same ServerGrp_connect_keeps by (metis surj_pair)
next
  case (step_disconnect i "from")
  then show ?thesis using assms(2) grp_inv_same ServerGrp_disconnect_keeps by (metis surj_pair)
next
  case (step_start i names addr run_ok b)
  then show ?thesis using assms(2) StartServer_inv by (metis fst_conv surj_pair)
next
  case (step_shutdown i)
  then show ?thesis using assms(2) ShutdownServer_inv by (metis surj_pair)
next
  case (step_others sg net' net)
  then show ?thesis using assms(2) by (auto simp: grp_inv_def ServerGrp_N_def)
qed

text \<open>The compound operations are sequences of steps.\<close>

lemma each_steps:
  assumes "each f xs st = Inr st'" and "\<And>x s s'. f x s = Inr s' \<Longrightarrow> grp_step\<^sup>*\<^sup>* s s'"
  shows "grp_step\<^sup>*\<^sup>* st st'"
  by (rule each_inv [where P = "grp_step\<^sup>*\<^sup>* st", OF assms(1)]) (auto dest: assms(2))

lemma Partition_steps:
  assumes "ServerGrp_Partition p1 p2 st = Inr st'"
  shows "grp_step\<^sup>*\<^sup>* st st'"
proof -
  have body: "grp_step\<^sup>*\<^sup>* s s'" if "and_then (ServerGrp_disconnect i p s) (ServerGrp_connect i q) = Inr s'" for i p q s s'
    using that by (auto simp: and_then_eq_Inr intro: step_connect step_disconnect converse_rtranclp_into_rtranclp)
  obtain st1 where "each (\<lambda>i st. and_then (ServerGrp_disconnect i p2 st) (ServerGrp_connect i p1)) p1 st = Inr st1"
    "each (\<lambda>i st. and_then (ServerGrp_disconnect i p1 st) (ServerGrp_connect i p2)) p2 st1 = Inr st'"
    using assms by (auto simp: ServerGrp_Partition_def and_then_eq_Inr)
  then have "grp_step\<^sup>*\<^sup>* st st1" "grp_step\<^sup>*\<^sup>* st1 st'" by (auto elim!: each_steps intro: body)
  then show ?thesis by simp
qed

lemma ConnectAll_steps: "ServerGrp_ConnectAll st = Inr st' \<Longrightarrow> grp_step\<^sup>*\<^sup>* st st'"
  unfolding ServerGrp_ConnectAll_def ServerGrp_ConnectOne_def by (erule each_steps) (auto intro: step_connect)

lemma Kill_steps: "ServerGrp_Kill srvs st = Inr st' \<Longrightarrow> grp_step\<^sup>*\<^sup>* st st'"
  unfolding ServerGrp_Kill_def by (erule each_steps) (auto intro: step_shutdown)

lemma grp_reach_steps: "grp_step\<^sup>*\<^sup>* st st' \<Longrightarrow> grp_reach n st \<Longrightarrow> grp_reach n st'"
  by (induction rule: rtranclp_induct) (auto intro: reach_step)

lemma grp_reach_inv: "grp_reach n st \<Longrightarrow> grp_inv st"
proof (induction rule: grp_reach.induct)
  case (reach_make gid namess net st)
  then show ?case by (intro makeSrvGrp_inv) auto
qed (rule grp_step_inv)

section \<open>Properties of the server groups\<close>

lemma Partition_spec:
  assumes "wf_group sg" and "set p1 \<inter> set p2 = {}" and "\<forall>i\<in>set (p1 @ p2). i < ServerGrp_N sg"
  shows "\<exists>sg' net'. ServerGrp_Partition p1 p2 (sg, net) = Inr (sg', net') \<and> sg_srvs sg' = sg_srvs sg \<and>
    (\<forall>a\<in>set (p1 @ p2). ServerGrp_IsConnected a sg' = Inr True) \<and>
    (\<forall>a\<in>set (p1 @ p2). \<forall>b\<in>set (p1 @ p2). link (sg', net') a b \<longleftrightarrow> (a \<in> set p1 \<longleftrightarrow> b \<in> set p1)) \<and>
    (\<forall>a\<in>set p1. \<forall>b\<in>set p2. \<forall>req ch net2 heap. req_endname req \<in> {link_name sg' a b, link_name sg' b a} \<longrightarrow>
       Network_processReq net' ch net2 (heap :: nat \<Rightarrow> 's Server) req = Inr (no_reply, heap, 0))"
proof -
  have ok: "group_ok (p1 @ p2) sg" "group_ok (p2 @ p1) sg" using assms(1,3) by (auto simp: group_ok_def ServerGrp_N_def)
  obtain st1 where st1: "each (\<lambda>i st. and_then (ServerGrp_disconnect i p2 st) (ServerGrp_connect i p1)) p1 (sg, net) = Inr st1"
    "side_done p1 p1 p2 (sg, net) st1" using partition_side [of p1 p2 "(sg, net)"] ok assms(2) by auto
  have ok1: "group_ok (p2 @ p1) (fst st1)" using st1(2) ok(2) by (auto simp: side_done_def same_group_ok)
  obtain sg' net' where st2: "each (\<lambda>i st. and_then (ServerGrp_disconnect i p1 st) (ServerGrp_connect i p2)) p2 st1 = Inr (sg', net')"
    "side_done p2 p2 p1 st1 (sg', net')" using partition_side [of p2 p1 st1] ok1 assms(2) by auto
  have same: "sg_srvs (fst st1) = sg_srvs sg" "sg_srvs sg' = sg_srvs sg" "length (connected sg') = length (connected sg)"
    using st1(2) st2(2) by (auto simp: side_done_def same_group_def)
  have bound: "a < length (sg_srvs sg)" "a < length (connected sg)" if "a \<in> set (p1 @ p2)" for a
    using that assms(1,3) by (auto simp: ServerGrp_N_def wf_group_def)
  have p1: "connected sg' ! a \<and> (\<forall>b\<in>set p1. link (sg', net') a b) \<and> (\<forall>b\<in>set p2. \<not> link (sg', net') a b)" if "a \<in> set p1" for a
  proof (intro conjI ballI)
    have "a \<notin> set p2" using that assms(2) by auto
    then show "connected sg' ! a" using that st1(2) st2(2) by (auto simp: side_done_def)
    show "link (sg', net') a b" if "b \<in> set p1" for b
    proof -
      have "link st1 a b" "b \<notin> set p2" using that \<open>a \<in> set p1\<close> st1(2) assms(2) by (auto simp: side_done_def)
      then show ?thesis using st2(2) \<open>a \<notin> set p2\<close> bound [of a] bound [of b] that \<open>a \<in> set p1\<close> same(1)
        unfolding side_done_def by simp
    qed
    show "\<not> link (sg', net') a b" if "b \<in> set p2" for b using that \<open>a \<in> set p1\<close> st2(2) by (auto simp: side_done_def)
  qed
  have p2: "connected sg' ! a \<and> (\<forall>b\<in>set p2. link (sg', net') a b) \<and> (\<forall>b\<in>set p1. \<not> link (sg', net') a b)" if "a \<in> set p2" for a
    using that st2(2) by (auto simp: side_done_def)
  have "ServerGrp_Partition p1 p2 (sg, net) = Inr (sg', net')" using st1(1) st2(1) by (simp add: ServerGrp_Partition_def)
  moreover have "ServerGrp_IsConnected a sg' = Inr True" if "a \<in> set (p1 @ p2)" for a
    using that p1 [of a] p2 [of a] bound(2) [OF that] same(3) by (auto simp: ServerGrp_IsConnected_def)
  moreover have "link (sg', net') a b \<longleftrightarrow> (a \<in> set p1 \<longleftrightarrow> b \<in> set p1)" if "a \<in> set (p1 @ p2)" "b \<in> set (p1 @ p2)" for a b
    using that p1 [of a] p2 [of a] assms(2) by auto
  moreover have "Network_processReq net' ch net2 heap req = Inr (no_reply, heap, 0)"
    if "a \<in> set p1" "b \<in> set p2" "req_endname req \<in> {link_name sg' a b, link_name sg' b a}" for a b req ch net2 and heap :: "nat \<Rightarrow> 's Server"
    using that p1 [of a] p2 [of b] by (intro processReq_off) (auto simp: link_def)
  ultimately show ?thesis using same(2) by blast
qed

text \<open>
  \<open>Partition\<close> cuts the group in two, whatever the links were before: it does not fail, all
  servers of both sides are marked connected, the link from one to another is enabled exactly
  if they are on the same side, and a request on a link between the sides reaches nobody.
\<close>

theorem Partition_isolates:
  assumes "wf_group sg" and "set p1 \<inter> set p2 = {}" and "\<forall>i\<in>set (p1 @ p2). i < ServerGrp_N sg"
  shows "\<exists>sg' net'. ServerGrp_Partition p1 p2 (sg, net) = Inr (sg', net') \<and> sg_srvs sg' = sg_srvs sg \<and>
    (\<forall>a\<in>set (p1 @ p2). ServerGrp_IsConnected a sg' = Inr True) \<and>
    (\<forall>a\<in>set (p1 @ p2). \<forall>b\<in>set (p1 @ p2). link (sg', net') a b \<longleftrightarrow> (a \<in> set p1 \<longleftrightarrow> b \<in> set p1)) \<and>
    (\<forall>a\<in>set p1. \<forall>b\<in>set p2. \<forall>req ch net2 heap. req_endname req \<in> {link_name sg' a b, link_name sg' b a} \<longrightarrow>
       Network_processReq net' ch net2 (heap :: nat \<Rightarrow> 's Server) req = Inr (no_reply, heap, 0))"
  using assms by (rule Partition_spec)

definition two_servers :: ServerGrp where
  "two_servers = \<lparr>sg_srvs = [\<lparr>saved = None, endNames = [''a'', ''b''], dc = None\<rparr>, \<lparr>saved = None, endNames = [''c'', ''d''], dc = None\<rparr>],
     servernames = [''server-0-0'', ''server-0-1''], sg_gid = 0, connected = [True, True]\<rparr>"

theorem Partition_isolates_witness:
  "\<exists>sg' net'. ServerGrp_Partition [0] [1] (two_servers, MakeNetwork) = Inr (sg', net') \<and> \<not> link (sg', net') 0 1 \<and> link (sg', net') 1 1"
proof -
  have "wf_group two_servers" "\<forall>i\<in>set ([0] @ [1]). i < ServerGrp_N two_servers"
    by (simp_all add: wf_group_def two_servers_def ServerGrp_N_def)
  from Partition_isolates [OF this(1) _ this(2), of MakeNetwork] show ?thesis by auto
qed

text \<open>
  \<open>MakePartition\<close> puts the leader \<open>l\<close> into the minority: it returns \<open>n/2 + 1\<close> and \<open>n/2\<close>
  servers, the others in order with \<open>l\<close> last. For an odd number of servers these are all the
  servers, once each. For an even number, one place of the second array is never written, so
  it holds server \<open>0\<close> a second time.
\<close>

theorem MakePartition_minority:
  assumes "2 \<le> ServerGrp_N sg" and "l < ServerGrp_N sg"
  shows "\<exists>p1 p2. ServerGrp_MakePartition l sg = Inr (p1, p2) \<and> length p1 = ServerGrp_N sg div 2 + 1 \<and> length p2 = ServerGrp_N sg div 2 \<and>
    last p2 = l \<and>
    p1 @ p2 = filter (\<lambda>i. i \<noteq> l) [0..<ServerGrp_N sg] @ (if even (ServerGrp_N sg) then [0] else []) @ [l] \<and>
    (odd (ServerGrp_N sg) \<longrightarrow> distinct (p1 @ p2) \<and> set (p1 @ p2) = {..<ServerGrp_N sg})"
proof -
  let ?n = "ServerGrp_N sg" and ?xs = "filter (\<lambda>i. i \<noteq> l) [0..<ServerGrp_N sg]"
  let ?a = "?n div 2 + 1" and ?b = "?n div 2"
  have ab: "?a + ?b = (if even ?n then ?n + 1 else ?n)" by presburger
  obtain p1 p2 where loop: "each (\<lambda>i st. if i \<noteq> l then partition_put i st else Inr st) [0..<?n] (replicate ?a 0, replicate ?b 0, 0) =
      Inr (p1, p2, length ?xs)" "length p1 = ?a" "length p2 = ?b" "p1 @ p2 = ?xs @ replicate (?a + ?b - length ?xs) 0"
  proof -
    have "?n \<le> ?a + ?b" unfolding ab by simp
    from MakePartition_loop [OF this, of l] show thesis by (auto intro: that)
  qed
  have "[0..<?n] = [0..<l] @ l # [Suc l..<?n]" by (rule upt_split [OF assms(2)])
  then have xs: "?xs = [0..<l] @ [Suc l..<?n]" by (auto simp: filter_id_conv)
  then have len: "length ?xs = ?n - 1" using assms by simp
  have "p2 \<noteq> []" using loop(3) assms(1) by auto
  let ?p2 = "p2[length p2 - 1 := l]"
  have run: "ServerGrp_MakePartition l sg = Inr (p1, ?p2)"
    using loop(1) \<open>p2 \<noteq> []\<close> by (simp add: ServerGrp_MakePartition_def ServerGrp_N_def Let_def)
  have rows: "p1 @ p2 = (?xs @ (if even ?n then [0] else [])) @ [0]"
    using loop(4) ab len assms(1) by (simp add: numeral_2_eq_2)
  have "p1 @ ?p2 = (p1 @ p2)[length (p1 @ p2) - 1 := l]" using \<open>p2 \<noteq> []\<close> by (cases p2) (simp_all add: list_update_append)
  also have "\<dots> = (?xs @ (if even ?n then [0] else [])) @ [l]" unfolding rows by (simp add: list_update_append)
  finally have all: "p1 @ ?p2 = ?xs @ (if even ?n then [0] else []) @ [l]" by simp
  have last: "last ?p2 = l" using \<open>p2 \<noteq> []\<close> by (simp add: last_conv_nth)
  have "distinct (?xs @ [l])" "set (?xs @ [l]) = {..<?n}" using assms(2) by auto
  then have "distinct (p1 @ ?p2) \<and> set (p1 @ ?p2) = {..<?n}" if "odd ?n" unfolding all using that by simp
  then show ?thesis
    by (intro exI [of _ p1] exI [of _ ?p2] conjI impI run all last) (use loop(2,3) in \<open>simp_all del: set_append distinct_append\<close>)
qed

theorem MakePartition_minority_witness:
  "\<exists>p1 p2. ServerGrp_MakePartition 1 two_servers = Inr (p1, p2) \<and> p1 @ p2 = [0, 0, 1]"
  using MakePartition_minority [of two_servers 1] by (auto simp: two_servers_def ServerGrp_N_def upt_rec)

text \<open>
  The servers of a group always have ends of their own that lead to the right peers: in
  every state that the group can reach by connecting, disconnecting, starting and shutting
  down servers, end \<open>j\<close> of server \<open>i\<close> exists, leads to server \<open>j\<close> of the group and is shared
  with nobody. This is still so after \<open>Partition\<close>, \<open>ConnectAll\<close> and \<open>Kill\<close>.
\<close>

theorem group_invariant:
  assumes "grp_reach n st" and "st' = st \<or> ServerGrp_Partition p1 p2 st = Inr st' \<or> ServerGrp_ConnectAll st = Inr st' \<or> ServerGrp_Kill srvs st = Inr st'"
    and "i < ServerGrp_N (fst st')" and "j < ServerGrp_N (fst st')"
  shows "rn_connections (snd st') (link_name (fst st') i j) = Some (ServerName (sg_gid (fst st')) (int j)) \<and>
    rn_ends (snd st') (link_name (fst st') i j) \<noteq> None \<and>
    (\<forall>a<ServerGrp_N (fst st'). \<forall>b<ServerGrp_N (fst st'). link_name (fst st') a b = link_name (fst st') i j \<longleftrightarrow> a = i \<and> b = j)"
proof -
  have "grp_step\<^sup>*\<^sup>* st st'" using assms(2) Partition_steps ConnectAll_steps Kill_steps by blast
  then have "grp_inv st'" using assms(1) grp_reach_steps grp_reach_inv by blast
  then show ?thesis using assms(3,4) by (cases st') (simp add: grp_inv_def ServerGrp_N_def link_name_inj)
qed

theorem group_invariant_witness:
  "\<exists>st st'. makeSrvGrp 0 1 [[''a'']] MakeNetwork = Inr st \<and> ServerGrp_ConnectAll st = Inr st' \<and>
     rn_connections (snd st') (link_name (fst st') 0 0) = Some (ServerName 0 0)"
proof -
  define net where "net = Network_Connect ''a'' (ServerName 0 0) (snd (projr (Network_MakeEnd ''a'' MakeNetwork)))"
  define sg where "sg = \<lparr>sg_srvs = [\<lparr>saved = None, endNames = [''a''], dc = None\<rparr>], servernames = [ServerName 0 0], sg_gid = 0, connected = [False]\<rparr>"
  have mk: "makeSrvGrp 0 1 [[''a'']] MakeNetwork = Inr (sg, net)"
    by (simp add: makeSrvGrp_def makeServer_def make_end_def Network_MakeEnd_def MakeNetwork_def Let_def sg_def net_def)
  have reach: "grp_reach 1 (sg, net)" by (rule reach_make [OF mk]) simp_all
  have con: "ServerGrp_ConnectAll (sg, net) = Inr (mark 0 True sg, Network_Enable ''a'' True (Network_Enable ''a'' True net))"
    by (simp add: ServerGrp_ConnectAll_def ServerGrp_ConnectOne_def ServerGrp_connect_def ServerGrp_all_def TServer_connect_def
        ServerGrp_IsConnected_def sg_def mark_def Let_def)
  have "rn_connections (snd (mark 0 True sg, Network_Enable ''a'' True (Network_Enable ''a'' True net)))
      (link_name (mark 0 True sg) 0 0) = Some (ServerName (sg_gid (mark 0 True sg)) (int 0))"
    using group_invariant [OF reach, of "(mark 0 True sg, Network_Enable ''a'' True (Network_Enable ''a'' True net))" _ _ _ 0 0] con
    by (simp add: ServerGrp_N_def sg_def)
  then show ?thesis using mk con by (simp add: sg_def)
qed

definition one_server :: ServerGrp where
  "one_server = \<lparr>sg_srvs = [\<lparr>saved = None, endNames = [''a''], dc = Some \<lparr>raftstate = [1], snapshot = [2, 3]\<rparr>\<rparr>],
     servernames = [ServerName 0 0], sg_gid = 0, connected = [True]\<rparr>"

definition one_net :: net where
  "one_net = MakeNetwork\<lparr>rn_ends := [''a'' \<mapsto> \<lparr>ce_endname = ''a'', ce_callf = None\<rparr>], rn_connections := [''a'' \<mapsto> ServerName 0 0],
     rn_enabled := [''a'' \<mapsto> True], rn_servers := [ServerName 0 0 \<mapsto> 7]\<rparr>"

text \<open>
  A server keeps its persistent state over a crash. After \<open>ShutdownServer\<close> nobody reaches the
  server any more; \<open>StartServer\<close> then runs a new daemon on exactly the Raft state and snapshot
  that the killed one held, registers it in the network, and its new links are disabled until
  it is connected. The other servers are untouched.
\<close>

theorem restart_keeps_state:
  assumes "grp_inv (sg, net)" and "dc (sg_srvs sg ! i) = Some p" and "ServerGrp_ShutdownServer i (sg, net) = Inr (sg1, net1)"
    and "ServerGrp_StartServer i names addr True (sg1, net1) = Inr (b, sg2, net2)" and "length names = ServerGrp_N sg"
  shows "dc (sg_srvs sg1 ! i) = None \<and>
    (\<forall>e ch net' req. rn_connections net1 e = Some (ServerName (sg_gid sg) (int i)) \<and> req_endname req = e \<longrightarrow>
       Network_processReq net1 ch net' (heap :: nat \<Rightarrow> 's Server) req = Inr (no_reply, heap, 0)) \<and>
    b \<and> dc (sg_srvs sg2 ! i) = Some p \<and> rn_servers net2 (ServerName (sg_gid sg) (int i)) = Some addr \<and>
    (\<forall>j<ServerGrp_N sg. \<not> link (sg2, net2) i j) \<and> (\<forall>j. j \<noteq> i \<longrightarrow> sg_srvs sg2 ! j = sg_srvs sg ! j)"
proof -
  obtain sgd netd where d: "ServerGrp_disconnect i (ServerGrp_all sg) (sg, net) = Inr (sgd, netd)" "i < length (sg_srvs sg)"
    "sg1 = sgd\<lparr>sg_srvs := (sg_srvs sg)[i := TServer_shutdownServer (sg_srvs sg ! i)]\<rparr>"
    "net1 = Network_DeleteServer (ServerName (sg_gid sg) (int i)) netd" using ShutdownServer_parts [OF assms(3)] by blast
  have gid: "sg_gid sg1 = sg_gid sg" using ServerGrp_disconnect_keeps [OF d(1)] d(3) by (simp add: same_group_def)
  obtain s0 netm s' where s: "makeServer (sg_gid sg1) names net1 = Inr (s0, netm)" "b"
    "sg2 = sg1\<lparr>sg_srvs := (sg_srvs sg1)[i := s']\<rparr>" "endNames s' = names"
    "saved s' = Some (case saved (sg_srvs sg1 ! i) of None \<Rightarrow> MakePersister | Some p \<Rightarrow> p)" "dc s' = map_option DaemonClnt_init (saved s')"
    "net2 = Network_AddServer (ServerName (sg_gid sg1) (int i)) addr netm" using StartServer_parts [OF assms(4)] by auto
  have down: "sg_srvs sg1 ! i = (sg_srvs sg ! i)\<lparr>saved := Some p, dc := None\<rparr>"
    using d(2,3) assms(2) by (simp add: TServer_shutdownServer_def DaemonClnt_checkpointPersister_def DaemonSrv_CheckpointPersister_def
        Persister_Checkpoint_def Persister_ReadRaftState_def Persister_ReadSnapshot_def Persister_Save_def MakePersister_def clone_def Let_def)
  then have "dc s' = Some p" using s(5,6)
    by (simp add: DaemonClnt_init_def DaemonSrv_Init_def Persister_ReadRaftState_def Persister_ReadSnapshot_def Persister_Save_def
        MakePersister_def clone_def)
  moreover have "sg_srvs sg2 = (sg_srvs sg)[i := s']" using s(3) d(3) by simp
  moreover have "\<not> link (sg2, net2) i j" if "j < ServerGrp_N sg" for j
  proof -
    have "link_name sg2 i j \<in> set names" using s(4) d(2) calculation(2) that assms(5) by (simp add: link_name_def)
    then have "rn_enabled netm (link_name sg2 i j) = Some False" using makeServer_net [OF s(1)] by blast
    then show ?thesis using s(7) by (simp add: link_def end_on_def zget_def Network_AddServer_def)
  qed
  moreover have "Network_processReq net1 ch net' heap req = Inr (no_reply, heap, 0)"
    if "rn_connections net1 e = Some (ServerName (sg_gid sg) (int i))" "req_endname req = e" for e ch net' req
    using that d(4) by (intro processReq_unreachable) (simp add: Network_DeleteServer_def)
  ultimately show ?thesis using s(2,7) down d(2) gid by (auto simp: Network_AddServer_def)
qed

theorem restart_keeps_state_witness:
  "\<exists>sg1 net1 sg2 net2. ServerGrp_ShutdownServer 0 (one_server, one_net) = Inr (sg1, net1) \<and>
     ServerGrp_StartServer 0 [''new''] 8 True (sg1, net1) = Inr (True, sg2, net2) \<and>
     dc (sg_srvs sg1 ! 0) = None \<and> dc (sg_srvs sg2 ! 0) = Some \<lparr>raftstate = [1], snapshot = [2, 3]\<rparr>"
proof -
  have inv: "grp_inv (one_server, one_net)"
    by (simp add: grp_inv_def wf_group_def one_server_def one_net_def link_name_def)
  have p: "dc (sg_srvs one_server ! 0) = Some \<lparr>raftstate = [1], snapshot = [2, 3]\<rparr>" by (simp add: one_server_def)
  obtain sg1 net1 where sh: "ServerGrp_ShutdownServer 0 (one_server, one_net) = Inr (sg1, net1)"
    and s1: "length (sg_srvs sg1) = 1" "rn_ends net1 ''new'' = None"
    by (simp add: ServerGrp_ShutdownServer_def ServerGrp_disconnect_def TServer_disconnect_def ServerGrp_all_def one_server_def one_net_def
        Network_DeleteServer_def Network_Enable_def Let_def)
  obtain sg2 net2 where st: "ServerGrp_StartServer 0 [''new''] 8 True (sg1, net1) = Inr (True, sg2, net2)"
    using s1 by (simp add: ServerGrp_StartServer_def TServer_startServer_def makeServer_def make_end_def Network_MakeEnd_def Let_def)
  have "length [''new''] = ServerGrp_N one_server" by (simp add: ServerGrp_N_def one_server_def)
  from restart_keeps_state [OF inv p sh st this] sh st show ?thesis by blast
qed

end
