(* ===== verification/Tester_Clients.thy ===== *)
theory Tester_Clients
  imports Tester_Servers
begin

text \<open>
  The tester's clients (\<open>tester1/clnts.go\<close>): each clerk of a test has a \<open>Clnt\<close> that makes, on
  demand, one network end per server it talks to, and that the test can connect to and
  disconnect from servers.

  A loop over the map of ends takes the order of its keys as an argument. A \<open>Clnt\<close> object is an
  address of \<open>clerks\<close>; only the end's name is kept of an end, since these ends have no call
  function of their own.
\<close>

section \<open>tester1/clnts.go\<close>

record Clnt =
  c_ends :: "string \<rightharpoonup> string"
  c_srvs :: "string list option"

type_synonym clnt_state = "Clnt \<times> net"

definition makeClntTo :: "string list option \<Rightarrow> Clnt" where
  "makeClntTo srvs = \<lparr>c_ends = Map.empty, c_srvs = srvs\<rparr>"

definition Clnt_allowedL :: "string \<Rightarrow> Clnt \<Rightarrow> bool" where
  "Clnt_allowedL server clnt = (case c_srvs clnt of None \<Rightarrow> True | Some srvs \<Rightarrow> server \<in> set srvs)"

text \<open>\<open>name\<close> is the random name for the case that an end has to be made.\<close>

definition Clnt_makeEnd :: "string \<Rightarrow> string \<Rightarrow> clnt_state \<Rightarrow> go_exit + string \<times> clnt_state" where
  "Clnt_makeEnd server name = (\<lambda>(clnt, net).
     case c_ends clnt server of
       Some e \<Rightarrow> Inr (e, clnt, net)
     | None \<Rightarrow>
         and_then (Network_MakeEnd name net) (\<lambda>(_, net1).
           let net2 = Network_Connect name server net1;
               net3 = (if Clnt_allowedL server clnt then Network_Enable name True net2 else Network_Enable name False net2)
           in Inr (name, clnt\<lparr>c_ends := (c_ends clnt)(server \<mapsto> name)\<rparr>, net3)))"

text \<open>\<open>send\<close> is a round trip through the network as it is after the end was made.\<close>

definition Clnt_Call ::
    "('a \<Rightarrow> bytes option) \<Rightarrow> (bytes \<Rightarrow> 'r option) \<Rightarrow> bool \<Rightarrow> (net \<Rightarrow> string reqMsg \<Rightarrow> replyMsg) \<Rightarrow>
     string \<Rightarrow> string \<Rightarrow> string \<Rightarrow> 'a \<Rightarrow> clnt_state \<Rightarrow> go_exit + 'r option \<times> clnt_state" where
  "Clnt_Call enc dec destroyed send name server meth args st =
     and_then (Clnt_makeEnd server name st) (\<lambda>(e, clnt, net).
     and_then (ClientEnd_Call enc dec destroyed (send net) \<lparr>ce_endname = e, ce_callf = None\<rparr> meth args) (\<lambda>r.
       Inr (r, clnt, net)))"

definition ends_in :: "string list \<Rightarrow> Clnt \<Rightarrow> string list" where
  "ends_in ks clnt = map (\<lambda>s. the (c_ends clnt s)) ks"

definition Clnt_ConnectAll :: "string list \<Rightarrow> clnt_state \<Rightarrow> clnt_state" where
  "Clnt_ConnectAll ks = (\<lambda>(clnt, net).
     (clnt\<lparr>c_srvs := None\<rparr>, foldl (\<lambda>net e. Network_Enable e True net) net (ends_in ks clnt)))"

definition Clnt_ConnectTo :: "string list option \<Rightarrow> string list \<Rightarrow> clnt_state \<Rightarrow> clnt_state" where
  "Clnt_ConnectTo srvs ks = (\<lambda>(clnt, net).
     let clnt' = clnt\<lparr>c_srvs := srvs\<rparr> in
     (clnt', foldl (\<lambda>net s. if Clnt_allowedL s clnt' then Network_Enable (the (c_ends clnt s)) True net else net) net ks))"

definition Clnt_Disconnect :: "string \<Rightarrow> string list \<Rightarrow> clnt_state \<Rightarrow> clnt_state" where
  "Clnt_Disconnect srv ks = (\<lambda>(clnt, net).
     (clnt, foldl (\<lambda>net s. if s = srv then Network_Enable (the (c_ends clnt s)) False net else net) net ks))"

definition Clnt_DisconnectAll :: "string list \<Rightarrow> clnt_state \<Rightarrow> clnt_state" where
  "Clnt_DisconnectAll ks = (\<lambda>(clnt, net).
     (clnt\<lparr>c_srvs := Some []\<rparr>, foldl (\<lambda>net e. Network_Enable e False net) net (ends_in ks clnt)))"

definition Clnt_remove :: "string list \<Rightarrow> clnt_state \<Rightarrow> go_exit + net" where
  "Clnt_remove ks = (\<lambda>(clnt, net). each Network_DeleteEnd (ends_in ks clnt) net)"

record Clnts =
  clerks :: "nat \<rightharpoonup> Clnt"

definition makeClnts :: Clnts where
  "makeClnts = \<lparr>clerks = Map.empty\<rparr>"

definition Clnts_makeEnd :: "string \<Rightarrow> string \<Rightarrow> net \<Rightarrow> go_exit + string \<times> net" where
  "Clnts_makeEnd servername name net =
     and_then (Network_MakeEnd name net) (\<lambda>(_, net1). Inr (name, Network_Enable name True (Network_Connect name servername net1)))"

definition Clnts_MakeClientTo :: "string list option \<Rightarrow> nat \<Rightarrow> Clnts \<Rightarrow> Clnts" where
  "Clnts_MakeClientTo srvs addr clnts = clnts\<lparr>clerks := (clerks clnts)(addr \<mapsto> makeClntTo srvs)\<rparr>"

definition Clnts_MakeClient :: "nat \<Rightarrow> Clnts \<Rightarrow> Clnts" where
  "Clnts_MakeClient addr clnts = Clnts_MakeClientTo None addr clnts"

text \<open>The orders of the loops over the ends of each client come as a function.\<close>

definition Clnts_DeleteClient :: "(nat \<Rightarrow> string list) \<Rightarrow> nat \<Rightarrow> Clnts \<times> net \<Rightarrow> go_exit + Clnts \<times> net" where
  "Clnts_DeleteClient kss addr = (\<lambda>(clnts, net).
     case clerks clnts addr of
       None \<Rightarrow> Inr (clnts, net)
     | Some clnt \<Rightarrow>
         and_then (Clnt_remove (kss addr) (clnt, net)) (\<lambda>net'. Inr (clnts\<lparr>clerks := (clerks clnts)(addr := None)\<rparr>, net')))"

definition Clnts_cleanup :: "(nat \<Rightarrow> string list) \<Rightarrow> nat list \<Rightarrow> Clnts \<times> net \<Rightarrow> go_exit + Clnts \<times> net" where
  "Clnts_cleanup kss addrs = (\<lambda>(clnts, net).
     and_then (each (\<lambda>a net. Clnt_remove (kss a) (the (clerks clnts a), net)) addrs net) (\<lambda>net'.
       Inr (clnts\<lparr>clerks := Map.empty\<rparr>, net')))"

section \<open>The ends of a client\<close>

text \<open>A client's ends exist, lead to the servers they were made for, and are different.\<close>

definition clnt_inv :: "clnt_state \<Rightarrow> bool" where
  "clnt_inv = (\<lambda>(clnt, net). inj_on (c_ends clnt) (dom (c_ends clnt)) \<and>
     (\<forall>s e. c_ends clnt s = Some e \<longrightarrow> rn_ends net e \<noteq> None \<and> rn_connections net e = Some s))"

definition same_wiring :: "clnt_state \<Rightarrow> clnt_state \<Rightarrow> bool" where
  "same_wiring st st' \<longleftrightarrow> c_ends (fst st') = c_ends (fst st) \<and> rn_ends (snd st') = rn_ends (snd st) \<and>
     rn_connections (snd st') = rn_connections (snd st) \<and> rn_servers (snd st') = rn_servers (snd st)"

lemma clnt_inv_same: "same_wiring st st' \<Longrightarrow> clnt_inv st \<Longrightarrow> clnt_inv st'"
  by (cases st; cases st') (simp add: same_wiring_def clnt_inv_def)

lemma switch_loop:
  "foldl (\<lambda>net s. if P s then Network_Enable (the (c_ends clnt s)) b net else net) net ks =
     enable_all (ends_in (filter P ks) clnt) b net"
  by (induction ks arbitrary: net) (simp_all add: ends_in_def)

lemma Clnt_ops_eq:
  "Clnt_ConnectAll ks (clnt, net) = (clnt\<lparr>c_srvs := None\<rparr>, enable_all (ends_in ks clnt) True net)"
  "Clnt_DisconnectAll ks (clnt, net) = (clnt\<lparr>c_srvs := Some []\<rparr>, enable_all (ends_in ks clnt) False net)"
  "Clnt_ConnectTo srvs ks (clnt, net) = (clnt\<lparr>c_srvs := srvs\<rparr>,
     enable_all (ends_in (filter (\<lambda>s. Clnt_allowedL s (clnt\<lparr>c_srvs := srvs\<rparr>)) ks) clnt) True net)"
  "Clnt_Disconnect srv ks (clnt, net) = (clnt, enable_all (ends_in (filter (\<lambda>s. s = srv) ks) clnt) False net)"
  by (simp_all add: Clnt_ConnectAll_def Clnt_DisconnectAll_def Clnt_ConnectTo_def Clnt_Disconnect_def switch_loop Let_def
      sw.set_ends_def)

lemma ends_in_iff:
  assumes "clnt_inv (clnt, net)" "set ks \<subseteq> dom (c_ends clnt)" "c_ends clnt s = Some e"
  shows "e \<in> set (ends_in ks clnt) \<longleftrightarrow> s \<in> set ks"
proof
  assume "e \<in> set (ends_in ks clnt)"
  then obtain t where t: "t \<in> set ks" "the (c_ends clnt t) = e" by (auto simp: ends_in_def)
  then have "c_ends clnt t = Some e" using assms(2) by (metis domD option.sel subsetD)
  moreover have "inj_on (c_ends clnt) (dom (c_ends clnt))" using assms(1) by (simp add: clnt_inv_def)
  ultimately have "t = s" using assms(3) by (metis domI inj_on_eq_iff)
  then show "s \<in> set ks" using t by simp
next
  assume "s \<in> set ks"
  then show "e \<in> set (ends_in ks clnt)" using assms(3) by (force simp: ends_in_def)
qed

lemma Clnt_makeEnd_old:
  "c_ends clnt s = Some e \<Longrightarrow> Clnt_makeEnd s name (clnt, net) = Inr (e, clnt, net)"
  by (simp add: Clnt_makeEnd_def)

lemma Clnt_makeEnd_new:
  assumes "c_ends clnt s = None" "rn_ends net name = None"
  shows "\<exists>net'. Clnt_makeEnd s name (clnt, net) = Inr (name, clnt\<lparr>c_ends := (c_ends clnt)(s \<mapsto> name)\<rparr>, net') \<and>
    end_on net' name = Clnt_allowedL s clnt \<and> rn_connections net' = (rn_connections net)(name \<mapsto> s) \<and>
    dom (rn_ends net') = insert name (dom (rn_ends net)) \<and> (\<forall>e. e \<noteq> name \<longrightarrow> end_on net' e = end_on net e)"
  using assms by (auto simp: Clnt_makeEnd_def Network_MakeEnd_def Network_Connect_def Network_Enable_def Let_def end_on_def zget_def)

lemma Clnt_makeEnd_inv:
  assumes inv: "clnt_inv (clnt, net)" and new: "rn_ends net name = None"
    and mk: "Clnt_makeEnd s name (clnt, net) = Inr (e, clnt', net')"
  shows "clnt_inv (clnt', net') \<and> c_ends clnt' s = Some e"
proof (cases "c_ends clnt s")
  case None
  then obtain net1 where n: "Clnt_makeEnd s name (clnt, net) = Inr (name, clnt\<lparr>c_ends := (c_ends clnt)(s \<mapsto> name)\<rparr>, net1)"
    "rn_connections net1 = (rn_connections net)(name \<mapsto> s)" "dom (rn_ends net1) = insert name (dom (rn_ends net))"
    using Clnt_makeEnd_new [OF None new] by blast
  then have eq: "e = name" "clnt' = clnt\<lparr>c_ends := (c_ends clnt)(s \<mapsto> name)\<rparr>" "net' = net1" using mk by auto
  have fresh: "x \<noteq> name \<and> rn_ends net x \<noteq> None \<and> rn_connections net x = Some t" if "c_ends clnt t = Some x" for t x
  proof -
    have "rn_ends net x \<noteq> None \<and> rn_connections net x = Some t" using inv that by (simp add: clnt_inv_def)
    then show ?thesis using new by auto
  qed
  have no: "c_ends clnt t \<noteq> Some name" for t using fresh [of t name] by blast
  have ends: "rn_ends net1 x \<noteq> None \<longleftrightarrow> x = name \<or> rn_ends net x \<noteq> None" for x
    using n(3) by (metis domIff insert_iff)
  have "inj_on ((c_ends clnt)(s \<mapsto> name)) (insert s (dom (c_ends clnt)))"
  proof (rule inj_onI)
    fix a b assume ab: "a \<in> insert s (dom (c_ends clnt))" "b \<in> insert s (dom (c_ends clnt))"
      "((c_ends clnt)(s \<mapsto> name)) a = ((c_ends clnt)(s \<mapsto> name)) b"
    have old: "inj_on (c_ends clnt) (dom (c_ends clnt))" using inv by (simp add: clnt_inv_def)
    show "a = b"
    proof (cases "a = s \<or> b = s")
      case True
      then show ?thesis using ab(3) no [of a] no [of b] by (cases "a = s"; cases "b = s") simp_all
    next
      case False
      then show ?thesis using ab inj_onD [OF old] by auto
    qed
  qed
  moreover have "rn_ends net1 x \<noteq> None \<and> rn_connections net1 x = Some t" if "((c_ends clnt)(s \<mapsto> name)) t = Some x" for t x
    using that fresh [of t x] ends [of x] n(2) by (cases "t = s") simp_all
  ultimately show ?thesis by (simp add: eq clnt_inv_def)
qed (use inv mk Clnt_makeEnd_old in \<open>auto simp: clnt_inv_def\<close>)

section \<open>Properties of the clients\<close>

text \<open>
  What a client reaches. After \<open>ConnectAll\<close> it calls every server on an end that is on and
  that leads there, whether the end existed or has to be made; after \<open>DisconnectAll\<close> every end
  it uses is off, so that no call reaches anybody. After \<open>ConnectTo\<close> it reaches the named
  servers, but an end that was on before stays on, whether its server is named or not.
\<close>

theorem client_connectivity:
  assumes inv: "clnt_inv (clnt, net)" and ks: "key_order (c_ends clnt) ks" and new: "rn_ends net name = None"
    and op: "st \<in> {Clnt_ConnectAll ks (clnt, net), Clnt_DisconnectAll ks (clnt, net), Clnt_ConnectTo srvs ks (clnt, net)}"
    and mk: "Clnt_makeEnd server name st = Inr (e, clnt', net')"
  shows "rn_connections net' e = Some server \<and>
    (st = Clnt_ConnectAll ks (clnt, net) \<longrightarrow> end_on net' e) \<and>
    (st = Clnt_DisconnectAll ks (clnt, net) \<longrightarrow> \<not> end_on net' e \<and>
       (\<forall>req ch net2. req_endname req = e \<longrightarrow> Network_processReq net' ch net2 (heap :: nat \<Rightarrow> 's Server) req = Inr (no_reply, heap, 0))) \<and>
    (st = Clnt_ConnectTo srvs ks (clnt, net) \<longrightarrow>
       (end_on net' e \<longleftrightarrow> Clnt_allowedL server (makeClntTo srvs) \<or> (c_ends clnt server = Some e \<and> end_on net e)))"
proof -
  have doms: "set ks = dom (c_ends clnt)" using ks by (simp add: key_order_def)
  have allowed: "Clnt_allowedL s (clnt\<lparr>c_srvs := x\<rparr>) = Clnt_allowedL s (makeClntTo x)" for s x
    by (simp add: Clnt_allowedL_def makeClntTo_def)
  obtain clnt1 net1 where st: "st = (clnt1, net1)" by (cases st)
  have wiring: "same_wiring (clnt, net) st" using op by (auto simp: Clnt_ops_eq same_wiring_def)
  then have inv1: "clnt_inv (clnt1, net1)" and new1: "rn_ends net1 name = None" and ends: "c_ends clnt1 = c_ends clnt"
    using clnt_inv_same [OF wiring inv] new by (auto simp: st same_wiring_def)
  have con: "rn_connections net' e = Some server"
    using Clnt_makeEnd_inv [OF inv1 new1] mk by (auto simp: st clnt_inv_def)
  have on: "end_on net' e = (if c_ends clnt server = None then Clnt_allowedL server clnt1 else end_on net1 e)"
    and old: "c_ends clnt server = None \<or> c_ends clnt server = Some e" and fresh: "c_ends clnt server = None \<Longrightarrow> e = name"
    using mk Clnt_makeEnd_new [of clnt1 server net1 name] new1 ends
    by (cases "c_ends clnt server"; auto simp: st Clnt_makeEnd_old)+
  have "end_on net' e" if "st = Clnt_ConnectAll ks (clnt, net)"
  proof -
    have "clnt1 = clnt\<lparr>c_srvs := None\<rparr>" "net1 = enable_all (ends_in ks clnt) True net" using that by (auto simp: st Clnt_ops_eq)
    then show ?thesis using on old ends_in_iff [OF inv, of ks server e] doms
      by (cases "c_ends clnt server") (auto simp: sw.is_on_set_ends Clnt_allowedL_def)
  qed
  moreover have off: "\<not> end_on net' e" if "st = Clnt_DisconnectAll ks (clnt, net)"
  proof -
    have "clnt1 = clnt\<lparr>c_srvs := Some []\<rparr>" "net1 = enable_all (ends_in ks clnt) False net" using that by (auto simp: st Clnt_ops_eq)
    then show ?thesis using on old ends_in_iff [OF inv, of ks server e] doms
      by (cases "c_ends clnt server") (auto simp: sw.is_on_set_ends Clnt_allowedL_def)
  qed
  moreover have "end_on net' e \<longleftrightarrow> Clnt_allowedL server (makeClntTo srvs) \<or> (c_ends clnt server = Some e \<and> end_on net e)"
    if "st = Clnt_ConnectTo srvs ks (clnt, net)"
  proof -
    let ?ks = "filter (\<lambda>s. Clnt_allowedL s (makeClntTo srvs)) ks"
    have "clnt1 = clnt\<lparr>c_srvs := srvs\<rparr>" "net1 = enable_all (ends_in ?ks clnt) True net" using that by (auto simp: st Clnt_ops_eq allowed)
    then show ?thesis using on old ends_in_iff [OF inv, of ?ks server e] doms
      by (cases "c_ends clnt server") (auto simp: sw.is_on_set_ends allowed)
  qed
  ultimately show ?thesis using con processReq_off by metis
qed

text \<open>For the witness: a client with one end, to server \<open>a\<close>, which then connects to \<open>b\<close> only.\<close>

definition demo_clnt :: clnt_state where
  "demo_clnt = (\<lparr>c_ends = [''a'' \<mapsto> ''e1''], c_srvs = None\<rparr>,
     MakeNetwork\<lparr>rn_ends := [''e1'' \<mapsto> \<lparr>ce_endname = ''e1'', ce_callf = None\<rparr>], rn_enabled := [''e1'' \<mapsto> True], rn_connections := [''e1'' \<mapsto> ''a'']\<rparr>)"

theorem client_connectivity_witness:
  "\<exists>e clnt' net'. Clnt_makeEnd ''a'' ''e2'' (Clnt_ConnectTo (Some [''b'']) [''a''] demo_clnt) = Inr (e, clnt', net') \<and> end_on net' e"
proof -
  let ?clnt = "fst demo_clnt" and ?net = "snd demo_clnt"
  have inv: "clnt_inv (?clnt, ?net)" "key_order (c_ends ?clnt) [''a'']" "rn_ends ?net ''e2'' = None"
    by (auto simp: clnt_inv_def demo_clnt_def key_order_def inj_on_def)
  have mk: "Clnt_makeEnd ''a'' ''e2'' (Clnt_ConnectTo (Some [''b'']) [''a''] (?clnt, ?net)) =
      Inr (''e1'', ?clnt\<lparr>c_srvs := Some [''b'']\<rparr>, ?net)"
    by (simp add: Clnt_makeEnd_def Clnt_ops_eq Clnt_allowedL_def demo_clnt_def ends_in_def)
  have "end_on ?net ''e1''" "c_ends ?clnt ''a'' = Some ''e1''" by (simp_all add: demo_clnt_def end_on_def)
  with client_connectivity [OF inv _ mk, of "Some [''b'']"] mk show ?thesis by auto
qed

end
