(* ===== verification/Tester_Annotations.thy ===== *)
theory Tester_Annotations
  imports Go_Std
begin

text \<open>
  The annotations that a test collects for the visualisation of its run
  (\<open>tester1/annotation.go\<close>): points and intervals of the checkers, and for each tag one
  continuous annotation that lasts until the next one of the tag or its end. The framework
  information tracks which servers are connected and crashed.

  The two global variables are the state \<open>ann_state\<close>; \<open>finfo\<close> is \<open>None\<close> until the first
  \<open>AnnotateTest\<close>, and using it before panics. Each call takes the time stamps it reads, and a loop
  over a map takes the order of its keys. The visualisation file is the list of annotations that
  would be written to it.
\<close>

section \<open>State\<close>

record porc_annotation =
  Tag :: string
  Start :: int
  End :: int
  Description :: string
  Details :: string
  BackgroundColor :: string

record Continuous =
  co_start :: int
  co_desp :: string
  co_details :: string
  co_bgcolor :: string

record Annotation =
  annotations :: "porc_annotation list"
  continuous :: "string \<rightharpoonup> Continuous"
  finalized :: bool

record CheckerBegin =
  ck_ts :: int
  ck_details :: string

record FrameworkInfo =
  nservers :: nat
  fi_connected :: "bool list"
  fi_crashed :: "bool list"
  ckbegin :: CheckerBegin

record ann_state =
  annotation :: Annotation
  finfo :: "FrameworkInfo option"

definition COLOR_INFO :: string where "COLOR_INFO = ''#FAFAFA''"
definition COLOR_NEUTRAL :: string where "COLOR_NEUTRAL = ''#FFECB3''"
definition COLOR_SUCCESS :: string where "COLOR_SUCCESS = ''#C8E6C9''"
definition COLOR_FAILURE :: string where "COLOR_FAILURE = ''#FFCDD2''"
definition COLOR_FAULT :: string where "COLOR_FAULT = ''#B3E5FC''"
definition COLOR_USER :: string where "COLOR_USER = ''#FFF176''"
definition TAG_CHECKER :: string where "TAG_CHECKER = ''$ Checker''"
definition TAG_PARTITION :: string where "TAG_PARTITION = ''$ Failure''"
definition TAG_INFO :: string where "TAG_INFO = ''$ Test Info''"

definition mkAnnotation :: Annotation where
  "mkAnnotation = \<lparr>annotations = [], continuous = Map.empty, finalized = False\<rparr>"

definition mkFrameworkInfo :: "nat \<Rightarrow> FrameworkInfo" where
  "mkFrameworkInfo n = \<lparr>nservers = n, fi_connected = replicate n True, fi_crashed = replicate n False,
     ckbegin = \<lparr>ck_ts = 0, ck_details = []\<rparr>\<rparr>"

section \<open>The methods of \<open>Annotation\<close>\<close>

definition Annotation_clear :: "Annotation \<Rightarrow> Annotation" where
  "Annotation_clear an = an\<lparr>annotations := [], continuous := Map.empty, finalized := False\<rparr>"

definition Annotation_annotatePointColor :: "int \<Rightarrow> string \<Rightarrow> string \<Rightarrow> string \<Rightarrow> string \<Rightarrow> Annotation \<Rightarrow> Annotation" where
  "Annotation_annotatePointColor t tag desp details bgcolor an =
     an\<lparr>annotations := annotations an @
       [\<lparr>Tag = tag, Start = t, End = 0, Description = desp, Details = details, BackgroundColor = bgcolor\<rparr>]\<rparr>"

definition Annotation_annotateIntervalColor ::
    "int \<Rightarrow> string \<Rightarrow> int \<Rightarrow> string \<Rightarrow> string \<Rightarrow> string \<Rightarrow> Annotation \<Rightarrow> Annotation" where
  "Annotation_annotateIntervalColor t tag start desp details bgcolor an =
     an\<lparr>annotations := annotations an @
       [\<lparr>Tag = tag, Start = start, End = t, Description = desp, Details = details, BackgroundColor = bgcolor\<rparr>]\<rparr>"

text \<open>The annotation that a continuous annotation becomes when it ends at \<open>t\<close>.\<close>

definition concretize :: "string \<Rightarrow> Continuous \<Rightarrow> int \<Rightarrow> porc_annotation" where
  "concretize tag cont t =
     \<lparr>Tag = tag, Start = co_start cont, End = t, Description = co_desp cont, Details = co_details cont, BackgroundColor = co_bgcolor cont\<rparr>"

definition Annotation_annotateContinuousColor :: "int \<Rightarrow> string \<Rightarrow> string \<Rightarrow> string \<Rightarrow> string \<Rightarrow> Annotation \<Rightarrow> Annotation" where
  "Annotation_annotateContinuousColor t tag desp details bgcolor an =
     (let new = \<lparr>co_start = t, co_desp = desp, co_details = details, co_bgcolor = bgcolor\<rparr> in
      case continuous an tag of
        None \<Rightarrow> an\<lparr>continuous := (continuous an)(tag \<mapsto> new)\<rparr>
      | Some cont \<Rightarrow> an\<lparr>annotations := annotations an @ [concretize tag cont t], continuous := (continuous an)(tag \<mapsto> new)\<rparr>)"

text \<open>Without an annotation of the tag, the zero value of the map is used.\<close>

definition zero_continuous :: Continuous where
  "zero_continuous = \<lparr>co_start = 0, co_desp = [], co_details = [], co_bgcolor = []\<rparr>"

definition Annotation_annotateContinuousEnd :: "int \<Rightarrow> string \<Rightarrow> Annotation \<Rightarrow> Annotation" where
  "Annotation_annotateContinuousEnd t tag an =
     (let cont = zget (continuous an) zero_continuous tag in
      an\<lparr>annotations := annotations an @ [concretize tag cont t], continuous := (continuous an)(tag := None)\<rparr>)"

definition Annotation_finalize :: "int \<Rightarrow> string list \<Rightarrow> Annotation \<Rightarrow> porc_annotation list \<times> Annotation" where
  "Annotation_finalize t ks an =
     (annotations an @ map (\<lambda>tag. concretize tag (the (continuous an tag)) t) ks, an\<lparr>finalized := True\<rparr>)"

definition Annotation_isFinalized :: "Annotation \<Rightarrow> bool" where
  "Annotation_isFinalized an = finalized an"

text \<open>
  \<open>cleanup\<close>: \<open>enabled\<close> is the environment variable \<open>VIS_ENABLE\<close>, \<open>open_ok\<close> whether the file can be
  opened; the result is what is written to it.
\<close>

definition Annotation_cleanup ::
    "string \<Rightarrow> bool \<Rightarrow> int \<Rightarrow> int \<Rightarrow> string list \<Rightarrow> bool \<Rightarrow> string \<Rightarrow> Annotation \<Rightarrow> porc_annotation list option \<times> Annotation" where
  "Annotation_cleanup enabled open_ok t1 t2 ks failed end_text an =
     (if enabled = ''never'' \<or> (\<not> failed \<and> enabled \<noteq> ''always'') \<or> Annotation_isFinalized an then (None, Annotation_clear an)
      else
        (case Annotation_finalize t1 ks an of
           (as, an') \<Rightarrow>
             if as = [] then (None, an')
             else if \<not> open_ok then (None, an')
             else (Some (as @ [\<lparr>Tag = TAG_INFO, Start = t2, End = 0, Description = end_text, Details = end_text, BackgroundColor = COLOR_INFO\<rparr>]), an')))"

section \<open>The functions on the global variables\<close>

definition on_annotation :: "(Annotation \<Rightarrow> Annotation) \<Rightarrow> ann_state \<Rightarrow> ann_state" where
  "on_annotation f st = st\<lparr>annotation := f (annotation st)\<rparr>"

definition FinalizeAnnotations :: "int \<Rightarrow> int \<Rightarrow> string list \<Rightarrow> string \<Rightarrow> ann_state \<Rightarrow> porc_annotation list \<times> ann_state" where
  "FinalizeAnnotations t1 t2 ks end_text st =
     (case Annotation_finalize t1 ks (annotation st) of
        (as, an) \<Rightarrow>
          (as @ [\<lparr>Tag = TAG_INFO, Start = t2, End = 0, Description = end_text, Details = end_text, BackgroundColor = COLOR_INFO\<rparr>],
           st\<lparr>annotation := an\<rparr>))"

definition AnnotatePointColor :: "int \<Rightarrow> string \<Rightarrow> string \<Rightarrow> string \<Rightarrow> string \<Rightarrow> ann_state \<Rightarrow> ann_state" where
  "AnnotatePointColor t tag desp details bgcolor = on_annotation (Annotation_annotatePointColor t tag desp details bgcolor)"

definition AnnotateIntervalColor :: "int \<Rightarrow> string \<Rightarrow> int \<Rightarrow> string \<Rightarrow> string \<Rightarrow> string \<Rightarrow> ann_state \<Rightarrow> ann_state" where
  "AnnotateIntervalColor t tag start desp details bgcolor = on_annotation (Annotation_annotateIntervalColor t tag start desp details bgcolor)"

definition AnnotateContinuousColor :: "int \<Rightarrow> string \<Rightarrow> string \<Rightarrow> string \<Rightarrow> string \<Rightarrow> ann_state \<Rightarrow> ann_state" where
  "AnnotateContinuousColor t tag desp details bgcolor = on_annotation (Annotation_annotateContinuousColor t tag desp details bgcolor)"

definition AnnotateContinuousEnd :: "int \<Rightarrow> string \<Rightarrow> ann_state \<Rightarrow> ann_state" where
  "AnnotateContinuousEnd t tag = on_annotation (Annotation_annotateContinuousEnd t tag)"

definition AnnotatePoint :: "int \<Rightarrow> string \<Rightarrow> string \<Rightarrow> string \<Rightarrow> ann_state \<Rightarrow> ann_state" where
  "AnnotatePoint t tag desp details = on_annotation (Annotation_annotatePointColor t tag desp details COLOR_USER)"

definition AnnotateInterval :: "int \<Rightarrow> string \<Rightarrow> int \<Rightarrow> string \<Rightarrow> string \<Rightarrow> ann_state \<Rightarrow> ann_state" where
  "AnnotateInterval t tag start desp details = on_annotation (Annotation_annotateIntervalColor t tag start desp details COLOR_USER)"

definition AnnotateContinuous :: "int \<Rightarrow> string \<Rightarrow> string \<Rightarrow> string \<Rightarrow> ann_state \<Rightarrow> ann_state" where
  "AnnotateContinuous t tag desp details = on_annotation (Annotation_annotateContinuousColor t tag desp details COLOR_USER)"

definition AnnotateInfo :: "int \<Rightarrow> string \<Rightarrow> string \<Rightarrow> ann_state \<Rightarrow> ann_state" where
  "AnnotateInfo t desp details = AnnotatePointColor t TAG_INFO desp details COLOR_INFO"

definition AnnotateInfoInterval :: "int \<Rightarrow> int \<Rightarrow> string \<Rightarrow> string \<Rightarrow> ann_state \<Rightarrow> ann_state" where
  "AnnotateInfoInterval t start desp details = AnnotateIntervalColor t TAG_INFO start desp details COLOR_INFO"

definition AnnotateTest :: "int \<Rightarrow> string \<Rightarrow> nat \<Rightarrow> ann_state \<Rightarrow> ann_state" where
  "AnnotateTest t desp n st =
     (let details = desp @ '' ('' @ Itoa (int n) @ '' servers)'';
          st1 = st\<lparr>finfo := Some (mkFrameworkInfo n)\<rparr>
      in AnnotateInfo t details details (on_annotation Annotation_clear st1))"

definition with_finfo :: "(FrameworkInfo \<Rightarrow> ann_state \<Rightarrow> go_exit + ann_state) \<Rightarrow> ann_state \<Rightarrow> go_exit + ann_state" where
  "with_finfo f st = (case finfo st of None \<Rightarrow> Inl (Panic ''nil pointer dereference'') | Some fi \<Rightarrow> f fi st)"

definition AnnotateCheckerBegin :: "int \<Rightarrow> string \<Rightarrow> ann_state \<Rightarrow> go_exit + ann_state" where
  "AnnotateCheckerBegin t details = with_finfo (\<lambda>fi st.
     Inr (st\<lparr>finfo := Some (fi\<lparr>ckbegin := \<lparr>ck_ts = t, ck_details = details\<rparr>\<rparr>)\<rparr>))"

text \<open>The last assignment of \<open>AnnotateCheckerEnd\<close> resets a copy, which has no effect.\<close>

definition AnnotateCheckerEnd :: "int \<Rightarrow> string \<Rightarrow> string \<Rightarrow> string \<Rightarrow> ann_state \<Rightarrow> go_exit + ann_state" where
  "AnnotateCheckerEnd t desp details color = with_finfo (\<lambda>fi st.
     let ckb = ckbegin fi in
     if ck_ts ckb = 0 then Inr (AnnotatePointColor t TAG_CHECKER desp details color st)
     else Inr (AnnotateIntervalColor t TAG_CHECKER (ck_ts ckb) desp (ck_details ckb @ '': '' @ details) color st))"

definition AnnotateCheckerSuccess :: "int \<Rightarrow> string \<Rightarrow> string \<Rightarrow> ann_state \<Rightarrow> go_exit + ann_state" where
  "AnnotateCheckerSuccess t desp details = AnnotateCheckerEnd t desp details COLOR_SUCCESS"

definition AnnotateCheckerFailure :: "int \<Rightarrow> string \<Rightarrow> string \<Rightarrow> ann_state \<Rightarrow> go_exit + ann_state" where
  "AnnotateCheckerFailure t desp details = AnnotateCheckerEnd t desp details COLOR_FAILURE"

definition AnnotateCheckerNeutral :: "int \<Rightarrow> string \<Rightarrow> string \<Rightarrow> ann_state \<Rightarrow> go_exit + ann_state" where
  "AnnotateCheckerNeutral t desp details = AnnotateCheckerEnd t desp details COLOR_NEUTRAL"

definition SetAnnotationFinalized :: "ann_state \<Rightarrow> ann_state" where
  "SetAnnotationFinalized = on_annotation (\<lambda>an. an\<lparr>finalized := True\<rparr>)"

definition GetAnnotationFinalized :: "ann_state \<Rightarrow> bool" where
  "GetAnnotationFinalized st = Annotation_isFinalized (annotation st)"

definition AnnotateCheckerFailureBeforeExit ::
    "string \<Rightarrow> bool \<Rightarrow> int \<Rightarrow> int \<Rightarrow> int \<Rightarrow> string list \<Rightarrow> string \<Rightarrow> string \<Rightarrow> ann_state \<Rightarrow> go_exit + porc_annotation list option \<times> ann_state" where
  "AnnotateCheckerFailureBeforeExit enabled open_ok t t1 t2 ks desp details st =
     and_then (AnnotateCheckerFailure t desp details st) (\<lambda>st1.
       case Annotation_cleanup enabled open_ok t1 t2 ks True ''test failed'' (annotation st1) of
         (file, an) \<Rightarrow> Inr (file, st1\<lparr>annotation := an\<rparr>))"

section \<open>Faults\<close>

text \<open>How \<open>%v\<close> prints a list of integers.\<close>

definition show_ints :: "nat list \<Rightarrow> string" where
  "show_ints xs = ''['' @ Join (map (\<lambda>i. Itoa (int i)) xs) '' '' @ '']''"

text \<open>The loop of \<open>annotateFault\<close> that sorts the servers into connected, cut off and crashed ones.\<close>

fun fault_scan :: "(nat \<times> bool \<times> bool) list \<Rightarrow> nat list \<Rightarrow> nat list \<Rightarrow> string \<Rightarrow> nat list \<times> nat list \<times> string" where
  "fault_scan [] conn crashes builder = (conn, crashes, builder)"
| "fault_scan ((i, connected, crashed) # xs) conn crashes builder =
     (if crashed then fault_scan xs conn (crashes @ [i]) builder
      else if connected then fault_scan xs (conn @ [i]) crashes builder
      else fault_scan xs conn crashes (builder @ ''['' @ Itoa (int i) @ ''] ''))"

definition fault_text :: "bool list \<Rightarrow> bool list \<Rightarrow> string" where
  "fault_text connected crashed =
     (case fault_scan (zip [0..<length connected] (zip connected crashed)) [] [] ''partition = '' of
        (conn, crashes, builder) \<Rightarrow>
          builder @ (if length conn > 0 then show_ints conn else []) @
          (if length crashes > 0 then '' / crash = '' @ show_ints crashes else []))"

definition no_faults :: "FrameworkInfo \<Rightarrow> bool" where
  "no_faults fi \<longleftrightarrow> replicate (nservers fi) True = fi_connected fi \<and> replicate (nservers fi) False = fi_crashed fi"

text \<open>Reading \<open>crashed[id]\<close> panics when there are fewer crash flags than connection flags.\<close>

definition annotateFault :: "int \<Rightarrow> FrameworkInfo \<Rightarrow> ann_state \<Rightarrow> go_exit + ann_state" where
  "annotateFault t fi st =
     (if no_faults fi then Inr (AnnotateContinuousEnd t TAG_PARTITION st)
      else if length (fi_crashed fi) < length (fi_connected fi) then Inl (Panic ''index out of range'')
      else let text = fault_text (fi_connected fi) (fi_crashed fi)
           in Inr (AnnotateContinuousColor t TAG_PARTITION text text COLOR_FAULT st))"

text \<open>Go's \<open>copy(dst, src)\<close>.\<close>

definition go_copy :: "'a list \<Rightarrow> 'a list \<Rightarrow> 'a list" where
  "go_copy dst src = take (length dst) src @ drop (length src) dst"

definition AnnotateConnection :: "int \<Rightarrow> bool list \<Rightarrow> ann_state \<Rightarrow> go_exit + ann_state" where
  "AnnotateConnection t connection = with_finfo (\<lambda>fi st.
     if fi_connected fi = connection then Inr st
     else let fi' = fi\<lparr>fi_connected := go_copy (fi_connected fi) connection\<rparr>
          in annotateFault t fi' (st\<lparr>finfo := Some fi'\<rparr>))"

definition AnnotateTwoPartitions :: "int \<Rightarrow> nat list \<Rightarrow> nat list \<Rightarrow> ann_state \<Rightarrow> ann_state" where
  "AnnotateTwoPartitions t p1 p2 =
     (let text = ''partition = '' @ show_ints p1 @ '' '' @ show_ints p2
      in AnnotateContinuousColor t TAG_PARTITION text text COLOR_FAULT)"

definition AnnotateClearFailure :: "int \<Rightarrow> ann_state \<Rightarrow> go_exit + ann_state" where
  "AnnotateClearFailure t = with_finfo (\<lambda>fi st.
     let fi' = fi\<lparr>fi_crashed := map (\<lambda>_. False) (fi_crashed fi), fi_connected := map (\<lambda>_. True) (fi_connected fi)\<rparr>
     in Inr (AnnotateContinuousEnd t TAG_PARTITION (st\<lparr>finfo := Some fi'\<rparr>)))"

text \<open>Set the crash flag of the listed servers to \<open>b\<close>; the boolean says whether one changed.\<close>

fun set_crashed :: "bool \<Rightarrow> nat list \<Rightarrow> bool list \<Rightarrow> bool \<Rightarrow> go_exit + bool list \<times> bool" where
  "set_crashed b [] crashed changed = Inr (crashed, changed)"
| "set_crashed b (i # is) crashed changed =
     (if i < length crashed then set_crashed b is (crashed[i := b]) (changed \<or> crashed ! i \<noteq> b)
      else Inl (Panic ''index out of range''))"

definition AnnotateShutdown :: "int \<Rightarrow> nat list \<Rightarrow> ann_state \<Rightarrow> go_exit + ann_state" where
  "AnnotateShutdown t servers = with_finfo (\<lambda>fi st.
     and_then (set_crashed True servers (fi_crashed fi) False) (\<lambda>(crashed, changed).
       let fi' = fi\<lparr>fi_crashed := crashed\<rparr>; st' = st\<lparr>finfo := Some fi'\<rparr>
       in if \<not> changed then Inr st' else annotateFault t fi' st'))"

definition AnnotateShutdownAll :: "int \<Rightarrow> ann_state \<Rightarrow> go_exit + ann_state" where
  "AnnotateShutdownAll t = with_finfo (\<lambda>fi st. AnnotateShutdown t [0..<nservers fi] st)"

definition AnnotateRestart :: "int \<Rightarrow> nat list \<Rightarrow> ann_state \<Rightarrow> go_exit + ann_state" where
  "AnnotateRestart t servers = with_finfo (\<lambda>fi st.
     and_then (set_crashed False servers (fi_crashed fi) False) (\<lambda>(crashed, changed).
       let fi' = fi\<lparr>fi_crashed := crashed\<rparr>; st' = st\<lparr>finfo := Some fi'\<rparr>
       in if \<not> changed then Inr st' else annotateFault t fi' st'))"

definition AnnotateRestartAll :: "int \<Rightarrow> ann_state \<Rightarrow> go_exit + ann_state" where
  "AnnotateRestartAll t = with_finfo (\<lambda>fi st. AnnotateRestart t [0..<nservers fi] st)"

section \<open>The fault annotation\<close>

lemma on_annotation_simps [simp]:
  "finfo (on_annotation f st) = finfo st" "annotation (on_annotation f st) = f (annotation st)"
  by (simp_all add: on_annotation_def)

lemma continuous_simps [simp]:
  "continuous (Annotation_annotatePointColor t tag desp details bgcolor an) = continuous an"
  "continuous (Annotation_annotateIntervalColor t tag start desp details bgcolor an) = continuous an"
  "continuous (Annotation_annotateContinuousEnd t tag an) = (continuous an)(tag := None)"
  "continuous (Annotation_annotateContinuousColor t tag desp details bgcolor an) =
     (continuous an)(tag \<mapsto> \<lparr>co_start = t, co_desp = desp, co_details = details, co_bgcolor = bgcolor\<rparr>)"
  "continuous (Annotation_clear an) = Map.empty"
  by (simp_all add: Annotation_annotatePointColor_def Annotation_annotateIntervalColor_def Annotation_annotateContinuousEnd_def
      Annotation_annotateContinuousColor_def Annotation_clear_def Let_def split: option.split)

lemmas annotate_defs = AnnotatePointColor_def AnnotateIntervalColor_def AnnotateContinuousColor_def AnnotateContinuousEnd_def
  AnnotatePoint_def AnnotateInterval_def AnnotateContinuous_def AnnotateInfo_def AnnotateInfoInterval_def

lemmas checker_defs = AnnotateCheckerBegin_def AnnotateCheckerEnd_def AnnotateCheckerSuccess_def AnnotateCheckerFailure_def
  AnnotateCheckerNeutral_def with_finfo_def

definition fi_wf :: "FrameworkInfo \<Rightarrow> bool" where
  "fi_wf fi \<longleftrightarrow> length (fi_connected fi) = nservers fi \<and> length (fi_crashed fi) = nservers fi"

text \<open>What the ongoing annotation \<open>c\<close> of the tag \<open>TAG_PARTITION\<close> should be.\<close>

fun shows_fault :: "FrameworkInfo \<Rightarrow> Continuous option \<Rightarrow> bool" where
  "shows_fault fi None = no_faults fi"
| "shows_fault fi (Some c) = (\<not> no_faults fi \<and> co_desp c = fault_text (fi_connected fi) (fi_crashed fi) \<and> co_details c = co_desp c)"

definition fault_inv :: "ann_state \<Rightarrow> bool" where
  "fault_inv st \<longleftrightarrow> (\<exists>fi. finfo st = Some fi \<and> fi_wf fi \<and> shows_fault fi (continuous (annotation st) TAG_PARTITION))"

text \<open>
  One call of the test framework. Users may annotate with their own tags; \<open>AnnotateTwoPartitions\<close>
  is left out, since it bypasses the framework information.
\<close>

inductive ann_step :: "ann_state \<Rightarrow> ann_state \<Rightarrow> bool" where
  step_connection: "AnnotateConnection t connection st = Inr st' \<Longrightarrow> ann_step st st'"
| step_shutdown: "AnnotateShutdown t servers st = Inr st' \<Longrightarrow> ann_step st st'"
| step_restart: "AnnotateRestart t servers st = Inr st' \<Longrightarrow> ann_step st st'"
| step_clear: "AnnotateClearFailure t st = Inr st' \<Longrightarrow> ann_step st st'"
| step_begin: "AnnotateCheckerBegin t details st = Inr st' \<Longrightarrow> ann_step st st'"
| step_end: "AnnotateCheckerEnd t desp details color st = Inr st' \<Longrightarrow> ann_step st st'"
| step_point: "ann_step st (AnnotatePointColor t tag desp details color st)"
| step_interval: "ann_step st (AnnotateIntervalColor t tag start desp details color st)"
| step_continuous: "tag \<noteq> TAG_PARTITION \<Longrightarrow> ann_step st (AnnotateContinuousColor t tag desp details color st)"
| step_continuous_end: "tag \<noteq> TAG_PARTITION \<Longrightarrow> ann_step st (AnnotateContinuousEnd t tag st)"
| step_finalized: "ann_step st (SetAnnotationFinalized st)"

inductive ann_reach :: "nat \<Rightarrow> ann_state \<Rightarrow> bool" for n where
  reach_test: "ann_reach n (AnnotateTest t desp n st)"
| reach_step: "ann_reach n st \<Longrightarrow> ann_step st st' \<Longrightarrow> ann_reach n st'"

lemma annotateFault_inv:
  assumes "annotateFault t fi st = Inr st'" "finfo st = Some fi" "fi_wf fi"
  shows "fault_inv st' \<and> finfo st' = Some fi"
  using assms by (auto simp: annotateFault_def fault_inv_def annotate_defs Let_def split: if_splits)

lemma length_go_copy [simp]: "length (go_copy dst src) = length dst"
  by (simp add: go_copy_def)

lemma set_crashed_props:
  assumes "set_crashed b is crashed ch = Inr (crashed', ch')"
  shows "length crashed' = length crashed \<and> (ch \<longrightarrow> ch') \<and> (\<not> ch' \<longrightarrow> crashed' = crashed)"
  using assms
proof (induction b "is" crashed ch rule: set_crashed.induct)
  case (2 b i "is" crashed ch)
  then have IH: "length crashed' = length (crashed[i := b]) \<and> (ch \<or> crashed ! i \<noteq> b \<longrightarrow> ch') \<and> (\<not> ch' \<longrightarrow> crashed' = crashed[i := b])"
    by (simp split: if_splits)
  moreover have "crashed[i := b] = crashed" if "crashed ! i = b" by (subst that [symmetric]) (rule list_update_id)
  ultimately show ?case by (metis length_list_update)
qed simp

lemma crash_ops_inv:
  assumes "and_then (set_crashed b servers (fi_crashed fi) False) (\<lambda>(crashed, changed).
       let fi' = fi\<lparr>fi_crashed := crashed\<rparr>; st' = st\<lparr>finfo := Some fi'\<rparr>
       in if \<not> changed then Inr st' else annotateFault t fi' st') = Inr st'"
    and "finfo st = Some fi" "fi_wf fi" "shows_fault fi (continuous (annotation st) TAG_PARTITION)"
  shows "fault_inv st' \<and> (\<exists>fi'. finfo st' = Some fi' \<and> nservers fi' = nservers fi)"
proof -
  obtain crashed changed where c: "set_crashed b servers (fi_crashed fi) False = Inr (crashed, changed)"
    and st': "(if \<not> changed then Inr (st\<lparr>finfo := Some (fi\<lparr>fi_crashed := crashed\<rparr>)\<rparr>)
      else annotateFault t (fi\<lparr>fi_crashed := crashed\<rparr>) (st\<lparr>finfo := Some (fi\<lparr>fi_crashed := crashed\<rparr>)\<rparr>)) = Inr st'"
    using assms(1) by (auto simp: and_then_eq_Inr Let_def)
  note p = set_crashed_props [OF c]
  show ?thesis
  proof (cases changed)
    case True
    then show ?thesis using st' annotateFault_inv [of t "fi\<lparr>fi_crashed := crashed\<rparr>" _ st'] p assms(3) by (fastforce simp: fi_wf_def)
  next
    case False
    then have "st' = st\<lparr>finfo := Some fi\<rparr>" using st' p by auto
    then show ?thesis using assms by (auto simp: fault_inv_def)
  qed
qed

lemma ann_step_inv:
  assumes "ann_step st st'" and "fault_inv st"
  shows "fault_inv st' \<and> map_option nservers (finfo st') = map_option nservers (finfo st)"
proof -
  obtain fi where fi: "finfo st = Some fi" "fi_wf fi" "shows_fault fi (continuous (annotation st) TAG_PARTITION)"
    using assms(2) by (auto simp: fault_inv_def)
  show ?thesis
    using assms(1)
  proof (cases rule: ann_step.cases)
    case (step_connection t connection)
    then show ?thesis using fi annotateFault_inv [of t "fi\<lparr>fi_connected := go_copy (fi_connected fi) connection\<rparr>" _ st']
      by (fastforce simp: AnnotateConnection_def with_finfo_def Let_def fault_inv_def fi_wf_def split: if_splits)
  next
    case (step_shutdown t servers)
    then show ?thesis using crash_ops_inv [OF _ fi, of True servers t st'] fi(1) by (auto simp: AnnotateShutdown_def with_finfo_def)
  next
    case (step_restart t servers)
    then show ?thesis using crash_ops_inv [OF _ fi, of False servers t st'] fi(1) by (auto simp: AnnotateRestart_def with_finfo_def)
  next
    case (step_clear t)
    have "no_faults (fi\<lparr>fi_crashed := map (\<lambda>_. False) (fi_crashed fi), fi_connected := map (\<lambda>_. True) (fi_connected fi)\<rparr>)"
      using fi(2) by (simp add: no_faults_def fi_wf_def map_replicate_const)
    then show ?thesis using step_clear fi
      by (auto simp: AnnotateClearFailure_def with_finfo_def Let_def fault_inv_def fi_wf_def annotate_defs)
  qed (use fi in \<open>auto simp: fault_inv_def checker_defs annotate_defs fi_wf_def no_faults_def SetAnnotationFinalized_def Let_def
        elim!: shows_fault.elims split: if_splits option.splits\<close>)
qed

lemma ann_reach_inv: "ann_reach n st \<Longrightarrow> fault_inv st \<and> map_option nservers (finfo st) = Some n"
proof (induction rule: ann_reach.induct)
  case (reach_test t desp st)
  then show ?case by (simp add: fault_inv_def AnnotateTest_def annotate_defs mkFrameworkInfo_def fi_wf_def no_faults_def Let_def)
next
  case (reach_step st st')
  then show ?case using ann_step_inv by metis
qed

section \<open>Continuous annotations\<close>

text \<open>A call of \<open>annotateContinuousColor\<close>: tag, time, description, details, colour.\<close>

type_synonym cont_call = "string \<times> int \<times> string \<times> string \<times> string"

definition run_continuous :: "cont_call list \<Rightarrow> Annotation \<Rightarrow> Annotation" where
  "run_continuous calls an = foldl (\<lambda>an (tag, t, desp, details, color). Annotation_annotateContinuousColor t tag desp details color an) an calls"

text \<open>The intervals that calls of one tag should give: each lasts until the next begins, the last until \<open>t\<close>.\<close>

fun tile :: "cont_call list \<Rightarrow> int \<Rightarrow> porc_annotation list" where
  "tile [] t = []"
| "tile [(tag, s, desp, details, color)] t =
     [\<lparr>Tag = tag, Start = s, End = t, Description = desp, Details = details, BackgroundColor = color\<rparr>]"
| "tile ((tag, s, desp, details, color) # c # cs) t =
     \<lparr>Tag = tag, Start = s, End = fst (snd c), Description = desp, Details = details, BackgroundColor = color\<rparr> # tile (c # cs) t"

definition cont_of :: "cont_call \<Rightarrow> Continuous" where
  "cont_of = (\<lambda>(tag, t, desp, details, color). \<lparr>co_start = t, co_desp = desp, co_details = details, co_bgcolor = color\<rparr>)"

lemma tile_single: "tile [c] t = [concretize (fst c) (cont_of c) t]"
  by (cases c) (simp add: concretize_def cont_of_def)

lemma tile_snoc: "cs \<noteq> [] \<Longrightarrow> tile (cs @ [c]) t = tile cs (fst (snd c)) @ tile [c] t"
  by (induction cs t rule: tile.induct) (cases c; auto)+

lemma tile_last: "cs \<noteq> [] \<Longrightarrow> tile cs t = butlast (tile cs t') @ [concretize (fst (last cs)) (cont_of (last cs)) t]"
proof (induction cs t rule: tile.induct)
  case (3 tag s desp details color c cs t)
  then show ?case by (cases "tile (c # cs) t'" ; cases c; cases cs) auto
qed (simp_all add: concretize_def cont_of_def)

lemma run_continuous_spec:
  fixes calls tag
  defines "mine \<equiv> filter (\<lambda>c. fst c = tag) calls"
  shows "filter (\<lambda>a. Tag a = tag) (annotations (run_continuous calls mkAnnotation)) = butlast (tile mine t) \<and>
    continuous (run_continuous calls mkAnnotation) tag = (if mine = [] then None else Some (cont_of (last mine)))"
  unfolding mine_def
proof (induction calls rule: rev_induct)
  case Nil
  then show ?case by (simp add: run_continuous_def mkAnnotation_def)
next
  case (snoc c calls)
  let ?an = "run_continuous calls mkAnnotation" and ?mine = "filter (\<lambda>c. fst c = tag) calls"
  obtain tg s desp details color where c: "c = (tg, s, desp, details, color)" by (cases c)
  have run: "run_continuous (calls @ [c]) mkAnnotation = Annotation_annotateContinuousColor s tg desp details color ?an"
    by (simp add: run_continuous_def c)
  show ?case
  proof (cases "tg = tag")
    case False
    then show ?thesis using snoc unfolding run
      by (auto simp: c Annotation_annotateContinuousColor_def concretize_def Let_def split: option.splits)
  next
    case True
    then have mine: "filter (\<lambda>c. fst c = tag) (calls @ [c]) = ?mine @ [c]" by (simp add: c)
    show ?thesis
    proof (cases "?mine = []")
      case True
      then have "continuous ?an tag = None" using snoc by simp
      then show ?thesis unfolding mine run using snoc True \<open>tg = tag\<close>
        by (simp add: Annotation_annotateContinuousColor_def Let_def c cont_of_def)
    next
      case False
      then have "continuous ?an tag = Some (cont_of (last ?mine))" using snoc by simp
      moreover have "fst (last ?mine) = tag" using last_in_set [OF False] by simp
      ultimately have "filter (\<lambda>a. Tag a = tag) (annotations (run_continuous (calls @ [c]) mkAnnotation)) =
          butlast (tile ?mine t) @ [concretize (fst (last ?mine)) (cont_of (last ?mine)) s]"
        using snoc True unfolding run by (simp add: Annotation_annotateContinuousColor_def Let_def) (simp add: concretize_def)
      also have "\<dots> = tile ?mine s" using tile_last [OF False, of s t] by simp
      also have "\<dots> = butlast (tile (?mine @ [c]) t)" using tile_snoc [OF False, of c t] by (simp add: tile_single) (simp add: c)
      finally show ?thesis unfolding mine using True by (simp add: run) (simp add: c cont_of_def)
    qed
  qed
qed

section \<open>Properties of the annotations\<close>




text \<open>
  Continuous annotations tile the time. However the calls for several tags are interleaved,
  the annotations of each tag at the end are exactly one interval per call, in order, each
  lasting until the next call of the same tag and the last until the end of the test.
\<close>

theorem continuous_annotations_tile:
  assumes "key_order (continuous (run_continuous calls mkAnnotation)) ks"
  shows "filter (\<lambda>a. Tag a = tag) (fst (Annotation_finalize t ks (run_continuous calls mkAnnotation))) =
    tile (filter (\<lambda>c. fst c = tag) calls) t"
proof -
  let ?an = "run_continuous calls mkAnnotation" and ?mine = "filter (\<lambda>c. fst c = tag) calls"
  note spec = run_continuous_spec [of tag calls t]
  have ks: "distinct ks" "set ks = dom (continuous ?an)" using assms by (simp_all add: key_order_def)
  have rest: "filter (\<lambda>a. Tag a = tag) (map (\<lambda>tag. concretize tag (the (continuous ?an tag)) t) ks) =
      map (\<lambda>tag. concretize tag (the (continuous ?an tag)) t) (filter (\<lambda>k. k = tag) ks)"
    by (simp add: filter_map comp_def concretize_def)
  show ?thesis
  proof (cases "?mine = []")
    case True
    then have "filter (\<lambda>k. k = tag) ks = []" using spec ks(2) by (auto simp: filter_empty_conv)
    then show ?thesis using True spec by (simp add: Annotation_finalize_def rest)
  next
    case False
    then have c: "continuous ?an tag = Some (cont_of (last ?mine))" using spec by simp
    then have "tag \<in> set ks" using ks(2) by auto
    then have "filter (\<lambda>k. k = tag) ks = [tag]" using ks(1) by (induction ks) (auto simp: filter_empty_conv)
    moreover have "fst (last ?mine) = tag" using last_in_set [OF False] by simp
    ultimately show ?thesis using spec c tile_last [OF False, of t t] by (simp add: Annotation_finalize_def rest)
  qed
qed

theorem continuous_annotations_tile_witness:
  "map (\<lambda>a. (Start a, End a)) (filter (\<lambda>a. Tag a = ''x'') (fst (Annotation_finalize 9 [''y'', ''x'']
     (run_continuous [(''x'', 1, ''a'', [], []), (''y'', 2, ''b'', [], []), (''x'', 4, ''c'', [], [])] mkAnnotation)))) = [(1, 4), (4, 9)]"
proof -
  let ?calls = "[(''x'', 1, ''a'', [], []), (''y'', 2, ''b'', [], []), (''x'', 4, ''c'', [], [])] :: cont_call list"
  have "key_order (continuous (run_continuous ?calls mkAnnotation)) [''y'', ''x'']"
    by (auto simp: key_order_def run_continuous_def mkAnnotation_def)
  from continuous_annotations_tile [OF this, of "''x''" 9] show ?thesis by simp
qed

section \<open>Two slips\<close>

text \<open>
  \<open>AnnotateClearFailure\<close> ends an annotation that is not there: without a fault it adds an empty
  annotation that reaches from time zero to now.
\<close>

lemma clear_failure_spurious:
  assumes "ann_reach n st" and "finfo st = Some fi" and "no_faults fi"
  shows "\<exists>st'. AnnotateClearFailure t st = Inr st' \<and> annotations (annotation st') = annotations (annotation st) @
    [\<lparr>Tag = TAG_PARTITION, Start = 0, End = t, Description = [], Details = [], BackgroundColor = []\<rparr>]"
proof -
  have "continuous (annotation st) TAG_PARTITION = None"
    using ann_reach_inv [OF assms(1)] assms(2,3) by (cases "continuous (annotation st) TAG_PARTITION") (auto simp: fault_inv_def)
  then show ?thesis using assms(2)
    by (simp add: AnnotateClearFailure_def with_finfo_def Let_def annotate_defs Annotation_annotateContinuousEnd_def concretize_def zero_continuous_def)
qed

text \<open>
  The begin of a checker is never reset: the second of two results after one begin is also an
  interval from that begin, not a point.
\<close>

lemma checker_begin_not_reset:
  assumes "finfo st = Some fi" and "t0 \<noteq> 0"
  shows "and_then (AnnotateCheckerBegin t0 d0 st) (\<lambda>st. and_then (AnnotateCheckerSuccess t1 s1 d1 st) (\<lambda>st.
      and_then (AnnotateCheckerFailure t2 s2 d2 st) (\<lambda>st. Inr (map (\<lambda>a. (Start a, End a)) (annotations (annotation st)))))) =
    Inr (map (\<lambda>a. (Start a, End a)) (annotations (annotation st)) @ [(t0, t1), (t0, t2)])"
  using assms by (simp add: checker_defs annotate_defs Annotation_annotateIntervalColor_def Let_def)

end
