(* ===== verification/Tester_Config.thy ===== *)
theory Tester_Config
  imports Tester_Groups Tester_Clients Tester_Annotations
begin

text \<open>
  The configuration of a test: the table of groups of \<open>tester1/group.go\<close>, \<open>tester1/config.go\<close>,
  the annotation calls of daemons (\<open>tester1/annotator.go\<close>), and the partitioner of
  \<open>kvtest1/kvtest.go\<close>, which cuts a group at random again and again.

  A lookup of an unknown group gives a \<open>nil\<close> pointer, whose use panics. Random numbers, end names,
  addresses and clock readings are arguments.
\<close>

section \<open>tester1/group.go\<close>

type_synonym Groups = "int \<rightharpoonup> ServerGrp"

definition newGroups :: Groups where
  "newGroups = Map.empty"

definition Groups_MakeGroup :: "int \<Rightarrow> nat \<Rightarrow> string list list \<Rightarrow> Groups \<times> net \<Rightarrow> go_exit + Groups \<times> net" where
  "Groups_MakeGroup gid nsrv namess = (\<lambda>(gs, net).
     and_then (makeSrvGrp gid nsrv namess net) (\<lambda>(sg, net'). Inr (gs(gid \<mapsto> sg), net')))"

definition Groups_lookupGroup :: "int \<Rightarrow> Groups \<Rightarrow> ServerGrp option" where
  "Groups_lookupGroup gid gs = gs gid"

definition Groups_delete :: "int \<Rightarrow> Groups \<Rightarrow> Groups" where
  "Groups_delete gid gs = gs(gid := None)"

text \<open>A method of the group \<open>gid\<close>, called through the table.\<close>

definition on_group :: "int \<Rightarrow> (grp_state \<Rightarrow> go_exit + grp_state) \<Rightarrow> Groups \<times> net \<Rightarrow> go_exit + Groups \<times> net" where
  "on_group gid f = (\<lambda>(gs, net).
     case Groups_lookupGroup gid gs of
       None \<Rightarrow> Inl (Panic ''nil pointer dereference'')
     | Some sg \<Rightarrow> and_then (f (sg, net)) (\<lambda>(sg', net'). Inr (gs(gid \<mapsto> sg'), net')))"

text \<open>\<open>gids\<close> is the order of the loop over the table.\<close>

definition Groups_cleanup :: "int list \<Rightarrow> Groups \<times> net \<Rightarrow> go_exit + Groups \<times> net" where
  "Groups_cleanup gids = each (\<lambda>gid. on_group gid ServerGrp_Shutdown) gids"

definition ServerGrp_SrvNames :: "ServerGrp \<Rightarrow> string list" where
  "ServerGrp_SrvNames sg = servernames sg"

definition ServerGrp_GetConnected :: "ServerGrp \<Rightarrow> bool list" where
  "ServerGrp_GetConnected sg = connected sg"

definition ServerGrp_Servers :: "ServerGrp \<Rightarrow> nat list" where
  "ServerGrp_Servers sg = ServerGrp_all sg"

text \<open>\<open>starts\<close> are the end names, the address and the outcome of starting each server.\<close>

definition ServerGrp_StartServers :: "(string list \<times> nat \<times> bool) list \<Rightarrow> grp_state \<Rightarrow> go_exit + grp_state" where
  "ServerGrp_StartServers starts st =
     and_then (ServerGrp_StartSrvs (zip (ServerGrp_all (fst st)) starts) st) ServerGrp_ConnectAll"

definition ServerGrp_RpcCount :: "nat \<Rightarrow> (nat \<Rightarrow> 's Server) \<Rightarrow> grp_state \<Rightarrow> go_exit + int" where
  "ServerGrp_RpcCount server heap = (\<lambda>(sg, net). Network_GetCount (ServerName (sg_gid sg) (int server)) heap net)"

section \<open>tester1/config.go\<close>

definition GRP0 :: int where
  "GRP0 = 0"

record Config =
  cfg_groups :: Groups
  cfg_net :: net
  cfg_clnts :: Clnts
  cfg_rpcs0 :: int
  cfg_ops :: "32 word"

definition with_groups :: "(Groups \<times> net \<Rightarrow> go_exit + Groups \<times> net) \<Rightarrow> Config \<Rightarrow> go_exit + Config" where
  "with_groups f cfg =
     and_then (f (cfg_groups cfg, cfg_net cfg)) (\<lambda>(gs, net). Inr (cfg\<lparr>cfg_groups := gs, cfg_net := net\<rparr>))"

definition Config_Group :: "int \<Rightarrow> Config \<Rightarrow> ServerGrp option" where
  "Config_Group gid cfg = Groups_lookupGroup gid (cfg_groups cfg)"

definition Config_MakeGroupStart :: "int \<Rightarrow> nat \<Rightarrow> string list list \<Rightarrow> (string list \<times> nat \<times> bool) list \<Rightarrow> Config \<Rightarrow> go_exit + Config" where
  "Config_MakeGroupStart gid nsrv namess starts cfg =
     and_then (with_groups (Groups_MakeGroup gid nsrv namess) cfg)
       (with_groups (on_group gid (ServerGrp_StartServers starts)))"

definition Config_ExitGroup :: "int \<Rightarrow> Config \<Rightarrow> go_exit + Config" where
  "Config_ExitGroup gid cfg =
     and_then (with_groups (on_group gid ServerGrp_Shutdown) cfg) (\<lambda>cfg'.
       Inr (cfg'\<lparr>cfg_groups := Groups_delete gid (cfg_groups cfg')\<rparr>))"

definition Config_SetReliable :: "bool \<Rightarrow> Config \<Rightarrow> Config" where
  "Config_SetReliable reliable cfg = cfg\<lparr>cfg_net := Network_Reliable reliable (cfg_net cfg)\<rparr>"

definition Config_IsReliable :: "Config \<Rightarrow> bool" where
  "Config_IsReliable cfg = Network_IsReliable (cfg_net cfg)"

definition Config_SetLongReordering :: "bool \<Rightarrow> Config \<Rightarrow> Config" where
  "Config_SetLongReordering longrel cfg = cfg\<lparr>cfg_net := Network_LongReordering longrel (cfg_net cfg)\<rparr>"

definition Config_SetLongDelays :: "bool \<Rightarrow> Config \<Rightarrow> Config" where
  "Config_SetLongDelays longdel cfg = cfg\<lparr>cfg_net := Network_LongDelays longdel (cfg_net cfg)\<rparr>"

definition MakeConfig :: "nat \<Rightarrow> bool \<Rightarrow> string list list \<Rightarrow> (string list \<times> nat \<times> bool) list \<Rightarrow> go_exit + Config" where
  "MakeConfig n reliable namess starts =
     and_then (Config_MakeGroupStart GRP0 n namess starts
       \<lparr>cfg_groups = newGroups, cfg_net = MakeNetwork, cfg_clnts = makeClnts, cfg_rpcs0 = 0, cfg_ops = 0\<rparr>) (\<lambda>cfg.
     Inr (cfg\<lparr>cfg_clnts := makeClnts, cfg_net := Network_Reliable reliable (cfg_net cfg)\<rparr>))"

definition Config_RpcTotal :: "Config \<Rightarrow> int" where
  "Config_RpcTotal cfg = Network_GetTotalCount (cfg_net cfg)"

definition Config_BytesTotal :: "Config \<Rightarrow> int" where
  "Config_BytesTotal cfg = Network_GetTotalBytes (cfg_net cfg)"

definition Config_Begin :: "Config \<Rightarrow> Config" where
  "Config_Begin cfg = cfg\<lparr>cfg_rpcs0 := Config_RpcTotal cfg, cfg_ops := 0\<rparr>"

text \<open>\<open>elapsed\<close> is the time since the start in seconds.\<close>

definition Config_CheckTimeout :: "bool \<Rightarrow> nat \<Rightarrow> go_exit + unit" where
  "Config_CheckTimeout failed elapsed =
     (if \<not> failed \<and> elapsed > 120 then Inl (Fatal ''test took longer than 120 seconds'') else Inr ())"

text \<open>\<open>js\<close> are the random numbers \<open>rand.Intn(i + 1)\<close>.\<close>

definition swap :: "nat \<Rightarrow> nat \<Rightarrow> 'a list \<Rightarrow> 'a list" where
  "swap i j xs = xs[i := xs ! j, j := xs ! i]"

definition random_handles :: "nat list \<Rightarrow> 'a list \<Rightarrow> 'a list" where
  "random_handles js kvh = foldl (\<lambda>sa (i, j). swap i j sa) kvh (zip [0..<length kvh] js)"

section \<open>tester1/annotator.go\<close>

definition TesterRPC_PostAnnotatorPoint :: "int \<Rightarrow> string \<Rightarrow> string \<Rightarrow> string \<Rightarrow> ann_state \<Rightarrow> ann_state" where
  "TesterRPC_PostAnnotatorPoint t tag desp details = AnnotatePoint t tag desp details"

definition TesterRPC_PostAnnotatorInfoInterval :: "int \<Rightarrow> int \<Rightarrow> string \<Rightarrow> string \<Rightarrow> ann_state \<Rightarrow> ann_state" where
  "TesterRPC_PostAnnotatorInfoInterval t start desp details = AnnotateInfoInterval t start desp details"

section \<open>The partitioner of kvtest1/kvtest.go\<close>

text \<open>\<open>a\<close> are the random bits of the servers.\<close>

definition partition_sides :: "nat list \<Rightarrow> nat list \<times> nat list" where
  "partition_sides a = (filter (\<lambda>j. a ! j = 0) [0..<length a], filter (\<lambda>j. a ! j = 1) [0..<length a])"

definition partition_round :: "int \<Rightarrow> nat list \<Rightarrow> grp_state \<times> ann_state \<Rightarrow> go_exit + grp_state \<times> ann_state" where
  "partition_round t a = (\<lambda>(g, an).
     case partition_sides a of (pa0, pa1) \<Rightarrow>
       and_then (ServerGrp_Partition pa0 pa1 g) (\<lambda>g'. Inr (g', AnnotateTwoPartitions t pa0 pa1 an)))"

text \<open>The rounds before the signal on \<open>ch\<close>: the time and the random numbers of each.\<close>

definition KvTest_Partitioner :: "(int \<times> nat list) list \<Rightarrow> grp_state \<times> ann_state \<Rightarrow> go_exit + grp_state \<times> ann_state" where
  "KvTest_Partitioner = each (\<lambda>(t, rs). partition_round t (map (\<lambda>r. r mod 2) rs))"

section \<open>Shuffling\<close>

text \<open>The random handles are a permutation of the given ones.\<close>

lemma random_handles_perm:
  assumes "length js = length kvh" and "\<forall>i < length js. js ! i \<le> i"
  shows "mset (random_handles js kvh) = mset kvh"
proof -
  have "mset (foldl (\<lambda>sa (i, j). swap i j sa) xs ijs) = mset xs" if "\<forall>(i, j)\<in>set ijs. i < length xs \<and> j < length xs" for ijs and xs :: "'a list"
    using that by (induction ijs arbitrary: xs) (auto simp: swap_def mset_swap)
  moreover have "\<forall>(i, j)\<in>set (zip [0..<length kvh] js). i < length kvh \<and> j < length kvh"
    using assms by (auto simp: set_zip)
  ultimately show ?thesis by (simp add: random_handles_def)
qed

section \<open>Connecting a whole group\<close>

lemma connect_prefix:
  assumes "wf_group sg" and "k \<le> length (sg_srvs sg)"
  shows "\<exists>sg' net'. each ServerGrp_ConnectOne [0..<k] (sg, net) = Inr (sg', net') \<and> same_group sg sg' \<and>
    rn_servers net' = rn_servers net \<and> rn_connections net' = rn_connections net \<and>
    (\<forall>a<k. connected sg' ! a) \<and> (\<forall>a<k. \<forall>b<k. link (sg', net') a b)"
  using assms(2)
proof (induction k)
  case 0
  then show ?case by (simp add: same_group_def)
next
  case (Suc k)
  then obtain sg1 net1 where IH: "each ServerGrp_ConnectOne [0..<k] (sg, net) = Inr (sg1, net1)" "same_group sg sg1"
    "rn_servers net1 = rn_servers net" "rn_connections net1 = rn_connections net"
    "\<forall>a<k. connected sg1 ! a" "\<forall>a<k. \<forall>b<k. link (sg1, net1) a b" by auto
  have n: "length (sg_srvs sg1) = length (sg_srvs sg)" "length (connected sg1) = length (sg_srvs sg)" "wf_group sg1"
    using IH(2) assms(1) by (auto simp: same_group_def wf_group_def)
  then have ok: "group_ok (k # ServerGrp_all sg1) sg1" using Suc.prems by (auto simp: group_ok_def ServerGrp_all_def)
  from ServerGrp_connect_links [OF ok, of net1] obtain net2 where
    c: "ServerGrp_connect k (ServerGrp_all sg1) (sg1, net1) = Inr (mark k True sg1, net2)"
    "rn_servers net2 = rn_servers net1" "rn_connections net2 = rn_connections net1"
    "\<forall>a<length (sg_srvs sg1). \<forall>b<length (sg_srvs sg1). link (mark k True sg1, net2) a b \<longleftrightarrow>
       link (sg1, net1) a b \<or> (a = k \<and> b \<in> set (ServerGrp_all sg1) \<and> connected (mark k True sg1) ! b) \<or>
       (b = k \<and> a \<in> set (ServerGrp_all sg1) \<and> connected (mark k True sg1) ! a)" by blast
  have conn: "connected (mark k True sg1) ! a" if "a < Suc k" for a
    using that IH(5) n(2) Suc.prems by (auto simp: nth_list_update)
  moreover have "link (mark k True sg1, net2) a b" if "a < Suc k" "b < Suc k" for a b
    using that c(4) IH(6) conn [of a] conn [of b] n(1) Suc.prems by (auto simp: ServerGrp_all_def less_Suc_eq)
  moreover have "same_group sg (mark k True sg1)" using IH(2) by (simp add: same_group_def)
  moreover have "each ServerGrp_ConnectOne [0..<Suc k] (sg, net) = Inr (mark k True sg1, net2)"
    using IH(1) c(1) by (simp add: each_append ServerGrp_ConnectOne_def)
  ultimately show ?case using IH(3,4) c(2,3) by auto
qed

lemma ConnectAll_links:
  assumes "wf_group sg"
  shows "\<exists>sg' net'. ServerGrp_ConnectAll (sg, net) = Inr (sg', net') \<and> same_group sg sg' \<and>
    rn_servers net' = rn_servers net \<and> rn_connections net' = rn_connections net \<and>
    (\<forall>a<ServerGrp_N sg. connected sg' ! a) \<and> (\<forall>a<ServerGrp_N sg. \<forall>b<ServerGrp_N sg. link (sg', net') a b)"
  using connect_prefix [OF assms order.refl] by (simp add: ServerGrp_ConnectAll_def ServerGrp_all_def ServerGrp_N_def)

section \<open>The partitioner\<close>

lemma partition_sides_set:
  assumes "partition_sides a = (p0, p1)" and "\<forall>x\<in>set a. x < 2"
  shows "set p0 \<inter> set p1 = {}" and "set p0 \<union> set p1 = {..<length a}"
    and "i < length a \<Longrightarrow> j < length a \<Longrightarrow> (i \<in> set p0 \<longleftrightarrow> j \<in> set p0) \<longleftrightarrow> a ! i = a ! j"
proof -
  have bit: "a ! i = 0 \<or> a ! i = 1" if "i < length a" for i using assms(2) nth_mem [OF that] by (auto simp: less_2_cases_iff)
  show "set p0 \<inter> set p1 = {}" using assms(1) by (auto simp: partition_sides_def)
  show "set p0 \<union> set p1 = {..<length a}" using assms(1) by (auto simp: partition_sides_def) (use bit in fastforce)
  show "(i \<in> set p0 \<longleftrightarrow> j \<in> set p0) \<longleftrightarrow> a ! i = a ! j" if "i < length a" "j < length a"
    using assms(1) that bit [OF that(1)] bit [OF that(2)] by (auto simp: partition_sides_def)
qed

lemma partition_round_spec:
  assumes "wf_group sg" and "length a = ServerGrp_N sg" and "\<forall>x\<in>set a. x < 2"
  shows "\<exists>sg' net' an'. partition_round t a ((sg, net), an) = Inr ((sg', net'), an') \<and> wf_group sg' \<and> sg_srvs sg' = sg_srvs sg \<and>
    (\<forall>i<length a. \<forall>j<length a. link (sg', net') i j \<longleftrightarrow> a ! i = a ! j) \<and>
    (\<forall>i<length a. \<forall>j<length a. \<forall>req ch net2 heap. a ! i \<noteq> a ! j \<and> req_endname req = link_name sg' i j \<longrightarrow>
       Network_processReq net' ch net2 (heap :: nat \<Rightarrow> 's Server) req = Inr (no_reply, heap, 0))"
proof -
  obtain p0 p1 where p: "partition_sides a = (p0, p1)" by fastforce
  note sides = partition_sides_set [OF p assms(3)]
  have "\<forall>i\<in>set (p0 @ p1). i < ServerGrp_N sg" using sides(2) assms(2) by auto
  from Partition_spec [OF assms(1) sides(1) this, of net] obtain sg' net' where
    part: "ServerGrp_Partition p0 p1 (sg, net) = Inr (sg', net')" "sg_srvs sg' = sg_srvs sg"
    "\<forall>a\<in>set (p0 @ p1). \<forall>b\<in>set (p0 @ p1). link (sg', net') a b \<longleftrightarrow> (a \<in> set p0 \<longleftrightarrow> b \<in> set p0)"
    by (elim exE conjE) blast
  have links: "link (sg', net') i j \<longleftrightarrow> a ! i = a ! j" if "i < length a" "j < length a" for i j
    using part(3) sides(2) sides(3) [OF that] that by auto
  moreover have "Network_processReq net' ch net2 heap req = Inr (no_reply, heap, 0)"
    if "i < length a" "j < length a" "a ! i \<noteq> a ! j" "req_endname req = link_name sg' i j" for i j req ch net2 and heap :: "nat \<Rightarrow> 's Server"
    using links [OF that(1,2)] that(3,4) by (intro processReq_off) (auto simp: link_def)
  moreover have "wf_group sg'"
  proof -
    have "grp_step\<^sup>*\<^sup>* (sg, net) (sg', net')" by (rule Partition_steps [OF part(1)])
    moreover have "length (connected (fst st')) = length (connected (fst st))" if "ServerGrp_Partition p0 p1 st = Inr st'" for st st'
      using that by (auto simp: ServerGrp_Partition_def and_then_eq_Inr elim!: each_inv [where P = "\<lambda>s. length (connected (fst s)) = length (connected (fst st))"]
          dest!: ServerGrp_connect_keeps ServerGrp_disconnect_keeps simp: same_group_def split_paired_all)
    ultimately show ?thesis using part(1,2) assms(1) by (fastforce simp: wf_group_def)
  qed
  ultimately show ?thesis using part(1,2) p by (intro exI [of _ sg'] exI [of _ net']) (simp add: partition_round_def)
qed

text \<open>
  C21: The partitioner never fails, and after each of its rounds two servers of the group are linked
  exactly if they drew the same random bit, whatever the links were before; a request on a link
  between servers of different bits reaches nobody. Connecting the group afterwards heals it: every
  server is linked to every server.
\<close>

theorem partitioner_isolates_and_heals:
  assumes "wf_group sg" and "\<forall>(t, rs)\<in>set (rounds @ [(t0, last_rs)]). length rs = ServerGrp_N sg"
  shows "\<exists>sg' net' an' sg2 net2. KvTest_Partitioner (rounds @ [(t0, last_rs)]) ((sg, net), an) = Inr ((sg', net'), an') \<and> sg_srvs sg' = sg_srvs sg \<and>
    (\<forall>i<ServerGrp_N sg. \<forall>j<ServerGrp_N sg. link (sg', net') i j \<longleftrightarrow> even (last_rs ! i) = even (last_rs ! j)) \<and>
    (\<forall>i<ServerGrp_N sg. \<forall>j<ServerGrp_N sg. \<forall>req ch net3 heap. even (last_rs ! i) \<noteq> even (last_rs ! j) \<and> req_endname req = link_name sg' i j \<longrightarrow>
       Network_processReq net' ch net3 (heap :: nat \<Rightarrow> 's Server) req = Inr (no_reply, heap, 0)) \<and>
    ServerGrp_ConnectAll (sg', net') = Inr (sg2, net2) \<and>
    (\<forall>i<ServerGrp_N sg. \<forall>j<ServerGrp_N sg. link (sg2, net2) i j)"
proof -
  have before: "\<exists>sg' net' an'. KvTest_Partitioner rounds ((sg, net), an) = Inr ((sg', net'), an') \<and> wf_group sg' \<and> sg_srvs sg' = sg_srvs sg"
    using assms
  proof (induction rounds rule: rev_induct)
    case (snoc r rounds)
    obtain t rs where r: "r = (t, rs)" by fastforce
    obtain sg1 net1 an1 where IH: "KvTest_Partitioner rounds ((sg, net), an) = Inr ((sg1, net1), an1)" "wf_group sg1" "sg_srvs sg1 = sg_srvs sg"
      using snoc by fastforce
    have "length (map (\<lambda>r. r mod 2) rs) = ServerGrp_N sg1" using snoc.prems(2) IH(3) by (auto simp: r ServerGrp_N_def)
    from partition_round_spec [OF IH(2) this, of t net1 an1] IH show ?case
      by (auto simp: KvTest_Partitioner_def each_append r)
  qed (simp add: KvTest_Partitioner_def)
  then obtain sg1 net1 an1 where 1: "KvTest_Partitioner rounds ((sg, net), an) = Inr ((sg1, net1), an1)" "wf_group sg1" "sg_srvs sg1 = sg_srvs sg"
    by blast
  let ?a = "map (\<lambda>r. r mod 2) last_rs"
  have len: "length ?a = ServerGrp_N sg1" "length ?a = ServerGrp_N sg" using assms(2) 1(3) by (auto simp: ServerGrp_N_def)
  have eq: "?a ! i = ?a ! j \<longleftrightarrow> even (last_rs ! i) = even (last_rs ! j)" if "i < ServerGrp_N sg" "j < ServerGrp_N sg" for i j
    using that len(2) by (simp add: even_iff_mod_2_eq_zero) (metis even_iff_mod_2_eq_zero odd_iff_mod_2_eq_one)
  have bits: "\<forall>x\<in>set ?a. x < 2" by simp
  from partition_round_spec [OF 1(2) len(1) bits, of t0 net1 an1] obtain sg' net' an' where
    2: "partition_round t0 ?a ((sg1, net1), an1) = Inr ((sg', net'), an')" "wf_group sg'" "sg_srvs sg' = sg_srvs sg1"
    "\<forall>i<length ?a. \<forall>j<length ?a. link (sg', net') i j \<longleftrightarrow> ?a ! i = ?a ! j"
    "\<forall>i<length ?a. \<forall>j<length ?a. \<forall>req ch net2 heap. ?a ! i \<noteq> ?a ! j \<and> req_endname req = link_name sg' i j \<longrightarrow>
       Network_processReq net' ch net2 (heap :: nat \<Rightarrow> 's Server) req = Inr (no_reply, heap, 0)"
    by blast
  obtain sg2 net2 where 3: "ServerGrp_ConnectAll (sg', net') = Inr (sg2, net2)" "\<forall>a<ServerGrp_N sg'. \<forall>b<ServerGrp_N sg'. link (sg2, net2) a b"
    using ConnectAll_links [OF 2(2)] by blast
  have "KvTest_Partitioner (rounds @ [(t0, last_rs)]) ((sg, net), an) = Inr ((sg', net'), an')"
    using 1(1) 2(1) by (simp add: KvTest_Partitioner_def each_append)
  moreover have "ServerGrp_N sg' = ServerGrp_N sg" using 1(3) 2(3) by (simp add: ServerGrp_N_def)
  ultimately show ?thesis using 1(3) 2(3,4,5) 3 eq unfolding len(2) by (intro exI [of _ sg'] exI [of _ net'] exI [of _ an'] exI [of _ sg2] exI [of _ net2]) auto
qed

theorem partitioner_isolates_and_heals_witness:
  "\<exists>sg' net' an'. KvTest_Partitioner ([(1, [4, 6])] @ [(2, [3, 8])]) ((two_servers, MakeNetwork), \<lparr>annotation = mkAnnotation, finfo = None\<rparr>) = Inr ((sg', net'), an') \<and>
     \<not> link (sg', net') 0 1 \<and> link (sg', net') 1 1"
proof -
  have n: "ServerGrp_N two_servers = 2" and "wf_group two_servers" by (simp_all add: wf_group_def two_servers_def ServerGrp_N_def)
  from partitioner_isolates_and_heals [OF this(2), of "[(1, [4, 6])]" 2 "[3, 8]" MakeNetwork "\<lparr>annotation = mkAnnotation, finfo = None\<rparr>"]
  show ?thesis unfolding n by (auto simp: less_2_cases_iff)
qed

section \<open>The life of a group\<close>

lemma ServerName_inj [simp]: "ServerName gid i = ServerName gid j \<longleftrightarrow> i = j"
  by (simp add: ServerName_def Itoa_inj)

definition fresh_start :: "TServer \<Rightarrow> Persister" where
  "fresh_start s = DaemonClnt_init (case saved s of None \<Rightarrow> MakePersister | Some p \<Rightarrow> p)"

definition same_but_srvs :: "ServerGrp \<Rightarrow> ServerGrp \<Rightarrow> bool" where
  "same_but_srvs sg sg' \<longleftrightarrow> length (sg_srvs sg') = length (sg_srvs sg) \<and> sg_gid sg' = sg_gid sg \<and> servernames sg' = servernames sg"

lemma StartServer_spec:
  assumes "ServerGrp_StartServer i names addr True (sg, net) = Inr (b, sg', net')" and "grp_inv (sg, net)" and "length names = ServerGrp_N sg"
  shows "grp_inv (sg', net') \<and> same_but_srvs sg sg' \<and> rn_servers net' = (rn_servers net)(ServerName (sg_gid sg) (int i) \<mapsto> addr) \<and>
    i < length (sg_srvs sg) \<and> dc (sg_srvs sg' ! i) = Some (fresh_start (sg_srvs sg ! i)) \<and> (\<forall>j. j \<noteq> i \<longrightarrow> sg_srvs sg' ! j = sg_srvs sg ! j)"
proof -
  obtain s0 net1 s' where p: "i < length (sg_srvs sg)" "makeServer (sg_gid sg) names net = Inr (s0, net1)"
    "sg' = sg\<lparr>sg_srvs := (sg_srvs sg)[i := s']\<rparr>"
    "saved s' = Some (case saved (sg_srvs sg ! i) of None \<Rightarrow> MakePersister | Some p \<Rightarrow> p)" "dc s' = map_option DaemonClnt_init (saved s')"
    "net' = Network_AddServer (ServerName (sg_gid sg) (int i)) addr net1" using StartServer_parts [OF assms(1)] by auto
  have "rn_servers net1 = rn_servers net" using makeServer_net [OF p(2)] by blast
  then show ?thesis using p StartServer_inv [OF assms(2,1,3)] by (simp add: same_but_srvs_def Network_AddServer_def fresh_start_def)
qed

lemma StartSrvs_spec:
  assumes "ServerGrp_StartSrvs xs (sg, net) = Inr (sg', net')" and "grp_inv (sg, net)" and "distinct (map fst xs)"
    and "\<forall>(i, names, addr, ok)\<in>set xs. ok \<and> length names = ServerGrp_N sg"
  shows "grp_inv (sg', net') \<and> same_but_srvs sg sg' \<and>
    (\<forall>(i, names, addr, ok)\<in>set xs. rn_servers net' (ServerName (sg_gid sg) (int i)) = Some addr \<and> dc (sg_srvs sg' ! i) = Some (fresh_start (sg_srvs sg ! i))) \<and>
    (\<forall>i. i \<notin> fst ` set xs \<longrightarrow> rn_servers net' (ServerName (sg_gid sg) (int i)) = rn_servers net (ServerName (sg_gid sg) (int i)) \<and>
       sg_srvs sg' ! i = sg_srvs sg ! i)"
  using assms
proof (induction xs arbitrary: sg net)
  case Nil
  then show ?case by (simp add: ServerGrp_StartSrvs_def same_but_srvs_def)
next
  case (Cons x xs)
  obtain i names addr where x: "x = (i, names, addr, True)" using Cons.prems(4) by (cases x) auto
  obtain b sg1 net1 where first: "ServerGrp_StartServer i names addr True (sg, net) = Inr (b, sg1, net1)"
    and rest: "ServerGrp_StartSrvs xs (sg1, net1) = Inr (sg', net')"
    using Cons.prems(1) by (auto simp: ServerGrp_StartSrvs_def and_then_eq_Inr x)
  have len: "length names = ServerGrp_N sg" using Cons.prems(4) by (simp add: x)
  note one = StartServer_spec [OF first Cons.prems(2) len]
  then have n: "ServerGrp_N sg1 = ServerGrp_N sg" "sg_gid sg1 = sg_gid sg" by (simp_all add: same_but_srvs_def ServerGrp_N_def)
  have IH: "grp_inv (sg', net') \<and> same_but_srvs sg1 sg' \<and>
    (\<forall>(i, names, addr, ok)\<in>set xs. rn_servers net' (ServerName (sg_gid sg1) (int i)) = Some addr \<and> dc (sg_srvs sg' ! i) = Some (fresh_start (sg_srvs sg1 ! i))) \<and>
    (\<forall>i. i \<notin> fst ` set xs \<longrightarrow> rn_servers net' (ServerName (sg_gid sg1) (int i)) = rn_servers net1 (ServerName (sg_gid sg1) (int i)) \<and>
       sg_srvs sg' ! i = sg_srvs sg1 ! i)"
    using Cons.prems(3,4) one n by (intro Cons.IH [OF rest]) (auto simp: x)
  have notin: "i \<notin> fst ` set xs" using Cons.prems(3) by (simp add: x)
  have "rn_servers net' (ServerName (sg_gid sg) (int j)) = Some addr' \<and> dc (sg_srvs sg' ! j) = Some (fresh_start (sg_srvs sg ! j))"
    if "(j, names', addr', ok) \<in> set (x # xs)" for j names' addr' ok
  proof (cases "j = i")
    case True
    then have "addr' = addr" using that notin by (force simp: x)
    then show ?thesis using True IH one notin n by simp
  next
    case False
    then have "(j, names', addr', ok) \<in> set xs" using that by (simp add: x)
    then show ?thesis using False IH one n by fastforce
  qed
  moreover have "rn_servers net' (ServerName (sg_gid sg) (int j)) = rn_servers net (ServerName (sg_gid sg) (int j)) \<and> sg_srvs sg' ! j = sg_srvs sg ! j"
    if "j \<notin> fst ` set (x # xs)" for j using that IH one n by (simp add: x)
  moreover have "same_but_srvs sg sg'" using IH one by (simp add: same_but_srvs_def)
  ultimately show ?case using IH by blast
qed

lemma wf_group_cong:
  assumes "map endNames (sg_srvs sg') = map endNames (sg_srvs sg)" and "length (connected sg') = length (connected sg)"
  shows "wf_group sg' \<longleftrightarrow> wf_group sg"
proof -
  have "length (sg_srvs sg') = length (sg_srvs sg)" using assms(1) by (rule map_eq_imp_length_eq)
  moreover have "endNames ` set (sg_srvs sg') = endNames ` set (sg_srvs sg)" using arg_cong [OF assms(1), of set] by simp
  ultimately show ?thesis using assms unfolding wf_group_def by (metis (mono_tags, lifting) imageE imageI)
qed

lemma Shutdown_prefix:
  assumes "wf_group sg" and "k \<le> length (sg_srvs sg)"
  shows "\<exists>sg' net'. each ServerGrp_ShutdownServer [0..<k] (sg, net) = Inr (sg', net') \<and> wf_group sg' \<and> same_but_srvs sg sg' \<and>
    (\<forall>i<length (sg_srvs sg). sg_srvs sg' ! i = (if i < k then TServer_shutdownServer (sg_srvs sg ! i) else sg_srvs sg ! i)) \<and>
    rn_servers net' = (\<lambda>n. if \<exists>i<k. n = ServerName (sg_gid sg) (int i) then None else rn_servers net n)"
  using assms(2)
proof (induction k)
  case 0
  then show ?case using assms(1) by (simp add: same_but_srvs_def)
next
  case (Suc k)
  then obtain sg1 net1 where IH: "each ServerGrp_ShutdownServer [0..<k] (sg, net) = Inr (sg1, net1)" "wf_group sg1" "same_but_srvs sg sg1"
    "\<forall>i<length (sg_srvs sg). sg_srvs sg1 ! i = (if i < k then TServer_shutdownServer (sg_srvs sg ! i) else sg_srvs sg ! i)"
    "rn_servers net1 = (\<lambda>n. if \<exists>i<k. n = ServerName (sg_gid sg) (int i) then None else rn_servers net n)" by auto
  have ok: "group_ok (k # ServerGrp_all sg1) sg1"
    using IH(2,3) Suc.prems by (auto simp: group_ok_def ServerGrp_all_def same_but_srvs_def)
  obtain net2 where d: "ServerGrp_disconnect k (ServerGrp_all sg1) (sg1, net1) = Inr (mark k False sg1, net2)" "rn_servers net2 = rn_servers net1"
    using ServerGrp_disconnect_links [OF ok, of net1] by blast
  have k: "k < length (sg_srvs sg1)" using IH(3) Suc.prems by (simp add: same_but_srvs_def)
  let ?sg2 = "(mark k False sg1)\<lparr>sg_srvs := (sg_srvs sg1)[k := TServer_shutdownServer (sg_srvs sg1 ! k)]\<rparr>"
  let ?net3 = "Network_DeleteServer (ServerName (sg_gid sg1) (int k)) net2"
  have s: "ServerGrp_ShutdownServer k (sg1, net1) = Inr (?sg2, ?net3)" using d(1) k by (simp add: ServerGrp_ShutdownServer_def)
  have "same_but_srvs sg ?sg2" "rn_servers ?net3 = (\<lambda>n. if \<exists>i<Suc k. n = ServerName (sg_gid sg) (int i) then None else rn_servers net n)"
    using IH(3,5) d(2) by (auto simp: same_but_srvs_def Network_DeleteServer_def less_Suc_eq fun_eq_iff)
  moreover have "\<forall>i<length (sg_srvs sg). sg_srvs ?sg2 ! i = (if i < Suc k then TServer_shutdownServer (sg_srvs sg ! i) else sg_srvs sg ! i)"
    using IH(3,4) k by (auto simp: nth_list_update less_Suc_eq same_but_srvs_def)
  moreover have "map endNames (sg_srvs ?sg2) = map endNames (sg_srvs sg1)"
    using k by (simp add: map_update TServer_shutdownServer_def list_update_same_conv split: option.splits)
  then have "wf_group ?sg2" using IH(2) by (subst wf_group_cong) simp_all
  ultimately show ?case using IH(1) s by (auto simp: each_append)
qed

lemma Shutdown_spec:
  assumes "wf_group sg"
  shows "\<exists>sg' net'. ServerGrp_Shutdown (sg, net) = Inr (sg', net') \<and> wf_group sg' \<and> same_but_srvs sg sg' \<and>
    (\<forall>i<ServerGrp_N sg. sg_srvs sg' ! i = TServer_shutdownServer (sg_srvs sg ! i)) \<and>
    rn_servers net' = (\<lambda>n. if \<exists>i<ServerGrp_N sg. n = ServerName (sg_gid sg) (int i) then None else rn_servers net n)"
  using Shutdown_prefix [OF assms order.refl, of net] by (auto simp: ServerGrp_Shutdown_def ServerGrp_Kill_def ServerGrp_all_def ServerGrp_N_def)

lemma Shutdown_ends:
  assumes "ServerGrp_Shutdown (sg, net) = Inr (sg', net')"
  shows "rn_ends net' = rn_ends net"
proof -
  have "(\<lambda>(_, n). rn_ends n = rn_ends net) (sg', net')"
    using assms unfolding ServerGrp_Shutdown_def ServerGrp_Kill_def
    by (rule each_inv) (auto dest!: ShutdownServer_parts ServerGrp_disconnect_keeps simp: same_ends_def Network_DeleteServer_def)
  then show ?thesis by simp
qed

lemma ExitGroup_spec:
  assumes "Config_Group gid cfg = Some sg" and "wf_group sg" and "sg_gid sg = gid"
  shows "\<exists>cfg'. Config_ExitGroup gid cfg = Inr cfg' \<and> Config_Group gid cfg' = None \<and> (\<forall>g. g \<noteq> gid \<longrightarrow> Config_Group g cfg' = Config_Group g cfg) \<and>
    (\<forall>i<ServerGrp_N sg. rn_servers (cfg_net cfg') (ServerName gid (int i)) = None) \<and> rn_ends (cfg_net cfg') = rn_ends (cfg_net cfg)"
proof -
  obtain sg2 net2 where x: "ServerGrp_Shutdown (sg, cfg_net cfg) = Inr (sg2, net2)" "\<forall>i<length (sg_srvs sg). rn_servers net2 (ServerName gid (int i)) = None"
    using Shutdown_spec [OF assms(2), of "cfg_net cfg"] assms(3) by (auto simp: ServerGrp_N_def)
  note ends = Shutdown_ends [OF x(1)]
  have "Config_ExitGroup gid cfg = Inr (cfg\<lparr>cfg_groups := ((cfg_groups cfg)(gid \<mapsto> sg2))(gid := None), cfg_net := net2\<rparr>)"
    using x(1) assms(1) by (simp add: Config_ExitGroup_def Config_Group_def with_groups_def on_group_def Groups_lookupGroup_def Groups_delete_def)
  then show ?thesis using x(2) ends by (simp add: Config_Group_def Groups_lookupGroup_def ServerGrp_N_def)
qed

text \<open>A group that has just been made: no server runs.\<close>

lemma makeSrvGrp_fields:
  assumes "makeSrvGrp gid n namess net = Inr (sg, net')" and "length namess = n"
  shows "length (sg_srvs sg) = n \<and> sg_gid sg = gid \<and> servernames sg = map (\<lambda>i. ServerName gid (int i)) [0..<n] \<and>
    (\<forall>i<n. fresh_start (sg_srvs sg ! i) = MakePersister)"
  using assms make_servers_net [of gid namess net]
  by (auto simp: makeSrvGrp_def and_then_eq_Inr fresh_start_def DaemonClnt_init_def DaemonSrv_Init_def Persister_Save_def
      Persister_ReadRaftState_def Persister_ReadSnapshot_def MakePersister_def clone_def)

lemma StartServers_spec:
  assumes "ServerGrp_StartServers starts (sg, net) = Inr (sg', net')" and "grp_inv (sg, net)" and "length starts = ServerGrp_N sg"
    and "\<forall>(names, addr, ok)\<in>set starts. ok \<and> length names = ServerGrp_N sg"
  shows "grp_inv (sg', net') \<and> same_but_srvs sg sg' \<and> (\<forall>i<ServerGrp_N sg. connected sg' ! i) \<and>
    (\<forall>i<ServerGrp_N sg. \<forall>j<ServerGrp_N sg. link (sg', net') i j) \<and>
    (\<forall>i<ServerGrp_N sg. rn_servers net' (ServerName (sg_gid sg) (int i)) = Some (fst (snd (starts ! i))) \<and>
       dc (sg_srvs sg' ! i) = Some (fresh_start (sg_srvs sg ! i)))"
proof -
  let ?n = "ServerGrp_N sg" and ?xs = "zip (ServerGrp_all sg) starts"
  obtain sg1 net1 where st: "ServerGrp_StartSrvs ?xs (sg, net) = Inr (sg1, net1)" and con: "ServerGrp_ConnectAll (sg1, net1) = Inr (sg', net')"
    using assms(1) by (auto simp: ServerGrp_StartServers_def and_then_eq_Inr)
  have xs: "(i, starts ! i) \<in> set ?xs" if "i < ?n" for i using that assms(3) by (force simp: set_zip ServerGrp_all_def ServerGrp_N_def)
  have "distinct (map fst ?xs)" using assms(3) by (simp add: ServerGrp_all_def ServerGrp_N_def)
  moreover have "\<forall>(i, names, addr, ok)\<in>set ?xs. ok \<and> length names = ?n" using assms(4) by (auto dest: set_zip_rightD)
  ultimately have 1: "grp_inv (sg1, net1)" "same_but_srvs sg sg1"
    "\<forall>(i, names, addr, ok)\<in>set ?xs. rn_servers net1 (ServerName (sg_gid sg) (int i)) = Some addr \<and> dc (sg_srvs sg1 ! i) = Some (fresh_start (sg_srvs sg ! i))"
    using StartSrvs_spec [OF st assms(2)] by blast+
  have n: "ServerGrp_N sg1 = ?n" using 1(2) by (simp add: same_but_srvs_def ServerGrp_N_def)
  have wf: "wf_group sg1" using 1(1) by (simp add: grp_inv_def)
  have 2: "same_group sg1 sg'" "rn_servers net' = rn_servers net1" "\<forall>a<?n. connected sg' ! a" "\<forall>a<?n. \<forall>b<?n. link (sg', net') a b"
    using ConnectAll_links [OF wf, of net1] con unfolding n by auto
  have "grp_step\<^sup>*\<^sup>* (sg1, net1) (sg', net')" by (rule ConnectAll_steps [OF con])
  then have "grp_inv (sg', net')" using 1(1) by (induction rule: rtranclp_induct) (auto intro: grp_step_inv)
  moreover have "same_but_srvs sg sg'" using 1(2) 2(1) by (simp add: same_but_srvs_def same_group_def)
  moreover have "rn_servers net' (ServerName (sg_gid sg) (int i)) = Some (fst (snd (starts ! i))) \<and> dc (sg_srvs sg' ! i) = Some (fresh_start (sg_srvs sg ! i))"
    if "i < ?n" for i using bspec [OF 1(3) xs [OF that]] 2(1,2) by (cases "starts ! i") (auto simp: same_group_def)
  ultimately show ?thesis using 2(3,4) by blast
qed

text \<open>What \<open>MakeGroupStart\<close> leaves behind.\<close>

lemma MakeGroupStart_spec:
  assumes "Config_MakeGroupStart gid n namess starts cfg = Inr cfg1" and "length namess = n" and "\<forall>names\<in>set namess. length names = n"
    and "length starts = n" and "\<forall>(names, addr, ok)\<in>set starts. ok \<and> length names = n"
  shows "\<exists>sg. Config_Group gid cfg1 = Some sg \<and> ServerGrp_N sg = n \<and> ServerGrp_SrvNames sg = map (\<lambda>i. ServerName gid (int i)) [0..<n] \<and>
    wf_group sg \<and> sg_gid sg = gid \<and>
    (\<forall>i<n. ServerGrp_IsConnected i sg = Inr True \<and> rn_servers (cfg_net cfg1) (ServerName gid (int i)) = Some (fst (snd (starts ! i))) \<and>
       dc (sg_srvs sg ! i) = Some MakePersister) \<and>
    (\<forall>i<n. \<forall>j<n. link (sg, cfg_net cfg1) i j \<and> rn_connections (cfg_net cfg1) (link_name sg i j) = Some (ServerName gid (int j))) \<and>
    (\<forall>g. g \<noteq> gid \<longrightarrow> Config_Group g cfg1 = Config_Group g cfg)"
proof -
  obtain sg0 net0 sg net where mk: "makeSrvGrp gid n namess (cfg_net cfg) = Inr (sg0, net0)"
    and start: "ServerGrp_StartServers starts (sg0, net0) = Inr (sg, net)"
    and cfg1: "cfg_groups cfg1 = (cfg_groups cfg)(gid \<mapsto> sg)" "cfg_net cfg1 = net"
    using assms(1) by (auto simp: Config_MakeGroupStart_def with_groups_def Groups_MakeGroup_def on_group_def Groups_lookupGroup_def and_then_eq_Inr)
  note f = makeSrvGrp_fields [OF mk assms(2)]
  have n: "ServerGrp_N sg0 = n" using f by (simp add: ServerGrp_N_def)
  have "grp_inv (sg0, net0)" by (rule makeSrvGrp_inv [OF mk assms(2,3)])
  note s = StartServers_spec [OF start this, unfolded n, OF assms(4,5)]
  then have sg: "grp_inv (sg, net)" "length (sg_srvs sg) = n" "sg_gid sg = gid" "servernames sg = map (\<lambda>i. ServerName gid (int i)) [0..<n]"
    using f by (auto simp: same_but_srvs_def)
  have conn: "length (connected sg) = n" using sg(1,2) by (simp add: grp_inv_def wf_group_def)
  have "rn_connections net (link_name sg i j) = Some (ServerName gid (int j))" if "i < n" "j < n" for i j
    using sg that by (auto simp: grp_inv_def)
  moreover have "ServerGrp_IsConnected i sg = Inr True \<and> rn_servers net (ServerName gid (int i)) = Some (fst (snd (starts ! i))) \<and> dc (sg_srvs sg ! i) = Some MakePersister"
    if "i < n" for i using that s f conn by (simp add: ServerGrp_IsConnected_def)
  ultimately show ?thesis
    using s sg cfg1 by (intro exI [of _ sg]) (simp add: Config_Group_def Groups_lookupGroup_def ServerGrp_N_def ServerGrp_SrvNames_def grp_inv_def)
qed

section \<open>Starting a group does not fail\<close>

text \<open>Making ends fails only on a name that is in use.\<close>

definition fresh :: "string list \<Rightarrow> net \<Rightarrow> bool" where
  "fresh names net \<longleftrightarrow> distinct names \<and> set names \<inter> dom (rn_ends net) = {}"

lemma fresh_append: "fresh (xs @ ys) net \<longleftrightarrow> fresh xs net \<and> distinct ys \<and> set ys \<inter> (dom (rn_ends net) \<union> set xs) = {}"
  by (auto simp: fresh_def)

lemma fresh_rest: "fresh (xs @ ys) net \<Longrightarrow> dom (rn_ends net') = dom (rn_ends net) \<union> set xs \<Longrightarrow> fresh ys net'"
  by (auto simp: fresh_def)

lemma makeServer_total:
  assumes "fresh names net"
  shows "\<exists>s net'. makeServer gid names net = Inr (s, net') \<and> dom (rn_ends net') = dom (rn_ends net) \<union> set names"
proof -
  have "\<exists>net'. each (make_end gid) (List.enumerate k names) net = Inr net'" if "fresh names net" for k
    using that
  proof (induction names arbitrary: k net)
    case (Cons name names)
    let ?net1 = "Network_Connect name (ServerName gid (int k)) (snd (projr (Network_MakeEnd name net)))"
    have "rn_ends net name = None" using Cons.prems by (auto simp: fresh_def)
    then have "make_end gid (k, name) net = Inr ?net1" "dom (rn_ends ?net1) = insert name (dom (rn_ends net))"
      by (simp_all add: make_end_def Network_MakeEnd_def Network_Connect_def Let_def)
    moreover from this have "fresh names ?net1" using Cons.prems by (auto simp: fresh_def)
    ultimately show ?case using Cons.IH [of ?net1 "Suc k"] by simp
  qed simp
  from this [OF assms, of 0] obtain s net' where "makeServer gid names net = Inr (s, net')" by (auto simp: makeServer_def)
  then show ?thesis using makeServer_net by blast
qed

lemma make_servers_total:
  "fresh (concat namess) net \<Longrightarrow> \<exists>srvs net'. make_servers gid namess net = Inr (srvs, net') \<and> dom (rn_ends net') = dom (rn_ends net) \<union> set (concat namess)"
proof (induction namess arbitrary: net)
  case (Cons names namess)
  then have "fresh names net" by (simp add: fresh_append)
  from makeServer_total [OF this] obtain s net1 where 1: "makeServer gid names net = Inr (s, net1)" "dom (rn_ends net1) = dom (rn_ends net) \<union> set names" by blast
  have "fresh (concat namess) net1" by (rule fresh_rest [of names _ net]) (use Cons.prems 1(2) in simp_all)
  from Cons.IH [OF this] obtain srvs net2 where "make_servers gid namess net1 = Inr (srvs, net2)"
    "dom (rn_ends net2) = dom (rn_ends net1) \<union> set (concat namess)" by blast
  then show ?case using 1 by (intro exI [of _ "s # srvs"] exI [of _ net2]) (simp add: Un_assoc)
qed simp

lemma StartSrvs_total:
  assumes "fresh (concat (map (\<lambda>x. fst (snd x)) xs)) net" and "\<forall>x\<in>set xs. fst x < length (sg_srvs sg)"
  shows "\<exists>sg' net'. ServerGrp_StartSrvs xs (sg, net) = Inr (sg', net') \<and>
    dom (rn_ends net') = dom (rn_ends net) \<union> set (concat (map (\<lambda>x. fst (snd x)) xs))"
  using assms
proof (induction xs arbitrary: sg net)
  case (Cons x xs)
  obtain i names addr ok where x: "x = (i, names, addr, ok)" by (cases x)
  have i: "i < length (sg_srvs sg)" and f: "fresh names net" using Cons.prems by (simp_all add: x fresh_append)
  obtain s net1 where 1: "makeServer (sg_gid sg) names net = Inr (s, net1)" "dom (rn_ends net1) = dom (rn_ends net) \<union> set names"
    using makeServer_total [OF f] by blast
  obtain b sg2 net2 where 2: "ServerGrp_StartServer i names addr ok (sg, net) = Inr (b, sg2, net2)" "length (sg_srvs sg2) = length (sg_srvs sg)"
    "rn_ends net2 = rn_ends net1"
    using i 1(1) by (cases ok) (simp_all add: ServerGrp_StartServer_def TServer_startServer_def Let_def Network_AddServer_def)
  have "fresh (concat (map (\<lambda>x. fst (snd x)) xs)) net2"
    by (rule fresh_rest [of names _ net]) (use Cons.prems(1) 1(2) 2(3) in \<open>simp_all add: x\<close>)
  moreover have "\<forall>x\<in>set xs. fst x < length (sg_srvs sg2)" using Cons.prems(2) 2(2) by simp
  ultimately obtain sg' net' where "ServerGrp_StartSrvs xs (sg2, net2) = Inr (sg', net')"
    "dom (rn_ends net') = dom (rn_ends net2) \<union> set (concat (map (\<lambda>x. fst (snd x)) xs))" using Cons.IH by blast
  then show ?case using 1(2) 2 by (intro exI [of _ sg'] exI [of _ net']) (simp add: ServerGrp_StartSrvs_def x Un_assoc)
qed (simp add: ServerGrp_StartSrvs_def)

lemma ConnectAll_ends:
  assumes "ServerGrp_ConnectAll (sg, net) = Inr (sg', net')"
  shows "rn_ends net' = rn_ends net"
proof -
  have "(\<lambda>(_, n). rn_ends n = rn_ends net) (sg', net')"
    using assms unfolding ServerGrp_ConnectAll_def ServerGrp_ConnectOne_def
    by (rule each_inv) (auto dest!: ServerGrp_connect_keeps simp: same_ends_def)
  then show ?thesis by simp
qed

lemma StartServers_total:
  assumes inv: "grp_inv (sg, net)" and "fresh (concat (map fst starts)) net" and "length starts = ServerGrp_N sg"
    and "\<forall>(names, addr, ok)\<in>set starts. ok \<and> length names = ServerGrp_N sg"
  shows "\<exists>sg' net'. ServerGrp_StartServers starts (sg, net) = Inr (sg', net') \<and> dom (rn_ends net') = dom (rn_ends net) \<union> set (concat (map fst starts))"
proof -
  let ?xs = "zip (ServerGrp_all sg) starts"
  have len: "length (ServerGrp_all sg) = length starts" using assms(3) by (simp add: ServerGrp_all_def ServerGrp_N_def)
  have names: "map (\<lambda>x. fst (snd x)) ?xs = map fst starts" using len by (intro nth_equalityI) simp_all
  have "\<forall>x\<in>set ?xs. fst x < length (sg_srvs sg)" by (auto simp: ServerGrp_all_def dest: set_zip_leftD)
  then obtain sg2 net2 where st: "ServerGrp_StartSrvs ?xs (sg, net) = Inr (sg2, net2)"
    "dom (rn_ends net2) = dom (rn_ends net) \<union> set (concat (map fst starts))" using StartSrvs_total assms(2) unfolding names [symmetric] by blast
  have "distinct (map fst ?xs)" using len by (simp add: ServerGrp_all_def)
  moreover have "\<forall>(i, names, addr, ok)\<in>set ?xs. ok \<and> length names = ServerGrp_N sg" using assms(4) by (auto dest: set_zip_rightD)
  ultimately have "grp_inv (sg2, net2)" using StartSrvs_spec [OF st(1) inv] by blast
  then have "wf_group sg2" by (simp add: grp_inv_def)
  then obtain sg3 net3 where con: "ServerGrp_ConnectAll (sg2, net2) = Inr (sg3, net3)" using ConnectAll_links by blast
  then have "rn_ends net3 = rn_ends net2" by (rule ConnectAll_ends)
  then show ?thesis using st con by (simp add: ServerGrp_StartServers_def)
qed

text \<open>A group can be started when its end names, of all servers and of their restarts, are new.\<close>

definition end_names :: "string list list \<Rightarrow> (string list \<times> nat \<times> bool) list \<Rightarrow> string list" where
  "end_names namess starts = concat namess @ concat (map fst starts)"

lemma MakeGroupStart_total:
  assumes "fresh (end_names namess starts) (cfg_net cfg)" and "length namess = n" and "\<forall>names\<in>set namess. length names = n"
    and "length starts = n" and "\<forall>(names, addr, ok)\<in>set starts. ok \<and> length names = n"
  shows "\<exists>cfg1. Config_MakeGroupStart gid n namess starts cfg = Inr cfg1 \<and>
    dom (rn_ends (cfg_net cfg1)) = dom (rn_ends (cfg_net cfg)) \<union> set (end_names namess starts)"
proof -
  have "fresh (concat namess) (cfg_net cfg)" using assms(1) by (simp add: end_names_def fresh_append)
  from make_servers_total [OF this, of gid] obtain srvs net1 where m: "make_servers gid namess (cfg_net cfg) = Inr (srvs, net1)"
    "dom (rn_ends net1) = dom (rn_ends (cfg_net cfg)) \<union> set (concat namess)" by blast
  then obtain sg where mk: "makeSrvGrp gid n namess (cfg_net cfg) = Inr (sg, net1)" by (simp add: makeSrvGrp_def)
  note f = makeSrvGrp_fields [OF mk assms(2)]
  have n: "ServerGrp_N sg = n" using f by (simp add: ServerGrp_N_def)
  have "fresh (concat (map fst starts)) net1"
    by (rule fresh_rest [of "concat namess" _ "cfg_net cfg"]) (use assms(1) m(2) in \<open>simp_all add: end_names_def\<close>)
  then obtain sg3 net3 where st: "ServerGrp_StartServers starts (sg, net1) = Inr (sg3, net3)"
    "dom (rn_ends net3) = dom (rn_ends net1) \<union> set (concat (map fst starts))"
    using StartServers_total [OF makeSrvGrp_inv [OF mk assms(2,3)]] assms(4,5) unfolding n by blast
  have "Config_MakeGroupStart gid n namess starts cfg = Inr (cfg\<lparr>cfg_groups := (cfg_groups cfg)(gid \<mapsto> sg, gid \<mapsto> sg3), cfg_net := net3\<rparr>)"
    using mk st(1) by (simp add: Config_MakeGroupStart_def with_groups_def Groups_MakeGroup_def on_group_def Groups_lookupGroup_def)
  then show ?thesis using m(2) st(2) by (auto simp: end_names_def)
qed

section \<open>Making and removing a group\<close>

text \<open>
  C31: The life of a group. When the random end names are new and every process starts,
  \<open>MakeGroupStart\<close> succeeds: the group is in the table under its number with its servers' names,
  every server is connected and runs with an empty persister, the network leads the names to the
  new servers, every server is linked to every server and each link leads to the server it is for;
  other groups are untouched. \<open>ExitGroup\<close> then succeeds, removes the group from the table and all
  its servers from the network.
\<close>

theorem group_lifecycle:
  assumes "fresh (end_names namess starts) (cfg_net cfg)" and "length namess = n" and "\<forall>names\<in>set namess. length names = n"
    and "length starts = n" and "\<forall>(names, addr, ok)\<in>set starts. ok \<and> length names = n"
  shows "\<exists>cfg1 sg cfg2. Config_MakeGroupStart gid n namess starts cfg = Inr cfg1 \<and>
    Config_Group gid cfg1 = Some sg \<and> ServerGrp_N sg = n \<and> ServerGrp_SrvNames sg = map (\<lambda>i. ServerName gid (int i)) [0..<n] \<and>
    (\<forall>i<n. ServerGrp_IsConnected i sg = Inr True \<and> rn_servers (cfg_net cfg1) (ServerName gid (int i)) = Some (fst (snd (starts ! i))) \<and>
       dc (sg_srvs sg ! i) = Some MakePersister) \<and>
    (\<forall>i<n. \<forall>j<n. link (sg, cfg_net cfg1) i j \<and> rn_connections (cfg_net cfg1) (link_name sg i j) = Some (ServerName gid (int j))) \<and>
    (\<forall>g. g \<noteq> gid \<longrightarrow> Config_Group g cfg1 = Config_Group g cfg) \<and>
    Config_ExitGroup gid cfg1 = Inr cfg2 \<and> Config_Group gid cfg2 = None \<and> (\<forall>i<n. rn_servers (cfg_net cfg2) (ServerName gid (int i)) = None) \<and>
    (\<forall>g. g \<noteq> gid \<longrightarrow> Config_Group g cfg2 = Config_Group g cfg)"
proof -
  obtain cfg1 where run: "Config_MakeGroupStart gid n namess starts cfg = Inr cfg1" using MakeGroupStart_total [OF assms] by blast
  from MakeGroupStart_spec [OF run assms(2-)] obtain sg where sg: "Config_Group gid cfg1 = Some sg" "ServerGrp_N sg = n" "wf_group sg" "sg_gid sg = gid"
    and rest: "ServerGrp_SrvNames sg = map (\<lambda>i. ServerName gid (int i)) [0..<n] \<and>
    (\<forall>i<n. ServerGrp_IsConnected i sg = Inr True \<and> rn_servers (cfg_net cfg1) (ServerName gid (int i)) = Some (fst (snd (starts ! i))) \<and>
       dc (sg_srvs sg ! i) = Some MakePersister) \<and>
    (\<forall>i<n. \<forall>j<n. link (sg, cfg_net cfg1) i j \<and> rn_connections (cfg_net cfg1) (link_name sg i j) = Some (ServerName gid (int j))) \<and>
    (\<forall>g. g \<noteq> gid \<longrightarrow> Config_Group g cfg1 = Config_Group g cfg)" by blast
  from ExitGroup_spec [OF sg(1,3,4)] obtain cfg2 where "Config_ExitGroup gid cfg1 = Inr cfg2" "Config_Group gid cfg2 = None"
    "\<forall>g. g \<noteq> gid \<longrightarrow> Config_Group g cfg2 = Config_Group g cfg1" "\<forall>i<n. rn_servers (cfg_net cfg2) (ServerName gid (int i)) = None"
    using sg(2) by auto
  then show ?thesis using run sg(1,2) rest by (intro exI [of _ cfg1] exI [of _ sg] exI [of _ cfg2]) simp
qed

definition empty_config :: Config where
  "empty_config = \<lparr>cfg_groups = newGroups, cfg_net = MakeNetwork, cfg_clnts = makeClnts, cfg_rpcs0 = 0, cfg_ops = 0\<rparr>"

theorem group_lifecycle_witness:
  "\<exists>cfg1 cfg2. Config_MakeGroupStart 5 1 [[''a'']] [([''b''], 7, True)] empty_config = Inr cfg1 \<and>
     rn_servers (cfg_net cfg1) (ServerName 5 0) = Some 7 \<and> Config_ExitGroup 5 cfg1 = Inr cfg2 \<and> rn_servers (cfg_net cfg2) (ServerName 5 0) = None"
proof -
  have "fresh (end_names [[''a'']] [([''b''], 7, True)]) (cfg_net empty_config)"
    by (simp add: fresh_def end_names_def empty_config_def MakeNetwork_def)
  from group_lifecycle [OF this, of 1 5] show ?thesis by auto
qed

end
