(* ===== verification/Tester_Process.thy ===== *)
theory Tester_Process
  imports Tester_Sockets Tester_Config
begin

text \<open>
  The machine that the tests run on: the processes of the daemons and their socket files
  (\<open>tester1/daemonclnt.go\<close>, \<open>tester1/sockrpc/rpcsrv.go\<close>), the random names that keep them apart
  (\<open>Randstring\<close> of \<open>tester1/config.go\<close>, \<open>RandString\<close> of \<open>mr/util.go\<close>), and reports of the
  configuration. The bytes read from \<open>crypto/rand\<close>, the working directory, process numbers and the
  outcome of starting a process are arguments.
\<close>

section \<open>Random names\<close>

text \<open>\<open>base64.URLEncoding\<close>, with padding.\<close>

definition b64_alphabet :: string where
  "b64_alphabet = ''ABCDEFGHIJKLMNOPQRSTUVWXYZabcdefghijklmnopqrstuvwxyz0123456789-_''"

definition b64_char :: "nat \<Rightarrow> char" where
  "b64_char k = b64_alphabet ! k"

fun b64_encode :: "bytes \<Rightarrow> string" where
  "b64_encode [] = []"
| "b64_encode [a] = [b64_char (unat a div 4), b64_char (unat a mod 4 * 16), CHR ''='', CHR ''='']"
| "b64_encode [a, b] = [b64_char (unat a div 4), b64_char (unat a mod 4 * 16 + unat b div 16), b64_char (unat b mod 16 * 4), CHR ''='']"
| "b64_encode (a # b # c # bs) =
     [b64_char (unat a div 4), b64_char (unat a mod 4 * 16 + unat b div 16), b64_char (unat b mod 16 * 4 + unat c div 64), b64_char (unat c mod 64)] @
     b64_encode bs"

text \<open>\<open>b\<close> are the \<open>2 * n\<close> random bytes.\<close>

definition Randstring :: "nat \<Rightarrow> bytes \<Rightarrow> go_exit + string" where
  "Randstring n b =
     (let s = b64_encode b
      in if n \<le> length s then Inr (take n s) else Inl (Panic ''slice bounds out of range''))"

definition RandString :: "nat \<Rightarrow> bytes \<Rightarrow> go_exit + string" where
  "RandString n b =
     (let s = b64_encode b
      in if n \<le> length s then Inr (take n s) else Inl (Panic ''slice bounds out of range''))"

section \<open>Paths\<close>

text \<open>\<open>strings.LastIndex\<close>, \<open>filepath.Clean\<close> and \<open>filepath.Join\<close> of the standard library, for Unix.\<close>

definition LastIndex_of :: "string \<Rightarrow> string \<Rightarrow> nat option" where
  "LastIndex_of s sub =
     (let is = filter (\<lambda>i. take (length sub) (drop i s) = sub) [0..<Suc (length s)] in if is = [] then None else Some (last is))"

fun split_path :: "string \<Rightarrow> string \<Rightarrow> string list" where
  "split_path [] acc = [rev acc]"
| "split_path (c # cs) acc = (if c = CHR ''/'' then rev acc # split_path cs [] else split_path cs (c # acc))"

definition push_component :: "bool \<Rightarrow> string list \<Rightarrow> string \<Rightarrow> string list" where
  "push_component rooted st e =
     (if e = [] \<or> e = ''.'' then st
      else if e = ''..'' then
        (case st of [] \<Rightarrow> if rooted then [] else [''..''] | t # ts \<Rightarrow> if t = ''..'' then ''..'' # st else ts)
      else e # st)"

definition filepath_Clean :: "string \<Rightarrow> string" where
  "filepath_Clean s =
     (let rooted = (s \<noteq> [] \<and> hd s = CHR ''/'');
          out = (if rooted then ''/'' else []) @ Join (rev (foldl (push_component rooted) [] (split_path s []))) ''/''
      in if out = [] then ''.'' else out)"

definition filepath_Join :: "string list \<Rightarrow> string" where
  "filepath_Join elem = (case dropWhile (\<lambda>e. e = []) elem of [] \<Rightarrow> [] | es \<Rightarrow> filepath_Clean (Join es ''/''))"

section \<open>tester1/daemonclnt.go\<close>

text \<open>\<open>cwd[:i]\<close> with \<open>i = -1\<close> panics.\<close>

definition daemon_path :: "string \<Rightarrow> string \<Rightarrow> go_exit + string" where
  "daemon_path prog cwd =
     (case LastIndex_of cwd ''src'' of
        None \<Rightarrow> Inl (Panic ''slice bounds out of range'')
      | Some i \<Rightarrow> Inr (filepath_Join [take i cwd, ''src/main'', prog]))"

text \<open>
  The processes with their command lines, and the socket files. A client record has its fields that are
  set here; its clients of sockets are those of \<open>Tester_Sockets\<close>.
\<close>

record machine =
  mc_procs :: "nat \<rightharpoonup> string list"
  mc_files :: "string set"

record DaemonClnt =
  dp_srv :: nat
  dp_server :: string
  dp_endName :: string
  dp_cmd :: nat

text \<open>\<open>Inr None\<close> is an error of \<open>Getwd\<close> or \<open>Start\<close>; \<open>pid\<close> is the number of the new process, if it starts.\<close>

definition runDaemon ::
    "string option \<Rightarrow> nat option \<Rightarrow> string \<Rightarrow> string list \<Rightarrow> bool \<Rightarrow> string \<Rightarrow> int \<Rightarrow> nat \<Rightarrow> string list \<Rightarrow> machine \<Rightarrow> go_exit + DaemonClnt option \<times> machine" where
  "runDaemon cwd pid prog pargs rsm endName gid srv ens m =
     (case cwd of
        None \<Rightarrow> Inr (None, m)
      | Some d \<Rightarrow>
          let args = runDaemon_args pargs rsm endName gid (int srv) ens in
          and_then (daemon_path prog d) (\<lambda>bin.
          case pid of
            None \<Rightarrow> Inr (None, m)
          | Some p \<Rightarrow>
              and_then (go_index ens srv) (\<lambda>e.
              Inr (Some \<lparr>dp_srv = srv, dp_server = ServerName gid (int srv), dp_endName = e, dp_cmd = p\<rparr>,
                   m\<lparr>mc_procs := (mc_procs m)(p \<mapsto> bin # args)\<rparr>))))"

definition DaemonClnt_kill_process :: "bool \<Rightarrow> DaemonClnt \<Rightarrow> machine \<Rightarrow> go_exit + machine" where
  "DaemonClnt_kill_process killed d m =
     (if \<not> killed then Inl (Fatal ''Kill err'')
      else Inr (m\<lparr>mc_procs := (mc_procs m)(dp_cmd d := None),
                  mc_files := mc_files m - {SockName (sockctl (dp_endName d))} - {SockName (dp_endName d)}\<rparr>))"

definition DaemonClnt_memSize :: "nat option \<Rightarrow> go_exit + nat" where
  "DaemonClnt_memSize reply = (case reply of None \<Rightarrow> Inl (Fatal ''MemSize: no return'') | Some n \<Rightarrow> Inr n)"

text \<open>\<open>replies\<close> are the answers of the daemons of a group, in order.\<close>

definition ServerGrp_MemSize :: "nat option list \<Rightarrow> go_exit + nat" where
  "ServerGrp_MemSize replies = each (\<lambda>r memsize. and_then (DaemonClnt_memSize r) (\<lambda>n. Inr (if n > memsize then n else memsize))) replies 0"

section \<open>tester1/sockrpc/rpcsrv.go\<close>

text \<open>Listening fails on a name that is in use.\<close>

definition RPCSrv_listen :: "string \<Rightarrow> machine \<Rightarrow> go_exit + machine" where
  "RPCSrv_listen sock m =
     (if SockName sock \<in> mc_files m then Inl (Fatal ''tester listen error'') else Inr (m\<lparr>mc_files := insert (SockName sock) (mc_files m)\<rparr>))"

text \<open>The sockets that a daemon opens, from the command line it was started with: first for control, then for the services.\<close>

definition daemon_sockets :: "string list \<Rightarrow> machine \<Rightarrow> go_exit + machine" where
  "daemon_sockets args m =
     and_then (InitDaemon_args args) (\<lambda>r.
     case r of
       None \<Rightarrow> Inr m
     | Some (gid, sid, testerEndName, ens) \<Rightarrow>
         and_then (go_index ens (nat sid)) (\<lambda>e.
         and_then (RPCSrv_listen (sockctl e) m) (RPCSrv_listen e)))"

section \<open>Reports\<close>

definition Config_Begin_title :: "string \<Rightarrow> Config \<Rightarrow> string" where
  "Config_Begin_title description cfg =
     (let rel = (if \<not> Config_IsReliable cfg then ''unreliable'' else ''reliable'')
      in description @ '' ('' @ rel @ '' network)...'')"

text \<open>\<open>frames\<close> are the callers, with file and line; the lines printed are those of test files.\<close>

definition Config_Fatalf :: "(string \<times> int) list \<Rightarrow> go_exit + string list" where
  "Config_Fatalf frames =
     (if frames = [] then Inl (Panic ''testing: zero callers found'')
      else Inr (map (\<lambda>(file', line). ''        '' @ file' @ '':'' @ Itoa line)
        (filter (\<lambda>(file', line). LastIndex_of file' ''test.go'' \<noteq> None) frames)))"


section \<open>Random names are as different as their bytes\<close>

lemma b64_alphabet_facts: "length b64_alphabet = 64" "distinct b64_alphabet" "CHR ''/'' \<notin> set b64_alphabet" "CHR ''='' \<notin> set b64_alphabet"
  by (simp_all add: b64_alphabet_def)

lemma b64_char_inj: "i < 64 \<Longrightarrow> j < 64 \<Longrightarrow> b64_char i = b64_char j \<longleftrightarrow> i = j"
  using b64_alphabet_facts by (simp add: b64_char_def nth_eq_iff_index_eq)

lemma b64_char_in: "i < 64 \<Longrightarrow> b64_char i \<in> set b64_alphabet"
  using b64_alphabet_facts by (simp add: b64_char_def)

lemma byte_bound: "unat (a :: 8 word) < 256"
proof -
  have "unat a < 2 ^ LENGTH(8)" by (rule unsigned_less)
  then show ?thesis by simp
qed

lemma b64_digits:
  fixes a b c :: "8 word"
  shows "unat a div 4 < 64" "unat a mod 4 * 16 + unat b div 16 < 64" "unat b mod 16 * 4 + unat c div 64 < 64" "unat c mod 64 < 64"
proof -
  have "unat b div 16 < 16" "unat c div 64 < 4" using byte_bound [of b] byte_bound [of c] by simp_all
  moreover have "unat a mod 4 < 4" "unat b mod 16 < 16" by simp_all
  ultimately show "unat a mod 4 * 16 + unat b div 16 < 64" "unat b mod 16 * 4 + unat c div 64 < 64" by linarith+
  show "unat a div 4 < 64" "unat c mod 64 < 64" using byte_bound [of a] by simp_all
qed

lemma three_more: "Suc (Suc (Suc n)) mod 3 = n mod 3" "(5 + n) div 3 = Suc (Suc (Suc n) div 3)"
  by presburger+

lemma b64_encode_append:
  "length xs mod 3 = 0 \<Longrightarrow> b64_encode (xs @ ys) = b64_encode xs @ b64_encode ys"
  by (induction xs rule: b64_encode.induct) (auto simp: three_more)

lemma length_b64_encode: "length (b64_encode bs) = 4 * ((length bs + 2) div 3)"
  by (induction bs rule: b64_encode.induct) (auto simp: three_more)

lemma digits_split:
  assumes "y < k" and "y' < k" and "x * k + y = x' * k + (y' :: nat)"
  shows "x = x' \<and> y = y'"
proof -
  have "y = y'" using arg_cong [OF assms(3), of "\<lambda>n. n mod k"] assms(1,2) by simp
  then show ?thesis using assms by simp
qed

lemma b64_digits_eq:
  fixes a b c a' b' c' :: "8 word"
  assumes "unat a div 4 = unat a' div 4" "unat a mod 4 * 16 + unat b div 16 = unat a' mod 4 * 16 + unat b' div 16"
    "unat b mod 16 * 4 + unat c div 64 = unat b' mod 16 * 4 + unat c' div 64" "unat c mod 64 = unat c' mod 64"
  shows "a = a' \<and> b = b' \<and> c = c'"
proof -
  have q: "unat b div 16 < 16" "unat b' div 16 < 16" "unat c div 64 < 4" "unat c' div 64 < 4"
    using byte_bound [of b] byte_bound [of b'] byte_bound [of c] byte_bound [of c'] by simp_all
  note e = digits_split [OF q(1,2) assms(2)] digits_split [OF q(3,4) assms(3)]
  have "unat a = unat a'" "unat b = unat b'" "unat c = unat c'"
    using assms(1,4) e by (metis div_mult_mod_eq)+
  then show ?thesis by (simp add: word_unat_eq_iff)
qed

lemma b64_encode_inj:
  "length xs mod 3 = 0 \<Longrightarrow> length ys = length xs \<Longrightarrow> b64_encode xs = b64_encode ys \<Longrightarrow> xs = ys"
proof (induction xs arbitrary: ys rule: b64_encode.induct)
  case (4 a b c bs)
  then obtain a' b' c' bs' where ys: "ys = a' # b' # c' # bs'" by (auto simp: length_Suc_conv)
  have "a = a' \<and> b = b' \<and> c = c'"
    using "4.prems"(3) by (intro b64_digits_eq) (simp_all add: ys b64_char_inj b64_digits)
  moreover have "bs = bs'" using "4.prems" by (intro "4.IH") (simp_all add: ys three_more)
  ultimately show ?case by (simp add: ys)
qed simp_all

lemma set_b64_encode: "length xs mod 3 = 0 \<Longrightarrow> set (b64_encode xs) \<subseteq> set b64_alphabet"
  by (induction xs rule: b64_encode.induct) (auto simp: b64_char_in b64_digits three_more)

lemma Randstring_eq:
  assumes "length b = 2 * (4 * k)"
  shows "Randstring (4 * k) b = Inr (b64_encode (take (3 * k) b))" and "length (b64_encode (take (3 * k) b)) = 4 * k"
proof -
  have len: "length (take (3 * k) b) = 3 * k" using assms by simp
  then show l: "length (b64_encode (take (3 * k) b)) = 4 * k" by (simp add: length_b64_encode)
  have "b64_encode b = b64_encode (take (3 * k) b) @ b64_encode (drop (3 * k) b)"
    using b64_encode_append [of "take (3 * k) b" "drop (3 * k) b"] len by simp
  then show "Randstring (4 * k) b = Inr (b64_encode (take (3 * k) b))" using l by (simp add: Randstring_def)
qed

lemma Randstring_same: "RandString = Randstring"
  by (simp add: fun_eq_iff Randstring_def RandString_def)


section \<open>Daemons come and go\<close>

text \<open>
  Starting daemons one after the other, each with its number, process number and end names, up to
  the point where they have opened their sockets.
\<close>

fun start_daemons ::
    "string \<Rightarrow> string \<Rightarrow> string list \<Rightarrow> bool \<Rightarrow> string \<Rightarrow> int \<Rightarrow> (nat \<times> nat \<times> string list) list \<Rightarrow> machine \<Rightarrow> go_exit + DaemonClnt list \<times> machine" where
  "start_daemons cwd prog pargs rsm endName gid [] m = Inr ([], m)"
| "start_daemons cwd prog pargs rsm endName gid ((srv, pid, ens) # ds) m =
     and_then (runDaemon (Some cwd) (Some pid) prog pargs rsm endName gid srv ens m) (\<lambda>(r, m1).
     and_then (daemon_sockets (tl (the (mc_procs m1 pid))) m1) (\<lambda>m2.
     and_then (start_daemons cwd prog pargs rsm endName gid ds m2) (\<lambda>(dcs, m3).
     Inr (case r of None \<Rightarrow> dcs | Some d \<Rightarrow> d # dcs, m3))))"

definition own_end :: "nat \<times> nat \<times> string list \<Rightarrow> string" where
  "own_end = (\<lambda>(srv, pid, ens). ens ! srv)"

definition own_pid :: "nat \<times> nat \<times> string list \<Rightarrow> nat" where
  "own_pid = (\<lambda>(srv, pid, ens). pid)"

definition socks :: "string \<Rightarrow> string set" where
  "socks e = {SockName (sockctl e), SockName e}"

lemma socks_disjoint: "length e = length e' \<Longrightarrow> e \<noteq> e' \<Longrightarrow> socks e \<inter> socks e' = {}"
  by (auto simp: socks_def SockName_def sockctl_def dest: arg_cong [where f = length])

lemma ctl_differs: "SockName (sockctl e) \<noteq> SockName e"
  by (auto simp: SockName_def sockctl_def dest: arg_cong [where f = length])

lemma daemon_sockets_run:
  assumes "\<forall>a\<in>set pargs. a \<noteq> [] \<and> hd a = CHR ''-''" and "0 \<le> gid" "gid < 2 ^ 63" and "srv < length ens" "length ens < 2 ^ 63"
    and "socks (ens ! srv) \<inter> mc_files m = {}"
  shows "daemon_sockets (runDaemon_args pargs rsm endName gid (int srv) ens) m = Inr (m\<lparr>mc_files := mc_files m \<union> socks (ens ! srv)\<rparr>)"
proof -
  have "InitDaemon_args (runDaemon_args pargs rsm endName gid (int srv) ens) = Inr (Some (gid, int srv, endName, ens))"
    using assms(1-5) by (intro daemon_args_roundtrip) auto
  then show ?thesis using assms(4,6) ctl_differs [of "ens ! srv"]
    by (auto simp: daemon_sockets_def RPCSrv_listen_def socks_def insert_commute)
qed

lemma start_daemons_spec:
  assumes src: "daemon_path prog cwd = Inr bin" and pargs: "\<forall>a\<in>set pargs. a \<noteq> [] \<and> hd a = CHR ''-''" and gid: "0 \<le> gid" "gid < 2 ^ 63"
    and "\<forall>(srv, pid, ens)\<in>set ds. srv < length ens \<and> length ens < 2 ^ 63"
    and "distinct (map own_pid ds)" and "distinct (map own_end ds)" and "\<forall>d\<in>set ds. length (own_end d) = n \<and> socks (own_end d) \<inter> mc_files m = {}"
  shows "\<exists>dcs m'. start_daemons cwd prog pargs rsm endName gid ds m = Inr (dcs, m') \<and> map dp_endName dcs = map own_end ds \<and> map dp_cmd dcs = map own_pid ds \<and>
    mc_files m' = mc_files m \<union> (\<Union>d\<in>set ds. socks (own_end d)) \<and>
    (\<forall>p. p \<notin> own_pid ` set ds \<longrightarrow> mc_procs m' p = mc_procs m p) \<and> (\<forall>p\<in>own_pid ` set ds. mc_procs m' p \<noteq> None)"
  using assms(5-)
proof (induction ds arbitrary: m)
  case (Cons d ds)
  obtain srv pid ens where d: "d = (srv, pid, ens)" by (cases d)
  have len: "srv < length ens" "length ens < 2 ^ 63" "length (ens ! srv) = n" "socks (ens ! srv) \<inter> mc_files m = {}"
    using Cons.prems(1,4) by (auto simp: d own_end_def)
  have own_d: "own_end d = ens ! srv" by (simp add: d own_end_def)
  let ?args = "runDaemon_args pargs rsm endName gid (int srv) ens"
  let ?m1 = "m\<lparr>mc_procs := (mc_procs m)(pid \<mapsto> bin # ?args)\<rparr>"
  let ?m2 = "?m1\<lparr>mc_files := mc_files m \<union> socks (ens ! srv)\<rparr>"
  have up: "daemon_sockets ?args ?m1 = Inr ?m2" using daemon_sockets_run [OF pargs gid len(1,2), of ?m1] len(4) by simp
  have "\<forall>d\<in>set ds. length (own_end d) = n \<and> socks (own_end d) \<inter> mc_files ?m2 = {}"
  proof
    fix e assume e: "e \<in> set ds"
    then have "own_end e \<noteq> ens ! srv" "length (own_end e) = n" "socks (own_end e) \<inter> mc_files m = {}"
      using Cons.prems(3,4) own_d by (auto simp del: split_paired_All) (metis imageI)
    then show "length (own_end e) = n \<and> socks (own_end e) \<inter> mc_files ?m2 = {}" using socks_disjoint [of "own_end e" "ens ! srv"] len(3) by auto
  qed
  then obtain dcs m' where IH: "start_daemons cwd prog pargs rsm endName gid ds ?m2 = Inr (dcs, m')" "map dp_endName dcs = map own_end ds" "map dp_cmd dcs = map own_pid ds"
    "mc_files m' = mc_files ?m2 \<union> (\<Union>d\<in>set ds. socks (own_end d))"
    "\<forall>p. p \<notin> own_pid ` set ds \<longrightarrow> mc_procs m' p = mc_procs ?m2 p" "\<forall>p\<in>own_pid ` set ds. mc_procs m' p \<noteq> None"
    using Cons.IH [of ?m2] Cons.prems(1-3) by auto
  have "pid \<notin> own_pid ` set ds" using Cons.prems(2) by (auto simp: d own_pid_def)
  then have "mc_procs m' pid \<noteq> None" using IH(5) by simp
  then show ?case using IH src up len(1)
    by (auto simp: d runDaemon_def own_end_def own_pid_def)
qed simp


lemma kill_all:
  "each (DaemonClnt_kill_process True) dcs m =
     Inr (m\<lparr>mc_procs := (\<lambda>p. if p \<in> dp_cmd ` set dcs then None else mc_procs m p), mc_files := mc_files m - (\<Union>d\<in>set dcs. socks (dp_endName d))\<rparr>)"
proof (induction dcs arbitrary: m)
  case (Cons d dcs)
  have "DaemonClnt_kill_process True d m = Inr (m\<lparr>mc_procs := (mc_procs m)(dp_cmd d := None), mc_files := mc_files m - socks (dp_endName d)\<rparr>)"
    by (simp add: DaemonClnt_kill_process_def socks_def Diff_insert [symmetric] insert_commute)
  then show ?case using Cons by (cases m) (auto simp: fun_eq_iff)
qed simp

text \<open>
  C12: The processes of a test. Daemons whose end names come from \<open>Randstring(20)\<close>, with random bytes
  that differ in their first fifteen, can all be started: the working directory is below a
  directory \<open>src\<close>, so the path of the program exists; each daemon reads from its command line the end name
  that the tester knows it by, and no two of them, and no control and service socket, share a
  socket file. Each name has 20 characters and none of them is a slash. Killing all daemons leaves
  the processes and files that were there before.
\<close>

theorem daemon_processes:
  assumes cwd: "LastIndex_of cwd ''src'' \<noteq> None" and pargs: "\<forall>a\<in>set pargs. a \<noteq> [] \<and> hd a = CHR ''-''" and gid: "0 \<le> gid" "gid < 2 ^ 63"
    and ds: "\<forall>(srv, pid, ens)\<in>set ds. srv < length ens \<and> length ens < 2 ^ 63"
    and pids: "distinct (map own_pid ds)" "\<forall>d\<in>set ds. mc_procs m (own_pid d) = None"
    and names: "map (Randstring 20) bs = map (\<lambda>d. Inr (own_end d)) ds" and random: "\<forall>b\<in>set bs. length b = 40" "distinct (map (take 15) bs)"
    and files: "\<forall>f\<in>mc_files m. take 12 f \<noteq> ''/tmp/6.5840-''"
  shows "\<exists>dcs m'. start_daemons cwd prog pargs rsm endName gid ds m = Inr (dcs, m') \<and> map dp_endName dcs = map own_end ds \<and>
    card (mc_files m' - mc_files m) = 2 * length ds \<and> (\<forall>d\<in>set ds. mc_procs m' (own_pid d) \<noteq> None \<and> length (own_end d) = 20 \<and> CHR ''/'' \<notin> set (own_end d)) \<and>
    each (DaemonClnt_kill_process True) dcs m' = Inr m"
proof -
  have enc: "Randstring 20 b = Inr (b64_encode (take 15 b))" "length (b64_encode (take 15 b)) = 20" "set (b64_encode (take 15 b)) \<subseteq> set b64_alphabet" if "b \<in> set bs" for b
    using Randstring_eq [of b 5] set_b64_encode [of "take 15 b"] random(1) that by simp_all
  have len: "length bs = length ds" using names by (rule map_eq_imp_length_eq)
  have own: "map own_end ds = map (\<lambda>b. b64_encode (take 15 b)) bs"
  proof (rule nth_equalityI)
    fix k assume "k < length (map own_end ds)"
    then show "map own_end ds ! k = map (\<lambda>b. b64_encode (take 15 b)) bs ! k" using arg_cong [OF names, of "\<lambda>xs. xs ! k"] enc(1) len by simp
  qed (simp add: len)
  have "inj_on b64_encode (set (map (take 15) bs))" using random(1) by (auto simp: inj_on_def intro!: b64_encode_inj)
  then have dist: "distinct (map own_end ds)" using random(2) unfolding own by (simp add: distinct_map comp_def flip: comp_inj_on_iff) (simp add: distinct_map inj_on_def)
  have ends: "own_end d \<in> (\<lambda>b. b64_encode (take 15 b)) ` set bs" if "d \<in> set ds" for d
    using arg_cong [OF own, of set] that by auto
  then have chars: "length (own_end d) = 20 \<and> CHR ''/'' \<notin> set (own_end d)" if "d \<in> set ds" for d
    using enc(2,3) b64_alphabet_facts(3) that by fastforce
  have fresh: "socks (own_end d) \<inter> mc_files m = {}" for d using files by (auto simp: socks_def SockName_def)
  obtain bin where bin: "daemon_path prog cwd = Inr bin" using cwd by (auto simp: daemon_path_def)
  have "\<forall>d\<in>set ds. length (own_end d) = 20 \<and> socks (own_end d) \<inter> mc_files m = {}" using chars fresh by blast
  from start_daemons_spec [OF bin pargs gid ds pids(1) dist this]
  obtain dcs m' where run: "start_daemons cwd prog pargs rsm endName gid ds m = Inr (dcs, m')" "map dp_endName dcs = map own_end ds" "map dp_cmd dcs = map own_pid ds"
    "mc_files m' = mc_files m \<union> (\<Union>d\<in>set ds. socks (own_end d))" "\<forall>p. p \<notin> own_pid ` set ds \<longrightarrow> mc_procs m' p = mc_procs m p" "\<forall>p\<in>own_pid ` set ds. mc_procs m' p \<noteq> None"
    by blast
  let ?new = "\<Union>d\<in>set ds. socks (own_end d)"
  have "card ?new = (\<Sum>e\<in>set (map own_end ds). card (socks e))"
  proof -
    have "?new = (\<Union>e\<in>set (map own_end ds). socks e)" by simp
    also have "card \<dots> = (\<Sum>e\<in>set (map own_end ds). card (socks e))"
      by (rule card_UN_disjoint) (use chars socks_disjoint in \<open>auto simp: socks_def\<close>)
    finally show ?thesis .
  qed
  also have "\<dots> = 2 * card (set (map own_end ds))" using ctl_differs by (simp add: socks_def)
  finally have "card ?new = 2 * length ds" using distinct_card [OF dist] by simp
  moreover have new: "mc_files m' - mc_files m = ?new" using run(4) fresh by blast
  moreover have sets: "dp_cmd ` set dcs = own_pid ` set ds" "(\<Union>d\<in>set dcs. socks (dp_endName d)) = ?new"
    using arg_cong [OF run(3), of set] arg_cong [OF run(2), of "\<lambda>es. \<Union>e\<in>set es. socks e"] by simp_all
  have "each (DaemonClnt_kill_process True) dcs m' = Inr m"
  proof -
    have "(\<lambda>p. if p \<in> own_pid ` set ds then None else mc_procs m' p) = mc_procs m" using run(5) pids(2) by (auto simp: fun_eq_iff)
    moreover have "mc_files m' - ?new = mc_files m" using run(4) fresh by blast
    ultimately show ?thesis by (simp add: kill_all sets)
  qed
  ultimately show ?thesis using run(1,2,6) chars by auto
qed


definition quiet_machine :: machine where
  "quiet_machine = \<lparr>mc_procs = Map.empty, mc_files = {''/tmp/notes''}\<rparr>"

theorem daemon_processes_witness:
  "\<exists>dcs m'. start_daemons ''/go/src/kvsrv1'' ''kvsrv1d'' [] False ''tester'' 0
       [(0, 7, [replicate 20 CHR ''A'', ''x'']), (1, 8, [''y'', replicate 16 CHR ''A'' @ ''AQID''])] quiet_machine = Inr (dcs, m') \<and>
     card (mc_files m' - mc_files quiet_machine) = 4 \<and> each (DaemonClnt_kill_process True) dcs m' = Inr quiet_machine"
proof -
  let ?ds = "[(0, 7, [replicate 20 CHR ''A'', ''x'']), (1, 8, [''y'', replicate 16 CHR ''A'' @ ''AQID''])] :: (nat \<times> nat \<times> string list) list"
  let ?bs = "[replicate 40 0, replicate 12 0 @ [1 :: 8 word, 2, 3] @ replicate 25 0]"
  have path: "LastIndex_of ''/go/src/kvsrv1'' ''src'' \<noteq> None" by code_simp
  have names: "map (Randstring 20) ?bs = map (\<lambda>d. Inr (own_end d)) ?ds" by code_simp
  have random: "\<forall>b\<in>set ?bs. length b = 40" "distinct (map (take 15) ?bs)" by code_simp+
  have files: "\<forall>f\<in>mc_files quiet_machine. take 12 f \<noteq> ''/tmp/6.5840-''" by (simp add: quiet_machine_def)
  have pids: "distinct (map own_pid ?ds)" "\<forall>d\<in>set ?ds. mc_procs quiet_machine (own_pid d) = None" by (simp_all add: own_pid_def quiet_machine_def)
  have ds: "\<forall>(srv, pid, ens)\<in>set ?ds. srv < length ens \<and> length ens < 2 ^ 63" by simp
  show ?thesis
    using daemon_processes [OF path _ _ _ ds pids names random files, of "[]" 0 "''kvsrv1d''" False "''tester''"] by auto
qed

end
