(* ===== verification/MR_Run.thy ===== *)
theory MR_Run
  imports MR_Main MR_Test Tester_Process
begin

text \<open>
  How a MapReduce test runs its processes (\<open>startWorker\<close>, \<open>runMRchan\<close> and \<open>runMR\<close> of \<open>mr/util.go\<close>): the
  coordinator and the workers as processes, the goroutines that wait for them, the channel, and
  the goroutine of \<open>TestCrashWorker\<close> that starts every worker again that has exited. The job that
  the processes work on is that of \<open>MR_System\<close>.

  A worker runs one task at a time, so no more output files are open than workers run, and a worker
  that exits has none open: the applications that crash do so inside \<open>Map\<close> or \<open>Reduce\<close>, which return
  before \<open>reduceTask\<close> creates its file. Whether a process can be started is up to the environment.
\<close>

section \<open>mr/util.go\<close>

definition coord_cmd :: "string \<Rightarrow> string list \<Rightarrow> string list" where
  "coord_cmd sock files = ''../main/mrcoordinator'' # sock # files"

definition worker_cmd :: "string \<Rightarrow> string \<Rightarrow> string list" where
  "worker_cmd app sock = [''../../main/mrworker'', app, sock]"

text \<open>Where \<open>runMRchan\<close> is; \<open>RunFatal\<close> is after \<open>log.Fatalf\<close>, which ends the test.\<close>

datatype run_pc = StartCoord | StartWorkers nat | WaitCoord | SendDone | RemoveSock | RunDone | RunFatal

datatype coord_proc = NotStarted | CoordStarting | CoordServing | CoordExited bool

text \<open>The goroutine of \<open>TestCrashWorker\<close>.\<close>

datatype restarter = Receive | Restart nat | RestarterDone

text \<open>\<open>ru_sends\<close> are the goroutines of \<open>startWorker\<close> that are sending the number of their worker.\<close>

record mr_run =
  ru_sys :: mr_sys
  ru_pc :: run_pc
  ru_coord :: coord_proc
  ru_procs :: "nat multiset"
  ru_sends :: "nat multiset"
  ru_reader :: restarter
  ru_socks :: "string set"

definition startWorker :: "bool \<Rightarrow> nat \<Rightarrow> mr_run \<Rightarrow> mr_run" where
  "startWorker started i s = (if \<not> started then s\<lparr>ru_pc := RunFatal\<rparr> else s\<lparr>ru_procs := add_mset i (ru_procs s)\<rparr>)"

text \<open>The channel is \<open>nil\<close> if \<open>c\<close> is false.\<close>

inductive runMRchan :: "mr_job \<Rightarrow> kvfs \<Rightarrow> nat \<Rightarrow> bool \<Rightarrow> string \<Rightarrow> mr_run \<Rightarrow> mr_run \<Rightarrow> bool" for J kv0 n c sock where
  coord_start:
    "ru_pc s = StartCoord \<Longrightarrow>
     runMRchan J kv0 n c sock s (if started then s\<lparr>ru_pc := StartWorkers 0, ru_coord := CoordStarting\<rparr> else s\<lparr>ru_pc := RunFatal\<rparr>)"
| start_worker:
    "ru_pc s = StartWorkers i \<Longrightarrow> i < n \<Longrightarrow> runMRchan J kv0 n c sock s (startWorker started i (s\<lparr>ru_pc := StartWorkers (Suc i)\<rparr>))"
| workers_started:
    "ru_pc s = StartWorkers i \<Longrightarrow> \<not> i < n \<Longrightarrow> runMRchan J kv0 n c sock s (s\<lparr>ru_pc := WaitCoord\<rparr>)"
| coord_fails:
    "ru_coord s = CoordStarting \<Longrightarrow> mrcoordinator_main (coord_cmd sock (j_files J)) = Inl e \<Longrightarrow>
     runMRchan J kv0 n c sock s (s\<lparr>ru_coord := CoordExited False\<rparr>)"
| coord_serves:
    "ru_coord s = CoordStarting \<Longrightarrow> mrcoordinator_main (coord_cmd sock (j_files J)) = Inr m \<Longrightarrow>
     runMRchan J kv0 n c sock s
       (s\<lparr>ru_coord := CoordServing, ru_socks := insert sock (ru_socks s), ru_sys := (mr_init J kv0)\<lparr>s_coord := m\<rparr>\<rparr>)"
| job:
    "mr_step J (ru_sys s) x \<Longrightarrow> size (s_writers x) \<le> size (ru_procs s) \<Longrightarrow> ru_procs s \<noteq> {#} \<Longrightarrow>
     ru_coord s = CoordServing \<or> ru_coord s = CoordExited True \<and> s_coord x = s_coord (ru_sys s) \<Longrightarrow>
     runMRchan J kv0 n c sock s (s\<lparr>ru_sys := x\<rparr>)"
| coord_exit:
    "ru_coord s = CoordServing \<Longrightarrow> wait_done (j_Lm J) (j_Lr J) [s_coord (ru_sys s)] = Some m \<Longrightarrow>
     runMRchan J kv0 n c sock s (s\<lparr>ru_coord := CoordExited True\<rparr>)"
| worker_exit:
    "ru_pc s \<noteq> RunFatal \<Longrightarrow> i \<in># ru_procs s \<Longrightarrow> size (s_writers (ru_sys s)) < size (ru_procs s) \<Longrightarrow>
     runMRchan J kv0 n c sock s
       (s\<lparr>ru_procs := ru_procs s - {#i#}, ru_sends := (if c then add_mset i (ru_sends s) else ru_sends s)\<rparr>)"
| coord_waited:
    "ru_pc s = WaitCoord \<Longrightarrow> ru_coord s = CoordExited ok \<Longrightarrow>
     runMRchan J kv0 n c sock s (s\<lparr>ru_pc := (if \<not> ok then RunFatal else if c then SendDone else RemoveSock)\<rparr>)"
| receive_worker:
    "ru_pc s \<noteq> RunFatal \<Longrightarrow> ru_reader s = Receive \<Longrightarrow> w \<in># ru_sends s \<Longrightarrow>
     runMRchan J kv0 n c sock s
       (s\<lparr>ru_sends := ru_sends s - {#w#}, ru_reader := (if w = n then RestarterDone else Restart w)\<rparr>)"
| restart:
    "ru_pc s \<noteq> RunFatal \<Longrightarrow> ru_reader s = Restart w \<Longrightarrow>
     runMRchan J kv0 n c sock s (startWorker started w (s\<lparr>ru_reader := Receive\<rparr>))"
| receive_done:
    "ru_pc s = SendDone \<Longrightarrow> ru_reader s = Receive \<Longrightarrow>
     runMRchan J kv0 n c sock s (s\<lparr>ru_pc := RemoveSock, ru_reader := RestarterDone\<rparr>)"
| remove_sock:
    "ru_pc s = RemoveSock \<Longrightarrow> runMRchan J kv0 n c sock s (s\<lparr>ru_pc := RunDone, ru_socks := ru_socks s - {sock}\<rparr>)"


text \<open>\<open>b\<close> are the random bytes of the name of the socket.\<close>

definition runMR :: "mr_job \<Rightarrow> kvfs \<Rightarrow> nat \<Rightarrow> bytes \<Rightarrow> mr_run \<Rightarrow> mr_run \<Rightarrow> bool" where
  "runMR J kv0 n b = (case RandString 20 b of Inl _ \<Rightarrow> (\<lambda>_ _. False) | Inr r \<Rightarrow> runMRchan J kv0 n False (coordinatorSock r))"

text \<open>
  The working directory of a test, \<open>None\<close> if it does not exist; \<open>cleanup\<close> removes the files that match
  \<open>mr-*\<close> and then the directory, if it is empty.
\<close>

definition mkOut :: "bytes \<Rightarrow> (string \<rightharpoonup> string list) \<Rightarrow> go_exit + string \<times> (string \<rightharpoonup> string list)" where
  "mkOut b dirs =
     and_then (RandString 8 b) (\<lambda>r.
     let tmp = ''mr-tmp-'' @ r in Inr (tmp, case dirs tmp of None \<Rightarrow> dirs(tmp \<mapsto> []) | Some _ \<Rightarrow> dirs))"

definition mr_pattern :: "string \<Rightarrow> bool" where
  "mr_pattern f \<longleftrightarrow> take 3 f = ''mr-''"

definition cleanup :: "string \<Rightarrow> (string \<rightharpoonup> string list) \<Rightarrow> go_exit + (string \<rightharpoonup> string list)" where
  "cleanup tmp dirs =
     (case dirs tmp of
        None \<Rightarrow> Inl (Fatal ''find failed'')
      | Some dir \<Rightarrow>
          let rest = filter (\<lambda>f. f \<notin> set (findFiles dir mr_pattern)) dir
          in Inr (if rest = [] then dirs(tmp := None) else dirs(tmp \<mapsto> rest)))"

text \<open>\<open>pre\<close> is not used.\<close>

definition findFilesPre :: "string list \<Rightarrow> (string \<Rightarrow> bool) \<Rightarrow> string \<Rightarrow> string list" where
  "findFilesPre dir s pre = map (\<lambda>f. filepath_Join [''..'', f]) (findFiles dir s)"

lemma worker_cmd_accepted:
  assumes "loadPlugin plugins app = Inr (mf, rf)"
  shows "mrworker_main plugins (worker_cmd app sock) = Inr (sock, \<lparr>jw_workerID = 0, mapf = mf, reducef = rf\<rparr>)"
  using assms by (simp add: mrworker_main_def worker_cmd_def)

text \<open>A test that leaves only files that match \<open>mr-*\<close> leaves no directory behind.\<close>

lemma mkOut_cleanup:
  assumes "mkOut b dirs = Inr (tmp, dirs1)" and "dirs tmp = None" and "\<forall>f\<in>set fs. mr_pattern f"
  shows "cleanup tmp (dirs1(tmp \<mapsto> fs)) = Inr dirs"
proof -
  have "dirs1 = dirs(tmp \<mapsto> [])" using assms(1,2) by (cases "RandString 8 b") (auto simp: mkOut_def Let_def)
  moreover have "filter (\<lambda>f. f \<notin> set (findFiles fs mr_pattern)) fs = []" using assms(3) by (simp add: findFiles_def filter_empty_conv)
  ultimately show ?thesis using assms(2) by (auto simp: cleanup_def Let_def fun_eq_iff)
qed

section \<open>What every state satisfies\<close>


text \<open>How many workers \<open>runMRchan\<close> has started, and the worker that is being restarted.\<close>

fun started :: "nat \<Rightarrow> run_pc \<Rightarrow> nat" where
  "started n StartCoord = 0"
| "started n (StartWorkers i) = i"
| "started n _ = n"





lemma startWorker_fields [simp]:
  "ru_sys (startWorker ok i s) = ru_sys s" "ru_coord (startWorker ok i s) = ru_coord s" "ru_sends (startWorker ok i s) = ru_sends s"
  "ru_reader (startWorker ok i s) = ru_reader s" "ru_socks (startWorker ok i s) = ru_socks s"
  "ru_pc (startWorker ok i s) = (if ok then ru_pc s else RunFatal)"
  "ru_procs (startWorker ok i s) = (if ok then add_mset i (ru_procs s) else ru_procs s)"
  by (simp_all add: startWorker_def)







section \<open>The test can always finish\<close>












section \<open>The crash test\<close>





end
