(* ===== verification/KV_Server.thy ===== *)
theory KV_Server
  imports Go_Std
begin

text \<open>
  The versioned key/value server: the messages of \<open>kvsrv1/rpc/rpc.go\<close>, the server of
  \<open>kvsrv1/server.go\<close> and the model \<open>models1/kv.go\<close> that the linearizability checker of the
  tests runs against it.

  Versions are \<open>uint64\<close> and wrap. Both maps of the server are Go maps; the mutex makes each
  handler one step. The locale \<open>versioned_kv\<close> states what clerks and locks rely on; it is
  interpreted on the server below.
\<close>

section \<open>kvsrv1/rpc/rpc.go\<close>

text \<open>\<open>Err\<close> is a string type in Go; \<open>ErrEmpty\<close> is its zero value, which the stubs of later labs return.\<close>

datatype Err = OK | ErrNoKey | ErrVersion | ErrMaybe | ErrWrongLeader | ErrWrongGroup | ErrEmpty

type_synonym Tversion = "64 word"

record PutArgs =
  pa_Key :: string
  pa_Value :: string
  pa_Version :: Tversion

record GetReply =
  gr_Value :: string
  gr_Version :: Tversion
  gr_Err :: Err

section \<open>kvsrv1/server.go\<close>

record KVServer =
  kv_data :: "string \<rightharpoonup> string"
  kv_dataVersion :: "string \<rightharpoonup> Tversion"

definition MakeKVServer :: KVServer where
  "MakeKVServer = \<lparr>kv_data = Map.empty, kv_dataVersion = Map.empty\<rparr>"

definition KVServer_Get :: "string \<Rightarrow> KVServer \<Rightarrow> GetReply" where
  "KVServer_Get key kv =
     (case kv_data kv key of
        Some value \<Rightarrow> \<lparr>gr_Value = value, gr_Version = zget (kv_dataVersion kv) 0 key, gr_Err = OK\<rparr>
      | None \<Rightarrow> \<lparr>gr_Value = [], gr_Version = 0, gr_Err = ErrNoKey\<rparr>)"

definition KVServer_install :: "PutArgs \<Rightarrow> KVServer \<Rightarrow> KVServer" where
  "KVServer_install args kv =
     kv\<lparr>kv_data := (kv_data kv)(pa_Key args \<mapsto> pa_Value args),
        kv_dataVersion := (kv_dataVersion kv)(pa_Key args \<mapsto> zget (kv_dataVersion kv) 0 (pa_Key args) + 1)\<rparr>"

definition KVServer_Put :: "PutArgs \<Rightarrow> KVServer \<Rightarrow> Err \<times> KVServer" where
  "KVServer_Put args kv =
     (case kv_dataVersion kv (pa_Key args) of
        Some version \<Rightarrow>
          if version \<noteq> pa_Version args then (ErrVersion, kv) else (OK, KVServer_install args kv)
      | None \<Rightarrow>
          if pa_Version args \<noteq> 0 then (ErrNoKey, kv) else (OK, KVServer_install args kv))"

definition kv_inv :: "KVServer \<Rightarrow> bool" where
  "kv_inv kv \<longleftrightarrow> dom (kv_data kv) = dom (kv_dataVersion kv)"

definition kv_lookup :: "KVServer \<Rightarrow> string \<rightharpoonup> string \<times> Tversion" where
  "kv_lookup kv k = (case kv_data kv k of None \<Rightarrow> None | Some v \<Rightarrow> Some (v, zget (kv_dataVersion kv) 0 k))"

section \<open>models1/kv.go\<close>

record KvInput =
  ki_Op :: nat
  ki_Key :: string
  ki_Value :: string
  ki_Version :: "64 word"

record KvOutput =
  ko_Value :: string
  ko_Version :: "64 word"
  ko_Err :: string

record KvState =
  ks_Value :: string
  ks_Version :: "64 word"

definition KvModel_Init :: KvState where
  "KvModel_Init = \<lparr>ks_Value = [], ks_Version = 0\<rparr>"

text \<open>\<open>Step\<close> returns \<open>None\<close> for the state \<open>"<invalid>"\<close>, which is not a \<open>KvState\<close>.\<close>

definition KvModel_Step :: "KvState \<Rightarrow> KvInput \<Rightarrow> KvOutput \<Rightarrow> bool \<times> KvState option" where
  "KvModel_Step st inp out =
     (if ki_Op inp = 0 then (ko_Value out = ks_Value st, Some st)
      else if ki_Op inp = 1 then
        if ks_Version st = ki_Version inp
        then (ko_Err out = ''OK'' \<or> ko_Err out = ''ErrMaybe'',
              Some \<lparr>ks_Value = ki_Value inp, ks_Version = ks_Version st + 1\<rparr>)
        else (ko_Err out = ''ErrVersion'' \<or> ko_Err out = ''ErrMaybe'', Some st)
      else (False, None))"

text \<open>
  \<open>Partition\<close> builds a map from keys to the operations on them, in history order, and lists
  the groups in sorted key order. \<open>key\<close> reads the key of an operation's input.
\<close>

definition partition_map :: "('o \<Rightarrow> string) \<Rightarrow> 'o list \<Rightarrow> (string \<rightharpoonup> 'o list)" where
  "partition_map key history =
     foldl (\<lambda>m v. m(key v \<mapsto> zget m [] (key v) @ [v])) Map.empty history"

definition KvModel_Partition :: "('o \<Rightarrow> string) \<Rightarrow> string list \<Rightarrow> 'o list \<Rightarrow> 'o list list" where
  "KvModel_Partition key ks history =
     (let m = partition_map key history in map (\<lambda>k. the (m k)) (sort_Strings ks))"

definition KvModel_DescribeOperation :: "KvInput \<Rightarrow> KvOutput \<Rightarrow> string" where
  "KvModel_DescribeOperation inp out =
     (if ki_Op inp = 0 then
        ''get('' @ [CHR 0x27] @ ki_Key inp @ [CHR 0x27] @ '') -> ('' @ [CHR 0x27] @ ko_Value out @ [CHR 0x27] @ '', '' @
        [CHR 0x27] @ Itoa (uint (ko_Version out)) @ [CHR 0x27] @ '', '' @ [CHR 0x27] @ ko_Err out @ [CHR 0x27] @ '')''
      else if ki_Op inp = 1 then
        ''put('' @ [CHR 0x27] @ ki_Key inp @ [CHR 0x27] @ '', '' @ [CHR 0x27] @ ki_Value inp @ [CHR 0x27] @ '', '' @
        [CHR 0x27] @ Itoa (uint (ki_Version inp)) @ [CHR 0x27] @ '') -> ('' @ [CHR 0x27] @ ko_Err out @ [CHR 0x27] @ '')''
      else ''<invalid>'')"

section \<open>What clients rely on\<close>

locale versioned_kv =
  fixes inv :: "'s \<Rightarrow> bool"
    and lookup :: "'s \<Rightarrow> string \<rightharpoonup> string \<times> Tversion"
    and put :: "PutArgs \<Rightarrow> 's \<Rightarrow> Err \<times> 's"
  assumes put_inv: "inv s \<Longrightarrow> inv (snd (put a s))"
    and put_result: "inv s \<Longrightarrow> fst (put a s) =
      (case lookup s (pa_Key a) of
         None \<Rightarrow> if pa_Version a = 0 then OK else ErrNoKey
       | Some (v, ver) \<Rightarrow> if ver = pa_Version a then OK else ErrVersion)"
    and put_lookup: "inv s \<Longrightarrow> lookup (snd (put a s)) =
      (if fst (put a s) = OK then (lookup s)(pa_Key a \<mapsto> (pa_Value a, pa_Version a + 1)) else lookup s)"
begin

definition version :: "'s \<Rightarrow> string \<Rightarrow> Tversion" where
  "version s k = (case lookup s k of None \<Rightarrow> 0 | Some (v, ver) \<Rightarrow> ver)"

definition puts :: "PutArgs list \<Rightarrow> 's \<Rightarrow> 's" where
  "puts as s = foldl (\<lambda>s a. snd (put a s)) s as"

lemma puts_simps [simp]: "puts [] s = s" "puts (a # as) s = puts as (snd (put a s))"
  by (simp_all add: puts_def)

lemma puts_append: "puts (as @ bs) s = puts bs (puts as s)"
  by (simp add: puts_def)

lemma puts_inv: "inv s \<Longrightarrow> inv (puts as s)"
  by (induction as arbitrary: s) (simp_all add: put_inv)

lemma put_OK_version: "inv s \<Longrightarrow> fst (put a s) = OK \<Longrightarrow> version s (pa_Key a) = pa_Version a"
  by (auto simp: put_result version_def split: option.splits if_splits)

lemma version_put:
  "inv s \<Longrightarrow> version (snd (put a s)) k = version s k + (if fst (put a s) = OK \<and> pa_Key a = k then 1 else 0)"
  using put_OK_version [of s a] by (auto simp: version_def put_lookup split: option.splits)

lemma lookup_puts_grows: "inv s \<Longrightarrow> lookup s k \<noteq> None \<Longrightarrow> lookup (puts as s) k \<noteq> None"
  by (induction as arbitrary: s) (simp_all add: put_lookup put_inv)

text \<open>
  After a sequence of puts, the version of a key has grown by the number of those that
  succeeded on it, modulo \<open>2 ^ 64\<close>.
\<close>

fun successes :: "string \<Rightarrow> PutArgs list \<Rightarrow> 's \<Rightarrow> nat" where
  "successes k [] s = 0"
| "successes k (a # as) s =
     (if fst (put a s) = OK \<and> pa_Key a = k then 1 else 0) + successes k as (snd (put a s))"

lemma successes_le: "successes k as s \<le> length as"
  by (induction as arbitrary: s) (auto simp: le_SucI)

lemma version_puts: "inv s \<Longrightarrow> version (puts as s) k = version s k + of_nat (successes k as s)"
  by (induction as arbitrary: s) (auto simp: version_put put_inv algebra_simps)

text \<open>
  A version is used up by a successful put: no put with the same version of the key succeeds
  during the next \<open>2 ^ 64 - 2\<close> operations, whoever issues them.
\<close>

lemma version_used_up:
  assumes "inv s" and "fst (put a s) = OK" and "length as < 2 ^ 64 - 1"
  shows "version (puts as (snd (put a s))) (pa_Key a) \<noteq> pa_Version a"
proof
  let ?n = "successes (pa_Key a) as (snd (put a s))"
  assume "version (puts as (snd (put a s))) (pa_Key a) = pa_Version a"
  then have "(1 :: 64 word) + of_nat ?n = 0"
    using assms put_OK_version [OF assms(1,2)]
    by (simp add: version_puts put_inv version_put add.assoc)
  then have "(of_nat (Suc ?n) :: 64 word) = 0" by simp
  then have "2 ^ LENGTH(64) dvd Suc ?n" by (simp only: word_of_nat_eq_0_iff)
  moreover have "Suc ?n < 2 ^ 64" using successes_le [of "pa_Key a" as "snd (put a s)"] assms(3) by linarith
  ultimately show False using dvd_imp_le [of "2 ^ LENGTH(64)" "Suc ?n"] by simp
qed

lemma put_again_fails:
  assumes "inv s" and "fst (put a s) = OK" and "length as < 2 ^ 64 - 1"
    and "pa_Key b = pa_Key a" and "pa_Version b = pa_Version a"
  shows "fst (put b (puts as (snd (put a s)))) = ErrVersion"
proof -
  let ?s = "puts as (snd (put a s))"
  have "lookup (snd (put a s)) (pa_Key a) \<noteq> None" using assms(1,2) by (simp add: put_lookup)
  then obtain v ver where l: "lookup ?s (pa_Key a) = Some (v, ver)"
    using lookup_puts_grows [of "snd (put a s)"] put_inv [OF assms(1)] by fastforce
  have "ver \<noteq> pa_Version a" using version_used_up [OF assms(1-3)] l by (simp add: version_def)
  then show ?thesis using l assms by (simp add: put_result puts_inv put_inv)
qed

end

lemma kv_inv_Make: "kv_inv MakeKVServer"
  by (simp add: kv_inv_def MakeKVServer_def)

lemma kv_inv_Put: "kv_inv kv \<Longrightarrow> kv_inv (snd (KVServer_Put a kv))"
  by (auto simp: kv_inv_def KVServer_Put_def KVServer_install_def split: option.splits)

lemma kv_lookup_None: "kv_inv kv \<Longrightarrow> kv_lookup kv k = None \<longleftrightarrow> kv_dataVersion kv k = None"
  by (auto simp: kv_inv_def kv_lookup_def split: option.splits)

lemma kv_lookup_Some: "kv_inv kv \<Longrightarrow> kv_lookup kv k = Some (v, ver) \<longleftrightarrow> kv_data kv k = Some v \<and> kv_dataVersion kv k = Some ver"
  by (auto simp: kv_inv_def kv_lookup_def zget_def split: option.splits)

interpretation kvs: versioned_kv kv_inv kv_lookup KVServer_Put
proof (unfold_locales, goal_cases)
  case (1 kv a)
  then show ?case by (rule kv_inv_Put)
next
  case (2 kv a)
  then show ?case
    by (cases "kv_lookup kv (pa_Key a)")
      (auto simp: KVServer_Put_def kv_lookup_None kv_lookup_Some split: option.splits)
next
  case (3 kv a)
  then show ?case
    by (auto simp: KVServer_Put_def KVServer_install_def kv_lookup_def fun_eq_iff zget_def kv_inv_def split: option.splits)
qed

section \<open>The histories of the checker\<close>

lemma partition_map_eq:
  "partition_map key h k = (let g = filter (\<lambda>v. key v = k) h in if g = [] then None else Some g)"
proof (induction h rule: rev_induct)
  case Nil
  then show ?case by (simp add: partition_map_def)
next
  case (snoc x h)
  then have IH: "foldl (\<lambda>m v. m(key v \<mapsto> zget m [] (key v) @ [v])) Map.empty h k =
      (let g = filter (\<lambda>v. key v = k) h in if g = [] then None else Some g)"
    by (simp add: partition_map_def)
  then show ?case
    by (cases "key x = k") (auto simp: partition_map_def Let_def zget_def split: if_splits)
qed

lemma dom_partition_map: "dom (partition_map key h) = key ` set h"
  by (auto simp: partition_map_eq Let_def filter_empty_conv dom_def split: if_splits)

text \<open>The state of the checker's model that a server state stands for, for one key.\<close>

definition abs_key :: "KVServer \<Rightarrow> string \<Rightarrow> KvState" where
  "abs_key kv k = \<lparr>ks_Value = zget (kv_data kv) [] k, ks_Version = zget (kv_dataVersion kv) 0 k\<rparr>"

fun Err_string :: "Err \<Rightarrow> string" where
  "Err_string OK = ''OK''"
| "Err_string ErrNoKey = ''ErrNoKey''"
| "Err_string ErrVersion = ''ErrVersion''"
| "Err_string ErrMaybe = ''ErrMaybe''"
| "Err_string ErrWrongLeader = ''ErrWrongLeader''"
| "Err_string ErrWrongGroup = ''ErrWrongGroup''"
| "Err_string ErrEmpty = ''''"

definition get_op :: "string \<Rightarrow> KvInput" where
  "get_op k = \<lparr>ki_Op = 0, ki_Key = k, ki_Value = [], ki_Version = 0\<rparr>"

definition get_out :: "GetReply \<Rightarrow> KvOutput" where
  "get_out r = \<lparr>ko_Value = gr_Value r, ko_Version = gr_Version r, ko_Err = Err_string (gr_Err r)\<rparr>"

definition put_op :: "PutArgs \<Rightarrow> KvInput" where
  "put_op a = \<lparr>ki_Op = 1, ki_Key = pa_Key a, ki_Value = pa_Value a, ki_Version = pa_Version a\<rparr>"

definition put_out :: "Err \<Rightarrow> KvOutput" where
  "put_out e = \<lparr>ko_Value = [], ko_Version = 0, ko_Err = Err_string e\<rparr>"

section \<open>Properties of the server\<close>

text \<open>
  \<open>Put\<close> is a conditional write with one outcome per situation: it succeeds exactly when the
  version matches (0 for a missing key), then \<open>Get\<close> returns the new value with the version
  incremented modulo \<open>2 ^ 64\<close> and no other key changes; otherwise it reports \<open>ErrVersion\<close> or,
  for a missing key, \<open>ErrNoKey\<close>, and changes nothing.
\<close>

theorem Put_then_Get:
  assumes "kv_inv kv" and "KVServer_Put a kv = (e, kv')"
  shows "kv_inv kv' \<and>
    (case kv_lookup kv (pa_Key a) of
       None \<Rightarrow> e = (if pa_Version a = 0 then OK else ErrNoKey)
     | Some (v, ver) \<Rightarrow> e = (if ver = pa_Version a then OK else ErrVersion)) \<and>
    (e = OK \<longrightarrow> KVServer_Get (pa_Key a) kv' = \<lparr>gr_Value = pa_Value a, gr_Version = pa_Version a + 1, gr_Err = OK\<rparr> \<and>
       (\<forall>k. k \<noteq> pa_Key a \<longrightarrow> KVServer_Get k kv' = KVServer_Get k kv)) \<and>
    (e \<noteq> OK \<longrightarrow> kv' = kv)"
proof -
  have "kv_inv kv'" using kv_inv_Put [OF assms(1), of a] assms(2) by simp
  moreover have "case kv_lookup kv (pa_Key a) of
       None \<Rightarrow> e = (if pa_Version a = 0 then OK else ErrNoKey)
     | Some (v, ver) \<Rightarrow> e = (if ver = pa_Version a then OK else ErrVersion)"
    using kvs.put_result [OF assms(1), of a] assms(2) by (auto split: option.splits)
  moreover have "KVServer_Get (pa_Key a) kv' = \<lparr>gr_Value = pa_Value a, gr_Version = pa_Version a + 1, gr_Err = OK\<rparr> \<and>
       (\<forall>k. k \<noteq> pa_Key a \<longrightarrow> KVServer_Get k kv' = KVServer_Get k kv)" if "e = OK"
    using assms(2) that
    by (auto simp: KVServer_Put_def KVServer_install_def KVServer_Get_def zget_def split: option.splits if_splits)
  moreover have "kv' = kv" if "e \<noteq> OK"
    using assms(2) that by (auto simp: KVServer_Put_def split: option.splits if_splits)
  ultimately show ?thesis by blast
qed

theorem Put_then_Get_witness:
  "KVServer_Get ''k'' (snd (KVServer_Put \<lparr>pa_Key = ''k'', pa_Value = ''v'', pa_Version = 0\<rparr> MakeKVServer))
     = \<lparr>gr_Value = ''v'', gr_Version = 1, gr_Err = OK\<rparr>"
  using Put_then_Get [OF kv_inv_Make surjective_pairing, of "\<lparr>pa_Key = ''k'', pa_Value = ''v'', pa_Version = 0\<rparr>"]
  by (simp add: kv_lookup_def MakeKVServer_def)

text \<open>
  Versions order the writes. Of any number of puts that clients issue with the same version
  of the same key, at most one succeeds, as long as fewer than \<open>2 ^ 64 - 1\<close> operations lie
  between; every later one is refused with \<open>ErrVersion\<close>.
\<close>

theorem version_wins_once:
  assumes "kv_inv kv" and "fst (KVServer_Put a kv) = OK" and "length others < 2 ^ 64 - 1"
    and "pa_Key b = pa_Key a" and "pa_Version b = pa_Version a"
  shows "fst (KVServer_Put b (foldl (\<lambda>s x. snd (KVServer_Put x s)) (snd (KVServer_Put a kv)) others)) = ErrVersion"
  using kvs.put_again_fails [OF assms] by (simp add: kvs.puts_def)

theorem version_wins_once_witness:
  "let a = \<lparr>pa_Key = ''k'', pa_Value = ''v'', pa_Version = 0\<rparr>; b = \<lparr>pa_Key = ''k'', pa_Value = ''w'', pa_Version = 0\<rparr>;
       c = \<lparr>pa_Key = ''k'', pa_Value = ''u'', pa_Version = 1\<rparr>
   in fst (KVServer_Put b (foldl (\<lambda>s x. snd (KVServer_Put x s)) (snd (KVServer_Put a MakeKVServer)) [c])) = ErrVersion"
  unfolding Let_def
  by (rule version_wins_once [OF kv_inv_Make]) (simp_all add: KVServer_Put_def MakeKVServer_def)

text \<open>
  C36: The version that \<open>Get\<close> reports counts the successful puts on the key modulo \<open>2 ^ 64\<close>,
  whatever sequence of puts the server executes. (After \<open>2 ^ 64\<close> of them it is back where it
  was, so the guarantee of the previous property cannot be unconditional.)
\<close>

theorem version_is_count_of_puts:
  assumes "kv_inv kv"
  shows "gr_Version (KVServer_Get k (foldl (\<lambda>s x. snd (KVServer_Put x s)) kv puts)) =
    gr_Version (KVServer_Get k kv) + of_nat (kvs.successes k puts kv)"
proof -
  have version: "gr_Version (KVServer_Get k s) = kvs.version s k" for s
    by (simp add: kvs.version_def KVServer_Get_def kv_lookup_def split: option.splits)
  show ?thesis using kvs.version_puts [OF assms, of puts k] by (simp add: version kvs.puts_def)
qed

theorem version_is_count_of_puts_witness:
  "gr_Version (KVServer_Get ''k'' (foldl (\<lambda>s x. snd (KVServer_Put x s)) MakeKVServer
     [\<lparr>pa_Key = ''k'', pa_Value = ''v'', pa_Version = 0\<rparr>, \<lparr>pa_Key = ''k'', pa_Value = ''w'', pa_Version = 0\<rparr>])) = 1"
  unfolding version_is_count_of_puts [OF kv_inv_Make]
  by (simp add: KVServer_Get_def KVServer_Put_def KVServer_install_def MakeKVServer_def)

text \<open>
  The checker's model accepts what the server does: for every state, a \<open>Get\<close> and a \<open>Put\<close>
  with the server's answer are steps of \<open>KvModel\<close> for the key, leading to the model state of
  the server's new state. The only exception is a \<open>Put\<close> with a version other than 0 on a
  missing key: the server answers \<open>ErrNoKey\<close>, as its comment says, and the model rejects it.
\<close>

theorem KvModel_accepts_server:
  assumes "kv_inv kv"
  shows "KvModel_Step (abs_key kv k) (get_op k) (get_out (KVServer_Get k kv)) = (True, Some (abs_key kv k)) \<and>
    KvModel_Step (abs_key kv (pa_Key a)) (put_op a) (put_out (fst (KVServer_Put a kv))) =
      (fst (KVServer_Put a kv) \<noteq> ErrNoKey, Some (abs_key (snd (KVServer_Put a kv)) (pa_Key a))) \<and>
    (\<forall>k'. k' \<noteq> pa_Key a \<longrightarrow> abs_key (snd (KVServer_Put a kv)) k' = abs_key kv k')"
proof (intro conjI)
  show "KvModel_Step (abs_key kv k) (get_op k) (get_out (KVServer_Get k kv)) = (True, Some (abs_key kv k))"
    by (simp add: KvModel_Step_def get_op_def get_out_def KVServer_Get_def abs_key_def zget_def split: option.splits)
  show "KvModel_Step (abs_key kv (pa_Key a)) (put_op a) (put_out (fst (KVServer_Put a kv))) =
      (fst (KVServer_Put a kv) \<noteq> ErrNoKey, Some (abs_key (snd (KVServer_Put a kv)) (pa_Key a)))"
    by (auto simp: KvModel_Step_def put_op_def put_out_def KVServer_Put_def KVServer_install_def abs_key_def zget_def
        split: option.splits)
  show "\<forall>k'. k' \<noteq> pa_Key a \<longrightarrow> abs_key (snd (KVServer_Put a kv)) k' = abs_key kv k'"
    by (auto simp: KVServer_Put_def KVServer_install_def abs_key_def zget_def split: option.splits)
qed

theorem KvModel_accepts_server_witness:
  "\<not> fst (KvModel_Step KvModel_Init (put_op \<lparr>pa_Key = ''k'', pa_Value = ''v'', pa_Version = 3\<rparr>) (put_out ErrNoKey))"
proof -
  let ?a = "\<lparr>pa_Key = ''k'', pa_Value = ''v'', pa_Version = 3\<rparr>"
  have "abs_key MakeKVServer ''k'' = KvModel_Init" "fst (KVServer_Put ?a MakeKVServer) = ErrNoKey"
    by (simp_all add: abs_key_def MakeKVServer_def KvModel_Init_def KVServer_Put_def)
  with KvModel_accepts_server [OF kv_inv_Make, of "''k''" ?a] show ?thesis by simp
qed

text \<open>
  \<open>Partition\<close> splits a history by key without losing, duplicating or reordering operations,
  whatever order Go iterates the map in: the groups are those of the distinct keys in
  lexicographic order, each is the subsequence of the history with its key, and none is empty.
\<close>

theorem Partition_by_key:
  assumes "key_order (partition_map key history) ks"
  shows "KvModel_Partition key ks history =
      map (\<lambda>k. filter (\<lambda>v. key v = k) history) (sorted_list_of_set (key ` set history)) \<and>
    mset (concat (KvModel_Partition key ks history)) = mset history \<and>
    [] \<notin> set (KvModel_Partition key ks history)"
proof -
  note ko = key_orderD [OF assms]
  have "sort_Strings ks = sorted_list_of_set (key ` set history)"
    using ko sorted_list_of_set_sort_remdups [of ks]
    by (simp add: sort_Strings_def dom_partition_map distinct_remdups_id)
  moreover have "the (partition_map key history k) = filter (\<lambda>v. key v = k) history \<and> filter (\<lambda>v. key v = k) history \<noteq> []"
    if "k \<in> key ` set history" for k
    using that by (auto simp: partition_map_eq Let_def filter_empty_conv)
  ultimately have "KvModel_Partition key ks history =
      map (\<lambda>k. filter (\<lambda>v. key v = k) history) (sorted_list_of_set (key ` set history)) \<and>
    [] \<notin> set (KvModel_Partition key ks history)"
    by (auto simp: KvModel_Partition_def Let_def) (metis imageI)
  moreover have "mset (concat (map (\<lambda>k. filter (\<lambda>v. key v = k) history) (sorted_list_of_set (key ` set history)))) = mset history"
    by (rule mset_group_by) auto
  ultimately show ?thesis by metis
qed

theorem Partition_by_key_witness:
  "KvModel_Partition fst [''b'', ''a''] [(''b'', 1 :: nat), (''a'', 2), (''b'', 3)] = [[(''a'', 2)], [(''b'', 1), (''b'', 3)]]"
proof -
  let ?h = "[(''b'', 1 :: nat), (''a'', 2), (''b'', 3)]"
  have ko: "key_order (partition_map fst ?h) [''b'', ''a'']"
    by (auto simp: key_order_def dom_partition_map)
  have "sorted_list_of_set (fst ` set ?h) = [''a'', ''b'']" by code_simp
  with Partition_by_key [OF ko] show ?thesis by simp
qed

end
