(* ===== verification/KV_Clerk.thy ===== *)
theory KV_Clerk
  imports KV_Server
begin

text \<open>
  The clerk of \<open>kvsrv1/client.go\<close>: \<open>Get\<close> and \<open>Put\<close> over a network that loses requests and
  replies, while other clients use the same server.

  Attempt number \<open>i\<close> of a call has outcome \<open>os i\<close>; just before it the other clients' puts
  \<open>env i\<close> are executed. Both operations retry for ever, so they are partial functions: the
  result \<open>None\<close> means that the call never returns. \<open>own\<close> counts the executions of the
  clerk's request that changed the server; it is what the clerk's answer is about.
\<close>

record kv_net =
  net_server :: KVServer
  net_own :: nat

definition run_others :: "PutArgs list \<Rightarrow> kv_net \<Rightarrow> kv_net" where
  "run_others ps s = s\<lparr>net_server := foldl (\<lambda>kv a. snd (KVServer_Put a kv)) (net_server s) ps\<rparr>"

definition run_put :: "PutArgs \<Rightarrow> kv_net \<Rightarrow> Err \<times> kv_net" where
  "run_put args s =
     (case KVServer_Put args (net_server s) of
        (e, kv') \<Rightarrow> (e, \<lparr>net_server = kv', net_own = (if e = OK then Suc (net_own s) else net_own s)\<rparr>))"

text \<open>One \<open>clnt.Call(server, "KVServer.Put", args, reply)\<close>: the reply, if it arrived.\<close>

definition call_put :: "call_outcome \<Rightarrow> PutArgs \<Rightarrow> kv_net \<Rightarrow> Err option \<times> kv_net" where
  "call_put oc args s =
     (case oc of
        CallLost \<Rightarrow> (None, s)
      | ReplyLost \<Rightarrow> (None, snd (run_put args s))
      | CallOK \<Rightarrow> (case run_put args s of (e, s') \<Rightarrow> (Some e, s')))"

definition call_get :: "call_outcome \<Rightarrow> string \<Rightarrow> kv_net \<Rightarrow> GetReply option" where
  "call_get oc key s = (case oc of CallOK \<Rightarrow> Some (KVServer_Get key (net_server s)) | _ \<Rightarrow> None)"

partial_function (option) Clerk_Get ::
    "(nat \<Rightarrow> call_outcome) \<Rightarrow> (nat \<Rightarrow> PutArgs list) \<Rightarrow> string \<Rightarrow> nat \<Rightarrow> kv_net \<Rightarrow> (GetReply \<times> kv_net) option" where
  "Clerk_Get os env key i s =
     (let s1 = run_others (env i) s in
      case call_get (os i) key s1 of
        Some reply \<Rightarrow> Some (reply, s1)
      | None \<Rightarrow> Clerk_Get os env key (Suc i) s1)"

text \<open>The loop of \<open>Put\<close> after a first call that failed.\<close>

partial_function (option) put_resend ::
    "(nat \<Rightarrow> call_outcome) \<Rightarrow> (nat \<Rightarrow> PutArgs list) \<Rightarrow> PutArgs \<Rightarrow> nat \<Rightarrow> kv_net \<Rightarrow> (Err \<times> kv_net) option" where
  "put_resend os env args i s =
     (let s1 = run_others (env i) s in
      case call_put (os i) args s1 of
        (Some e, s2) \<Rightarrow> Some (e, s2)
      | (None, s2) \<Rightarrow> put_resend os env args (Suc i) s2)"

definition Clerk_Put ::
    "(nat \<Rightarrow> call_outcome) \<Rightarrow> (nat \<Rightarrow> PutArgs list) \<Rightarrow> string \<Rightarrow> string \<Rightarrow> Tversion \<Rightarrow> kv_net \<Rightarrow> (Err \<times> kv_net) option" where
  "Clerk_Put os env key value version s =
     (let args = \<lparr>pa_Key = key, pa_Value = value, pa_Version = version\<rparr>;
          s1 = run_others (env 0) s
      in case call_put (os 0) args s1 of
           (Some e, s2) \<Rightarrow> Some (e, s2)
         | (None, s2) \<Rightarrow>
             (case put_resend os env args 1 s2 of
                None \<Rightarrow> None
              | Some (e, s3) \<Rightarrow> Some (if e = ErrVersion then ErrMaybe else e, s3)))"

section \<open>The calls return\<close>

lemma Clerk_Get_returns:
  assumes "os n = CallOK" and "i \<le> n"
  shows "\<exists>r s'. Clerk_Get os env key i s = Some (r, s')"
  using assms(2)
proof (induction "n - i" arbitrary: i s)
  case 0
  then show ?case using assms(1) by (subst Clerk_Get.simps) (simp add: call_get_def Let_def)
next
  case (Suc d)
  then have "\<exists>r s'. Clerk_Get os env key (Suc i) (run_others (env i) s) = Some (r, s')" by simp
  then show ?case by (subst Clerk_Get.simps) (auto simp: Let_def split: option.splits)
qed

lemma put_resend_returns:
  assumes "os n = CallOK" and "i \<le> n"
  shows "\<exists>e s'. put_resend os env args i s = Some (e, s')"
  using assms(2)
proof (induction "n - i" arbitrary: i s)
  case 0
  then show ?case
    using assms(1) by (subst put_resend.simps) (simp add: call_put_def Let_def split: prod.splits)
next
  case (Suc d)
  then have "\<exists>e s'. put_resend os env args (Suc i) s1 = Some (e, s')" for s1 by simp
  then show ?case by (subst put_resend.simps) (auto simp: Let_def split: prod.splits option.splits)
qed

section \<open>At most one execution takes effect\<close>

lemma run_others_own [simp]: "net_own (run_others ps s) = net_own s"
  by (simp add: run_others_def)

lemma run_others_server: "net_server (run_others ps s) = kvs.puts ps (net_server s)"
  by (simp add: run_others_def kvs.puts_def)

lemma run_put_server [simp]: "net_server (snd (run_put args s)) = snd (KVServer_Put args (net_server s))"
  by (simp add: run_put_def split: prod.splits)

lemma run_put_result: "fst (run_put args s) = fst (KVServer_Put args (net_server s))"
  by (simp add: run_put_def split: prod.splits)

lemma run_put_own: "net_own (snd (run_put args s)) = net_own s + (if fst (run_put args s) = OK then 1 else 0)"
  by (simp add: run_put_def split: prod.splits)

text \<open>
  A net in which a request has taken effect, and since then fewer than \<open>2 ^ 64 - 1 - room\<close>
  operations were executed: it will be refused as long as no more than \<open>room\<close> more are.
\<close>

definition spent :: "PutArgs \<Rightarrow> nat \<Rightarrow> kv_net \<Rightarrow> bool" where
  "spent args room s \<longleftrightarrow> (\<exists>kv as. kv_inv kv \<and> fst (KVServer_Put args kv) = OK \<and>
     net_server s = kvs.puts as (snd (KVServer_Put args kv)) \<and> length as + room < 2 ^ 64 - 1)"

lemma spent_others: "spent args (length ps + room) s \<Longrightarrow> spent args room (run_others ps s)"
  unfolding spent_def run_others_server
  by (elim exE conjE) (rule_tac x = kv in exI, rule_tac x = "as @ ps" in exI, simp add: kvs.puts_append)

lemma spent_put: "spent args (Suc room) s \<Longrightarrow> spent args room (snd (run_put b s))"
  unfolding spent_def run_put_server
  by (elim exE conjE) (rule_tac x = kv in exI, rule_tac x = "as @ [b]" in exI, simp add: kvs.puts_append)

lemma spent_refused: "spent args room s \<Longrightarrow> fst (run_put args s) = ErrVersion"
  unfolding spent_def run_put_result by (elim exE conjE) (simp add: kvs.put_again_fails)

lemma effect_spends:
  assumes "kv_inv (net_server s)" and "fst (run_put args s) = OK" and "room < 2 ^ 64 - 1"
  shows "spent args room (snd (run_put args s))"
  unfolding spent_def run_put_server using assms
  by (intro exI [of _ "net_server s"] exI [of _ "[]"]) (simp add: run_put_result)

lemma net_inv_others: "kv_inv (net_server s) \<Longrightarrow> kv_inv (net_server (run_others ps s))"
  by (simp add: run_others_server kvs.puts_inv)

lemma net_inv_put: "kv_inv (net_server s) \<Longrightarrow> kv_inv (net_server (snd (run_put args s)))"
  by (simp add: kv_inv_Put)

text \<open>The number of operations from attempt \<open>i\<close> up to attempt \<open>n\<close>.\<close>

definition work :: "(nat \<Rightarrow> PutArgs list) \<Rightarrow> nat \<Rightarrow> nat \<Rightarrow> nat" where
  "work env i n = (\<Sum>j = i..n. Suc (length (env j)))"

lemma work_step: "i \<le> n \<Longrightarrow> work env i n = length (env i) + Suc (work env (Suc i) n)"
  by (simp add: work_def sum.atLeast_Suc_atMost)

lemma work_last: "work env n n = Suc (length (env n))"
  by (simp add: work_def)

lemma put_resend_step:
  "os i = CallLost \<Longrightarrow> put_resend os env args i s = put_resend os env args (Suc i) (run_others (env i) s)"
  "os i = ReplyLost \<Longrightarrow> put_resend os env args i s = put_resend os env args (Suc i) (snd (run_put args (run_others (env i) s)))"
  "os i = CallOK \<Longrightarrow> put_resend os env args i s = Some (run_put args (run_others (env i) s))"
  by (subst put_resend.simps; simp add: call_put_def Let_def split: prod.splits)+

lemma spent_weaken: "spent args (Suc n) s \<Longrightarrow> spent args n s"
  unfolding spent_def by (metis Suc_lessD add_Suc_right)

lemma resend_spent:
  assumes "put_resend os env args i s = Some (e, s')" and "os n = CallOK" and "i \<le> n"
    and "spent args (work env i n) s"
  shows "e = ErrVersion \<and> net_own s' = net_own s"
  using assms
proof (induction "n - i" arbitrary: i s)
  case 0
  let ?s1 = "run_others (env i) s"
  have i: "n = i" using 0 by simp
  have "spent args 1 ?s1" using 0 i by (intro spent_others) (simp add: work_last)
  then have "fst (run_put args ?s1) = ErrVersion" by (rule spent_refused)
  moreover have "run_put args ?s1 = (e, s')" using "0.prems"(1,2) i by (simp add: put_resend_step(3))
  ultimately show ?case using run_put_own [of args ?s1] by simp
next
  case (Suc d)
  let ?s1 = "run_others (env i) s"
  have sp: "spent args (Suc (work env (Suc i) n)) ?s1"
    using Suc.prems(3,4) by (intro spent_others) (simp add: work_step)
  then have ref: "fst (run_put args ?s1) = ErrVersion" by (rule spent_refused)
  have own: "net_own (snd (run_put args ?s1)) = net_own s" using ref by (simp add: run_put_own)
  have IH: "put_resend os env args (Suc i) t = Some (e, s') \<Longrightarrow> spent args (work env (Suc i) n) t \<Longrightarrow>
      e = ErrVersion \<and> net_own s' = net_own t" for t
    using Suc.hyps(2) Suc.prems(2) by (intro Suc.hyps(1)) simp_all
  show ?case
    using Suc.prems(1) IH [OF _ spent_put [OF sp]] IH [of ?s1] spent_weaken [OF sp] ref own
    by (cases "os i") (auto simp: put_resend_step)
qed

text \<open>
  What the resending loop's answer says about the clerk's own request, in general.
\<close>

definition answers :: "Err \<Rightarrow> nat \<Rightarrow> nat \<Rightarrow> bool" where
  "answers e before after \<longleftrightarrow> (e = OK \<and> after = Suc before) \<or> (e = ErrNoKey \<and> after = before) \<or>
     (e = ErrVersion \<and> (after = before \<or> after = Suc before))"

lemma run_put_answers:
  assumes "run_put args s = (e, s')"
  shows "e \<in> {OK, ErrNoKey, ErrVersion} \<and> net_own s' = net_own s + (if e = OK then 1 else 0)"
  using assms by (auto simp: run_put_def KVServer_Put_def split: prod.splits option.splits if_splits)

lemma resend_answers:
  assumes "put_resend os env args i s = Some (e, s')" and "os n = CallOK" and "i \<le> n"
    and "kv_inv (net_server s)" and "work env i n < 2 ^ 64 - 1"
  shows "answers e (net_own s) (net_own s')"
  using assms
proof (induction "n - i" arbitrary: i s)
  case 0
  then have "run_put args (run_others (env i) s) = (e, s')" by (simp add: put_resend_step(3))
  from run_put_answers [OF this] show ?case by (auto simp: answers_def)
next
  case (Suc d)
  let ?s1 = "run_others (env i) s" and ?s2 = "snd (run_put args (run_others (env i) s))"
  have inv1: "kv_inv (net_server ?s1)" using Suc.prems(4) by (rule net_inv_others)
  have room: "work env (Suc i) n < 2 ^ 64 - 1" using Suc.prems(3,5) by (simp add: work_step)
  have IH: "put_resend os env args (Suc i) t = Some (e, s') \<Longrightarrow> kv_inv (net_server t) \<Longrightarrow>
      answers e (net_own t) (net_own s')" for t
    using Suc.hyps(2) Suc.prems(2) room by (intro Suc.hyps(1)) simp_all
  show ?case
  proof (cases "os i")
    case CallLost
    then show ?thesis using Suc.prems(1) IH [OF _ inv1] by (simp add: put_resend_step)
  next
    case CallOK
    then have "run_put args ?s1 = (e, s')" using Suc.prems(1) by (simp add: put_resend_step)
    from run_put_answers [OF this] show ?thesis by (auto simp: answers_def)
  next
    case ReplyLost
    then have rest: "put_resend os env args (Suc i) ?s2 = Some (e, s')"
      using Suc.prems(1) by (simp add: put_resend_step)
    show ?thesis
    proof (cases "fst (run_put args ?s1) = OK")
      case True
      then have "spent args (work env (Suc i) n) ?s2" using inv1 room by (intro effect_spends)
      from resend_spent [OF rest Suc.prems(2) _ this] Suc.hyps(2) run_put_own [of args ?s1] True
      show ?thesis by (simp add: answers_def)
    next
      case False
      with IH [OF rest net_inv_put [OF inv1]] show ?thesis by (simp add: run_put_own)
    qed
  qed
qed

section \<open>Properties of the clerk\<close>

text \<open>
  C4: What the answer of \<open>Clerk.Put\<close> means. If some attempt goes through, \<open>Put\<close> returns; then,
  as long as fewer than \<open>2 ^ 64 - 1\<close> operations are executed meanwhile: \<open>OK\<close> means that the
  write took effect exactly once, \<open>ErrVersion\<close> and \<open>ErrNoKey\<close> mean that it did not take
  effect, and \<open>ErrMaybe\<close> that it took effect at most once. No other answer is possible.
\<close>

theorem Clerk_Put_answer:
  assumes "kv_inv (net_server s)" and "os n = CallOK" and "work env 0 n < 2 ^ 64 - 1"
  shows "\<exists>e s'. Clerk_Put os env key value version s = Some (e, s') \<and>
    ((e = OK \<and> net_own s' = Suc (net_own s)) \<or>
     (e \<in> {ErrVersion, ErrNoKey} \<and> net_own s' = net_own s) \<or>
     (e = ErrMaybe \<and> net_own s' \<in> {net_own s, Suc (net_own s)}))"
proof -
  let ?a = "\<lparr>pa_Key = key, pa_Value = value, pa_Version = version\<rparr>" and ?s1 = "run_others (env 0) s"
  have inv1: "kv_inv (net_server ?s1)" using assms(1) by (rule net_inv_others)
  show ?thesis
  proof (cases "os 0 = CallOK")
    case True
    obtain e s' where r: "run_put ?a ?s1 = (e, s')" by fastforce
    with True have "Clerk_Put os env key value version s = Some (e, s')"
      by (simp add: Clerk_Put_def call_put_def Let_def)
    with run_put_answers [OF r] show ?thesis by auto
  next
    case False
    then have n: "1 \<le> n" using assms(2) by (cases n) auto
    let ?s2 = "if os 0 = CallLost then ?s1 else snd (run_put ?a ?s1)"
    obtain e s' where r: "put_resend os env ?a 1 ?s2 = Some (e, s')"
      using put_resend_returns [of os n 1, OF assms(2) n] by blast
    have ret: "Clerk_Put os env key value version s = Some (if e = ErrVersion then ErrMaybe else e, s')"
      using False r by (cases "os 0") (simp_all add: Clerk_Put_def call_put_def Let_def)
    have room: "work env 1 n < 2 ^ 64 - 1" using assms(3) work_step [of 0 n env] by simp
    have "answers e (net_own s) (net_own s')"
    proof (cases "os 0 = ReplyLost \<and> fst (run_put ?a ?s1) = OK")
      case True
      then have "spent ?a (work env 1 n) ?s2" using effect_spends [OF inv1 _ room] by simp
      from resend_spent [OF r assms(2) n this] True show ?thesis by (simp add: answers_def run_put_own)
    next
      case False
      have "kv_inv (net_server ?s2)" using inv1 net_inv_put [OF inv1] by simp
      from resend_answers [OF r assms(2) n this room] False \<open>os 0 \<noteq> CallOK\<close> show ?thesis
        by (cases "os 0") (auto simp: run_put_own)
    qed
    with ret show ?thesis by (auto simp: answers_def)
  qed
qed

text \<open>For the witnesses: the first request is executed but its reply is lost.\<close>

definition demo_net :: kv_net where
  "demo_net = \<lparr>net_server = MakeKVServer, net_own = 0\<rparr>"

definition demo_outcomes :: "nat \<Rightarrow> call_outcome" where
  "demo_outcomes i = (if i = 0 then ReplyLost else CallOK)"

theorem Clerk_Put_answer_witness:
  "\<exists>s'. Clerk_Put demo_outcomes (\<lambda>_. []) ''k'' ''v'' 0 demo_net = Some (ErrMaybe, s') \<and> net_own s' = 1"
proof -
  have "kv_inv (net_server demo_net)" by (simp add: demo_net_def kv_inv_Make)
  then have "\<exists>e s'. Clerk_Put demo_outcomes (\<lambda>_. []) ''k'' ''v'' 0 demo_net = Some (e, s') \<and>
    ((e = OK \<and> net_own s' = 1) \<or> (e \<in> {ErrVersion, ErrNoKey} \<and> net_own s' = 0) \<or> (e = ErrMaybe \<and> net_own s' \<in> {0, 1}))"
    using Clerk_Put_answer [of demo_net demo_outcomes 1 "\<lambda>_. []" "''k''" "''v''" 0]
    by (simp add: demo_outcomes_def work_def demo_net_def)
  moreover have "Clerk_Put demo_outcomes (\<lambda>_. []) ''k'' ''v'' 0 demo_net =
      Some (ErrMaybe, \<lparr>net_server = snd (KVServer_Put \<lparr>pa_Key = ''k'', pa_Value = ''v'', pa_Version = 0\<rparr> MakeKVServer), net_own = 1\<rparr>)"
    by (simp add: Clerk_Put_def call_put_def demo_outcomes_def put_resend_step demo_net_def run_others_def run_put_def
        KVServer_Put_def KVServer_install_def MakeKVServer_def)
  ultimately show ?thesis by auto
qed

text \<open>
  \<open>Clerk.Get\<close> returns once an attempt goes through, does not change the server, and its
  answer is the server's answer at the moment of that attempt, whatever the other clients did
  before: the value and version of the last successful put, or \<open>ErrNoKey\<close>.
\<close>

theorem Clerk_Get_answer:
  assumes "os n = CallOK" and "\<forall>i<n. os i \<noteq> CallOK"
  shows "Clerk_Get os env key 0 s =
    (let s' = foldl (\<lambda>s i. run_others (env i) s) s [0..<Suc n]
     in Some (KVServer_Get key (net_server s'), s'))"
proof -
  have step: "Clerk_Get os env key i s =
      (if os i = CallOK then Some (KVServer_Get key (net_server (run_others (env i) s)), run_others (env i) s)
       else Clerk_Get os env key (Suc i) (run_others (env i) s))" for i s
    by (subst Clerk_Get.simps) (cases "os i"; simp add: call_get_def Let_def)
  have "Clerk_Get os env key i s =
      (let s' = foldl (\<lambda>s i. run_others (env i) s) s [i..<Suc n]
       in Some (KVServer_Get key (net_server s'), s'))" if "i \<le> n" for i
    using that
  proof (induction "n - i" arbitrary: i s)
    case 0
    then show ?case using assms(1) step [of i s] by (simp add: Let_def)
  next
    case (Suc d)
    then have "i < n" by simp
    have upt: "[i..<Suc n] = i # [Suc i..<Suc n]" using \<open>i < n\<close> by (simp add: upt_conv_Cons)
    have "Clerk_Get os env key i s = Clerk_Get os env key (Suc i) (run_others (env i) s)"
      using step [of i s] assms(2) \<open>i < n\<close> by simp
    also have "\<dots> = (let s' = foldl (\<lambda>s i. run_others (env i) s) (run_others (env i) s) [Suc i..<Suc n]
       in Some (KVServer_Get key (net_server s'), s'))"
      using Suc.hyps(2) \<open>i < n\<close> by (intro Suc.hyps(1)) simp_all
    finally show ?case unfolding upt by simp
  qed
  then show ?thesis by blast
qed

theorem Clerk_Get_answer_witness:
  "\<exists>s'. Clerk_Get demo_outcomes (\<lambda>i. if i = 1 then [\<lparr>pa_Key = ''k'', pa_Value = ''v'', pa_Version = 0\<rparr>] else []) ''k'' 0 demo_net =
     Some (\<lparr>gr_Value = ''v'', gr_Version = 1, gr_Err = OK\<rparr>, s')"
  by (subst Clerk_Get_answer [of _ 1])
    (auto simp: demo_outcomes_def demo_net_def run_others_def KVServer_Put_def KVServer_install_def
      MakeKVServer_def KVServer_Get_def Let_def upt_rec)

end
