(* ===== verification/KV_Lock.thy ===== *)
theory KV_Lock
  imports KV_Clerk
begin

text \<open>
  The lock of \<open>kvsrv1/lock/lock.go\<close>: any number of clients acquire and release one lock kept
  under a key of the key/value server.

  A client is at one of the points between its clerk calls; a step is one clerk call of one
  client, or a put by anybody on another key. \<open>Clerk.Put\<close> may also answer \<open>ErrMaybe\<close>, with or
  without having written, when the network is not reliable (\<open>Clerk_Put_answer\<close> of
  \<open>KV_Clerk\<close>); the flag \<open>reliable\<close> of the step relation excludes that.
  \<open>lk_puts\<close> counts the successful writes of the lock's key; mutual exclusion needs that
  the \<open>uint64\<close> version has not wrapped around.
\<close>

definition LockStatusFree :: string where "LockStatusFree = ''free''"

definition LockStatusHeld :: string where "LockStatusHeld = ''held''"

lemma LockStatus_distinct [simp]: "LockStatusFree \<noteq> LockStatusHeld" "LockStatusHeld \<noteq> LockStatusFree"
  by (simp_all add: LockStatusFree_def LockStatusHeld_def)

datatype client_pc = Idle | AcqGet | AcqPut Tversion | Holding | RelGet | RelPut Tversion

record 'c lock_sys =
  lk_server :: KVServer
  lk_pc :: "'c \<Rightarrow> client_pc"
  lk_puts :: nat

text \<open>
  The tests of the two loops: whether the loop goes on to \<open>Put\<close> after a \<open>Get\<close>, and where it is
  after the \<open>Put\<close>.
\<close>

definition Acquire_after_Get :: "GetReply \<Rightarrow> client_pc" where
  "Acquire_after_Get r =
     (if gr_Err r = ErrNoKey \<or> (gr_Err r = OK \<and> gr_Value r = LockStatusFree)
      then AcqPut (gr_Version r) else AcqGet)"

definition Acquire_after_Put :: "Err \<Rightarrow> client_pc" where
  "Acquire_after_Put e = (if e = OK then Holding else AcqGet)"

definition Release_after_Get :: "GetReply \<Rightarrow> client_pc" where
  "Release_after_Get r =
     (if gr_Err r = ErrNoKey \<or> (gr_Err r = OK \<and> gr_Value r = LockStatusHeld)
      then RelPut (gr_Version r) else RelGet)"

definition Release_after_Put :: "Err \<Rightarrow> client_pc" where
  "Release_after_Put e = (if e = OK then Idle else RelGet)"

definition do_put :: "string \<Rightarrow> string \<Rightarrow> Tversion \<Rightarrow> 'c lock_sys \<Rightarrow> Err \<times> 'c lock_sys" where
  "do_put l v ver s =
     (case KVServer_Put \<lparr>pa_Key = l, pa_Value = v, pa_Version = ver\<rparr> (lk_server s) of
        (e, kv') \<Rightarrow> (e, s\<lparr>lk_server := kv', lk_puts := (if e = OK then Suc (lk_puts s) else lk_puts s)\<rparr>))"

inductive lock_step :: "bool \<Rightarrow> string \<Rightarrow> 'c lock_sys \<Rightarrow> 'c lock_sys \<Rightarrow> bool" for reliable l where
  acquire: "lk_pc s c = Idle \<Longrightarrow> lock_step reliable l s (s\<lparr>lk_pc := (lk_pc s)(c := AcqGet)\<rparr>)"
| acquire_get: "lk_pc s c = AcqGet \<Longrightarrow>
    lock_step reliable l s (s\<lparr>lk_pc := (lk_pc s)(c := Acquire_after_Get (KVServer_Get l (lk_server s)))\<rparr>)"
| acquire_put: "lk_pc s c = AcqPut ver \<Longrightarrow> do_put l LockStatusHeld ver s = (e, s') \<Longrightarrow>
    lock_step reliable l s (s'\<lparr>lk_pc := (lk_pc s)(c := Acquire_after_Put e)\<rparr>)"
| acquire_maybe: "\<not> reliable \<Longrightarrow> lk_pc s c = AcqPut ver \<Longrightarrow> s' \<in> {s, snd (do_put l LockStatusHeld ver s)} \<Longrightarrow>
    lock_step reliable l s (s'\<lparr>lk_pc := (lk_pc s)(c := Acquire_after_Put ErrMaybe)\<rparr>)"
| release: "lk_pc s c = Holding \<Longrightarrow> lock_step reliable l s (s\<lparr>lk_pc := (lk_pc s)(c := RelGet)\<rparr>)"
| release_get: "lk_pc s c = RelGet \<Longrightarrow>
    lock_step reliable l s (s\<lparr>lk_pc := (lk_pc s)(c := Release_after_Get (KVServer_Get l (lk_server s)))\<rparr>)"
| release_put: "lk_pc s c = RelPut ver \<Longrightarrow> do_put l LockStatusFree ver s = (e, s') \<Longrightarrow>
    lock_step reliable l s (s'\<lparr>lk_pc := (lk_pc s)(c := Release_after_Put e)\<rparr>)"
| release_maybe: "\<not> reliable \<Longrightarrow> lk_pc s c = RelPut ver \<Longrightarrow> s' \<in> {s, snd (do_put l LockStatusFree ver s)} \<Longrightarrow>
    lock_step reliable l s (s'\<lparr>lk_pc := (lk_pc s)(c := Release_after_Put ErrMaybe)\<rparr>)"
| other: "pa_Key a \<noteq> l \<Longrightarrow> lock_step reliable l s (s\<lparr>lk_server := snd (KVServer_Put a (lk_server s))\<rparr>)"

definition lock_init :: "'c lock_sys" where
  "lock_init = \<lparr>lk_server = MakeKVServer, lk_pc = (\<lambda>_. Idle), lk_puts = 0\<rparr>"

inductive lock_reach :: "bool \<Rightarrow> string \<Rightarrow> 'c lock_sys \<Rightarrow> bool" for reliable l where
  start: "lock_reach reliable l lock_init"
| step: "lock_reach reliable l s \<Longrightarrow> lock_step reliable l s t \<Longrightarrow> lock_reach reliable l t"

fun holding :: "client_pc \<Rightarrow> bool" where
  "holding Holding = True"
| "holding RelGet = True"
| "holding (RelPut ver) = True"
| "holding _ = False"

definition holds :: "'c lock_sys \<Rightarrow> 'c \<Rightarrow> bool" where
  "holds s c \<longleftrightarrow> holding (lk_pc s c)"

section \<open>The invariant of a reliable network\<close>

definition value_ok :: "(string \<times> Tversion) option \<Rightarrow> nat \<Rightarrow> ('c \<Rightarrow> bool) \<Rightarrow> bool" where
  "value_ok entry n h \<longleftrightarrow>
     (case entry of
        None \<Rightarrow> n = 0 \<and> (\<forall>c. \<not> h c)
      | Some (v, ver) \<Rightarrow> 0 < n \<and> ver = of_nat n \<and>
          ((v = LockStatusHeld \<and> (\<exists>c. h c)) \<or> (v = LockStatusFree \<and> (\<forall>c. \<not> h c))))"

definition pc_ok :: "nat \<Rightarrow> ('c \<Rightarrow> bool) \<Rightarrow> client_pc \<Rightarrow> bool" where
  "pc_ok n h p \<longleftrightarrow>
     (case p of
        AcqPut ver \<Rightarrow> \<exists>m \<le> n. ver = of_nat m \<and> (m = n \<longrightarrow> (\<forall>d. \<not> h d))
      | RelPut ver \<Rightarrow> ver = of_nat n
      | _ \<Rightarrow> True)"

definition lock_inv :: "string \<Rightarrow> 'c lock_sys \<Rightarrow> bool" where
  "lock_inv l s \<longleftrightarrow> kv_inv (lk_server s) \<and>
     value_ok (kv_lookup (lk_server s) l) (lk_puts s) (holds s) \<and>
     (\<forall>c d. holds s c \<and> holds s d \<longrightarrow> c = d) \<and>
     (\<forall>c. pc_ok (lk_puts s) (holds s) (lk_pc s c))"

lemma lock_invD:
  assumes "lock_inv l s"
  shows "kv_inv (lk_server s)" and "value_ok (kv_lookup (lk_server s) l) (lk_puts s) (holds s)"
    and "holds s c \<Longrightarrow> holds s d \<Longrightarrow> c = d" and "pc_ok (lk_puts s) (holds s) (lk_pc s c)"
  using assms by (auto simp: lock_inv_def)

lemma do_put_cases:
  assumes "do_put l v ver s = (e, s')" and "kv_inv (lk_server s)"
  obtains "e = OK" and "kv_inv (lk_server s')" and "kv_lookup (lk_server s') l = Some (v, ver + 1)"
      and "lk_puts s' = Suc (lk_puts s)" and "lk_pc s' = lk_pc s"
      and "case kv_lookup (lk_server s) l of None \<Rightarrow> ver = 0 | Some (v0, ver0) \<Rightarrow> ver0 = ver"
    | "e \<noteq> OK" and "s' = s" and "case kv_lookup (lk_server s) l of None \<Rightarrow> ver \<noteq> 0 | Some (v0, ver0) \<Rightarrow> ver0 \<noteq> ver"
proof -
  let ?a = "\<lparr>pa_Key = l, pa_Value = v, pa_Version = ver\<rparr>"
  obtain kv' where p: "KVServer_Put ?a (lk_server s) = (e, kv')"
    and s': "s' = s\<lparr>lk_server := kv', lk_puts := (if e = OK then Suc (lk_puts s) else lk_puts s)\<rparr>"
    using assms(1) by (auto simp: do_put_def split: prod.splits)
  have same: "kv' = lk_server s" if "e \<noteq> OK"
    using p that by (auto simp: KVServer_Put_def split: option.splits if_splits)
  have "e = (case kv_lookup (lk_server s) l of
         None \<Rightarrow> if ver = 0 then OK else ErrNoKey | Some (v, ver0) \<Rightarrow> if ver0 = ver then OK else ErrVersion)"
    using kvs.put_result [OF assms(2), of ?a] p by (auto split: option.splits)
  moreover have "kv_inv kv'" using kv_inv_Put [OF assms(2), of ?a] p by simp
  moreover have "kv_lookup kv' l = Some (v, ver + 1)" if "e = OK"
    using kvs.put_lookup [OF assms(2), of ?a] p that by simp
  ultimately show thesis
    using that s' same by (cases "e = OK") (auto split: option.splits if_splits)
qed

lemma Get_lookup:
  "KVServer_Get l kv = (case kv_lookup kv l of
     None \<Rightarrow> \<lparr>gr_Value = [], gr_Version = 0, gr_Err = ErrNoKey\<rparr>
   | Some (v, ver) \<Rightarrow> \<lparr>gr_Value = v, gr_Version = ver, gr_Err = OK\<rparr>)"
  by (auto simp: KVServer_Get_def kv_lookup_def split: option.splits)

lemma unat_of_nat_version: "n < 2 ^ 64 \<Longrightarrow> unat (of_nat n :: Tversion) = n"
  by (simp add: unsigned_of_nat take_bit_nat_eq_self)

lemma of_nat_version_inj:
  "m \<le> n \<Longrightarrow> n < 2 ^ 64 \<Longrightarrow> (of_nat m :: Tversion) = of_nat n \<longleftrightarrow> m = n"
  by (metis order_le_less_trans unat_of_nat_version)

lemma lock_inv_init: "lock_inv l lock_init"
  by (simp add: lock_inv_def lock_init_def holds_def value_ok_def pc_ok_def kv_lookup_def kv_inv_def MakeKVServer_def)

text \<open>Steps that change only where one client is.\<close>

lemma lock_inv_pc:
  assumes inv: "lock_inv l s" and h: "holding p \<longleftrightarrow> holds s c" and p: "pc_ok (lk_puts s) (holds s) p"
  shows "lock_inv l (s\<lparr>lk_pc := (lk_pc s)(c := p)\<rparr>)"
proof -
  have "holds (s\<lparr>lk_pc := (lk_pc s)(c := p)\<rparr>) = holds s" using h by (auto simp: holds_def fun_eq_iff)
  then show ?thesis using inv p by (simp add: lock_inv_def)
qed

lemma lock_inv_acquire_get:
  assumes inv: "lock_inv l s" and c: "lk_pc s c = AcqGet"
  shows "lock_inv l (s\<lparr>lk_pc := (lk_pc s)(c := Acquire_after_Get (KVServer_Get l (lk_server s)))\<rparr>)"
  using lock_invD(2) [OF inv] c
  by (intro lock_inv_pc [OF inv])
    (auto simp: Acquire_after_Get_def Get_lookup holds_def value_ok_def pc_ok_def split: option.splits)

lemma lock_inv_release_get:
  assumes inv: "lock_inv l s" and c: "lk_pc s c = RelGet"
  shows "lock_inv l (s\<lparr>lk_pc := (lk_pc s)(c := Release_after_Get (KVServer_Get l (lk_server s)))\<rparr>)"
  using lock_invD(2) [OF inv] c
  by (intro lock_inv_pc [OF inv])
    (auto simp: Release_after_Get_def Get_lookup holds_def value_ok_def pc_ok_def split: option.splits)

text \<open>Steps that write the lock's key: the write succeeds only with the current version.\<close>

lemma put_is_current:
  assumes inv: "lock_inv l s" and small: "lk_puts s < 2 ^ 64" and m: "m \<le> lk_puts s"
    and cur: "case kv_lookup (lk_server s) l of None \<Rightarrow> of_nat m = (0 :: Tversion) | Some (v0, ver0) \<Rightarrow> ver0 = of_nat m"
  shows "m = lk_puts s"
  using lock_invD(2) [OF inv] cur m of_nat_version_inj [OF m small]
  by (auto simp: value_ok_def split: option.splits)

lemma lock_inv_written:
  assumes inv: "lock_inv l s" and s': "kv_inv (lk_server s')" "lk_puts s' = Suc (lk_puts s)"
    "kv_lookup (lk_server s') l = Some (v, of_nat (lk_puts s) + 1)"
    and holders: "(v = LockStatusHeld \<and> holding p \<and> (\<forall>d. \<not> holds s d)) \<or>
                  (v = LockStatusFree \<and> \<not> holding p \<and> (\<forall>d. holds s d \<longrightarrow> d = c))"
    and p: "p = Holding \<or> p = Idle"
  shows "lock_inv l (s'\<lparr>lk_pc := (lk_pc s)(c := p)\<rparr>)"
proof -
  let ?t = "s'\<lparr>lk_pc := (lk_pc s)(c := p)\<rparr>"
  have holds: "holds ?t d \<longleftrightarrow> d = c \<and> holding p" for d
    using holders by (auto simp: holds_def)
  have "pc_ok (Suc (lk_puts s)) (holds ?t) (lk_pc s d)" if "d \<noteq> c" for d
  proof (cases "lk_pc s d")
    case (AcqPut ver)
    with lock_invD(4) [OF inv, of d] obtain m where "m \<le> lk_puts s" "ver = of_nat m" by (auto simp: pc_ok_def)
    then show ?thesis using AcqPut by (auto simp: pc_ok_def intro: exI [of _ m])
  next
    case (RelPut ver)
    then have "holds s d" by (simp add: holds_def)
    then show ?thesis using holders that by blast
  qed (simp_all add: pc_ok_def)
  moreover have "value_ok (Some (v, of_nat (lk_puts s) + 1)) (Suc (lk_puts s)) (holds ?t)"
    using holders by (auto simp: value_ok_def holds add.commute)
  moreover have "pc_ok n h p" for n h using p by (auto simp: pc_ok_def)
  ultimately show ?thesis using s' by (auto simp: lock_inv_def holds)
qed

lemma lock_inv_acquire_put:
  assumes inv: "lock_inv l s" and small: "lk_puts s < 2 ^ 64" and c: "lk_pc s c = AcqPut ver"
    and put: "do_put l LockStatusHeld ver s = (e, s')"
  shows "lock_inv l (s'\<lparr>lk_pc := (lk_pc s)(c := Acquire_after_Put e)\<rparr>)"
proof -
  obtain m where m: "m \<le> lk_puts s" "ver = of_nat m" "m = lk_puts s \<longrightarrow> (\<forall>d. \<not> holds s d)"
    using lock_invD(4) [OF inv, of c] c by (auto simp: pc_ok_def)
  show ?thesis
  proof (rule do_put_cases [OF put lock_invD(1) [OF inv]])
    assume ok: "e = OK" "kv_inv (lk_server s')" "kv_lookup (lk_server s') l = Some (LockStatusHeld, ver + 1)"
      "lk_puts s' = Suc (lk_puts s)"
      and cur: "case kv_lookup (lk_server s) l of None \<Rightarrow> ver = 0 | Some (v0, ver0) \<Rightarrow> ver0 = ver"
    have "m = lk_puts s" by (rule put_is_current [OF inv small m(1) cur [unfolded m(2)]])
    then show ?thesis
      using ok m by (intro lock_inv_written [OF inv]) (auto simp: Acquire_after_Put_def)
  next
    assume "e \<noteq> OK" "s' = s"
    then show ?thesis using c by (auto simp: Acquire_after_Put_def holds_def pc_ok_def intro!: lock_inv_pc [OF inv])
  qed
qed

lemma lock_inv_release_put:
  assumes inv: "lock_inv l s" and c: "lk_pc s c = RelPut ver" and put: "do_put l LockStatusFree ver s = (e, s')"
  shows "lock_inv l (s'\<lparr>lk_pc := (lk_pc s)(c := Release_after_Put e)\<rparr>)"
proof -
  have ver: "ver = of_nat (lk_puts s)" using lock_invD(4) [OF inv, of c] c by (simp add: pc_ok_def)
  have only: "holds s d \<Longrightarrow> d = c" for d using lock_invD(3) [OF inv] c by (simp add: holds_def)
  show ?thesis
  proof (rule do_put_cases [OF put lock_invD(1) [OF inv]])
    assume "e = OK" "kv_inv (lk_server s')" "kv_lookup (lk_server s') l = Some (LockStatusFree, ver + 1)"
      "lk_puts s' = Suc (lk_puts s)"
    then show ?thesis
      using ver only by (intro lock_inv_written [OF inv]) (auto simp: Release_after_Put_def)
  next
    assume "e \<noteq> OK" "s' = s"
    then show ?thesis using c by (auto simp: Release_after_Put_def holds_def pc_ok_def intro!: lock_inv_pc [OF inv])
  qed
qed

lemma lock_inv_other:
  assumes inv: "lock_inv l s" and a: "pa_Key a \<noteq> l"
  shows "lock_inv l (s\<lparr>lk_server := snd (KVServer_Put a (lk_server s))\<rparr>)"
proof -
  note kv = lock_invD(1) [OF inv]
  have "kv_lookup (snd (KVServer_Put a (lk_server s))) l = kv_lookup (lk_server s) l"
    using a by (simp add: kvs.put_lookup [OF kv])
  moreover have "holds (s\<lparr>lk_server := x\<rparr>) = holds s" for x by (simp add: holds_def fun_eq_iff)
  ultimately show ?thesis using inv kv_inv_Put [OF kv, of a] by (simp add: lock_inv_def)
qed

lemma lock_step_puts: "lock_step reliable l s t \<Longrightarrow> lk_puts s \<le> lk_puts t"
  by (induction rule: lock_step.induct) (auto simp: do_put_def split: prod.splits)

lemma lock_step_inv:
  assumes "lock_step True l s t" and inv: "lock_inv l s" and "lk_puts s < 2 ^ 64"
  shows "lock_inv l t"
  using assms(1)
proof cases
  case (acquire c)
  then show ?thesis by (auto simp: holds_def pc_ok_def intro!: lock_inv_pc [OF inv])
next
  case (release c)
  then show ?thesis by (auto simp: holds_def pc_ok_def intro!: lock_inv_pc [OF inv])
qed (use inv assms(3) lock_inv_acquire_get lock_inv_acquire_put lock_inv_release_get lock_inv_release_put
      lock_inv_other in \<open>auto\<close>)

lemma lock_reach_inv: "lock_reach True l s \<Longrightarrow> lk_puts s < 2 ^ 64 \<Longrightarrow> lock_inv l s"
proof (induction rule: lock_reach.induct)
  case start
  show ?case by (rule lock_inv_init)
next
  case (step s t)
  from lock_step_puts [OF step(2)] step(4) have "lk_puts s < 2 ^ 64" by linarith
  with step show ?case using lock_step_inv by blast
qed

section \<open>Properties of the lock\<close>

text \<open>
  C3: Mutual exclusion on a reliable network: whatever the interleaving of the clients' calls,
  no two clients are between the return of \<open>Acquire\<close> and the return of \<open>Release\<close> at the same
  time, as long as the lock's key has been written fewer than \<open>2 ^ 64\<close> times.
\<close>

theorem lock_mutual_exclusion:
  assumes "lock_reach True l s" and "lk_puts s < 2 ^ 64" and "holds s c" and "holds s d"
  shows "c = d"
  using lock_invD(3) [OF lock_reach_inv [OF assms(1,2)] assms(3,4)] .

definition demo_held :: "bool lock_sys" where
  "demo_held = \<lparr>lk_server = snd (KVServer_Put \<lparr>pa_Key = ''l'', pa_Value = LockStatusHeld, pa_Version = 0\<rparr> MakeKVServer),
     lk_pc = (\<lambda>_. Idle)(True := Holding), lk_puts = 1\<rparr>"

lemma demo_held_reach: "lock_reach r ''l'' demo_held"
proof -
  let ?s1 = "(lock_init :: bool lock_sys)\<lparr>lk_pc := (\<lambda>_. Idle)(True := AcqGet)\<rparr>"
  have 1: "lock_reach r ''l'' ?s1"
    using lock_reach.step [OF lock_reach.start lock_step.acquire [of lock_init True]] by (simp add: lock_init_def)
  let ?s2 = "(lock_init :: bool lock_sys)\<lparr>lk_pc := (\<lambda>_. Idle)(True := AcqPut 0)\<rparr>"
  have 2: "lock_reach r ''l'' ?s2"
    using lock_reach.step [OF 1 lock_step.acquire_get [of ?s1 True]]
    by (simp add: lock_init_def Acquire_after_Get_def KVServer_Get_def MakeKVServer_def)
  have "lock_step r ''l'' ?s2 demo_held"
    using lock_step.acquire_put [of ?s2 True 0 "''l''" OK "snd (do_put ''l'' LockStatusHeld 0 ?s2)" r]
    by (simp add: do_put_def KVServer_Put_def MakeKVServer_def lock_init_def demo_held_def Acquire_after_Put_def)
  with 2 show ?thesis by (rule lock_reach.step)
qed

theorem lock_mutual_exclusion_witness:
  "lock_reach True ''l'' demo_held \<and> holds demo_held True \<and> \<not> holds demo_held False"
proof -
  have "holds demo_held True" "lk_puts demo_held < 2 ^ 64" by (simp_all add: demo_held_def holds_def)
  then show ?thesis using demo_held_reach lock_mutual_exclusion [OF demo_held_reach _, of True False] by blast
qed

text \<open>
  C25: \<open>Release\<close> by the holder does not fail on a reliable network: its \<open>Get\<close> sees the lock held
  and its \<open>Put\<close> succeeds, however the other clients' calls are interleaved in between, after
  which the lock is free and nobody holds it.
\<close>

theorem release_succeeds:
  assumes "lock_reach True l s" and "lk_puts s < 2 ^ 64"
  shows "(lk_pc s c = RelGet \<longrightarrow> (\<exists>ver. Release_after_Get (KVServer_Get l (lk_server s)) = RelPut ver)) \<and>
    (lk_pc s c = RelPut ver \<longrightarrow> (\<exists>s'. do_put l LockStatusFree ver s = (OK, s') \<and>
       KVServer_Get l (lk_server s') = \<lparr>gr_Value = LockStatusFree, gr_Version = ver + 1, gr_Err = OK\<rparr> \<and>
       (\<forall>d. d \<noteq> c \<longrightarrow> \<not> holds s d)))"
proof -
  have inv: "lock_inv l s" by (rule lock_reach_inv [OF assms])
  have entry: "kv_lookup (lk_server s) l = Some (LockStatusHeld, of_nat (lk_puts s))" if "holds s c" for c
    using lock_invD(2) [OF inv] that by (auto simp: value_ok_def split: option.splits)
  have "\<exists>ver. Release_after_Get (KVServer_Get l (lk_server s)) = RelPut ver" if "lk_pc s c = RelGet"
    using entry [of c] that by (simp add: holds_def Release_after_Get_def Get_lookup)
  moreover have "\<exists>s'. do_put l LockStatusFree ver s = (OK, s') \<and>
       KVServer_Get l (lk_server s') = \<lparr>gr_Value = LockStatusFree, gr_Version = ver + 1, gr_Err = OK\<rparr> \<and>
       (\<forall>d. d \<noteq> c \<longrightarrow> \<not> holds s d)" if c: "lk_pc s c = RelPut ver"
  proof -
    have hc: "holds s c" using c by (simp add: holds_def)
    have ver: "ver = of_nat (lk_puts s)" using lock_invD(4) [OF inv, of c] c by (simp add: pc_ok_def)
    obtain e s' where put: "do_put l LockStatusFree ver s = (e, s')" by fastforce
    show ?thesis
      by (rule do_put_cases [OF put lock_invD(1) [OF inv]])
        (use put entry [OF hc] ver lock_invD(3) [OF inv hc] in \<open>auto simp: Get_lookup\<close>)
  qed
  ultimately show ?thesis by blast
qed

theorem release_succeeds_witness:
  "\<exists>ver. Release_after_Get (KVServer_Get ''l'' (lk_server (demo_held\<lparr>lk_pc := (lk_pc demo_held)(True := RelGet)\<rparr>))) = RelPut ver"
proof -
  let ?s = "demo_held\<lparr>lk_pc := (lk_pc demo_held)(True := RelGet)\<rparr>"
  have "lock_reach True ''l'' ?s"
    by (rule lock_reach.step [OF demo_held_reach lock_step.release]) (simp add: demo_held_def)
  moreover have "lk_puts ?s < 2 ^ 64" "lk_pc ?s True = RelGet" by (simp_all add: demo_held_def)
  ultimately show ?thesis using release_succeeds [of "''l''" ?s True] by blast
qed

section \<open>An unreliable network\<close>

text \<open>Runs of two clients, \<open>True\<close> and \<open>False\<close>, on a lock whose key exists.\<close>

definition duo :: "string \<Rightarrow> nat \<Rightarrow> client_pc \<Rightarrow> client_pc \<Rightarrow> bool lock_sys" where
  "duo v n p q = \<lparr>lk_server = \<lparr>kv_data = [''l'' \<mapsto> v], kv_dataVersion = [''l'' \<mapsto> of_nat n]\<rparr>,
     lk_pc = case_bool p q, lk_puts = n\<rparr>"

lemma case_bool_upd [simp]:
  "(case_bool p q)(True := x) = case_bool x q" "(case_bool p q)(False := x) = case_bool p x"
  by (auto simp: fun_eq_iff split: bool.splits)

lemma duo_get: "KVServer_Get ''l'' (lk_server (duo v n p q)) = \<lparr>gr_Value = v, gr_Version = of_nat n, gr_Err = OK\<rparr>"
  by (simp add: duo_def KVServer_Get_def)

lemma duo_put: "do_put ''l'' w (of_nat n) (duo v n p q) = (OK, duo w (Suc n) p q)"
  by (simp add: duo_def do_put_def KVServer_Put_def KVServer_install_def add.commute)

lemma duo_pc [simp]:
  "lk_pc (duo v n p q) True = p" "lk_pc (duo v n p q) False = q"
  "(duo v n p q)\<lparr>lk_pc := (lk_pc (duo v' n' p' q'))(True := x)\<rparr> = duo v n x q'"
  "(duo v n p q)\<lparr>lk_pc := (lk_pc (duo v' n' p' q'))(False := x)\<rparr> = duo v n p' x"
  by (simp_all add: duo_def)

lemma duo_acquires:
  "lock_reach r ''l'' (duo LockStatusFree n p Idle) \<Longrightarrow> lock_reach r ''l'' (duo LockStatusHeld (Suc n) p Holding)"
  "lock_reach r ''l'' (duo LockStatusFree n Idle q) \<Longrightarrow> lock_reach r ''l'' (duo LockStatusHeld (Suc n) Holding q)"
proof -
  assume 0: "lock_reach r ''l'' (duo LockStatusFree n p Idle)"
  from lock_reach.step [OF 0 lock_step.acquire [of _ False]] have 1: "lock_reach r ''l'' (duo LockStatusFree n p AcqGet)" by simp
  from lock_reach.step [OF 1 lock_step.acquire_get [of _ False]]
  have 2: "lock_reach r ''l'' (duo LockStatusFree n p (AcqPut (of_nat n)))" by (simp add: duo_get Acquire_after_Get_def)
  from lock_reach.step [OF 2 lock_step.acquire_put [of _ False, OF _ duo_put]]
  show "lock_reach r ''l'' (duo LockStatusHeld (Suc n) p Holding)" by (simp add: Acquire_after_Put_def)
next
  assume 0: "lock_reach r ''l'' (duo LockStatusFree n Idle q)"
  from lock_reach.step [OF 0 lock_step.acquire [of _ True]] have 1: "lock_reach r ''l'' (duo LockStatusFree n AcqGet q)" by simp
  from lock_reach.step [OF 1 lock_step.acquire_get [of _ True]]
  have 2: "lock_reach r ''l'' (duo LockStatusFree n (AcqPut (of_nat n)) q)" by (simp add: duo_get Acquire_after_Get_def)
  from lock_reach.step [OF 2 lock_step.acquire_put [of _ True, OF _ duo_put]]
  show "lock_reach r ''l'' (duo LockStatusHeld (Suc n) Holding q)" by (simp add: Acquire_after_Put_def)
qed

lemma demo_held_duo: "demo_held = duo LockStatusHeld 1 Holding Idle"
proof -
  have "(\<lambda>_. Idle)(True := Holding) = case_bool Holding Idle" by (auto simp: fun_eq_iff split: bool.splits)
  then show ?thesis by (simp add: demo_held_def duo_def KVServer_Put_def KVServer_install_def MakeKVServer_def)
qed

text \<open>
  C39: On an unreliable network the lock does not exclude. When the reply to the \<open>Put\<close> of
  \<open>Release\<close> is lost after the write, the retry finds the lock held, possibly by another client,
  and frees it: there is a run after which two clients have both returned from \<open>Acquire\<close>.
\<close>

theorem lock_two_holders:
  "\<exists>s :: bool lock_sys. lock_reach False ''l'' s \<and> lk_pc s True = Holding \<and> lk_pc s False = Holding \<and> lk_puts s < 2 ^ 64"
proof -
  have 0: "lock_reach False ''l'' (duo LockStatusHeld 1 Holding Idle)"
    using demo_held_reach by (simp add: demo_held_duo)
  from lock_reach.step [OF 0 lock_step.release [of _ True]]
  have 1: "lock_reach False ''l'' (duo LockStatusHeld 1 RelGet Idle)" by simp
  from lock_reach.step [OF 1 lock_step.release_get [of _ True]]
  have 2: "lock_reach False ''l'' (duo LockStatusHeld 1 (RelPut (of_nat 1)) Idle)" by (simp add: duo_get Release_after_Get_def)
  have "lock_step False ''l'' (duo LockStatusHeld 1 (RelPut (of_nat 1)) Idle) (duo LockStatusFree 2 RelGet Idle)"
    using lock_step.release_maybe [of False "duo LockStatusHeld 1 (RelPut (of_nat 1)) Idle" True "of_nat 1"
        "duo LockStatusFree 2 (RelPut (of_nat 1)) Idle" "''l''"]
    by (simp add: duo_put [of _ 1, simplified] Release_after_Put_def numeral_2_eq_2)
  from lock_reach.step [OF 2 this] have "lock_reach False ''l'' (duo LockStatusFree 2 RelGet Idle)" .
  then have 3: "lock_reach False ''l'' (duo LockStatusHeld (Suc 2) RelGet Holding)" by (rule duo_acquires)
  from lock_reach.step [OF 3 lock_step.release_get [of _ True]]
  have 4: "lock_reach False ''l'' (duo LockStatusHeld (Suc 2) (RelPut (of_nat (Suc 2))) Holding)"
    by (simp add: duo_get Release_after_Get_def)
  from lock_reach.step [OF 4 lock_step.release_put [of _ True, OF _ duo_put]]
  have "lock_reach False ''l'' (duo LockStatusFree (Suc (Suc 2)) Idle Holding)" by (simp add: Release_after_Put_def)
  then have "lock_reach False ''l'' (duo LockStatusHeld (Suc (Suc (Suc 2))) Holding Holding)" by (rule duo_acquires)
  moreover have "lk_puts (duo v n p q) = n" for v n p q by (simp add: duo_def)
  ultimately show ?thesis by (intro exI [of _ "duo LockStatusHeld (Suc (Suc (Suc 2))) Holding Holding"]) simp
qed

definition orphaned :: "string \<Rightarrow> 'c lock_sys \<Rightarrow> bool" where
  "orphaned l s \<longleftrightarrow> kv_inv (lk_server s) \<and> kv_lookup (lk_server s) l = Some (LockStatusHeld, 1) \<and>
     (\<forall>c. lk_pc s c \<in> {Idle, AcqGet, AcqPut 0})"

lemma orphaned_pc: "orphaned l s \<Longrightarrow> p \<in> {Idle, AcqGet, AcqPut 0} \<Longrightarrow> orphaned l (s\<lparr>lk_pc := (lk_pc s)(c := p)\<rparr>)"
  by (auto simp: orphaned_def)

lemma orphaned_put:
  assumes "orphaned l s" and "lk_pc s c = AcqPut ver"
  shows "\<exists>e. do_put l w ver s = (e, s) \<and> e \<noteq> OK"
proof -
  have kv: "kv_inv (lk_server s)" and "ver = 0" using assms by (auto simp: orphaned_def dest: spec [of _ c])
  obtain e s' where put: "do_put l w ver s = (e, s')" by fastforce
  show ?thesis
    by (rule do_put_cases [OF put kv]) (use put assms(1) \<open>ver = 0\<close> in \<open>auto simp: orphaned_def\<close>)
qed

lemma orphaned_not_holding:
  "orphaned l s \<Longrightarrow> lk_pc s c \<noteq> Holding \<and> lk_pc s c \<noteq> RelGet \<and> lk_pc s c \<noteq> RelPut ver"
  by (auto simp: orphaned_def dest: spec [of _ c])

lemma orphaned_step:
  assumes "lock_step r l s t" and o: "orphaned l s"
  shows "orphaned l t"
  using assms(1)
proof cases
  case (acquire_get c)
  then show ?thesis using o by (auto simp: Acquire_after_Get_def Get_lookup orphaned_def intro!: orphaned_pc [OF o])
next
  case (acquire_put c ver e s')
  with orphaned_put [OF o acquire_put(2), of LockStatusHeld] have "s' = s \<and> e \<noteq> OK" by auto
  then show ?thesis using acquire_put(1) by (auto simp: Acquire_after_Put_def intro!: orphaned_pc [OF o])
next
  case (acquire_maybe c ver s')
  with orphaned_put [OF o acquire_maybe(3), of LockStatusHeld] have "s' = s" by auto
  then show ?thesis using acquire_maybe(1) by (auto simp: Acquire_after_Put_def intro!: orphaned_pc [OF o])
next
  case (other a)
  have kv: "kv_inv (lk_server s)" using o by (simp add: orphaned_def)
  then show ?thesis
    using other o kv_inv_Put [OF kv, of a] kvs.put_lookup [OF kv, of a] by (auto simp: orphaned_def)
next
  case (acquire c)
  then show ?thesis by (simp add: orphaned_pc [OF o])
qed (use orphaned_not_holding [OF o] in simp_all)

text \<open>
  C40: On an unreliable network the lock can be lost. When the reply to the \<open>Put\<close> of \<open>Acquire\<close> is
  lost after the write, the lock is held by nobody: from then on, whatever steps follow and
  even if the network is reliable again, no client ever returns from \<open>Acquire\<close>.
\<close>

theorem lock_orphaned:
  "\<exists>s :: bool lock_sys. lock_reach False ''l'' s \<and>
     \<not> (\<exists>r t c. (lock_step r ''l'')\<^sup>*\<^sup>* s t \<and> lk_pc t c = Holding)"
proof -
  let ?s0 = "(lock_init :: bool lock_sys)\<lparr>lk_pc := (\<lambda>_. Idle)(True := AcqGet)\<rparr>"
  have 0: "lock_reach False ''l'' ?s0"
    using lock_reach.step [OF lock_reach.start lock_step.acquire [of lock_init True]] by (simp add: lock_init_def)
  let ?s1 = "(lock_init :: bool lock_sys)\<lparr>lk_pc := (\<lambda>_. Idle)(True := AcqPut 0)\<rparr>"
  have 1: "lock_reach False ''l'' ?s1"
    using lock_reach.step [OF 0 lock_step.acquire_get [of ?s0 True]]
    by (simp add: lock_init_def Acquire_after_Get_def KVServer_Get_def MakeKVServer_def)
  let ?s2 = "duo LockStatusHeld 1 AcqGet Idle"
  have pcs: "(\<lambda>_. Idle)(True := AcqGet) = case_bool AcqGet Idle" by (auto simp: fun_eq_iff split: bool.splits)
  have "lock_step False ''l'' ?s1 ?s2"
    using lock_step.acquire_maybe [of False ?s1 True 0 "snd (do_put ''l'' LockStatusHeld 0 ?s1)" "''l''"]
    by (simp add: do_put_def KVServer_Put_def KVServer_install_def MakeKVServer_def lock_init_def Acquire_after_Put_def duo_def pcs)
  with 1 have reach: "lock_reach False ''l'' ?s2" by (rule lock_reach.step)
  have start: "orphaned ''l'' ?s2"
    by (auto simp: orphaned_def duo_def kv_inv_def kv_lookup_def split: bool.splits)
  have "orphaned ''l'' t" if "(lock_step r ''l'')\<^sup>*\<^sup>* ?s2 t" for r t
    using that by (induction rule: rtranclp_induct) (rule start, rule orphaned_step)
  then have "(lock_step r ''l'')\<^sup>*\<^sup>* ?s2 t \<Longrightarrow> lk_pc t c \<noteq> Holding" for r t c
    by (rule orphaned_not_holding [THEN conjunct1])
  then have never: "\<not> (\<exists>r t c. (lock_step r ''l'')\<^sup>*\<^sup>* ?s2 t \<and> lk_pc t c = Holding)" by metis
  show ?thesis by (rule exI [of _ ?s2]) (rule conjI [OF reach never])
qed

end
