(* ===== verification/KV_Test.thy ===== *)
theory KV_Test
  imports KV_Clerk
begin

text \<open>
  The clients and checks of the key/value tests: \<open>kvtest1/kvtest.go\<close> and the operation log of
  \<open>kvtest1/porcupine.go\<close>.

  A clerk is a pair of operations on a state of its own (the Go interface \<open>IKVClerk\<close>); a call
  that never returns gives \<open>None\<close>, and so does a loop around it that never ends. The outer
  \<open>option\<close> of every client operation means this; the sum inside it tells a fatal error from a
  result. The marshalling of values with \<open>encoding/json\<close> is a pair of arguments \<open>enc\<close> and \<open>dec\<close>. Clock
  readings are a sequence in the state.
\<close>

section \<open>kvtest1/porcupine.go\<close>

record operation =
  op_ClientId :: int
  op_Input :: KvInput
  op_Call :: int
  op_Output :: KvOutput
  op_Return :: int

definition OpLog_Len :: "operation list \<Rightarrow> nat" where
  "OpLog_Len log = length log"

definition OpLog_Append :: "operation \<Rightarrow> operation list \<Rightarrow> operation list" where
  "OpLog_Append op log = log @ [op]"

definition OpLog_Read :: "operation list \<Rightarrow> operation list" where
  "OpLog_Read log = log"

record 's IKVClerk =
  ck_Get :: "string \<Rightarrow> 's \<Rightarrow> ((string \<times> Tversion \<times> Err) \<times> 's) option"
  ck_Put :: "string \<Rightarrow> string \<Rightarrow> Tversion \<Rightarrow> 's \<Rightarrow> (Err \<times> 's) option"

record 's kv_test =
  kt_oplog :: "operation list option"
  kt_ops :: "32 word"
  kt_clock :: "nat \<Rightarrow> int"
  kt_tick :: nat
  kt_clerk :: 's

text \<open>The log entry between two clock readings; a \<open>nil\<close> log is left alone.\<close>

definition log_op :: "int \<Rightarrow> KvInput \<Rightarrow> KvOutput \<Rightarrow> 's kv_test \<Rightarrow> 's kv_test" where
  "log_op cli inp out st =
     st\<lparr>kt_oplog := map_option (OpLog_Append \<lparr>op_ClientId = cli, op_Input = inp, op_Call = kt_clock st (kt_tick st), op_Output = out,
          op_Return = kt_clock st (Suc (kt_tick st))\<rparr>) (kt_oplog st),
        kt_tick := kt_tick st + 2\<rparr>"

definition OpInc :: "'s kv_test \<Rightarrow> 's kv_test" where
  "OpInc st = st\<lparr>kt_ops := kt_ops st + 1\<rparr>"

definition kvtest_Get :: "'s IKVClerk \<Rightarrow> string \<Rightarrow> int \<Rightarrow> 's kv_test \<Rightarrow> ((string \<times> Tversion \<times> Err) \<times> 's kv_test) option" where
  "kvtest_Get ck key cli st =
     (case ck_Get ck key (kt_clerk st) of
        None \<Rightarrow> None
      | Some ((val, ver, err), s') \<Rightarrow>
          Some ((val, ver, err), log_op cli \<lparr>ki_Op = 0, ki_Key = key, ki_Value = [], ki_Version = 0\<rparr>
            \<lparr>ko_Value = val, ko_Version = ver, ko_Err = Err_string err\<rparr> (OpInc (st\<lparr>kt_clerk := s'\<rparr>))))"

definition kvtest_Put :: "'s IKVClerk \<Rightarrow> string \<Rightarrow> string \<Rightarrow> Tversion \<Rightarrow> int \<Rightarrow> 's kv_test \<Rightarrow> (Err \<times> 's kv_test) option" where
  "kvtest_Put ck key value version cli st =
     (case ck_Put ck key value version (kt_clerk st) of
        None \<Rightarrow> None
      | Some (err, s') \<Rightarrow>
          Some (err, log_op cli \<lparr>ki_Op = 1, ki_Key = key, ki_Value = value, ki_Version = version\<rparr>
            \<lparr>ko_Value = [], ko_Version = 0, ko_Err = Err_string err\<rparr> (OpInc (st\<lparr>kt_clerk := s'\<rparr>))))"

text \<open>The methods of \<open>Test\<close>; \<open>Test.Put\<close> does not count the operation.\<close>

definition KvTest_Get :: "'s IKVClerk \<Rightarrow> string \<Rightarrow> int \<Rightarrow> 's kv_test \<Rightarrow> ((string \<times> Tversion \<times> Err) \<times> 's kv_test) option" where
  "KvTest_Get ck key cli st =
     (case ck_Get ck key (kt_clerk st) of
        None \<Rightarrow> None
      | Some ((val, ver, err), s') \<Rightarrow>
          Some ((val, ver, err), log_op cli \<lparr>ki_Op = 0, ki_Key = key, ki_Value = [], ki_Version = 0\<rparr>
            \<lparr>ko_Value = val, ko_Version = ver, ko_Err = Err_string err\<rparr> (OpInc (st\<lparr>kt_clerk := s'\<rparr>))))"

definition KvTest_Put :: "'s IKVClerk \<Rightarrow> string \<Rightarrow> string \<Rightarrow> Tversion \<Rightarrow> int \<Rightarrow> 's kv_test \<Rightarrow> (Err \<times> 's kv_test) option" where
  "KvTest_Put ck key value version cli st =
     (case ck_Put ck key value version (kt_clerk st) of
        None \<Rightarrow> None
      | Some (err, s') \<Rightarrow>
          Some (err, log_op cli \<lparr>ki_Op = 1, ki_Key = key, ki_Value = value, ki_Version = version\<rparr>
            \<lparr>ko_Value = [], ko_Version = 0, ko_Err = Err_string err\<rparr> (st\<lparr>kt_clerk := s'\<rparr>)))"

section \<open>kvtest1/kvtest.go\<close>

definition letterBytes :: string where
  "letterBytes = ''abcdefghijklmnopqrstuvwxyzABCDEFGHIJKLMNOPQRSTUVWXYZ''"

text \<open>\<open>rs\<close> are the random numbers drawn.\<close>

definition RandValue :: "nat list \<Rightarrow> string" where
  "RandValue rs = map (\<lambda>r. letterBytes ! (r mod length letterBytes)) rs"

definition TestClerk_Put :: "'s IKVClerk \<Rightarrow> string \<Rightarrow> string \<Rightarrow> Tversion \<Rightarrow> 's kv_test \<Rightarrow> (Err \<times> 's kv_test) option" where
  "TestClerk_Put ck key value version st =
     map_option (\<lambda>(e, s'). (e, (OpInc st)\<lparr>kt_clerk := s'\<rparr>)) (ck_Put ck key value version (kt_clerk st))"

definition TestClerk_Get :: "'s IKVClerk \<Rightarrow> string \<Rightarrow> 's kv_test \<Rightarrow> ((string \<times> Tversion \<times> Err) \<times> 's kv_test) option" where
  "TestClerk_Get ck key st = map_option (\<lambda>(r, s'). (r, (OpInc st)\<lparr>kt_clerk := s'\<rparr>)) (ck_Get ck key (kt_clerk st))"

partial_function (option) KvTest_PutAtLeastOnce ::
    "'s IKVClerk \<Rightarrow> string \<Rightarrow> string \<Rightarrow> Tversion \<Rightarrow> int \<Rightarrow> 's kv_test \<Rightarrow> (go_exit + Tversion \<times> 's kv_test) option" where
  "KvTest_PutAtLeastOnce ck key value ver me st =
     (case KvTest_Put ck key value ver me st of
        None \<Rightarrow> None
      | Some (err, st') \<Rightarrow>
          if err = OK then Some (Inr (ver + 1, st'))
          else if err = ErrMaybe \<or> err = ErrVersion then KvTest_PutAtLeastOnce ck key value (ver + 1) me st'
          else if ver \<noteq> 0 then Some (Inl (Fatal ''Put err''))
          else KvTest_PutAtLeastOnce ck key value ver me st')"

definition KvTest_CheckGet :: "'s IKVClerk \<Rightarrow> string \<Rightarrow> string \<Rightarrow> Tversion \<Rightarrow> 's kv_test \<Rightarrow> (go_exit + 's kv_test) option" where
  "KvTest_CheckGet ck key value version st =
     (case KvTest_Get ck key 0 st of
        None \<Rightarrow> None
      | Some ((val, ver, err), st') \<Rightarrow>
          if err \<noteq> OK then Some (Inl (Fatal ''Get returns error''))
          else if val \<noteq> value \<or> ver \<noteq> version then Some (Inl (Fatal ''Get returns wrong value''))
          else Some (Inr st'))"

definition KvTest_GetJson ::
    "(string \<Rightarrow> 'v option) \<Rightarrow> 's IKVClerk \<Rightarrow> string \<Rightarrow> int \<Rightarrow> 's kv_test \<Rightarrow> (go_exit + ('v \<times> Tversion) \<times> 's kv_test) option" where
  "KvTest_GetJson dec ck key me st =
     (case kvtest_Get ck key me st of
        None \<Rightarrow> None
      | Some ((val, ver, err), st') \<Rightarrow>
          if err = OK then
            (case dec val of None \<Rightarrow> Some (Inl (Fatal ''Unmarshal err'')) | Some v \<Rightarrow> Some (Inr ((v, ver), st')))
          else Some (Inl (Fatal ''Get err'')))"

definition KvTest_PutJson ::
    "('v \<Rightarrow> string option) \<Rightarrow> 's IKVClerk \<Rightarrow> string \<Rightarrow> 'v \<Rightarrow> Tversion \<Rightarrow> int \<Rightarrow> 's kv_test \<Rightarrow> (go_exit + Err \<times> 's kv_test) option" where
  "KvTest_PutJson enc ck key v ver me st =
     (case enc v of
        None \<Rightarrow> Some (Inl (Fatal ''marshal''))
      | Some b \<Rightarrow> map_option Inr (kvtest_Put ck key b ver me st))"

text \<open>The version that is put is always zero; \<open>ver\<close> only counts.\<close>

partial_function (option) KvTest_PutAtLeastOnceJson ::
    "('v \<Rightarrow> string option) \<Rightarrow> 's IKVClerk \<Rightarrow> string \<Rightarrow> 'v \<Rightarrow> Tversion \<Rightarrow> int \<Rightarrow> 's kv_test \<Rightarrow> (go_exit + Tversion \<times> 's kv_test) option" where
  "KvTest_PutAtLeastOnceJson enc ck key value ver me st =
     (case KvTest_PutJson enc ck key value 0 me st of
        None \<Rightarrow> None
      | Some (Inl e) \<Rightarrow> Some (Inl e)
      | Some (Inr (err, st')) \<Rightarrow>
          if err \<noteq> ErrMaybe then Some (Inr (ver, st')) else KvTest_PutAtLeastOnceJson enc ck key value (ver + 1) me st')"

record ClntRes =
  Nok :: int
  Nmaybe :: int

record EntryV =
  ev_Id :: int
  ev_V :: Tversion

definition KvTest_CheckPutConcurrent ::
    "(string \<Rightarrow> EntryV option) \<Rightarrow> 's IKVClerk \<Rightarrow> string \<Rightarrow> ClntRes list \<Rightarrow> ClntRes \<Rightarrow> bool \<Rightarrow> 's kv_test \<Rightarrow>
     (go_exit + ClntRes \<times> 's kv_test) option" where
  "KvTest_CheckPutConcurrent dec ck key rs res reliable st =
     (case KvTest_GetJson dec ck key (-1) st of
        None \<Rightarrow> None
      | Some (Inl e) \<Rightarrow> Some (Inl e)
      | Some (Inr ((_, ver0), st')) \<Rightarrow>
          let res' = foldl (\<lambda>a r. \<lparr>Nok = Nok a + Nok r, Nmaybe = Nmaybe a + Nmaybe r\<rparr>) res rs in
          if reliable then
            (if ver0 \<noteq> of_int (Nok res') then Some (Inl (Fatal ''Reliable: Wrong number of puts'')) else Some (Inr (res', st')))
          else if ver0 > of_int (Nok res' + Nmaybe res') then Some (Inl (Fatal ''Unreliable: Wrong number of puts''))
          else Some (Inr (res', st')))"

partial_function (option) KvTest_OnePut ::
    "(EntryV \<Rightarrow> string option) \<Rightarrow> (string \<Rightarrow> EntryV option) \<Rightarrow> int \<Rightarrow> 's IKVClerk \<Rightarrow> string \<Rightarrow> Tversion \<Rightarrow> 's kv_test \<Rightarrow>
     (go_exit + (Tversion \<times> bool) \<times> 's kv_test) option" where
  "KvTest_OnePut enc dec me ck key ver st =
     (case KvTest_PutJson enc ck key \<lparr>ev_Id = me, ev_V = ver\<rparr> ver me st of
        None \<Rightarrow> None
      | Some (Inl x) \<Rightarrow> Some (Inl x)
      | Some (Inr (err, st1)) \<Rightarrow>
          if \<not> (err = OK \<or> err = ErrVersion \<or> err = ErrMaybe) then Some (Inl (Fatal ''Wrong error''))
          else
            (case KvTest_GetJson dec ck key me st1 of
               None \<Rightarrow> None
             | Some (Inl x) \<Rightarrow> Some (Inl x)
             | Some (Inr ((e, ver0), st2)) \<Rightarrow>
                 if err = OK \<and> ver0 = ver + 1 \<and> (ev_Id e \<noteq> me \<and> ev_V e \<noteq> ver) then Some (Inl (Fatal ''Wrong value''))
                 else if err = OK \<or> err = ErrMaybe then Some (Inr ((ver0, err = OK), st2))
                 else KvTest_OnePut enc dec me ck key ver0 st2))"

text \<open>\<open>picks\<close> are the random numbers of the iterations before the done signal.\<close>

fun KvTest_OneClientPut ::
    "(EntryV \<Rightarrow> string option) \<Rightarrow> (string \<Rightarrow> EntryV option) \<Rightarrow> bool \<Rightarrow> int \<Rightarrow> 's IKVClerk \<Rightarrow> string list \<Rightarrow> nat list \<Rightarrow>
     (string \<rightharpoonup> Tversion) \<Rightarrow> ClntRes \<Rightarrow> 's kv_test \<Rightarrow> (go_exit + ClntRes \<times> 's kv_test) option" where
  "KvTest_OneClientPut enc dec randomkeys cli ck ka [] verm res st = Some (Inr (res, st))"
| "KvTest_OneClientPut enc dec randomkeys cli ck ka (r # picks) verm res st =
     (case ka of
        [] \<Rightarrow> Some (Inl (Panic ''index out of range''))
      | k0 # _ \<Rightarrow>
          let k = (if randomkeys then ka ! (r mod length ka) else k0) in
          (case KvTest_OnePut enc dec cli ck k (zget verm 0 k) st of
             None \<Rightarrow> None
           | Some (Inl x) \<Rightarrow> Some (Inl x)
           | Some (Inr ((ver, ok), st')) \<Rightarrow>
               KvTest_OneClientPut enc dec randomkeys cli ck ka picks (verm(k \<mapsto> ver))
                 (if ok then res\<lparr>Nok := Nok res + 1\<rparr> else res\<lparr>Nmaybe := Nmaybe res + 1\<rparr>) st'))"

definition MakeKeys :: "nat \<Rightarrow> string list" where
  "MakeKeys n = map (\<lambda>i. ''k'' @ Itoa (int i)) [0..<n]"

text \<open>\<open>va\<close> are the random values; the loops of \<open>SpreadPutsSize\<close> write and then check them.\<close>

fun spread_puts :: "'s IKVClerk \<Rightarrow> (string \<times> string) list \<Rightarrow> 's \<Rightarrow> 's option" where
  "spread_puts ck [] s = Some s"
| "spread_puts ck ((k, v) # kvs) s = (case ck_Put ck k v 0 s of None \<Rightarrow> None | Some (_, s') \<Rightarrow> spread_puts ck kvs s')"

fun spread_checks :: "'s IKVClerk \<Rightarrow> (string \<times> string) list \<Rightarrow> 's kv_test \<Rightarrow> (go_exit + 's kv_test) option" where
  "spread_checks ck [] st = Some (Inr st)"
| "spread_checks ck ((k, v) # kvs) st =
     (case KvTest_CheckGet ck k v 1 st of
        None \<Rightarrow> None
      | Some (Inl e) \<Rightarrow> Some (Inl e)
      | Some (Inr st') \<Rightarrow> spread_checks ck kvs st')"

definition KvTest_SpreadPutsSize :: "'s IKVClerk \<Rightarrow> nat \<Rightarrow> string list \<Rightarrow> 's kv_test \<Rightarrow> (go_exit + (string list \<times> string list) \<times> 's kv_test) option" where
  "KvTest_SpreadPutsSize ck n va st =
     (let kvs = zip (MakeKeys n) va in
      case spread_puts ck kvs (kt_clerk st) of
        None \<Rightarrow> None
      | Some s' \<Rightarrow>
          (case spread_checks ck kvs (st\<lparr>kt_clerk := s'\<rparr>) of
             None \<Rightarrow> None
           | Some (Inl e) \<Rightarrow> Some (Inl e)
           | Some (Inr st') \<Rightarrow> Some (Inr ((MakeKeys n, va), st'))))"

record EntryN =
  en_Id :: int
  en_N :: int

text \<open>The inner loop of \<open>OneClientAppend\<close>: append entry \<open>i\<close>, again after \<open>ErrVersion\<close>. True stands for \<open>OK\<close>.\<close>

partial_function (option) append_entry ::
    "(EntryN list \<Rightarrow> string option) \<Rightarrow> (string \<Rightarrow> EntryN list option) \<Rightarrow> int \<Rightarrow> 's IKVClerk \<Rightarrow> int \<Rightarrow> 's kv_test \<Rightarrow>
     (go_exit + bool \<times> 's kv_test) option" where
  "append_entry enc dec me ck i st =
     (case KvTest_GetJson dec ck ''k'' me st of
        None \<Rightarrow> None
      | Some (Inl e) \<Rightarrow> Some (Inl e)
      | Some (Inr ((es, ver), st1)) \<Rightarrow>
          (case KvTest_PutJson enc ck ''k'' (es @ [\<lparr>en_Id = me, en_N = i\<rparr>]) ver me st1 of
             None \<Rightarrow> None
           | Some (Inl e) \<Rightarrow> Some (Inl e)
           | Some (Inr (err, st2)) \<Rightarrow>
               if err = OK then Some (Inr (True, st2))
               else if err = ErrMaybe then Some (Inr (False, st2))
               else append_entry enc dec me ck i st2))"

text \<open>\<open>rounds\<close> is the number of iterations before the done signal.\<close>

fun KvTest_OneClientAppend ::
    "(EntryN list \<Rightarrow> string option) \<Rightarrow> (string \<Rightarrow> EntryN list option) \<Rightarrow> int \<Rightarrow> 's IKVClerk \<Rightarrow> nat \<Rightarrow> int \<Rightarrow> ClntRes \<Rightarrow> 's kv_test \<Rightarrow>
     (go_exit + ClntRes \<times> 's kv_test) option" where
  "KvTest_OneClientAppend enc dec me ck 0 i res st = Some (Inr (res, st))"
| "KvTest_OneClientAppend enc dec me ck (Suc rounds) i res st =
     (case append_entry enc dec me ck i st of
        None \<Rightarrow> None
      | Some (Inl e) \<Rightarrow> Some (Inl e)
      | Some (Inr (ok, st')) \<Rightarrow>
          KvTest_OneClientAppend enc dec me ck rounds (i + 1)
            (if ok then res\<lparr>Nok := Nok res + 1\<rparr> else res\<lparr>Nmaybe := Nmaybe res + 1\<rparr>) st')"

text \<open>The loop of \<open>CheckAppends\<close> over the entries, on the maps \<open>expect\<close> and \<open>skipped\<close>.\<close>

definition check_entry :: "EntryN \<Rightarrow> (int \<rightharpoonup> int) \<times> (int \<rightharpoonup> int) \<Rightarrow> go_exit + (int \<rightharpoonup> int) \<times> (int \<rightharpoonup> int)" where
  "check_entry e = (\<lambda>(expect, skipped).
     if zget expect 0 (en_Id e) > en_N e then Inl (Fatal ''wrong expecting'')
     else if zget expect 0 (en_Id e) = en_N e then Inr (expect(en_Id e \<mapsto> zget expect 0 (en_Id e) + 1), skipped)
     else let s = en_N e - zget expect 0 (en_Id e)
          in Inr (expect(en_Id e \<mapsto> en_N e + 1), skipped(en_Id e \<mapsto> zget skipped 0 (en_Id e) + s)))"

definition check_client :: "(int \<rightharpoonup> int) \<Rightarrow> (int \<rightharpoonup> int) \<Rightarrow> ClntRes list \<Rightarrow> int \<Rightarrow> unit \<Rightarrow> go_exit + unit" where
  "check_client expect skipped rs c u =
     (if c < 0 \<or> int (length rs) \<le> c then Inl (Panic ''index out of range'')
      else if zget skipped 0 c > Nmaybe (rs ! nat c) then Inl (Fatal ''skipped puts on server > maybe'')
      else if the (expect c) > Nok (rs ! nat c) + Nmaybe (rs ! nat c) then Inl (Fatal ''puts on server > ok+maybe'')
      else Inr ())"

text \<open>\<open>order\<close> gives the order in which the final loop ranges over \<open>expect\<close>.\<close>

definition KvTest_CheckAppends :: "((int \<rightharpoonup> int) \<Rightarrow> int list) \<Rightarrow> EntryN list \<Rightarrow> nat \<Rightarrow> ClntRes list \<Rightarrow> Tversion \<Rightarrow> go_exit + unit" where
  "KvTest_CheckAppends order es nclnt rs ver =
     (let zeros = foldl (\<lambda>m i. m(int i \<mapsto> 0)) Map.empty [0..<nclnt] in
      and_then (each check_entry es (zeros, zeros)) (\<lambda>(expect, skipped).
        if int (length es) + 1 \<noteq> sint ver then Inl (Fatal ''appends in val != puts on server'')
        else each (check_client expect skipped rs) (order expect) ()))"

section \<open>What \<open>CheckAppends\<close> accepts\<close>

text \<open>The numbers that client \<open>c\<close> has appended, and the number after the last of them.\<close>

definition numbers_of :: "int \<Rightarrow> EntryN list \<Rightarrow> int list" where
  "numbers_of c es = map en_N (filter (\<lambda>e. en_Id e = c) es)"

definition next_of :: "int list \<Rightarrow> int" where
  "next_of ns = (if ns = [] then 0 else last ns + 1)"

definition increasing :: "int list \<Rightarrow> bool" where
  "increasing ns \<longleftrightarrow> sorted_wrt (<) ns \<and> (\<forall>n\<in>set ns. 0 \<le> n)"

lemma numbers_of_snoc: "numbers_of c (es @ [e]) = (if en_Id e = c then numbers_of c es @ [en_N e] else numbers_of c es)"
  by (simp add: numbers_of_def)

lemma next_of_snoc [simp]: "next_of (ns @ [n]) = n + 1"
  by (simp add: next_of_def)

lemma increasing_bound: "increasing ns \<Longrightarrow> n \<in> set ns \<Longrightarrow> n < next_of ns"
  by (induction ns rule: rev_induct) (auto simp: increasing_def sorted_wrt_append next_of_def)

lemma increasing_snoc: "increasing (ns @ [n]) \<longleftrightarrow> increasing ns \<and> next_of ns \<le> n"
proof
  assume "increasing (ns @ [n])"
  then show "increasing ns \<and> next_of ns \<le> n"
    by (cases ns rule: rev_cases) (auto simp: increasing_def sorted_wrt_append next_of_def)
next
  assume a: "increasing ns \<and> next_of ns \<le> n"
  then have "\<forall>x\<in>set ns. x < n" using increasing_bound by fastforce
  moreover have "0 \<le> n" using a by (cases ns rule: rev_cases) (auto simp: increasing_def next_of_def)
  ultimately show "increasing (ns @ [n])" using a by (auto simp: increasing_def sorted_wrt_append)
qed

lemma check_entry_step:
  "check_entry e (ex, sk) =
     (if zget ex 0 (en_Id e) > en_N e then Inl (Fatal ''wrong expecting'')
      else Inr (ex(en_Id e \<mapsto> en_N e + 1),
        if zget ex 0 (en_Id e) = en_N e then sk else sk(en_Id e \<mapsto> zget sk 0 (en_Id e) + (en_N e - zget ex 0 (en_Id e)))))"
  by (auto simp: check_entry_def Let_def)

definition checked :: "EntryN list \<Rightarrow> int set \<Rightarrow> (int \<rightharpoonup> int) \<times> (int \<rightharpoonup> int) \<Rightarrow> bool" where
  "checked es ids = (\<lambda>(ex, sk). dom ex = ids \<union> en_Id ` set es \<and>
     (\<forall>c. increasing (numbers_of c es) \<and> zget ex 0 c = next_of (numbers_of c es) \<and>
          zget sk 0 c = next_of (numbers_of c es) - int (length (numbers_of c es))))"

lemma checked_step:
  assumes "checked es ids (ex, sk)"
  shows "(\<exists>st'. check_entry e (ex, sk) = Inr st' \<and> checked (es @ [e]) ids st') \<or>
    (\<not> increasing (numbers_of (en_Id e) (es @ [e])) \<and> (\<exists>x. check_entry e (ex, sk) = Inl x))"
proof (cases "next_of (numbers_of (en_Id e) es) \<le> en_N e")
  case True
  have ex: "zget ex 0 c = next_of (numbers_of c es)" and sk: "zget sk 0 c = next_of (numbers_of c es) - int (length (numbers_of c es))"
    and inc: "increasing (numbers_of c es)" for c using assms by (auto simp: checked_def)
  have "checked (es @ [e]) ids (ex(en_Id e \<mapsto> en_N e + 1),
      if zget ex 0 (en_Id e) = en_N e then sk else sk(en_Id e \<mapsto> zget sk 0 (en_Id e) + (en_N e - zget ex 0 (en_Id e))))"
    using True assms ex sk inc by (auto simp: checked_def numbers_of_snoc increasing_snoc zget_upd)
  then show ?thesis using True ex by (auto simp: check_entry_step)
next
  case False
  then show ?thesis using assms by (auto simp: checked_def check_entry_step numbers_of_snoc increasing_snoc)
qed

lemma increasing_prefix: "increasing (numbers_of c (es @ fs)) \<Longrightarrow> increasing (numbers_of c es)"
  by (auto simp: increasing_def numbers_of_def sorted_wrt_append)

lemma check_entries:
  assumes "checked [] ids (z, z)"
  shows "(\<exists>st. each check_entry es (z, z) = Inr st \<and> checked es ids st) \<or>
    ((\<exists>c. \<not> increasing (numbers_of c es)) \<and> (\<exists>x. each check_entry es (z, z) = Inl x))"
proof (induction es rule: rev_induct)
  case Nil
  then show ?case using assms by simp
next
  case (snoc e es)
  show ?case
  proof (cases "each check_entry es (z, z)")
    case (Inl x)
    then show ?thesis using snoc increasing_prefix by (fastforce simp: each_append)
  next
    case (Inr st)
    then have "checked es ids st" using snoc by auto
    then show ?thesis using checked_step [of es ids "fst st" "snd st" e] Inr
      by (cases st) (auto simp: each_append and_then_def split: sum.splits)
  qed
qed

lemma check_clients:
  "each (check_client ex sk rs) ks () = Inr () \<longleftrightarrow> (\<forall>c\<in>set ks. check_client ex sk rs c () = Inr ())"
proof (induction ks)
  case (Cons k ks)
  then show ?case by (cases "check_client ex sk rs k ()") auto
qed simp

text \<open>What the check demands of the numbers of a client with result \<open>r\<close>.\<close>

definition appends_ok :: "int list \<Rightarrow> ClntRes \<Rightarrow> bool" where
  "appends_ok ns r \<longleftrightarrow> increasing ns \<and> next_of ns - int (length ns) \<le> Nmaybe r \<and> next_of ns \<le> Nok r + Nmaybe r"

lemma zeros_map: "foldl (\<lambda>m i. m(int i \<mapsto> 0 :: int)) Map.empty [0..<n] = (\<lambda>c. if 0 \<le> c \<and> c < int n then Some 0 else None)"
  by (induction n) (auto simp: fun_eq_iff)

lemma CheckAppends_eq:
  assumes order: "\<And>m. finite (dom m) \<Longrightarrow> set (order m) = dom m" and ids: "\<forall>e\<in>set es. 0 \<le> en_Id e \<and> en_Id e < int n"
    and rs: "length rs = n"
  shows "KvTest_CheckAppends order es n rs ver = Inr () \<longleftrightarrow>
    int (length es) + 1 = sint ver \<and> (\<forall>c<n. appends_ok (numbers_of (int c) es) (rs ! c))"
proof -
  define z where "z = (\<lambda>c. if 0 \<le> c \<and> c < int n then Some (0 :: int) else None)"
  have z0: "checked [] {0..<int n} (z, z)"
    by (auto simp: checked_def z_def numbers_of_def next_of_def increasing_def zget_def split: if_splits)
  have run: "KvTest_CheckAppends order es n rs ver = and_then (each check_entry es (z, z)) (\<lambda>(expect, skipped).
        if int (length es) + 1 \<noteq> sint ver then Inl (Fatal ''appends in val != puts on server'')
        else each (check_client expect skipped rs) (order expect) ())"
    by (simp add: KvTest_CheckAppends_def zeros_map z_def Let_def)
  show ?thesis
  proof (cases "each check_entry es (z, z)")
    case (Inl x)
    then obtain c where c: "\<not> increasing (numbers_of c es)" using check_entries [OF z0, of es] by auto
    then have "numbers_of c es \<noteq> []" by (auto simp: increasing_def)
    then obtain e where "e \<in> set es" "en_Id e = c" by (auto simp: numbers_of_def filter_empty_conv)
    then have "\<not> appends_ok (numbers_of (int (nat c)) es) (rs ! nat c)" "nat c < n" using c ids by (auto simp: appends_ok_def)
    then show ?thesis using run Inl by auto
  next
    case (Inr st)
    obtain ex sk where st: "st = (ex, sk)" by (cases st)
    have ck: "checked es {0..<int n} (ex, sk)" using check_entries [OF z0, of es] Inr st by auto
    have dom: "dom ex = {0..<int n}" using ck ids by (auto simp: checked_def)
    then have ord: "set (order ex) = {0..<int n}" using order [of ex] by simp
    have cl: "check_client ex sk rs (int c) () = Inr () \<longleftrightarrow> appends_ok (numbers_of (int c) es) (rs ! c)" if "c < n" for c
    proof -
      have "int c \<in> dom ex" unfolding dom using that by simp
      then obtain v where v: "ex (int c) = Some v" by blast
      have "increasing (numbers_of (int c) es)" "zget ex 0 (int c) = next_of (numbers_of (int c) es)"
        "zget sk 0 (int c) = next_of (numbers_of (int c) es) - int (length (numbers_of (int c) es))"
        using ck by (simp_all add: checked_def)
      then show ?thesis using that rs v by (auto simp: check_client_def appends_ok_def)
    qed
    have "(\<forall>c\<in>{0..<int n}. check_client ex sk rs c () = Inr ()) \<longleftrightarrow> (\<forall>c<n. check_client ex sk rs (int c) () = Inr ())"
      by (metis atLeastLessThan_iff nonneg_int_cases of_nat_0_le_iff of_nat_less_iff)
    then show ?thesis using run Inr st ord cl by (auto simp: check_clients)
  qed
qed

text \<open>
  C30: \<open>CheckAppends\<close> decides exactly this: the version is one more than the number of entries, and
  for every client the numbers of its entries are non-negative and strictly increasing, no
  more of them are left out than the client got \<open>ErrMaybe\<close> answers, and the last is below the
  number of its \<open>OK\<close> and \<open>ErrMaybe\<close> answers together.
\<close>

theorem CheckAppends_decides:
  assumes "\<forall>m. finite (dom m) \<longrightarrow> key_order m (order m)" and "\<forall>e\<in>set es. 0 \<le> en_Id e \<and> en_Id e < int (length rs)"
  shows "KvTest_CheckAppends order es (length rs) rs ver = Inr () \<longleftrightarrow>
    int (length es) + 1 = sint ver \<and>
    (\<forall>c<length rs. let ns = map en_N (filter (\<lambda>e. en_Id e = int c) es); end_ns = (if ns = [] then 0 else last ns + 1) in
       sorted_wrt (<) ns \<and> (\<forall>n\<in>set ns. 0 \<le> n) \<and> end_ns - int (length ns) \<le> Nmaybe (rs ! c) \<and> end_ns \<le> Nok (rs ! c) + Nmaybe (rs ! c))"
proof -
  have "set (order m) = dom m" if "finite (dom m)" for m using assms(1) that by (simp add: key_order_def)
  from CheckAppends_eq [of order es "length rs" rs ver, OF this assms(2) refl] show ?thesis
    by (simp add: appends_ok_def increasing_def next_of_def numbers_of_def Let_def conj_assoc)
qed

definition demo_order :: "(int \<rightharpoonup> int) \<Rightarrow> int list" where
  "demo_order m = sorted_list_of_set (dom m)"

lemma demo_order: "\<forall>m. finite (dom m) \<longrightarrow> key_order m (demo_order m)"
  by (simp add: key_order_def demo_order_def)

theorem CheckAppends_decides_witness:
  "KvTest_CheckAppends demo_order [\<lparr>en_Id = 0, en_N = 0\<rparr>, \<lparr>en_Id = 0, en_N = 2\<rparr>] 1 [\<lparr>Nok = 2, Nmaybe = 1\<rparr>] 3 = Inr ()"
  using CheckAppends_decides [OF demo_order, of "[\<lparr>en_Id = 0, en_N = 0\<rparr>, \<lparr>en_Id = 0, en_N = 2\<rparr>]" "[\<lparr>Nok = 2, Nmaybe = 1\<rparr>]" 3]
  by (simp add: Let_def)

end
