(* ===== verification/KV_Append.thy ===== *)
theory KV_Append
  imports KV_Test
begin

text \<open>
  Two runs of the test clients of \<open>KV_Test\<close> against the server: many clients of the append test,
  interleaved step by step, and one client that puts at least once over a lossy network.
\<close>

section \<open>The append test\<close>

text \<open>
  The clients of \<open>OneClientAppend\<close> run concurrently against one server. Each step of a client is
  the \<open>Get\<close> or the \<open>Put\<close> of its inner loop; a put takes effect, or is refused, at one moment, and
  the clerk then gives one of the answers that \<open>clerk_answers\<close> allows, which include \<open>ErrMaybe\<close>.
\<close>

datatype append_phase = Reading | Writing "EntryN list" Tversion

record append_client =
  ac_i :: int
  ac_res :: ClntRes
  ac_phase :: append_phase

record append_sys =
  as_server :: KVServer
  as_clients :: "append_client list"

definition clerk_answers :: "Err \<Rightarrow> Err \<Rightarrow> bool" where
  "clerk_answers e err \<longleftrightarrow> err = e \<or> (e \<in> {OK, ErrVersion} \<and> err = ErrMaybe)"

definition append_after_put :: "Err \<Rightarrow> append_client \<Rightarrow> append_client" where
  "append_after_put err c =
     (if err = OK then c\<lparr>ac_i := ac_i c + 1, ac_res := (ac_res c)\<lparr>Nok := Nok (ac_res c) + 1\<rparr>, ac_phase := Reading\<rparr>
      else if err = ErrMaybe then c\<lparr>ac_i := ac_i c + 1, ac_res := (ac_res c)\<lparr>Nmaybe := Nmaybe (ac_res c) + 1\<rparr>, ac_phase := Reading\<rparr>
      else c\<lparr>ac_phase := Reading\<rparr>)"

inductive append_step :: "(EntryN list \<Rightarrow> string option) \<Rightarrow> (string \<Rightarrow> EntryN list option) \<Rightarrow> append_sys \<Rightarrow> append_sys \<Rightarrow> bool" for enc dec where
  append_get: "c < length (as_clients st) \<Longrightarrow> ac_phase (as_clients st ! c) = Reading \<Longrightarrow>
    KVServer_Get ''k'' (as_server st) = \<lparr>gr_Value = val, gr_Version = ver, gr_Err = OK\<rparr> \<Longrightarrow> dec val = Some es \<Longrightarrow>
    append_step enc dec st (st\<lparr>as_clients := (as_clients st)[c := (as_clients st ! c)\<lparr>ac_phase := Writing es ver\<rparr>]\<rparr>)"
| append_put: "c < length (as_clients st) \<Longrightarrow> ac_phase (as_clients st ! c) = Writing es ver \<Longrightarrow>
    enc (es @ [\<lparr>en_Id = int c, en_N = ac_i (as_clients st ! c)\<rparr>]) = Some b \<Longrightarrow>
    KVServer_Put \<lparr>pa_Key = ''k'', pa_Value = b, pa_Version = ver\<rparr> (as_server st) = (e, kv') \<Longrightarrow> clerk_answers e err \<Longrightarrow>
    append_step enc dec st (st\<lparr>as_server := kv', as_clients := (as_clients st)[c := append_after_put err (as_clients st ! c)]\<rparr>)"

definition append_init :: "string \<Rightarrow> nat \<Rightarrow> append_sys" where
  "append_init b0 n = \<lparr>as_server = snd (KVServer_Put \<lparr>pa_Key = ''k'', pa_Value = b0, pa_Version = 0\<rparr> MakeKVServer),
     as_clients = replicate n \<lparr>ac_i = 0, ac_res = \<lparr>Nok = 0, Nmaybe = 0\<rparr>, ac_phase = Reading\<rparr>\<rparr>"

text \<open>\<open>append_run\<close> counts the steps, which bounds the version.\<close>

inductive append_run :: "(EntryN list \<Rightarrow> string option) \<Rightarrow> (string \<Rightarrow> EntryN list option) \<Rightarrow> nat \<Rightarrow> nat \<Rightarrow> append_sys \<Rightarrow> bool" for enc dec n where
  run_init: "enc [] = Some b0 \<Longrightarrow> append_run enc dec n 0 (append_init b0 n)"
| run_step: "append_run enc dec n k st \<Longrightarrow> append_step enc dec st st' \<Longrightarrow> append_run enc dec n (Suc k) st'"

fun phase_ok :: "EntryN list \<Rightarrow> append_phase \<Rightarrow> bool" where
  "phase_ok es Reading = True"
| "phase_ok es (Writing es0 ver) = ((\<exists>rest. es = es0 @ rest) \<and> ver = of_nat (length es0 + 1))"

definition client_ok :: "EntryN list \<Rightarrow> int \<Rightarrow> append_client \<Rightarrow> bool" where
  "client_ok es c a \<longleftrightarrow> increasing (numbers_of c es) \<and> next_of (numbers_of c es) \<le> ac_i a \<and>
     ac_i a = Nok (ac_res a) + Nmaybe (ac_res a) \<and> Nok (ac_res a) \<le> int (length (numbers_of c es)) \<and> phase_ok es (ac_phase a)"

definition append_inv :: "(string \<Rightarrow> EntryN list option) \<Rightarrow> nat \<Rightarrow> EntryN list \<Rightarrow> append_sys \<Rightarrow> bool" where
  "append_inv dec n es st \<longleftrightarrow> kv_inv (as_server st) \<and> length (as_clients st) = n \<and>
     (\<exists>val. kv_lookup (as_server st) ''k'' = Some (val, of_nat (length es + 1)) \<and> dec val = Some es) \<and>
     (\<forall>e\<in>set es. 0 \<le> en_Id e \<and> en_Id e < int n) \<and> (\<forall>c<n. client_ok es (int c) (as_clients st ! c))"

lemma client_ok_ok: "client_ok es c a \<Longrightarrow> appends_ok (numbers_of c es) (ac_res a)"
  by (auto simp: client_ok_def appends_ok_def)

lemma Get_of_lookup: "kv_inv kv \<Longrightarrow> kv_lookup kv k = Some (v, ver) \<Longrightarrow> KVServer_Get k kv = \<lparr>gr_Value = v, gr_Version = ver, gr_Err = OK\<rparr>"
  by (simp add: kv_lookup_Some KVServer_Get_def)

lemma of_nat_64_inj: "m < 2 ^ 64 \<Longrightarrow> n < 2 ^ 64 \<Longrightarrow> (of_nat m :: 64 word) = of_nat n \<longleftrightarrow> m = n"
  by (simp add: word_of_nat_eq_iff take_bit_nat_eq_self)

lemma sint_of_nat_64: "n < 2 ^ 63 \<Longrightarrow> sint (of_nat n :: 64 word) = int n"
  by (simp add: signed_of_nat signed_take_bit_int_eq_self)

text \<open>A put that is accepted was prepared from the present list: nobody else has written since.\<close>

lemma append_put_current:
  assumes "append_inv dec n es st" and "c < n" and "ac_phase (as_clients st ! c) = Writing es0 ver"
    and "KVServer_Put \<lparr>pa_Key = ''k'', pa_Value = b, pa_Version = ver\<rparr> (as_server st) = (e, kv')" and "length es + 1 < 2 ^ 64"
  shows "(e = OK \<and> es0 = es \<and> kv_inv kv' \<and> kv_lookup kv' ''k'' = Some (b, of_nat (length es + 2))) \<or> (e = ErrVersion \<and> kv' = as_server st)"
proof -
  let ?a = "\<lparr>pa_Key = ''k'', pa_Value = b, pa_Version = ver\<rparr>"
  have inv: "kv_inv (as_server st)" using assms(1) by (simp add: append_inv_def)
  obtain val where l: "kv_lookup (as_server st) ''k'' = Some (val, of_nat (length es + 1))" using assms(1) by (auto simp: append_inv_def)
  have "phase_ok es (Writing es0 ver)" using assms(1-3) by (auto simp: append_inv_def client_ok_def)
  then obtain rest where es: "es = es0 @ rest" "ver = of_nat (length es0 + 1)" by auto
  have res: "e = (if of_nat (length es + 1) = ver then OK else ErrVersion)"
    using kvs.put_result [OF inv, of ?a] l assms(4) by simp
  show ?thesis
  proof (cases "e = OK")
    case True
    then have "(of_nat (length es + 1) :: 64 word) = of_nat (length es0 + 1)" using res es(2) by (simp split: if_splits)
    then have "length es = length es0" using of_nat_64_inj [of "length es + 1" "length es0 + 1"] assms(5) es(1) by simp
    then have "es0 = es" using es(1) by simp
    moreover have "kv_inv kv'" using kvs.put_inv [OF inv, of ?a] assms(4) by simp
    moreover have "kv_lookup kv' ''k'' = Some (b, ver + 1)" using kvs.put_lookup [OF inv, of ?a] assms(4) True by simp
    ultimately show ?thesis using True es(2) by (simp add: add.commute)
  next
    case False
    then show ?thesis using res assms(4) kvs.put_result [OF inv, of ?a]
      by (auto simp: KVServer_Put_def split: option.splits if_splits)
  qed
qed

lemma client_ok_after_put:
  assumes "client_ok es c a"
  shows "e = ErrVersion \<Longrightarrow> clerk_answers e err \<Longrightarrow> client_ok es c (append_after_put err a)"
    and "clerk_answers OK err \<Longrightarrow> client_ok (es @ [\<lparr>en_Id = c, en_N = ac_i a\<rparr>]) c (append_after_put err a)"
  using assms by (auto simp: client_ok_def append_after_put_def clerk_answers_def numbers_of_snoc increasing_snoc)

lemma client_ok_other:
  assumes "client_ok es d a" and "d \<noteq> c"
  shows "client_ok (es @ [\<lparr>en_Id = c, en_N = i\<rparr>]) d a"
proof -
  have "phase_ok (es @ [x]) (ac_phase a)" for x using assms(1) by (cases "ac_phase a") (auto simp: client_ok_def)
  then show ?thesis using assms by (simp add: client_ok_def numbers_of_snoc)
qed

lemma append_step_inv:
  assumes step: "append_step enc dec st st'" and inv: "append_inv dec n es st" and len: "length es + 1 < 2 ^ 64"
    and json: "\<And>es b. enc es = Some b \<Longrightarrow> dec b = Some es"
  shows "\<exists>es'. append_inv dec n es' st' \<and> length es' \<le> Suc (length es)"
  using step
proof (cases rule: append_step.cases)
  case (append_get c val ver es1)
  have cn: "c < n" using append_get inv by (simp add: append_inv_def)
  obtain val' where v: "kv_lookup (as_server st) ''k'' = Some (val', of_nat (length es + 1))" "dec val' = Some es"
    using inv by (auto simp: append_inv_def)
  have "es1 = es" "ver = of_nat (length es + 1)" using Get_of_lookup [OF _ v(1)] v(2) inv append_get by (auto simp: append_inv_def)
  moreover have "client_ok es (int c) (as_clients st ! c)" using inv cn by (simp add: append_inv_def)
  ultimately have "client_ok es (int c) ((as_clients st ! c)\<lparr>ac_phase := Writing es1 ver\<rparr>)" by (simp add: client_ok_def)
  then have "append_inv dec n es st'" using inv append_get by (auto simp: append_inv_def nth_list_update)
  then show ?thesis by auto
next
  case (append_put c es0 ver b e kv' err)
  let ?a = "as_clients st ! c" and ?e = "\<lparr>en_Id = int c, en_N = ac_i (as_clients st ! c)\<rparr>"
  have cn: "c < n" using append_put inv by (simp add: append_inv_def)
  have ok: "client_ok es (int d) (as_clients st ! d)" if "d < n" for d using inv that by (simp add: append_inv_def)
  consider "e = OK" "es0 = es" "kv_inv kv'" "kv_lookup kv' ''k'' = Some (b, of_nat (length es + 2))" | "e = ErrVersion" "kv' = as_server st"
    using append_put_current [OF inv cn append_put(3,5) len] by blast
  then show ?thesis
  proof cases
    case a: 1
    have "client_ok (es @ [?e]) (int d) ((as_clients st)[c := append_after_put err ?a] ! d)" if "d < n" for d
    proof (cases "d = c")
      case True
      then show ?thesis using client_ok_after_put(2) [OF ok [OF cn]] append_put a by simp
    next
      case False
      then show ?thesis using client_ok_other [OF ok [OF that]] by simp
    qed
    moreover have "dec b = Some (es @ [?e])" using json append_put(4) a(2) by simp
    ultimately have "append_inv dec n (es @ [?e]) st'" using inv append_put a cn by (simp add: append_inv_def)
    then show ?thesis by (intro exI [of _ "es @ [?e]"]) simp
  next
    case a: 2
    have "client_ok es (int d) ((as_clients st)[c := append_after_put err ?a] ! d)" if "d < n" for d
      using client_ok_after_put(1) [OF ok [OF cn] a(1)] append_put a ok [OF that] cn inv by (cases "d = c") (simp_all add: append_inv_def)
    then have "append_inv dec n es st'" using inv append_put a by (simp add: append_inv_def)
    then show ?thesis by auto
  qed
qed

lemma append_run_inv:
  assumes "append_run enc dec n k st" and "k < 2 ^ 64 - 2" and json: "\<And>es b. enc es = Some b \<Longrightarrow> dec b = Some es"
  shows "\<exists>es. append_inv dec n es st \<and> length es \<le> k"
  using assms(1,2)
proof (induction rule: append_run.induct)
  case (run_init b0)
  have "kv_lookup (as_server (append_init b0 n)) ''k'' = Some (b0, 1)"
    by (simp add: append_init_def KVServer_Put_def KVServer_install_def MakeKVServer_def kv_lookup_def zget_def)
  then have "append_inv dec n [] (append_init b0 n)" using json [OF run_init(1)]
    by (simp add: append_inv_def append_init_def kv_inv_Put kv_inv_Make client_ok_def numbers_of_def increasing_def next_of_def)
  then show ?case by auto
next
  case (run_step k st st')
  then obtain es where es: "append_inv dec n es st" "length es \<le> k" by auto
  then have "length es + 1 < 2 ^ 64" using run_step.prems by simp
  from append_step_inv [OF run_step.hyps(2) es(1) this json] es(2) show ?case by fastforce
qed

section \<open>A clerk over the lossy network\<close>

text \<open>
  The clerk of \<open>KV_Clerk\<close> as an \<open>IKVClerk\<close>: its state counts the calls, and \<open>sched n\<close> tells, for
  call number \<open>n\<close>, the fate of each attempt and what other clients do meanwhile.
\<close>

type_synonym schedule = "nat \<Rightarrow> (nat \<Rightarrow> call_outcome) \<times> (nat \<Rightarrow> PutArgs list)"

definition lossy_clerk :: "schedule \<Rightarrow> (nat \<times> kv_net) IKVClerk" where
  "lossy_clerk sched = \<lparr>
     ck_Get = (\<lambda>key (n, s). map_option (\<lambda>(r, s'). ((gr_Value r, gr_Version r, gr_Err r), (Suc n, s'))) (Clerk_Get (fst (sched n)) (snd (sched n)) key 0 s)),
     ck_Put = (\<lambda>key value ver (n, s). map_option (\<lambda>(e, s'). (e, (Suc n, s'))) (Clerk_Put (fst (sched n)) (snd (sched n)) key value ver s))\<rparr>"

text \<open>The state of a key before and after the write of its only writer.\<close>

definition unwritten :: "string \<Rightarrow> Tversion \<Rightarrow> kv_net \<Rightarrow> bool" where
  "unwritten key ver s \<longleftrightarrow> kv_inv (net_server s) \<and> kvs.version (net_server s) key = ver \<and>
     (kv_lookup (net_server s) key = None \<longrightarrow> ver = 0)"

definition written :: "string \<Rightarrow> string \<Rightarrow> Tversion \<Rightarrow> kv_net \<Rightarrow> bool" where
  "written key value ver s \<longleftrightarrow> kv_inv (net_server s) \<and> kv_lookup (net_server s) key = Some (value, ver + 1)"

lemma lookup_others:
  assumes "kv_inv kv" and "\<forall>a\<in>set ps. pa_Key a \<noteq> key"
  shows "kv_lookup (kvs.puts ps kv) key = kv_lookup kv key"
  using assms by (induction ps arbitrary: kv) (auto simp: kvs.put_lookup kv_inv_Put)

lemma unwritten_others: "unwritten key ver s \<Longrightarrow> \<forall>a\<in>set ps. pa_Key a \<noteq> key \<Longrightarrow> unwritten key ver (run_others ps s)"
  by (simp add: unwritten_def run_others_server kvs.puts_inv lookup_others kvs.version_def)

lemma written_others: "written key value ver s \<Longrightarrow> \<forall>a\<in>set ps. pa_Key a \<noteq> key \<Longrightarrow> written key value ver (run_others ps s)"
  by (simp add: written_def run_others_server kvs.puts_inv lookup_others)

lemma written_unwritten: "written key value ver s \<Longrightarrow> unwritten key (ver + 1) s"
  by (simp add: written_def unwritten_def kvs.version_def)

lemma put_unwritten:
  assumes "unwritten key ver s"
  shows "\<exists>s'. run_put \<lparr>pa_Key = key, pa_Value = value, pa_Version = ver\<rparr> s = (OK, s') \<and> written key value ver s'"
proof -
  let ?a = "\<lparr>pa_Key = key, pa_Value = value, pa_Version = ver\<rparr>"
  have inv: "kv_inv (net_server s)" using assms by (simp add: unwritten_def)
  have ok: "fst (KVServer_Put ?a (net_server s)) = OK"
    using assms kvs.put_result [OF inv, of ?a] by (auto simp: unwritten_def kvs.version_def split: option.splits)
  then have "kv_lookup (snd (KVServer_Put ?a (net_server s))) key = Some (value, ver + 1)" using kvs.put_lookup [OF inv, of ?a] by simp
  then show ?thesis using ok kv_inv_Put [OF inv, of ?a] by (auto simp: run_put_def written_def split: prod.splits)
qed

lemma put_written:
  assumes "written key value ver s"
  shows "\<exists>s'. run_put \<lparr>pa_Key = key, pa_Value = value, pa_Version = ver\<rparr> s = (ErrVersion, s') \<and> written key value ver s'"
proof -
  let ?a = "\<lparr>pa_Key = key, pa_Value = value, pa_Version = ver\<rparr>"
  have inv: "kv_inv (net_server s)" using assms by (simp add: written_def)
  have "fst (KVServer_Put ?a (net_server s)) = ErrVersion"
    using assms kvs.put_result [OF inv, of ?a] by (simp add: written_def)
  then show ?thesis using kvs.put_lookup [OF inv, of ?a] kv_inv_Put [OF inv, of ?a] assms
    by (auto simp: run_put_def written_def split: prod.splits)
qed

text \<open>A put by the only writer of a key takes effect; the answer is \<open>OK\<close>, or \<open>ErrMaybe\<close> after a resend.\<close>

definition avoids :: "string \<Rightarrow> (nat \<Rightarrow> PutArgs list) \<Rightarrow> bool" where
  "avoids key env \<longleftrightarrow> (\<forall>j. \<forall>a\<in>set (env j). pa_Key a \<noteq> key)"

lemma sole_resend:
  assumes "os n = CallOK" and "i \<le> n" and "avoids key env"
    and "written key value ver s \<or> unwritten key ver s"
  shows "\<exists>e s'. put_resend os env \<lparr>pa_Key = key, pa_Value = value, pa_Version = ver\<rparr> i s = Some (e, s') \<and> e \<in> {OK, ErrVersion} \<and> written key value ver s'"
  using assms(2,4)
proof (induction "n - i" arbitrary: i s)
  case 0
  let ?s1 = "run_others (env i) s"
  have "written key value ver ?s1 \<or> unwritten key ver ?s1" using 0 assms(3) written_others unwritten_others unfolding avoids_def by blast
  then show ?case using 0 assms(1) put_unwritten [of key ver ?s1 "value"] put_written [of key "value" ver ?s1] by (auto simp: put_resend_step(3))
next
  case (Suc d)
  let ?s1 = "run_others (env i) s" and ?a = "\<lparr>pa_Key = key, pa_Value = value, pa_Version = ver\<rparr>"
  have s1: "written key value ver ?s1 \<or> unwritten key ver ?s1" using Suc.prems assms(3) written_others unwritten_others unfolding avoids_def by blast
  then obtain e s2 where put: "run_put ?a ?s1 = (e, s2)" "e \<in> {OK, ErrVersion}" "written key value ver s2"
    using put_unwritten [of key ver ?s1 "value"] put_written [of key "value" ver ?s1] by auto
  show ?case
    using Suc.hyps(1) [of "Suc i" ?s1] Suc.hyps(1) [of "Suc i" s2] Suc.hyps(2) Suc.prems s1 put
    by (cases "os i") (auto simp: put_resend_step)
qed

lemma sole_put:
  assumes "os n = CallOK" and "avoids key env" and "unwritten key ver s"
  shows "\<exists>e s'. Clerk_Put os env key v ver s = Some (e, s') \<and> written key v ver s' \<and> (e = OK \<or> e = ErrMaybe \<and> os 0 \<noteq> CallOK)"
proof -
  let ?s1 = "run_others (env 0) s" and ?a = "\<lparr>pa_Key = key, pa_Value = v, pa_Version = ver\<rparr>"
  have u: "unwritten key ver ?s1" using assms unwritten_others unfolding avoids_def by blast
  then obtain s2 where put: "run_put ?a ?s1 = (OK, s2)" "written key v ver s2" using put_unwritten by blast
  show ?thesis
  proof (cases "os 0 = CallOK")
    case True
    then show ?thesis using put by (simp add: Clerk_Put_def call_put_def Let_def)
  next
    case False
    then have n: "1 \<le> n" using assms(1) by (cases n) auto
    let ?s2 = "if os 0 = CallLost then ?s1 else s2"
    have "written key v ver ?s2 \<or> unwritten key ver ?s2" using u put(2) by simp
    then obtain e s' where "put_resend os env ?a 1 ?s2 = Some (e, s')" "e \<in> {OK, ErrVersion}" "written key v ver s'"
      using sole_resend [where os = os and n = n, OF assms(1) n assms(2), of "v" ver ?s2] by blast
    then show ?thesis using False put by (cases "os 0") (auto simp: Clerk_Put_def call_put_def Let_def)
  qed
qed

lemma KvTest_Put_lossy:
  assumes "Clerk_Put (fst (sched n)) (snd (sched n)) key value ver s = Some (e, s')" and "kt_clerk st = (n, s)"
  shows "\<exists>st'. KvTest_Put (lossy_clerk sched) key value ver me st = Some (e, st') \<and> kt_clerk st' = (Suc n, s')"
  using assms by (simp add: KvTest_Put_def lossy_clerk_def log_op_def)

lemma PutAtLeastOnce_loop:
  assumes "\<forall>i. avoids key (snd (sched i))" and "\<forall>i. \<exists>j. fst (sched i) j = CallOK"
    and "fst (sched (n + m)) 0 = CallOK" and "kt_clerk st = (n, s)" and "unwritten key ver s"
  shows "\<exists>j st' s'. j \<le> m \<and> KvTest_PutAtLeastOnce (lossy_clerk sched) key value ver me st = Some (Inr (ver + of_nat (Suc j), st')) \<and>
    kt_clerk st' = (n + Suc j, s') \<and> written key value (ver + of_nat j) s'"
  using assms(3-5)
proof (induction m arbitrary: n ver s st)
  case 0
  obtain j where "fst (sched n) j = CallOK" using assms(2) by blast
  from sole_put [where os = "fst (sched n)" and n = j, OF this spec [OF assms(1), of n] "0.prems"(3), where v = "value"] "0.prems"(1)
  obtain s' where c: "Clerk_Put (fst (sched n)) (snd (sched n)) key value ver s = Some (OK, s')" "written key value ver s'" by auto
  with KvTest_Put_lossy [where sched = sched and n = n, OF c(1) "0.prems"(2), of me] show ?case
    by (subst KvTest_PutAtLeastOnce.simps) (auto simp: add.commute)
next
  case (Suc m)
  obtain j where "fst (sched n) j = CallOK" using assms(2) by blast
  from sole_put [where os = "fst (sched n)" and n = j, OF this spec [OF assms(1), of n] Suc.prems(3), where v = "value"]
  obtain e s' where c: "Clerk_Put (fst (sched n)) (snd (sched n)) key value ver s = Some (e, s')" "written key value ver s'" "e = OK \<or> e = ErrMaybe"
    by auto
  obtain st' where st': "KvTest_Put (lossy_clerk sched) key value ver me st = Some (e, st')" "kt_clerk st' = (Suc n, s')"
    using KvTest_Put_lossy [where sched = sched and n = n, OF c(1) Suc.prems(2)] by blast
  show ?case
  proof (cases "e = OK")
    case True
    then show ?thesis using st' c(2) by (subst KvTest_PutAtLeastOnce.simps) (auto intro!: exI [of _ 0] simp: add.commute)
  next
    case False
    then have "e = ErrMaybe" using c(3) by simp
    have "fst (sched (Suc n + m)) 0 = CallOK" using Suc.prems(1) by simp
    from Suc.IH [OF this st'(2) written_unwritten [OF c(2)]]
    obtain j st2 s2 where "j \<le> m" "KvTest_PutAtLeastOnce (lossy_clerk sched) key value (ver + 1) me st' = Some (Inr (ver + 1 + of_nat (Suc j), st2))"
      "kt_clerk st2 = (Suc n + Suc j, s2)" "written key value (ver + 1 + of_nat j) s2" by blast
    then show ?thesis using st' \<open>e = ErrMaybe\<close>
      by (subst KvTest_PutAtLeastOnce.simps) (auto intro!: exI [of _ "Suc j"] exI [of _ st2] exI [of _ s2] simp: ac_simps)
  qed
qed

section \<open>What the checker of the append test sees\<close>

text \<open>
  Any number of clients run \<open>OneClientAppend\<close> against the server, in any interleaving and with any
  clerk answers that fit what the server did. After fewer than \<open>2 ^ 63 - 2\<close> steps the \<open>Get\<close> of the
  checker succeeds, the value decodes, and \<open>CheckAppends\<close> accepts it with the clients' results.
\<close>

lemma append_run_checked:
  assumes "append_run enc dec n k st" and "k < 2 ^ 63 - 2"
    and "\<forall>es b. enc es = Some b \<longrightarrow> dec b = Some es" and "\<forall>m. finite (dom m) \<longrightarrow> key_order m (order m)"
  shows "\<exists>val ver es. KVServer_Get ''k'' (as_server st) = \<lparr>gr_Value = val, gr_Version = ver, gr_Err = OK\<rparr> \<and> dec val = Some es \<and>
    length es \<le> k \<and> KvTest_CheckAppends order es n (map ac_res (as_clients st)) ver = Inr ()"
proof -
  have "k < 2 ^ 64 - 2" using assms(2) by simp
  then obtain es where es: "append_inv dec n es st" "length es \<le> k" using append_run_inv assms(1,3) by blast
  obtain val where v: "kv_lookup (as_server st) ''k'' = Some (val, of_nat (length es + 1))" "dec val = Some es"
    using es(1) by (auto simp: append_inv_def)
  have inv: "kv_inv (as_server st)" "length (map ac_res (as_clients st)) = n" "\<forall>e\<in>set es. 0 \<le> en_Id e \<and> en_Id e < int n"
    using es(1) by (simp_all add: append_inv_def)
  have ord: "set (order m) = dom m" if "finite (dom m)" for m using assms(4) that by (simp add: key_order_def)
  have "sint (of_nat (length es + 1) :: 64 word) = int (length es) + 1"
    using es(2) assms(2) by (simp only: sint_of_nat_64)
  moreover have "appends_ok (numbers_of (int c) es) (map ac_res (as_clients st) ! c)" if "c < n" for c
    using es(1) that client_ok_ok by (auto simp: append_inv_def)
  ultimately have "KvTest_CheckAppends order es n (map ac_res (as_clients st)) (of_nat (length es + 1)) = Inr ()"
    using CheckAppends_eq [OF ord inv(3,2)] by simp
  then show ?thesis using Get_of_lookup [OF inv(1) v(1)] v(2) es(2) by blast
qed

text \<open>
  \<open>PutAtLeastOnce\<close> does its job on a lossy network. For the only writer of a key, starting
  from the key's present version, it returns as soon as the first attempt of one of its puts
  goes through; the value is then stored, and the version it returns is the key's version.
\<close>

theorem PutAtLeastOnce_stores:
  assumes "\<forall>i j. \<forall>a\<in>set (snd (sched i) j). pa_Key a \<noteq> key" and "\<forall>i. \<exists>j. fst (sched i) j = CallOK"
    and "fst (sched (n + m)) 0 = CallOK" and "kt_clerk st = (n, s)" and "kv_inv (net_server s)"
    and "KVServer_Get key (net_server s) = \<lparr>gr_Value = old, gr_Version = ver, gr_Err = err\<rparr>"
  shows "\<exists>j st' s'. j \<le> m \<and> KvTest_PutAtLeastOnce (lossy_clerk sched) key value ver me st = Some (Inr (ver + of_nat (Suc j), st')) \<and>
    kt_clerk st' = (n + Suc j, s') \<and>
    KVServer_Get key (net_server s') = \<lparr>gr_Value = value, gr_Version = ver + of_nat (Suc j), gr_Err = OK\<rparr>"
proof -
  have "unwritten key ver s"
    using assms(5,6) by (auto simp: unwritten_def kvs.version_def KVServer_Get_def kv_lookup_def split: option.splits)
  moreover have "\<forall>i. avoids key (snd (sched i))" using assms(1) by (simp add: avoids_def)
  ultimately
  obtain j st' s' where j: "j \<le> m" "KvTest_PutAtLeastOnce (lossy_clerk sched) key value ver me st = Some (Inr (ver + of_nat (Suc j), st'))"
    "kt_clerk st' = (n + Suc j, s')" "written key value (ver + of_nat j) s'" using PutAtLeastOnce_loop [OF _ assms(2-4)] by blast
  have "KVServer_Get key (net_server s') = \<lparr>gr_Value = value, gr_Version = ver + of_nat j + 1, gr_Err = OK\<rparr>"
    using j(4) Get_of_lookup by (auto simp: written_def)
  then show ?thesis using j by (auto simp: add.assoc add.commute)
qed

definition demo_test :: "(nat \<times> kv_net) kv_test" where
  "demo_test = \<lparr>kt_oplog = Some [], kt_ops = 0, kt_clock = int, kt_tick = 0, kt_clerk = (0, demo_net)\<rparr>"

text \<open>The reply of the first attempt is lost, later calls go through.\<close>

definition demo_sched :: schedule where
  "demo_sched n = (\<lambda>j. if n = 0 \<and> j = 0 then ReplyLost else CallOK, \<lambda>_. [])"

theorem PutAtLeastOnce_stores_witness:
  "\<exists>ver st' s'. KvTest_PutAtLeastOnce (lossy_clerk demo_sched) ''a'' ''v'' 0 7 demo_test = Some (Inr (ver, st')) \<and>
     kt_clerk st' = s' \<and> gr_Value (KVServer_Get ''a'' (net_server (snd s'))) = ''v''"
proof -
  have "fst (demo_sched (0 + 1)) 0 = CallOK" "kt_clerk demo_test = (0, demo_net)" "kv_inv (net_server demo_net)"
    "KVServer_Get ''a'' (net_server demo_net) = \<lparr>gr_Value = [], gr_Version = 0, gr_Err = ErrNoKey\<rparr>"
    "\<forall>i j. \<forall>a\<in>set (snd (demo_sched i) j). pa_Key a \<noteq> ''a''" "\<forall>i. \<exists>j. fst (demo_sched i) j = CallOK"
    by (auto simp: demo_sched_def demo_test_def demo_net_def kv_inv_def KVServer_Get_def MakeKVServer_def intro: exI [of _ 1])
  from PutAtLeastOnce_stores [OF this(5,6,1-4), of "''v''" 7] show ?thesis by fastforce
qed

end
