(* ===== verification/KV_Spawn.thy ===== *)
theory KV_Spawn
  imports KV_Append Tester_Config
begin

text \<open>
  Running many test clients at once: \<open>runClient\<close> and \<open>SpawnClientsAndWait\<close> of
  \<open>kvtest1/kvtest.go\<close>, with the clerks of \<open>kvsrv1/test.go\<close>.

  The goroutines share the unbuffered channel \<open>done\<close>, and each has an unbuffered channel \<open>ca\<close> for
  its result: a send and the receive that takes it are one step. What a client does between two
  looks at \<open>done\<close>, and the \<open>IClerkMaker\<close>, are a record \<open>Fclnt\<close> over a state \<open>'w\<close> that all clients
  and their server share.
\<close>

section \<open>SpawnClientsAndWait\<close>

text \<open>
  \<open>fn_step\<close> is a step of client \<open>i\<close> inside its loop, \<open>fn_select\<close> says that it is at its \<open>select\<close>,
  and \<open>fn_result\<close> is what it returns when it finds \<open>done\<close> there.
\<close>

record 'w Fclnt =
  fn_step :: "nat \<Rightarrow> 'w \<Rightarrow> 'w \<Rightarrow> bool"
  fn_select :: "nat \<Rightarrow> 'w \<Rightarrow> bool"
  fn_result :: "nat \<Rightarrow> 'w \<Rightarrow> ClntRes"
  fn_MakeClerk :: "nat \<Rightarrow> 'w \<Rightarrow> 'w"
  fn_DeleteClerk :: "nat \<Rightarrow> 'w \<Rightarrow> 'w"

text \<open>Where a goroutine of \<open>runClient\<close> is.\<close>

datatype client_pc = Fresh | Running | Sending ClntRes | Deleting | Exited

text \<open>Where \<open>SpawnClientsAndWait\<close> is; the numbers are the loop counters.\<close>

datatype spawn_pc = Spawning | Sleeping | Signalling nat | Collecting nat | SpawnReturned

record 'w spawn =
  sp_pc :: spawn_pc
  sp_clients :: "client_pc list"
  sp_rs :: "ClntRes list"
  sp_world :: 'w

definition spawn_init :: "'w \<Rightarrow> 'w spawn" where
  "spawn_init w = \<lparr>sp_pc = Spawning, sp_clients = [], sp_rs = [], sp_world = w\<rparr>"

inductive runClient :: "'w Fclnt \<Rightarrow> 'w spawn \<Rightarrow> 'w spawn \<Rightarrow> bool" for F where
  make: "i < length (sp_clients s) \<Longrightarrow> sp_clients s ! i = Fresh \<Longrightarrow>
    runClient F s (s\<lparr>sp_clients := (sp_clients s)[i := Running], sp_world := fn_MakeClerk F i (sp_world s)\<rparr>)"
| work: "i < length (sp_clients s) \<Longrightarrow> sp_clients s ! i = Running \<Longrightarrow> fn_step F i (sp_world s) w \<Longrightarrow>
    runClient F s (s\<lparr>sp_world := w\<rparr>)"
| delete: "i < length (sp_clients s) \<Longrightarrow> sp_clients s ! i = Deleting \<Longrightarrow>
    runClient F s (s\<lparr>sp_clients := (sp_clients s)[i := Exited], sp_world := fn_DeleteClerk F i (sp_world s)\<rparr>)"

inductive SpawnClientsAndWait :: "'w Fclnt \<Rightarrow> nat \<Rightarrow> 'w spawn \<Rightarrow> 'w spawn \<Rightarrow> bool" for F nclnt where
  spawn: "sp_pc s = Spawning \<Longrightarrow> length (sp_clients s) < nclnt \<Longrightarrow>
    SpawnClientsAndWait F nclnt s (s\<lparr>sp_clients := sp_clients s @ [Fresh]\<rparr>)"
| spawned: "sp_pc s = Spawning \<Longrightarrow> length (sp_clients s) = nclnt \<Longrightarrow> SpawnClientsAndWait F nclnt s (s\<lparr>sp_pc := Sleeping\<rparr>)"
| wake: "sp_pc s = Sleeping \<Longrightarrow> SpawnClientsAndWait F nclnt s (s\<lparr>sp_pc := Signalling 0\<rparr>)"
| signal: "sp_pc s = Signalling k \<Longrightarrow> k < nclnt \<Longrightarrow> i < length (sp_clients s) \<Longrightarrow> sp_clients s ! i = Running \<Longrightarrow>
    fn_select F i (sp_world s) \<Longrightarrow>
    SpawnClientsAndWait F nclnt s (s\<lparr>sp_pc := Signalling (Suc k), sp_clients := (sp_clients s)[i := Sending (fn_result F i (sp_world s))]\<rparr>)"
| signalled: "sp_pc s = Signalling nclnt \<Longrightarrow>
    SpawnClientsAndWait F nclnt s (s\<lparr>sp_pc := Collecting 0, sp_rs := replicate nclnt \<lparr>Nok = 0, Nmaybe = 0\<rparr>\<rparr>)"
| collect: "sp_pc s = Collecting k \<Longrightarrow> k < nclnt \<Longrightarrow> sp_clients s ! k = Sending r \<Longrightarrow>
    SpawnClientsAndWait F nclnt s (s\<lparr>sp_pc := Collecting (Suc k), sp_clients := (sp_clients s)[k := Deleting], sp_rs := (sp_rs s)[k := r]\<rparr>)"
| collected: "sp_pc s = Collecting nclnt \<Longrightarrow> SpawnClientsAndWait F nclnt s (s\<lparr>sp_pc := SpawnReturned\<rparr>)"

definition spawn_step :: "'w Fclnt \<Rightarrow> nat \<Rightarrow> 'w spawn \<Rightarrow> 'w spawn \<Rightarrow> bool" where
  "spawn_step F nclnt s s' \<longleftrightarrow> runClient F s s' \<or> SpawnClientsAndWait F nclnt s s'"

text \<open>\<open>spawn_run\<close> counts the steps.\<close>

inductive spawn_run :: "'w Fclnt \<Rightarrow> nat \<Rightarrow> 'w \<Rightarrow> nat \<Rightarrow> 'w spawn \<Rightarrow> bool" for F nclnt w0 where
  run_start: "spawn_run F nclnt w0 0 (spawn_init w0)"
| run_more: "spawn_run F nclnt w0 k s \<Longrightarrow> spawn_step F nclnt s s' \<Longrightarrow> spawn_run F nclnt w0 (Suc k) s'"

section \<open>What is true in every state\<close>

fun stopped :: "client_pc \<Rightarrow> bool" where
  "stopped Fresh = False" | "stopped Running = False" | "stopped _ = True"

fun sending :: "client_pc \<Rightarrow> bool" where
  "sending (Sending r) = True" | "sending _ = False"

definition stops :: "client_pc list \<Rightarrow> nat set" where
  "stops cs = {i. i < length cs \<and> stopped (cs ! i)}"

text \<open>What each point of \<open>SpawnClientsAndWait\<close> knows about the clients and the results, \<open>res\<close> being the results in the present state.\<close>

fun pc_inv :: "nat \<Rightarrow> (nat \<Rightarrow> ClntRes) \<Rightarrow> spawn_pc \<Rightarrow> client_pc list \<Rightarrow> ClntRes list \<Rightarrow> bool" where
  "pc_inv n res Spawning cs rs \<longleftrightarrow> length cs \<le> n \<and> stops cs = {}"
| "pc_inv n res Sleeping cs rs \<longleftrightarrow> length cs = n \<and> stops cs = {}"
| "pc_inv n res (Signalling k) cs rs \<longleftrightarrow> length cs = n \<and> card (stops cs) = k \<and> k \<le> n \<and> (\<forall>i\<in>stops cs. sending (cs ! i))"
| "pc_inv n res (Collecting k) cs rs \<longleftrightarrow> length cs = n \<and> length rs = n \<and> k \<le> n \<and> stops cs = {..<n} \<and>
     (\<forall>i<n. sending (cs ! i) \<longleftrightarrow> k \<le> i) \<and> (\<forall>i<k. rs ! i = res i)"
| "pc_inv n res SpawnReturned cs rs \<longleftrightarrow> length cs = n \<and> length rs = n \<and> stops cs = {..<n} \<and>
     (\<forall>i<n. \<not> sending (cs ! i)) \<and> (\<forall>i<n. rs ! i = res i)"

definition spawn_inv :: "'w Fclnt \<Rightarrow> nat \<Rightarrow> 'w spawn \<Rightarrow> bool" where
  "spawn_inv F n s \<longleftrightarrow> pc_inv n (\<lambda>i. fn_result F i (sp_world s)) (sp_pc s) (sp_clients s) (sp_rs s) \<and>
     (\<forall>i<length (sp_clients s). \<forall>r. sp_clients s ! i = Sending r \<longrightarrow> r = fn_result F i (sp_world s))"

lemma stops_update:
  "i < length cs \<Longrightarrow> stops (cs[i := c]) = (if stopped c then insert i (stops cs) else stops cs - {i})"
  by (auto simp: stops_def nth_list_update)

lemma stops_snoc [simp]: "stops (cs @ [Fresh]) = stops cs"
  by (auto simp: stops_def nth_append less_Suc_eq)

lemma stops_finite [simp]: "finite (stops cs)"
  by (simp add: stops_def)

lemma stops_all: "card (stops cs) = length cs \<Longrightarrow> stops cs = {..<length cs}"
  by (rule card_subset_eq) (auto simp: stops_def)

text \<open>The contract of the clients: the result of a client is its own, and no step changes it for others.\<close>

locale client_function =
  fixes F :: "'w Fclnt"
  assumes step_frame: "fn_step F i w w' \<Longrightarrow> j \<noteq> i \<Longrightarrow> fn_result F j w' = fn_result F j w"
    and make_frame: "fn_result F j (fn_MakeClerk F i w) = fn_result F j w"
    and delete_frame: "fn_result F j (fn_DeleteClerk F i w) = fn_result F j w"
begin

lemma pc_inv_cong:
  assumes "pc_inv n res pc cs rs" and "\<And>i. i \<in> stops cs \<Longrightarrow> res' i = res i"
  shows "pc_inv n res' pc cs rs"
  using assms by (cases pc) auto

lemma runClient_inv:
  assumes "runClient F s s'" and "spawn_inv F n s"
  shows "spawn_inv F n s'"
  using assms(1)
proof cases
  case (make i)
  have "i \<notin> stops (sp_clients s)" using make by (simp add: stops_def)
  then have "pc_inv n (\<lambda>i. fn_result F i (sp_world s)) (sp_pc s) ((sp_clients s)[i := Running]) (sp_rs s)"
    using assms(2) make by (cases "sp_pc s") (auto simp: spawn_inv_def stops_update nth_list_update)
  then show ?thesis using assms(2) make by (auto simp: spawn_inv_def make_frame nth_list_update)
next
  case (work i w)
  have "fn_result F j w = fn_result F j (sp_world s)" if "j \<in> stops (sp_clients s)" for j
    using that work step_frame [of i "sp_world s" w j] by (cases "j = i") (simp_all add: stops_def)
  moreover have "j \<in> stops (sp_clients s)" if "j < length (sp_clients s)" "sp_clients s ! j = Sending r" for j r
    using that by (simp add: stops_def)
  ultimately show ?thesis using assms(2) work pc_inv_cong [of n _ "sp_pc s" "sp_clients s" "sp_rs s" "\<lambda>i. fn_result F i w"]
    by (auto simp: spawn_inv_def)
next
  case (delete i)
  have "i \<in> stops (sp_clients s)" using delete by (simp add: stops_def)
  then have "pc_inv n (\<lambda>i. fn_result F i (sp_world s)) (sp_pc s) ((sp_clients s)[i := Exited]) (sp_rs s)"
    using assms(2) delete by (cases "sp_pc s") (auto simp: spawn_inv_def stops_update nth_list_update insert_absorb)
  then show ?thesis using assms(2) delete by (auto simp: spawn_inv_def delete_frame nth_list_update)
qed

lemma SpawnClientsAndWait_inv:
  assumes "SpawnClientsAndWait F n s s'" and "spawn_inv F n s"
  shows "spawn_inv F n s'"
  using assms(1)
proof cases
  case (signal k i)
  have "i \<notin> stops (sp_clients s)" using signal by (simp add: stops_def)
  then show ?thesis using assms(2) signal by (auto simp: spawn_inv_def stops_update nth_list_update)
next
  case signalled
  then show ?thesis using assms(2) stops_all [of "sp_clients s"] by (auto simp: spawn_inv_def)
next
  case (collect k r)
  then show ?thesis using assms(2) by (auto simp: spawn_inv_def stops_update nth_list_update less_Suc_eq insert_absorb)
qed (use assms(2) in \<open>auto simp: spawn_inv_def nth_append less_Suc_eq stops_def\<close>)

lemma spawn_run_inv: "spawn_run F n w0 k s \<Longrightarrow> spawn_inv F n s"
proof (induction rule: spawn_run.induct)
  case run_start
  show ?case by (simp add: spawn_init_def spawn_inv_def stops_def)
next
  case (run_more k s s')
  then show ?case using runClient_inv SpawnClientsAndWait_inv unfolding spawn_step_def by blast
qed

text \<open>When \<open>SpawnClientsAndWait\<close> returns, no client works any more, and it has the result of each of them.\<close>

lemma returned_results:
  assumes "spawn_run F n w0 k s" and "sp_pc s = SpawnReturned"
  shows "sp_rs s = map (\<lambda>i. fn_result F i (sp_world s)) [0..<n]" and "i < n \<Longrightarrow> sp_clients s ! i \<in> {Deleting, Exited}"
    and "length (sp_clients s) = n"
proof -
  have inv: "pc_inv n (\<lambda>i. fn_result F i (sp_world s)) SpawnReturned (sp_clients s) (sp_rs s)"
    using spawn_run_inv [OF assms(1)] assms(2) by (simp add: spawn_inv_def)
  then show "sp_rs s = map (\<lambda>i. fn_result F i (sp_world s)) [0..<n]" by (intro nth_equalityI) simp_all
  show "length (sp_clients s) = n" using inv by simp
  assume "i < n"
  then have "i \<in> stops (sp_clients s)" "\<not> sending (sp_clients s ! i)" using inv by simp_all
  then show "sp_clients s ! i \<in> {Deleting, Exited}" by (cases "sp_clients s ! i") (simp_all add: stops_def)
qed

end


section \<open>SpawnClientsAndWait returns\<close>

fun client_rank :: "client_pc \<Rightarrow> nat" where
  "client_rank Fresh = 4" | "client_rank Running = 3" | "client_rank (Sending r) = 2" | "client_rank Deleting = 1" | "client_rank Exited = 0"

fun pc_rank :: "nat \<Rightarrow> spawn_pc \<Rightarrow> nat" where
  "pc_rank n Spawning = 2 * n + 4"
| "pc_rank n Sleeping = 2 * n + 3"
| "pc_rank n (Signalling k) = n + 2 + (n - k)"
| "pc_rank n (Collecting k) = 1 + (n - k)"
| "pc_rank n SpawnReturned = 0"

definition spawn_rank :: "nat \<Rightarrow> 'w spawn \<Rightarrow> nat" where
  "spawn_rank n s = pc_rank n (sp_pc s) + 5 * (n - length (sp_clients s)) + sum_list (map client_rank (sp_clients s))"

definition all_done :: "'w spawn \<Rightarrow> bool" where
  "all_done s \<longleftrightarrow> sp_pc s = SpawnReturned \<and> set (sp_clients s) \<subseteq> {Exited}"

lemma rank_update:
  "i < length cs \<Longrightarrow> client_rank c < client_rank (cs ! i) \<Longrightarrow> sum_list (map client_rank (cs[i := c])) < sum_list (map client_rank cs)"
  by (induction cs arbitrary: i) (auto simp: less_Suc_eq_0_disj nth_Cons split: nat.splits)

text \<open>Every step of \<open>SpawnClientsAndWait\<close> itself goes forward: only the work of the clients can go on for ever.\<close>

lemma spawn_forward:
  assumes "SpawnClientsAndWait F n s s'" and inv: "pc_inv n res (sp_pc s) (sp_clients s) (sp_rs s)"
  shows "spawn_rank n s' < spawn_rank n s"
  using assms(1)
proof cases
  case (signal k i)
  then show ?thesis using rank_update [of i "sp_clients s" "Sending (fn_result F i (sp_world s))"] by (simp add: spawn_rank_def)
next
  case (collect k r)
  then show ?thesis using rank_update [of k "sp_clients s" Deleting] inv by (simp add: spawn_rank_def)
qed (simp_all add: spawn_rank_def)

text \<open>A client always comes back to its \<open>select\<close>, in the states that \<open>good\<close> describes.\<close>

locale returning_client_function = client_function F for F :: "'w Fclnt" +
  fixes good :: "'w \<Rightarrow> bool" and nclnt :: nat
  assumes good_step: "good w \<Longrightarrow> fn_step F i w w' \<Longrightarrow> good w'"
    and good_make: "good w \<Longrightarrow> good (fn_MakeClerk F i w)"
    and good_delete: "good w \<Longrightarrow> good (fn_DeleteClerk F i w)"
    and comes_back: "good w \<Longrightarrow> i < nclnt \<Longrightarrow> \<exists>w'. (fn_step F i)\<^sup>*\<^sup>* w w' \<and> fn_select F i w'"
begin

lemma good_spawn_step: "spawn_step F n s s' \<Longrightarrow> good (sp_world s) \<Longrightarrow> good (sp_world s')"
  by (auto simp: spawn_step_def elim!: runClient.cases SpawnClientsAndWait.cases intro: good_step good_make good_delete)

lemma spawn_run_good: "spawn_run F n w0 k s \<Longrightarrow> good w0 \<Longrightarrow> good (sp_world s)"
  by (induction rule: spawn_run.induct) (auto simp: spawn_init_def intro: good_spawn_step)

lemma work_steps:
  "(fn_step F i)\<^sup>*\<^sup>* w w' \<Longrightarrow> sp_world s = w \<Longrightarrow> i < length (sp_clients s) \<Longrightarrow> sp_clients s ! i = Running \<Longrightarrow>
   (spawn_step F n)\<^sup>*\<^sup>* s (s\<lparr>sp_world := w'\<rparr>)"
proof (induction rule: rtranclp_induct)
  case (step w1 w2)
  have "spawn_step F n (s\<lparr>sp_world := w1\<rparr>) (s\<lparr>sp_world := w2\<rparr>)"
    using work [of i "s\<lparr>sp_world := w1\<rparr>" F w2] step by (simp add: spawn_step_def)
  then show ?case using step by (meson rtranclp.rtrancl_into_rtrancl)
qed (metis rtranclp.rtrancl_refl spawn.surjective spawn.update_convs(4))

lemma signal_progress:
  assumes "spawn_inv F nclnt s" and "good (sp_world s)" and "sp_pc s = Signalling k" and "k < nclnt"
  shows "\<exists>s'. (spawn_step F nclnt)\<^sup>*\<^sup>* s s' \<and> spawn_rank nclnt s' < spawn_rank nclnt s"
proof -
  have len: "length (sp_clients s) = nclnt" and "card (stops (sp_clients s)) = k" using assms(1,3) by (simp_all add: spawn_inv_def)
  then have "\<not> {..<nclnt} \<subseteq> stops (sp_clients s)" using card_mono [of "stops (sp_clients s)" "{..<nclnt}"] assms(4) by auto
  then obtain i where "i < nclnt" "i \<notin> stops (sp_clients s)" by blast
  then have i: "i < nclnt" "\<not> stopped (sp_clients s ! i)" using len by (simp_all add: stops_def)
  show ?thesis
  proof (cases "sp_clients s ! i")
    case Fresh
    then have "spawn_step F nclnt s (s\<lparr>sp_clients := (sp_clients s)[i := Running], sp_world := fn_MakeClerk F i (sp_world s)\<rparr>)"
      using make [of i s F] i len by (simp add: spawn_step_def)
    moreover have "spawn_rank nclnt (s\<lparr>sp_clients := (sp_clients s)[i := Running], sp_world := fn_MakeClerk F i (sp_world s)\<rparr>) < spawn_rank nclnt s"
      using rank_update [of i "sp_clients s" Running] i Fresh len by (simp add: spawn_rank_def)
    ultimately show ?thesis by blast
  next
    case Running
    obtain w' where w': "(fn_step F i)\<^sup>*\<^sup>* (sp_world s) w'" "fn_select F i w'" using comes_back [OF assms(2) i(1)] by blast
    let ?s = "s\<lparr>sp_world := w'\<rparr>"
    let ?t = "?s\<lparr>sp_pc := Signalling (Suc k), sp_clients := (sp_clients s)[i := Sending (fn_result F i w')]\<rparr>"
    have "SpawnClientsAndWait F nclnt ?s ?t" using signal [of ?s k nclnt i F] assms(3,4) i len Running w' by simp
    then have "(spawn_step F nclnt)\<^sup>*\<^sup>* s ?t"
      using work_steps [OF w'(1), of s nclnt] i len Running by (simp add: spawn_step_def rtranclp.rtrancl_into_rtrancl)
    moreover have "spawn_rank nclnt ?t < spawn_rank nclnt s"
      using rank_update [of i "sp_clients s" "Sending (fn_result F i w')"] i len Running assms(3,4) by (simp add: spawn_rank_def)
    ultimately show ?thesis by blast
  qed (use i in simp_all)
qed

lemma one_step: "SpawnClientsAndWait F nclnt s s' \<Longrightarrow> spawn_inv F nclnt s \<Longrightarrow>
    \<exists>s'. (spawn_step F nclnt)\<^sup>*\<^sup>* s s' \<and> spawn_rank nclnt s' < spawn_rank nclnt s"
  using spawn_forward unfolding spawn_inv_def spawn_step_def by blast

lemma progress:
  assumes inv: "spawn_inv F nclnt s" and good: "good (sp_world s)" and "\<not> all_done s"
  shows "\<exists>s'. (spawn_step F nclnt)\<^sup>*\<^sup>* s s' \<and> spawn_rank nclnt s' < spawn_rank nclnt s"
proof -
  have pc: "pc_inv nclnt (\<lambda>i. fn_result F i (sp_world s)) (sp_pc s) (sp_clients s) (sp_rs s)" using inv by (simp add: spawn_inv_def)
  show ?thesis
  proof (cases "sp_pc s")
    case Spawning
    then show ?thesis using pc one_step [OF spawn inv] one_step [OF spawned inv] by (cases "length (sp_clients s) = nclnt") auto
  next
    case Sleeping
    then show ?thesis using one_step [OF wake inv] by blast
  next
    case (Signalling k)
    then show ?thesis using pc signal_progress [OF inv good] one_step [OF signalled inv] by (cases "k = nclnt") auto
  next
    case (Collecting k)
    show ?thesis
    proof (cases "k = nclnt")
      case False
      then have "k < nclnt" "sending (sp_clients s ! k)" using pc Collecting by auto
      then obtain r where "sp_clients s ! k = Sending r" by (cases "sp_clients s ! k") auto
      then show ?thesis using one_step [OF collect inv] Collecting \<open>k < nclnt\<close> by blast
    qed (use Collecting one_step [OF collected inv] in blast)
  next
    case SpawnReturned
    then obtain c where "c \<in> set (sp_clients s)" "c \<noteq> Exited" using assms(3) by (auto simp: all_done_def)
    then obtain i where i: "i < length (sp_clients s)" "sp_clients s ! i \<noteq> Exited" by (auto simp: in_set_conv_nth)
    then have "i \<in> stops (sp_clients s)" "\<not> sending (sp_clients s ! i)" using pc SpawnReturned by simp_all
    then have d: "sp_clients s ! i = Deleting" using i by (cases "sp_clients s ! i") (simp_all add: stops_def)
    let ?t = "s\<lparr>sp_clients := (sp_clients s)[i := Exited], sp_world := fn_DeleteClerk F i (sp_world s)\<rparr>"
    have "spawn_step F nclnt s ?t" using delete [of i s F] i d by (simp add: spawn_step_def)
    moreover have "spawn_rank nclnt ?t < spawn_rank nclnt s" using rank_update [of i "sp_clients s" Exited] i d by (simp add: spawn_rank_def)
    ultimately show ?thesis by blast
  qed
qed

lemma spawn_steps_inv: "(spawn_step F n)\<^sup>*\<^sup>* s s' \<Longrightarrow> spawn_inv F n s \<Longrightarrow> good (sp_world s) \<Longrightarrow> spawn_inv F n s' \<and> good (sp_world s')"
proof (induction rule: rtranclp_induct)
  case (step s1 s2)
  then show ?case using good_spawn_step runClient_inv SpawnClientsAndWait_inv unfolding spawn_step_def by blast
qed simp

lemma can_return:
  assumes "spawn_inv F nclnt s" and "good (sp_world s)"
  shows "\<exists>s'. (spawn_step F nclnt)\<^sup>*\<^sup>* s s' \<and> all_done s'"
  using assms
proof (induction "spawn_rank nclnt s" arbitrary: s rule: less_induct)
  case less
  show ?case
  proof (cases "all_done s")
    case False
    then obtain s1 where s1: "(spawn_step F nclnt)\<^sup>*\<^sup>* s s1" "spawn_rank nclnt s1 < spawn_rank nclnt s" using progress less.prems by blast
    then obtain s2 where "(spawn_step F nclnt)\<^sup>*\<^sup>* s1 s2" "all_done s2" using less.hyps spawn_steps_inv less.prems by blast
    then show ?thesis using s1(1) by (meson rtranclp_trans)
  qed blast
qed

end


section \<open>kvsrv1/test.go\<close>

record kv_Clerk =
  ck_clnt :: nat
  ck_server :: string

definition MakeTestKV :: "bool \<Rightarrow> string list list \<Rightarrow> (string list \<times> nat \<times> bool) list \<Rightarrow> go_exit + Config" where
  "MakeTestKV reliable namess starts = MakeConfig 1 reliable namess starts"

text \<open>\<open>kvsrv1/client.go\<close>: a new clerk restricts its client, at address \<open>addr\<close>, to its server.\<close>

definition kvsrv_MakeClerk :: "nat \<Rightarrow> Clnt \<Rightarrow> string \<Rightarrow> Config \<Rightarrow> kv_Clerk \<times> Config" where
  "kvsrv_MakeClerk addr clnt server cfg =
     (let (clnt', net') = Clnt_ConnectTo (Some [server]) [] (clnt, cfg_net cfg)
      in (\<lparr>ck_clnt = addr, ck_server = server\<rparr>,
          cfg\<lparr>cfg_net := net', cfg_clnts := (cfg_clnts cfg)\<lparr>clerks := (clerks (cfg_clnts cfg))(addr \<mapsto> clnt')\<rparr>\<rparr>))"

definition TestKV_MakeClerk :: "nat \<Rightarrow> Config \<Rightarrow> kv_Clerk \<times> Config" where
  "TestKV_MakeClerk addr cfg =
     kvsrv_MakeClerk addr (makeClntTo None) (ServerName GRP0 0) (cfg\<lparr>cfg_clnts := Clnts_MakeClient addr (cfg_clnts cfg)\<rparr>)"

definition TestKV_DeleteClerk :: "(nat \<Rightarrow> string list) \<Rightarrow> kv_Clerk \<Rightarrow> Config \<Rightarrow> go_exit + Config" where
  "TestKV_DeleteClerk kss ck cfg =
     and_then (Clnts_DeleteClient kss (ck_clnt ck) (cfg_clnts cfg, cfg_net cfg)) (\<lambda>(clnts, net).
       Inr (cfg\<lparr>cfg_clnts := clnts, cfg_net := net\<rparr>))"

section \<open>The append test\<close>

text \<open>
  The clients of \<open>OneClientAppend\<close> as an \<open>Fclnt\<close>. \<open>aw_inner\<close> are the clients inside their inner
  loop, which they leave with \<open>OK\<close> or \<open>ErrMaybe\<close>, when they take the next number; client \<open>i\<close> uses
  the \<open>Clnt\<close> at address \<open>i\<close>. The ends that calls make are part of the clerk, not of this state.
\<close>

record append_world =
  aw_sys :: append_sys
  aw_inner :: "nat set"
  aw_cfg :: Config

definition append_by :: "(EntryN list \<Rightarrow> string option) \<Rightarrow> (string \<Rightarrow> EntryN list option) \<Rightarrow> nat \<Rightarrow> append_sys \<Rightarrow> append_sys \<Rightarrow> bool" where
  "append_by enc dec c st st' \<longleftrightarrow> append_step enc dec st st' \<and> (\<forall>d. d \<noteq> c \<longrightarrow> as_clients st' ! d = as_clients st ! d)"

definition append_fn :: "(EntryN list \<Rightarrow> string option) \<Rightarrow> (string \<Rightarrow> EntryN list option) \<Rightarrow> append_world Fclnt" where
  "append_fn enc dec =
     \<lparr>fn_step = (\<lambda>i w w'. \<exists>st'. append_by enc dec i (aw_sys w) st' \<and>
        w' = w\<lparr>aw_sys := st', aw_inner :=
          (if ac_i (as_clients st' ! i) \<noteq> ac_i (as_clients (aw_sys w) ! i) then aw_inner w - {i} else insert i (aw_inner w))\<rparr>),
      fn_select = (\<lambda>i w. i \<notin> aw_inner w),
      fn_result = (\<lambda>i w. ac_res (as_clients (aw_sys w) ! i)),
      fn_MakeClerk = (\<lambda>i w. w\<lparr>aw_cfg := snd (TestKV_MakeClerk i (aw_cfg w))\<rparr>),
      fn_DeleteClerk = (\<lambda>i w. case TestKV_DeleteClerk (\<lambda>_. []) \<lparr>ck_clnt = i, ck_server = ServerName GRP0 0\<rparr> (aw_cfg w) of
         Inl _ \<Rightarrow> w | Inr cfg \<Rightarrow> w\<lparr>aw_cfg := cfg\<rparr>)\<rparr>"

definition append_world0 :: "string \<Rightarrow> nat \<Rightarrow> Config \<Rightarrow> append_world" where
  "append_world0 b0 n cfg = \<lparr>aw_sys = append_init b0 n, aw_inner = {}, aw_cfg = cfg\<rparr>"

interpretation ap: client_function "append_fn enc dec" for enc dec
  by unfold_locales (auto simp: append_fn_def append_by_def split: sum.split)

text \<open>The key holds an encoded list.\<close>

definition served :: "(string \<Rightarrow> EntryN list option) \<Rightarrow> nat \<Rightarrow> append_sys \<Rightarrow> bool" where
  "served dec n st \<longleftrightarrow> kv_inv (as_server st) \<and> length (as_clients st) = n \<and>
     (\<exists>val ver es. kv_lookup (as_server st) ''k'' = Some (val, ver) \<and> dec val = Some es)"

lemma put_either:
  assumes "kv_inv kv" and "kv_lookup kv ''k'' = Some (val, cur)" and "KVServer_Put \<lparr>pa_Key = ''k'', pa_Value = b, pa_Version = ver\<rparr> kv = (e, kv')"
  shows "(ver = cur \<and> e = OK \<and> kv_inv kv' \<and> kv_lookup kv' ''k'' = Some (b, ver + 1)) \<or> (ver \<noteq> cur \<and> e = ErrVersion \<and> kv' = kv)"
proof -
  let ?a = "\<lparr>pa_Key = ''k'', pa_Value = b, pa_Version = ver\<rparr>"
  have e: "e = (if cur = ver then OK else ErrVersion)" using kvs.put_result [OF assms(1), of ?a] assms(2,3) by simp
  show ?thesis
  proof (cases "cur = ver")
    case True
    then show ?thesis using e kvs.put_inv [OF assms(1), of ?a] kvs.put_lookup [OF assms(1), of ?a] assms(3) by simp
  next
    case False
    then show ?thesis using e assms(3) by (auto simp: KVServer_Put_def split: option.splits if_splits)
  qed
qed

lemma served_step:
  assumes "append_step enc dec st st'" and "served dec n st" and json: "\<forall>es b. enc es = Some b \<longrightarrow> dec b = Some es"
  shows "served dec n st'"
  using assms(1)
proof cases
  case append_get
  then show ?thesis using assms(2) by (simp add: served_def)
next
  case (append_put c es ver b e kv' err)
  obtain val cur es0 where v: "kv_inv (as_server st)" "kv_lookup (as_server st) ''k'' = Some (val, cur)" "dec val = Some es0"
    using assms(2) by (auto simp: served_def)
  from put_either [OF v(1,2) append_put(5)] show ?thesis using append_put assms(2) json v by (auto simp: served_def)
qed


text \<open>A client in its inner loop reads, writes at the version it has read, and leaves the loop, if nobody writes in between.\<close>

lemma get_step:
  assumes "served dec n (aw_sys w)" and "i < n" and "ac_phase (as_clients (aw_sys w) ! i) = Reading"
  shows "\<exists>w' es cur. fn_step (append_fn enc dec) i w w' \<and> ac_phase (as_clients (aw_sys w') ! i) = Writing es cur \<and>
    (\<exists>val. kv_lookup (as_server (aw_sys w')) ''k'' = Some (val, cur))"
proof -
  let ?st = "aw_sys w"
  obtain val cur es where v: "kv_inv (as_server ?st)" "kv_lookup (as_server ?st) ''k'' = Some (val, cur)" "dec val = Some es"
    and len: "length (as_clients ?st) = n" using assms(1) by (auto simp: served_def)
  let ?st' = "?st\<lparr>as_clients := (as_clients ?st)[i := (as_clients ?st ! i)\<lparr>ac_phase := Writing es cur\<rparr>]\<rparr>"
  have "append_by enc dec i ?st ?st'"
    using append_get [of i ?st val cur dec es enc] Get_of_lookup [OF v(1,2)] v(3) assms len by (simp add: append_by_def)
  then have "fn_step (append_fn enc dec) i w (w\<lparr>aw_sys := ?st', aw_inner := insert i (aw_inner w)\<rparr>)"
    using assms(2) len by (auto simp: append_fn_def intro!: exI [of _ ?st'])
  then show ?thesis using assms(2) len v(2) by (intro exI [of _ "w\<lparr>aw_sys := ?st', aw_inner := insert i (aw_inner w)\<rparr>"] exI) auto
qed

lemma put_step:
  assumes "served dec n (aw_sys w)" and "i < n" and "ac_phase (as_clients (aw_sys w) ! i) = Writing es ver" and "\<forall>es. enc es \<noteq> None"
    and "kv_lookup (as_server (aw_sys w)) ''k'' = Some (val, cur)"
  shows "\<exists>w'. fn_step (append_fn enc dec) i w w' \<and> ac_phase (as_clients (aw_sys w') ! i) = Reading \<and> (ver = cur \<longrightarrow> i \<notin> aw_inner w')"
proof -
  let ?st = "aw_sys w" and ?c = "as_clients (aw_sys w) ! i"
  obtain b where b: "enc (es @ [\<lparr>en_Id = int i, en_N = ac_i ?c\<rparr>]) = Some b" using assms(4) by fastforce
  obtain e kv' where put: "KVServer_Put \<lparr>pa_Key = ''k'', pa_Value = b, pa_Version = ver\<rparr> (as_server ?st) = (e, kv')" by fastforce
  have inv: "kv_inv (as_server ?st)" and len: "length (as_clients ?st) = n" using assms(1) by (simp_all add: served_def)
  let ?st' = "?st\<lparr>as_server := kv', as_clients := (as_clients ?st)[i := append_after_put e ?c]\<rparr>"
  let ?w' = "w\<lparr>aw_sys := ?st', aw_inner := (if ac_i (append_after_put e ?c) \<noteq> ac_i ?c then aw_inner w - {i} else insert i (aw_inner w))\<rparr>"
  have "append_by enc dec i ?st ?st'"
    using append_put [of i ?st es ver enc b e kv' e dec] b put assms(2,3) len by (simp add: append_by_def clerk_answers_def)
  then have "fn_step (append_fn enc dec) i w ?w'" using assms(2) len by (auto simp: append_fn_def intro!: exI [of _ ?st'])
  moreover have "ver = cur \<Longrightarrow> e = OK" using put_either [OF inv assms(5) put] by blast
  ultimately show ?thesis using assms(2) len by (intro exI [of _ ?w']) (auto simp: append_after_put_def)
qed

lemma append_comes_back:
  assumes "served dec n (aw_sys w)" and "i < n" and total: "\<forall>es. enc es \<noteq> None" and json: "\<forall>es b. enc es = Some b \<longrightarrow> dec b = Some es"
  shows "\<exists>w'. (fn_step (append_fn enc dec) i)\<^sup>*\<^sup>* w w' \<and> fn_select (append_fn enc dec) i w'"
proof -
  have served: "served dec n (aw_sys w')" if "fn_step (append_fn enc dec) i w w'" "served dec n (aw_sys w)" for w w'
    using that served_step [of enc dec _ _ n] json by (auto simp: append_fn_def append_by_def)
  have reading: "\<exists>w'. (fn_step (append_fn enc dec) i)\<^sup>*\<^sup>* w w' \<and> i \<notin> aw_inner w'"
    if w: "served dec n (aw_sys w)" "ac_phase (as_clients (aw_sys w) ! i) = Reading" for w
  proof -
    obtain w1 es cur val where w1: "fn_step (append_fn enc dec) i w w1" "ac_phase (as_clients (aw_sys w1) ! i) = Writing es cur"
      "kv_lookup (as_server (aw_sys w1)) ''k'' = Some (val, cur)" using get_step [OF w(1) assms(2) w(2), of enc] by blast
    from put_step [OF served [OF w1(1) w(1)] assms(2) w1(2) total w1(3)]
    show ?thesis using w1(1) by (meson converse_rtranclp_into_rtranclp r_into_rtranclp)
  qed
  have "\<exists>w'. (fn_step (append_fn enc dec) i)\<^sup>*\<^sup>* w w' \<and> i \<notin> aw_inner w'"
  proof (cases "ac_phase (as_clients (aw_sys w) ! i)")
    case (Writing es ver)
    obtain val cur where "kv_lookup (as_server (aw_sys w)) ''k'' = Some (val, cur)" using assms(1) by (auto simp: served_def)
    from put_step [OF assms(1,2) Writing total this] obtain w1 where w1: "fn_step (append_fn enc dec) i w w1"
      "ac_phase (as_clients (aw_sys w1) ! i) = Reading" by blast
    from reading [OF served [OF w1(1) assms(1)] w1(2)] show ?thesis using w1(1) by (meson converse_rtranclp_into_rtranclp)
  qed (use reading assms(1) in blast)
  then show ?thesis by (simp add: append_fn_def)
qed

text \<open>The encoding that the interpretation asks for: total and invertible.\<close>

definition json_ok :: "(EntryN list \<Rightarrow> string option) \<Rightarrow> (string \<Rightarrow> EntryN list option) \<Rightarrow> bool" where
  "json_ok enc dec \<longleftrightarrow> (\<forall>es. \<exists>b. enc es = Some b \<and> dec b = Some es)"

lemma json_okD: "json_ok enc dec \<Longrightarrow> enc es = Some b \<Longrightarrow> dec b = Some es"
  by (metis json_ok_def option.inject)

lemma append_returning:
  assumes "json_ok enc dec"
  shows "returning_client_function (append_fn enc dec) (\<lambda>w. served dec n (aw_sys w)) n"
proof -
  have j: "\<forall>es. enc es \<noteq> None" "\<forall>es b. enc es = Some b \<longrightarrow> dec b = Some es"
    using assms json_okD [OF assms] by (auto simp: json_ok_def)
  show ?thesis
  proof
    show "served dec n (aw_sys w')" if "served dec n (aw_sys w)" "fn_step (append_fn enc dec) i w w'" for w w' i
      using that served_step [of enc dec _ _ n] j(2) by (auto simp: append_fn_def append_by_def)
    show "\<exists>w'. (fn_step (append_fn enc dec) i)\<^sup>*\<^sup>* w w' \<and> fn_select (append_fn enc dec) i w'" if "served dec n (aw_sys w)" "i < n" for w i
      using append_comes_back [OF that j] .
  qed (auto simp: append_fn_def split: sum.split)
qed


section \<open>JSON\<close>

text \<open>
  The lists of entries as \<open>encoding/json\<close> writes them, and a decoder for this form (\<open>json.Unmarshal\<close>
  also takes white space and other orders of the fields).
\<close>

definition json_entry :: "EntryN \<Rightarrow> string" where
  "json_entry e = ''{\"Id\":'' @ Itoa (en_Id e) @ CHR '','' # ''\"N\":'' @ Itoa (en_N e) @ [CHR ''}'']"

fun json_items :: "EntryN list \<Rightarrow> string" where
  "json_items [] = []"
| "json_items [e] = json_entry e"
| "json_items (e # es) = json_entry e @ CHR '','' # json_items es"

definition json_enc :: "EntryN list \<Rightarrow> string option" where
  "json_enc es = Some (CHR ''['' # json_items es @ [CHR '']''])"

fun json_int :: "string \<Rightarrow> int option" where
  "json_int [] = None"
| "json_int (c # cs) = (if c = CHR ''-'' then map_option (\<lambda>n. - int n) (atoi_digits cs) else map_option int (atoi_digits (c # cs)))"

definition json_field :: "string \<Rightarrow> char \<Rightarrow> string \<Rightarrow> (int \<times> string) option" where
  "json_field pre stop s =
     (if take (length pre) s \<noteq> pre then None
      else let r = drop (length pre) s in
        map_option (\<lambda>i. (i, drop 1 (dropWhile (\<lambda>c. c \<noteq> stop) r))) (json_int (takeWhile (\<lambda>c. c \<noteq> stop) r)))"

definition json_parse_entry :: "string \<Rightarrow> (EntryN \<times> string) option" where
  "json_parse_entry s = Option.bind (json_field ''{\"Id\":'' (CHR '','') s) (\<lambda>(i, r).
     Option.bind (json_field ''\"N\":'' (CHR ''}'') r) (\<lambda>(n, r'). Some (\<lparr>en_Id = i, en_N = n\<rparr>, r')))"

fun json_list :: "nat \<Rightarrow> string \<Rightarrow> EntryN list option" where
  "json_list 0 s = None"
| "json_list (Suc fuel) s = Option.bind (json_parse_entry s) (\<lambda>(e, r).
     case r of
       [] \<Rightarrow> None
     | c # cs \<Rightarrow> if c = CHR '']'' \<and> cs = [] then Some [e]
                else if c = CHR '','' then map_option ((#) e) (json_list fuel cs) else None)"

definition json_dec :: "string \<Rightarrow> EntryN list option" where
  "json_dec s = (if s = ''[]'' then Some [] else if s \<noteq> [] \<and> hd s = CHR ''['' then json_list (length s) (tl s) else None)"

lemma Itoa_chars: "c \<in> set (Itoa i) \<Longrightarrow> is_digit c \<or> c = CHR ''-''"
  by (auto simp: Itoa_def is_digit_def dest: itoa_nat_digits split: if_splits)

lemma json_int_Itoa: "json_int (Itoa i) = Some i"
proof (cases "i < 0")
  case True
  then show ?thesis by (simp add: Itoa_def atoi_digits_itoa)
next
  case False
  obtain c cs where s: "itoa_nat (nat i) = c # cs" by (cases "itoa_nat (nat i)") simp_all
  have "is_digit c" using itoa_nat_hd [of "nat i"] s by simp
  then have "c \<noteq> CHR ''-''" by (auto simp: is_digit_def)
  then show ?thesis using False s atoi_digits_itoa [of "nat i"] by (simp add: Itoa_def)
qed

lemma json_field_spec:
  assumes "\<not> is_digit stop" and "stop \<noteq> CHR ''-''"
  shows "json_field pre stop (pre @ Itoa i @ stop # r) = Some (i, r)"
proof -
  have "\<forall>c\<in>set (Itoa i). c \<noteq> stop" using Itoa_chars assms by blast
  then have "takeWhile (\<lambda>c. c \<noteq> stop) (Itoa i @ stop # r) = Itoa i" "dropWhile (\<lambda>c. c \<noteq> stop) (Itoa i @ stop # r) = stop # r"
    by (simp_all add: takeWhile_append2 dropWhile_append2)
  then show ?thesis by (simp add: json_field_def json_int_Itoa)
qed

lemma json_parse_entry_spec: "json_parse_entry (json_entry e @ r) = Some (e, r)"
  using json_field_spec [of "CHR '',''" "''{\"Id\":''" "en_Id e" "''\"N\":'' @ Itoa (en_N e) @ CHR ''}'' # r"]
    json_field_spec [of "CHR ''}''" "''\"N\":''" "en_N e" r]
  by (simp add: json_parse_entry_def json_entry_def is_digit_def)

lemma json_list_spec: "es \<noteq> [] \<Longrightarrow> length es \<le> fuel \<Longrightarrow> json_list fuel (json_items es @ [CHR '']'']) = Some es"
proof (induction es arbitrary: fuel rule: json_items.induct)
  case (2 e)
  then show ?case by (cases fuel) (simp_all add: json_parse_entry_spec)
next
  case (3 e e' es)
  then show ?case by (cases fuel) (simp_all add: json_parse_entry_spec)
qed simp

lemma json_items_length: "length es \<le> length (json_items es)"
  by (induction es rule: json_items.induct) (simp_all add: json_entry_def)

lemma json_entries_ok: "json_ok json_enc json_dec"
proof -
  have "json_dec (CHR ''['' # json_items es @ [CHR '']'']) = Some es" for es
    using json_list_spec [of es "Suc (Suc (length (json_items es)))"] json_items_length [of es]
    by (cases "es = []") (auto simp: json_dec_def json_entry_def neq_Nil_conv elim: json_items.elims)
  then show ?thesis by (simp add: json_ok_def json_enc_def)
qed

interpretation json: returning_client_function "append_fn json_enc json_dec" "\<lambda>w. served json_dec n (aw_sys w)" n for n
  by (rule append_returning [OF json_entries_ok])


section \<open>The append test from start to end\<close>

lemma spawn_run_append:
  assumes "enc [] = Some b0" and "spawn_run (append_fn enc dec) n (append_world0 b0 n cfg) k s"
  shows "\<exists>j\<le>k. append_run enc dec n j (aw_sys (sp_world s))"
  using assms(2)
proof (induction rule: spawn_run.induct)
  case run_start
  then show ?case using run_init [of enc b0 dec n] assms(1) by (auto simp: spawn_init_def append_world0_def)
next
  case (run_more k s s')
  have "aw_sys (sp_world s') = aw_sys (sp_world s) \<or> append_step enc dec (aw_sys (sp_world s)) (aw_sys (sp_world s'))"
    using run_more(2) by (auto simp: spawn_step_def append_fn_def append_by_def elim!: runClient.cases SpawnClientsAndWait.cases split: sum.splits)
  then show ?case using run_more(3) by (metis Suc_leI le_SucI less_Suc_eq_le run_step)
qed

lemma served_init: "dec b0 = Some [] \<Longrightarrow> served dec n (append_init b0 n)"
  by (simp add: served_def append_init_def KVServer_Put_def KVServer_install_def MakeKVServer_def kv_inv_def kv_lookup_def)

text \<open>
  C10: The append test of the key/value server as \<open>SpawnClientsAndWait\<close> runs it. \<open>nclnt\<close> goroutines make
  their clerks, append to the key \<open>k\<close> until they find a token in the channel \<open>done\<close> that all of
  them share, and hand over their results. However they are interleaved with each other and with
  the test: the test is never stuck, since from every state there is a continuation in which
  \<open>SpawnClientsAndWait\<close> has returned and every goroutine has ended; and when it has returned, after
  fewer than \<open>2 ^ 63 - 2\<close> steps, no client works any more, the \<open>Get\<close> of the checker succeeds, and
  \<open>CheckAppends\<close> accepts the list together with the collected results.
\<close>

theorem spawned_append_test_passes:
  assumes "json_ok enc dec" and "enc [] = Some b0" and "\<forall>m. finite (dom m) \<longrightarrow> key_order m (order m)"
    and run: "spawn_run (append_fn enc dec) nclnt (append_world0 b0 nclnt cfg) k s" and "k < 2 ^ 63 - 2"
  shows "(\<exists>s'. (spawn_step (append_fn enc dec) nclnt)\<^sup>*\<^sup>* s s' \<and> all_done s') \<and>
    (sp_pc s = SpawnReturned \<longrightarrow> (\<forall>i<nclnt. sp_clients s ! i \<in> {Deleting, Exited}) \<and>
      (\<exists>val ver es. KVServer_Get ''k'' (as_server (aw_sys (sp_world s))) = \<lparr>gr_Value = val, gr_Version = ver, gr_Err = OK\<rparr> \<and>
         dec val = Some es \<and> KvTest_CheckAppends order es nclnt (sp_rs s) ver = Inr ()))"
proof -
  have json: "\<forall>es b. enc es = Some b \<longrightarrow> dec b = Some es" using json_okD [OF assms(1)] by blast
  note ret = append_returning [OF assms(1), of nclnt]
  have "served dec nclnt (aw_sys (sp_world s))"
    using returning_client_function.spawn_run_good [OF ret run] served_init [of dec b0 nclnt] assms(2) json by (simp add: append_world0_def)
  then have live: "\<exists>s'. (spawn_step (append_fn enc dec) nclnt)\<^sup>*\<^sup>* s s' \<and> all_done s'"
    using returning_client_function.can_return [OF ret ap.spawn_run_inv [OF run]] by blast
  have "\<exists>val ver es. KVServer_Get ''k'' (as_server (aw_sys (sp_world s))) = \<lparr>gr_Value = val, gr_Version = ver, gr_Err = OK\<rparr> \<and>
         dec val = Some es \<and> KvTest_CheckAppends order es nclnt (sp_rs s) ver = Inr ()" if pc: "sp_pc s = SpawnReturned"
  proof -
    obtain j where j: "j \<le> k" "append_run enc dec nclnt j (aw_sys (sp_world s))" using spawn_run_append [OF assms(2) run] by blast
    then have small: "j < 2 ^ 63 - 2" "j < 2 ^ 64 - 2" using assms(5) by simp_all
    obtain es where "append_inv dec nclnt es (aw_sys (sp_world s))" using append_run_inv [OF j(2) small(2)] json by blast
    then have "sp_rs s = map ac_res (as_clients (aw_sys (sp_world s)))"
      using ap.returned_results(1) [OF run pc] by (simp add: append_fn_def list_eq_iff_nth_eq append_inv_def)
    then show ?thesis using append_run_checked [OF j(2) small(1) json assms(3)] by auto
  qed
  then show ?thesis using live ap.returned_results(2) [OF run] by blast
qed


text \<open>One client appends one entry and is then told to stop.\<close>

definition demo_world :: "Config \<Rightarrow> append_world" where
  "demo_world cfg = append_world0 ''[]'' 1 cfg"

lemma spawn_demo_run:
  "\<exists>s w. spawn_run (append_fn json_enc json_dec) 1 (demo_world cfg) 10 s \<and> sp_pc s = SpawnReturned \<and> sp_world s = w \<and>
     sp_rs s = [\<lparr>Nok = 1, Nmaybe = 0\<rparr>]"
proof -
  let ?F = "append_fn json_enc json_dec" and ?e = "\<lparr>en_Id = 0, en_N = 0\<rparr>"
  let ?kv0 = "snd (KVServer_Put \<lparr>pa_Key = ''k'', pa_Value = ''[]'', pa_Version = 0\<rparr> MakeKVServer)"
  let ?b = "the (json_enc [?e])"
  let ?kv1 = "snd (KVServer_Put \<lparr>pa_Key = ''k'', pa_Value = ?b, pa_Version = 1\<rparr> ?kv0)"
  let ?c = "\<lambda>i n ph. \<lparr>ac_i = i, ac_res = \<lparr>Nok = n, Nmaybe = 0\<rparr>, ac_phase = ph\<rparr>"
  let ?st = "\<lambda>kv c. \<lparr>as_server = kv, as_clients = [c]\<rparr>"
  let ?cfg = "snd (TestKV_MakeClerk 0 cfg)"
  let ?w = "\<lambda>kv c inn. \<lparr>aw_sys = ?st kv c, aw_inner = inn, aw_cfg = ?cfg\<rparr>"
  let ?s = "\<lambda>pc cs rs w. \<lparr>sp_pc = pc, sp_clients = cs, sp_rs = rs, sp_world = w\<rparr>"
  let ?w0 = "demo_world cfg" and ?w1 = "?w ?kv0 (?c 0 0 Reading) {}" and ?w2 = "?w ?kv0 (?c 0 0 (Writing [] 1)) {0}"
    and ?w3 = "?w ?kv1 (?c 1 1 Reading) {}"
  note ev = KVServer_Put_def KVServer_install_def KVServer_Get_def MakeKVServer_def
  have w0: "?w0 = \<lparr>aw_sys = ?st ?kv0 (?c 0 0 Reading), aw_inner = {}, aw_cfg = cfg\<rparr>"
    by (simp add: demo_world_def append_world0_def append_init_def)
  have "append_by json_enc json_dec 0 (?st ?kv0 (?c 0 0 Reading)) (?st ?kv0 (?c 0 0 (Writing [] 1)))"
    using append_get [of 0 "?st ?kv0 (?c 0 0 Reading)" "''[]''" 1 json_dec "[]" json_enc] by (simp add: append_by_def ev json_dec_def nth_Cons')
  then have 2: "fn_step ?F 0 ?w1 ?w2" by (auto simp: append_fn_def)
  have "append_by json_enc json_dec 0 (?st ?kv0 (?c 0 0 (Writing [] 1))) (?st ?kv1 (?c 1 1 Reading))"
    using append_put [of 0 "?st ?kv0 (?c 0 0 (Writing [] 1))" "[]" 1 json_enc ?b OK ?kv1 OK json_dec]
    by (simp add: append_by_def ev json_enc_def clerk_answers_def append_after_put_def nth_Cons')
  then have 3: "fn_step ?F 0 ?w2 ?w3" by (auto simp: append_fn_def)
  have step: "spawn_run ?F 1 ?w0 (Suc k) s'" if "spawn_run ?F 1 ?w0 k s" "SpawnClientsAndWait ?F 1 s s'" for k s s'
    using that run_more spawn_step_def by metis
  have work: "spawn_run ?F 1 ?w0 (Suc k) s'" if "spawn_run ?F 1 ?w0 k s" "runClient ?F s s'" for k s s'
    using that run_more spawn_step_def by metis
  have "spawn_run ?F 1 ?w0 0 (?s Spawning [] [] ?w0)" using run_start [of ?F 1 ?w0] by (simp add: spawn_init_def)
  from step [OF this SpawnClientsAndWait.spawn] have "spawn_run ?F 1 ?w0 1 (?s Spawning [Fresh] [] ?w0)" by simp
  from step [OF this SpawnClientsAndWait.spawned] have "spawn_run ?F 1 ?w0 2 (?s Sleeping [Fresh] [] ?w0)" by (simp add: eval_nat_numeral)
  from work [OF this runClient.make [of 0]] have "spawn_run ?F 1 ?w0 3 (?s Sleeping [Running] [] ?w1)"
    by (simp add: w0 append_fn_def eval_nat_numeral)
  from work [OF this runClient.work [of 0 _ ?F ?w2]] 2 have "spawn_run ?F 1 ?w0 4 (?s Sleeping [Running] [] ?w2)" by (simp add: eval_nat_numeral)
  from work [OF this runClient.work [of 0 _ ?F ?w3]] 3 have "spawn_run ?F 1 ?w0 5 (?s Sleeping [Running] [] ?w3)" by (simp add: eval_nat_numeral)
  from step [OF this SpawnClientsAndWait.wake] have "spawn_run ?F 1 ?w0 6 (?s (Signalling 0) [Running] [] ?w3)" by (simp add: eval_nat_numeral)
  from step [OF this SpawnClientsAndWait.signal [of _ 0 _ 0]]
  have "spawn_run ?F 1 ?w0 7 (?s (Signalling 1) [Sending \<lparr>Nok = 1, Nmaybe = 0\<rparr>] [] ?w3)" by (simp add: append_fn_def eval_nat_numeral)
  from step [OF this SpawnClientsAndWait.signalled]
  have "spawn_run ?F 1 ?w0 8 (?s (Collecting 0) [Sending \<lparr>Nok = 1, Nmaybe = 0\<rparr>] [\<lparr>Nok = 0, Nmaybe = 0\<rparr>] ?w3)" by (simp add: eval_nat_numeral)
  from step [OF this SpawnClientsAndWait.collect [of _ 0]]
  have "spawn_run ?F 1 ?w0 9 (?s (Collecting 1) [Deleting] [\<lparr>Nok = 1, Nmaybe = 0\<rparr>] ?w3)" by (simp add: eval_nat_numeral)
  from step [OF this SpawnClientsAndWait.collected]
  have "spawn_run ?F 1 ?w0 10 (?s SpawnReturned [Deleting] [\<lparr>Nok = 1, Nmaybe = 0\<rparr>] ?w3)" by (simp add: eval_nat_numeral)
  then show ?thesis by force
qed

theorem spawned_append_test_passes_witness:
  "\<exists>s val ver es. spawn_run (append_fn json_enc json_dec) 1 (demo_world empty_config) 10 s \<and> sp_rs s = [\<lparr>Nok = 1, Nmaybe = 0\<rparr>] \<and>
     KVServer_Get ''k'' (as_server (aw_sys (sp_world s))) = \<lparr>gr_Value = val, gr_Version = ver, gr_Err = OK\<rparr> \<and>
     json_dec val = Some es \<and> KvTest_CheckAppends demo_order es 1 [\<lparr>Nok = 1, Nmaybe = 0\<rparr>] ver = Inr ()"
proof -
  obtain s where s: "spawn_run (append_fn json_enc json_dec) 1 (demo_world empty_config) 10 s" "sp_pc s = SpawnReturned"
    "sp_rs s = [\<lparr>Nok = 1, Nmaybe = 0\<rparr>]" using spawn_demo_run by blast
  have "json_enc [] = Some ''[]''" by (simp add: json_enc_def)
  from spawned_append_test_passes [OF json_entries_ok this demo_order s(1) [unfolded demo_world_def]] s show ?thesis by auto
qed

end
