(* ===== verification/Tester_Daemon.thy ===== *)
theory Tester_Daemon
  imports Tester_Sockets Tester_Config
begin

text \<open>
  How a server process comes up: the main goroutine of \<open>InitDaemon\<close> and the handlers \<open>Init\<close> and
  \<open>InitWait\<close> of \<open>tester1/daemonsrv.go\<close>, which meet on one unbuffered channel, and the two calls of
  \<open>StartServer\<close> on the tester's side (\<open>DaemonClnt.init\<close>, \<open>waitInit\<close>). A send and the receive that
  takes it are one step. \<open>mks\<close> is the start function of the server program: the state of its
  services and the services. Also the calls with which a daemon annotates (\<open>tester1/annotator.go\<close>).
\<close>

section \<open>The daemon\<close>

datatype 's daemon_pc = AwaitPersister | NewServer | AddServices "'s Service list" | SignalReady | AwaitQuit | DaemonExit

text \<open>\<open>dm_inits\<close> and \<open>dm_waits\<close> are the handlers that wait at the channel, the replies those that have returned.\<close>

record 's DaemonSrv =
  dm_pc :: "'s daemon_pc"
  dm_persister :: "Persister option"
  dm_rpcs :: "'s Server option"
  dm_inits :: "Persister multiset"
  dm_waits :: nat
  dm_init_replies :: nat
  dm_wait_replies :: nat

definition daemon0 :: "'s DaemonSrv" where
  "daemon0 = \<lparr>dm_pc = AwaitPersister, dm_persister = None, dm_rpcs = None, dm_inits = {#}, dm_waits = 0,
     dm_init_replies = 0, dm_wait_replies = 0\<rparr>"

definition Init_call :: "bytes \<Rightarrow> bytes \<Rightarrow> 's DaemonSrv \<Rightarrow> 's DaemonSrv" where
  "Init_call rstate snap d = d\<lparr>dm_inits := add_mset (DaemonSrv_Init rstate snap) (dm_inits d)\<rparr>"

definition InitWait_call :: "'s DaemonSrv \<Rightarrow> 's DaemonSrv" where
  "InitWait_call d = d\<lparr>dm_waits := dm_waits d + 1\<rparr>"

text \<open>An \<open>Init\<close> handler that has handed over its persister, and an \<open>InitWait\<close> handler that has received, return.\<close>

definition init_returns :: "Persister \<Rightarrow> 's DaemonSrv \<Rightarrow> 's DaemonSrv" where
  "init_returns p d = d\<lparr>dm_inits := dm_inits d - {#p#}, dm_init_replies := dm_init_replies d + 1\<rparr>"

definition wait_returns :: "'s DaemonSrv \<Rightarrow> 's DaemonSrv" where
  "wait_returns d = d\<lparr>dm_waits := dm_waits d - 1, dm_wait_replies := dm_wait_replies d + 1\<rparr>"

inductive InitDaemon :: "(Persister \<Rightarrow> 's \<times> 's Service list) \<Rightarrow> 's DaemonSrv \<Rightarrow> 's DaemonSrv \<Rightarrow> bool" for mks where
  receive: "dm_pc d = AwaitPersister \<Longrightarrow> p \<in># dm_inits d \<Longrightarrow>
    InitDaemon mks d ((init_returns p d)\<lparr>dm_pc := NewServer, dm_persister := Some p\<rparr>)"
| serve: "dm_pc d = NewServer \<Longrightarrow> dm_persister d = Some p \<Longrightarrow> mks p = (st, svcs) \<Longrightarrow>
    InitDaemon mks d (d\<lparr>dm_pc := AddServices svcs, dm_rpcs := Some (NewRPCSrv st)\<rparr>)"
| add: "dm_pc d = AddServices (svc # svcs) \<Longrightarrow> dm_rpcs d = Some rpcs \<Longrightarrow>
    InitDaemon mks d (d\<lparr>dm_pc := AddServices svcs, dm_rpcs := Some (RPCSrv_AddService svc rpcs)\<rparr>)"
| added: "dm_pc d = AddServices [] \<Longrightarrow> InitDaemon mks d (d\<lparr>dm_pc := SignalReady\<rparr>)"
| ready: "dm_pc d = SignalReady \<Longrightarrow> 0 < dm_waits d \<Longrightarrow> InitDaemon mks d ((wait_returns d)\<lparr>dm_pc := AwaitQuit\<rparr>)"
| handlers_meet: "p \<in># dm_inits d \<Longrightarrow> 0 < dm_waits d \<Longrightarrow> InitDaemon mks d (wait_returns (init_returns p d))"
| quit: "dm_pc d = AwaitQuit \<Longrightarrow> p \<in># dm_inits d \<Longrightarrow> InitDaemon mks d ((init_returns p d)\<lparr>dm_pc := DaemonExit\<rparr>)"

text \<open>
  The \<open>main\<close> functions of the daemon programs: the arguments of \<open>InitDaemon\<close> and the end name of the
  server, \<open>endNames[sid]\<close>; an argument that is not a number ends the program.
\<close>

definition daemon_main :: "string list \<Rightarrow> go_exit + int \<times> int \<times> string \<times> string list \<times> string" where
  "daemon_main args =
     and_then (InitDaemon_args (tl args)) (\<lambda>r.
       case r of
         None \<Rightarrow> Inl (Fatal ''InitDaemon err'')
       | Some (gid, sid, testerEndName, ends) \<Rightarrow>
           if sid < 0 then Inl (Panic ''index out of range'')
           else and_then (go_index ends (nat sid)) (\<lambda>endName. Inr (gid, sid, testerEndName, ends, endName)))"

section \<open>The tester\<close>

datatype start_pc = CallInit | InInit | CallWait | InWait | Started

record 's starting =
  st_pc :: start_pc
  st_daemon :: "'s DaemonSrv"

text \<open>
  \<open>sock_ok\<close>: the connection to the daemon does not break. When it does, \<open>init\<close> and \<open>waitInit\<close> print
  a line, and \<open>StartServer\<close> goes on.
\<close>

inductive StartServer_calls :: "(Persister \<Rightarrow> 's \<times> 's Service list) \<Rightarrow> bool \<Rightarrow> Persister \<Rightarrow> 's starting \<Rightarrow> 's starting \<Rightarrow> bool" for mks sock_ok sv where
  call_init: "st_pc s = CallInit \<Longrightarrow> StartServer_calls mks sock_ok sv s
    (s\<lparr>st_pc := InInit, st_daemon := Init_call (Persister_ReadRaftState sv) (Persister_ReadSnapshot sv) (st_daemon s)\<rparr>)"
| init_ok: "st_pc s = InInit \<Longrightarrow> 0 < dm_init_replies (st_daemon s) \<Longrightarrow> StartServer_calls mks sock_ok sv s (s\<lparr>st_pc := CallWait\<rparr>)"
| init_lost: "st_pc s = InInit \<Longrightarrow> \<not> sock_ok \<Longrightarrow> StartServer_calls mks sock_ok sv s (s\<lparr>st_pc := CallWait\<rparr>)"
| call_wait: "st_pc s = CallWait \<Longrightarrow> StartServer_calls mks sock_ok sv s (s\<lparr>st_pc := InWait, st_daemon := InitWait_call (st_daemon s)\<rparr>)"
| wait_ok: "st_pc s = InWait \<Longrightarrow> 0 < dm_wait_replies (st_daemon s) \<Longrightarrow> StartServer_calls mks sock_ok sv s (s\<lparr>st_pc := Started\<rparr>)"
| wait_lost: "st_pc s = InWait \<Longrightarrow> \<not> sock_ok \<Longrightarrow> StartServer_calls mks sock_ok sv s (s\<lparr>st_pc := Started\<rparr>)"
| daemon: "InitDaemon mks (st_daemon s) d \<Longrightarrow> StartServer_calls mks sock_ok sv s (s\<lparr>st_daemon := d\<rparr>)"

inductive start_reach :: "(Persister \<Rightarrow> 's \<times> 's Service list) \<Rightarrow> bool \<Rightarrow> Persister \<Rightarrow> 's starting \<Rightarrow> bool" for mks sock_ok sv where
  start: "start_reach mks sock_ok sv \<lparr>st_pc = CallInit, st_daemon = daemon0\<rparr>"
| step: "start_reach mks sock_ok sv s \<Longrightarrow> StartServer_calls mks sock_ok sv s s' \<Longrightarrow> start_reach mks sock_ok sv s'"

section \<open>tester1/annotator.go\<close>

text \<open>\<open>rpcc.RPCMarshall\<close> either reaches the tester or not, and its reply comes back or not; failures are not reported.\<close>

definition Annotate :: "call_outcome \<Rightarrow> int \<Rightarrow> string \<Rightarrow> string \<Rightarrow> string \<Rightarrow> ann_state \<Rightarrow> ann_state" where
  "Annotate oc now tag desp details an = (if oc = CallLost then an else TesterRPC_PostAnnotatorPoint now tag desp details an)"

definition GetAnnotatorTimestamp :: "call_outcome \<Rightarrow> int \<Rightarrow> int" where
  "GetAnnotatorTimestamp oc now = (if oc = CallOK then now else 0)"

definition PostAnnotatorInfoInterval :: "call_outcome \<Rightarrow> int \<Rightarrow> int \<Rightarrow> string \<Rightarrow> string \<Rightarrow> ann_state \<Rightarrow> ann_state" where
  "PostAnnotatorInfoInterval oc start now desp details an =
     (if oc = CallLost then an else TesterRPC_PostAnnotatorInfoInterval now start desp details an)"

section \<open>The handshake\<close>

definition services_of :: "(Persister \<Rightarrow> 's \<times> 's Service list) \<Rightarrow> Persister \<Rightarrow> 's Server" where
  "services_of mks p = (case mks p of (st, svcs) \<Rightarrow> InitDaemon_services st svcs)"

text \<open>The daemon has its persister \<open>p\<close> and is on its way to the signal; \<open>up\<close>: it has signalled.\<close>

definition booting :: "(Persister \<Rightarrow> 's \<times> 's Service list) \<Rightarrow> Persister \<Rightarrow> 's DaemonSrv \<Rightarrow> bool" where
  "booting mks p d \<longleftrightarrow> dm_persister d = Some p \<and>
     (case dm_pc d of
        NewServer \<Rightarrow> True
      | AddServices svcs \<Rightarrow> (\<exists>r. dm_rpcs d = Some r \<and> foldl (\<lambda>rpcs svc. RPCSrv_AddService svc rpcs) r svcs = services_of mks p)
      | SignalReady \<Rightarrow> dm_rpcs d = Some (services_of mks p)
      | _ \<Rightarrow> False)"

definition up :: "(Persister \<Rightarrow> 's \<times> 's Service list) \<Rightarrow> Persister \<Rightarrow> 's DaemonSrv \<Rightarrow> bool" where
  "up mks p d \<longleftrightarrow> dm_pc d = AwaitQuit \<and> dm_persister d = Some p \<and> dm_rpcs d = Some (services_of mks p)"

fun start_inv :: "(Persister \<Rightarrow> 's \<times> 's Service list) \<Rightarrow> Persister \<Rightarrow> start_pc \<Rightarrow> 's DaemonSrv \<Rightarrow> bool" where
  "start_inv mks p CallInit d \<longleftrightarrow> d = daemon0"
| "start_inv mks p InInit d \<longleftrightarrow> dm_waits d = 0 \<and> dm_wait_replies d = 0 \<and>
     (dm_pc d = AwaitPersister \<and> dm_inits d = {#p#} \<and> dm_init_replies d = 0 \<or> booting mks p d \<and> dm_inits d = {#} \<and> 0 < dm_init_replies d)"
| "start_inv mks p CallWait d \<longleftrightarrow> dm_waits d = 0 \<and> dm_wait_replies d = 0 \<and> dm_inits d = {#} \<and> booting mks p d"
| "start_inv mks p InWait d \<longleftrightarrow> dm_inits d = {#} \<and>
     (booting mks p d \<and> dm_waits d = 1 \<and> dm_wait_replies d = 0 \<or> up mks p d \<and> dm_waits d = 0 \<and> 0 < dm_wait_replies d)"
| "start_inv mks p Started d \<longleftrightarrow> dm_inits d = {#} \<and> dm_waits d = 0 \<and> up mks p d"

lemma booting_waits [simp]: "booting mks p (d\<lparr>dm_waits := n\<rparr>) = booting mks p d"
  by (cases "dm_pc d") (simp_all add: booting_def)

lemma boot_step:
  assumes "InitDaemon mks d d'" and "booting mks p d" and "dm_inits d = {#}"
  shows "booting mks p d' \<and> dm_inits d' = {#} \<and> dm_waits d' = dm_waits d \<and> dm_wait_replies d' = dm_wait_replies d \<and> dm_init_replies d' = dm_init_replies d \<or>
    up mks p d' \<and> dm_inits d' = {#} \<and> 0 < dm_waits d \<and> dm_waits d' = dm_waits d - 1 \<and> 0 < dm_wait_replies d' \<and> dm_init_replies d' = dm_init_replies d"
  using assms
  by (cases rule: InitDaemon.cases) (auto simp: booting_def up_def services_of_def InitDaemon_services_def wait_returns_def split: prod.splits)

lemma receive_step:
  assumes "InitDaemon mks d d'" and "dm_pc d = AwaitPersister" and "dm_inits d = {#p#}" and "dm_waits d = 0"
  shows "booting mks p d' \<and> dm_inits d' = {#} \<and> dm_init_replies d' = dm_init_replies d + 1 \<and> dm_waits d' = 0 \<and> dm_wait_replies d' = dm_wait_replies d"
  using assms by (cases rule: InitDaemon.cases) (auto simp: booting_def init_returns_def)

lemma up_stays: "up mks p d \<Longrightarrow> dm_inits d = {#} \<Longrightarrow> \<not> InitDaemon mks d d'"
  by (auto simp: up_def elim: InitDaemon.cases)

lemma daemon0_stays: "\<not> InitDaemon mks daemon0 d'"
  by (auto simp: daemon0_def elim: InitDaemon.cases)

lemma start_inv_step:
  assumes "StartServer_calls mks True sv s s'" and "start_inv mks (DaemonClnt_init sv) (st_pc s) (st_daemon s)"
  shows "start_inv mks (DaemonClnt_init sv) (st_pc s') (st_daemon s')"
  using assms(1)
proof cases
  case (daemon d)
  let ?p = "DaemonClnt_init sv" and ?d = "st_daemon s"
  note boot = boot_step [OF daemon(2), of ?p]
  show ?thesis
  proof (cases "st_pc s")
    case CallInit
    then show ?thesis using assms(2) daemon daemon0_stays by auto
  next
    case InInit
    then show ?thesis using assms(2) daemon(1) boot receive_step [OF daemon(2), of ?p] by auto
  next
    case CallWait
    then show ?thesis using assms(2) daemon(1) boot by auto
  next
    case InWait
    then show ?thesis using assms(2) daemon boot up_stays [of mks ?p ?d d] by auto
  next
    case Started
    then show ?thesis using assms(2) daemon up_stays [of mks ?p ?d d] by auto
  qed
qed (use assms(2) in \<open>auto simp: Init_call_def InitWait_call_def daemon0_def DaemonClnt_init_def\<close>)

lemma start_reach_inv: "start_reach mks True sv s \<Longrightarrow> start_inv mks (DaemonClnt_init sv) (st_pc s) (st_daemon s)"
  by (induction rule: start_reach.induct) (auto intro: start_inv_step)

text \<open>Each step brings the start nearer to its end.\<close>

fun start_rank :: "start_pc \<Rightarrow> nat" where
  "start_rank CallInit = 4" | "start_rank InInit = 3" | "start_rank CallWait = 2" | "start_rank InWait = 1" | "start_rank Started = 0"

fun boot_rank :: "nat \<Rightarrow> 's daemon_pc \<Rightarrow> nat" where
  "boot_rank n AwaitPersister = n + 5" | "boot_rank n NewServer = n + 4" | "boot_rank n (AddServices svcs) = length svcs + 3"
| "boot_rank n SignalReady = 2" | "boot_rank n AwaitQuit = 1" | "boot_rank n DaemonExit = 0"

definition starting_rank :: "(Persister \<Rightarrow> 's \<times> 's Service list) \<Rightarrow> Persister \<Rightarrow> 's starting \<Rightarrow> nat" where
  "starting_rank mks p s = start_rank (st_pc s) + boot_rank (length (snd (mks p))) (dm_pc (st_daemon s))"

lemma boot_rank_step:
  assumes "InitDaemon mks d d'" and "booting mks p d \<or> dm_pc d = AwaitPersister" and "dm_waits d = 0 \<or> dm_inits d = {#}"
  shows "boot_rank (length (snd (mks p))) (dm_pc d') < boot_rank (length (snd (mks p))) (dm_pc d)"
  using assms by (cases rule: InitDaemon.cases) (auto simp: booting_def)

lemma starting_rank_step:
  assumes "StartServer_calls mks True sv s s'" and inv: "start_inv mks (DaemonClnt_init sv) (st_pc s) (st_daemon s)"
  shows "starting_rank mks (DaemonClnt_init sv) s' < starting_rank mks (DaemonClnt_init sv) s"
  using assms(1)
proof cases
  case (daemon d)
  note r = boot_rank_step [OF daemon(2), of "DaemonClnt_init sv"]
  show ?thesis using inv daemon r daemon0_stays [of mks d] up_stays [of mks _ "st_daemon s" d] by (cases "st_pc s") (auto simp: starting_rank_def)
qed (simp_all add: starting_rank_def Init_call_def InitWait_call_def)

lemma boot_goes_on:
  assumes "booting mks p d" and "0 < dm_waits d"
  shows "\<exists>d'. InitDaemon mks d d'"
proof (cases "dm_pc d")
  case NewServer
  then show ?thesis using assms serve [of d p mks] by (cases "mks p") (auto simp: booting_def)
next
  case (AddServices svcs)
  then show ?thesis using assms add [of d _ _ _ mks] added [of d mks] by (cases svcs) (auto simp: booting_def)
next
  case SignalReady
  then show ?thesis using assms ready by blast
qed (use assms in \<open>simp_all add: booting_def\<close>)

lemma start_goes_on:
  assumes inv: "start_inv mks (DaemonClnt_init sv) (st_pc s) (st_daemon s)" and "st_pc s \<noteq> Started"
  shows "\<exists>s'. StartServer_calls mks True sv s s'"
proof (cases "st_pc s")
  case CallInit
  then show ?thesis using call_init by blast
next
  case InInit
  then consider "dm_pc (st_daemon s) = AwaitPersister" "DaemonClnt_init sv \<in># dm_inits (st_daemon s)" | "0 < dm_init_replies (st_daemon s)" using inv by auto
  then show ?thesis using InInit receive init_ok daemon by cases blast+
next
  case CallWait
  then show ?thesis using call_wait by blast
next
  case InWait
  then have "0 < dm_wait_replies (st_daemon s) \<or> (\<exists>d. InitDaemon mks (st_daemon s) d)"
    using inv boot_goes_on [of mks "DaemonClnt_init sv" "st_daemon s"] by auto
  then show ?thesis using InWait wait_ok daemon by blast
qed (use assms(2) in simp)

text \<open>
  C11: The start of a server process. While the tester sends the saved state with \<open>Init\<close> and then
  waits with \<open>InitWait\<close>, the daemon receives it, starts the server and registers its services, all
  over one channel. As long as the connection holds, whatever the order of the steps: they cannot
  go on for ever, the start is not stuck before its end, and when \<open>StartServer\<close> comes to add the
  server to the network, the daemon runs with the persister that was saved and with every service
  registered.
\<close>

theorem daemon_start:
  assumes "start_reach mks True sv s"
  shows "(\<forall>s'. StartServer_calls mks True sv s s' \<longrightarrow> starting_rank mks (DaemonClnt_init sv) s' < starting_rank mks (DaemonClnt_init sv) s) \<and>
    (st_pc s \<noteq> Started \<longrightarrow> (\<exists>s'. StartServer_calls mks True sv s s')) \<and>
    (st_pc s = Started \<longrightarrow> dm_persister (st_daemon s) = Some (DaemonClnt_init sv) \<and>
       dm_rpcs (st_daemon s) = Some (case mks (DaemonClnt_init sv) of (st, svcs) \<Rightarrow> InitDaemon_services st svcs))"
proof (intro conjI)
  note inv = start_reach_inv [OF assms]
  show "\<forall>s'. StartServer_calls mks True sv s s' \<longrightarrow> starting_rank mks (DaemonClnt_init sv) s' < starting_rank mks (DaemonClnt_init sv) s"
    using starting_rank_step [OF _ inv] by blast
  show "st_pc s \<noteq> Started \<longrightarrow> (\<exists>s'. StartServer_calls mks True sv s s')" using start_goes_on [OF inv] by blast
  show "st_pc s = Started \<longrightarrow> dm_persister (st_daemon s) = Some (DaemonClnt_init sv) \<and>
       dm_rpcs (st_daemon s) = Some (case mks (DaemonClnt_init sv) of (st, svcs) \<Rightarrow> InitDaemon_services st svcs)"
    using inv by (auto simp: up_def services_of_def)
qed

text \<open>A start from beginning to end, of a server without services.\<close>

lemma demo_start:
  "\<exists>s. start_reach (\<lambda>p. (0 :: nat, [])) True sv s \<and> st_pc s = Started"
proof -
  let ?m = "\<lambda>p. (0 :: nat, [])" and ?p = "DaemonClnt_init sv"
  let ?s = "\<lambda>pc dpc p r is ws ir wr. \<lparr>st_pc = pc, st_daemon = \<lparr>dm_pc = dpc, dm_persister = p, dm_rpcs = r, dm_inits = is, dm_waits = ws,
     dm_init_replies = ir, dm_wait_replies = wr\<rparr>\<rparr>"
  note ev = Init_call_def InitWait_call_def init_returns_def wait_returns_def daemon0_def DaemonClnt_init_def
  have "start_reach ?m True sv (?s InInit AwaitPersister None None {#?p#} 0 0 0)"
    using start_reach.step [OF start_reach.start call_init, of ?m True sv] by (simp add: ev)
  from start_reach.step [OF this daemon [OF receive [of _ ?p]]] have "start_reach ?m True sv (?s InInit NewServer (Some ?p) None {#} 0 1 0)" by (simp add: ev)
  from start_reach.step [OF this init_ok] have "start_reach ?m True sv (?s CallWait NewServer (Some ?p) None {#} 0 1 0)" by simp
  from start_reach.step [OF this call_wait] have "start_reach ?m True sv (?s InWait NewServer (Some ?p) None {#} 1 1 0)" by (simp add: ev)
  from start_reach.step [OF this daemon [OF serve [of _ ?p _ 0 "[]"]]]
  have "start_reach ?m True sv (?s InWait (AddServices []) (Some ?p) (Some (NewRPCSrv 0)) {#} 1 1 0)" by simp
  from start_reach.step [OF this daemon [OF added]] have "start_reach ?m True sv (?s InWait SignalReady (Some ?p) (Some (NewRPCSrv 0)) {#} 1 1 0)" by simp
  from start_reach.step [OF this daemon [OF ready]] have "start_reach ?m True sv (?s InWait AwaitQuit (Some ?p) (Some (NewRPCSrv 0)) {#} 0 1 1)" by (simp add: ev)
  from start_reach.step [OF this wait_ok] show ?thesis by force
qed

theorem daemon_start_witness:
  "\<exists>s. start_reach (\<lambda>p. (0 :: nat, [])) True MakePersister s \<and> st_pc s = Started \<and>
     dm_persister (st_daemon s) = Some (DaemonClnt_init MakePersister) \<and> dm_rpcs (st_daemon s) = Some (InitDaemon_services 0 [])"
proof -
  obtain s where s: "start_reach (\<lambda>p. (0 :: nat, [])) True MakePersister s" "st_pc s = Started" using demo_start by blast
  from daemon_start [OF s(1)] s show ?thesis by auto
qed

text \<open>When the connection breaks, the tester adds a server to the network that never got its state.\<close>

lemma lost_start_unnoticed:
  "\<exists>s. start_reach mks False sv s \<and> st_pc s = Started \<and> dm_persister (st_daemon s) = None \<and> dm_rpcs (st_daemon s) = None"
proof -
  let ?d1 = "Init_call (Persister_ReadRaftState sv) (Persister_ReadSnapshot sv) daemon0"
  have "start_reach mks False sv \<lparr>st_pc = InInit, st_daemon = ?d1\<rparr>"
    using start_reach.step [OF start_reach.start call_init, of mks False sv] by simp
  from start_reach.step [OF this init_lost] have "start_reach mks False sv \<lparr>st_pc = CallWait, st_daemon = ?d1\<rparr>" by simp
  from start_reach.step [OF this call_wait] have "start_reach mks False sv \<lparr>st_pc = InWait, st_daemon = InitWait_call ?d1\<rparr>" by simp
  from start_reach.step [OF this wait_lost] have "start_reach mks False sv \<lparr>st_pc = Started, st_daemon = InitWait_call ?d1\<rparr>" by simp
  then show ?thesis by (intro exI conjI) (auto simp: Init_call_def InitWait_call_def daemon0_def)
qed

end
