(* ===== verification/Tester_Connection.thy ===== *)
theory Tester_Connection
  imports Tester_Demux "HOL-Library.Multiset"
begin

text \<open>
  The server end of a connection at the level of its bytes (\<open>tester1/demux/dmxsrv.go\<close>) and the accept
  loop of \<open>tester1/sockrpc/rpcsrv.go\<close>. \<open>Tester_Demux\<close> has the client end and takes the server to be a
  box that answers requests in any order; here the server is a reader that takes messages off
  the stream and one goroutine per request that serves it and writes the reply.

  The encodings (\<open>labgob\<close>) are arguments: \<open>enc\<close> and \<open>dec\<close> of messages, \<open>dec_init\<close> of the initial one.
\<close>

section \<open>tester1/demux/dmxsrv.go\<close>

text \<open>
  \<open>dx_wire\<close> are the bytes that have arrived and are not read, \<open>dx_ended\<close> that no more will come, \<open>dx_serving\<close>
  the requests that goroutines work on, \<open>dx_out\<close> the bytes sent, \<open>dx_broken\<close> that no more can be sent.
  \<open>dx_recv\<close> (all bytes that have arrived) and \<open>dx_done\<close> (the requests whose reply was sent, with
  the replies, in the order of sending) only record what has happened.
\<close>

record DemuxSrv =
  dx_srvEnd :: string
  dx_clntEnd :: string
  dx_closed :: bool
  dx_wire :: byte_list
  dx_ended :: bool
  dx_reading :: bool
  dx_serving :: "(Ttag \<times> byte_list) multiset"
  dx_out :: byte_list
  dx_broken :: bool
  dx_recv :: byte_list
  dx_done :: "((Ttag \<times> byte_list) \<times> byte_list \<times> bool) list"

text \<open>\<open>None\<close>: waits for the initial message.\<close>

definition NewDemuxSrv :: "(byte_list \<Rightarrow> msg option) \<Rightarrow> (byte_list \<Rightarrow> string option) \<Rightarrow> string \<Rightarrow> byte_list \<Rightarrow> bool \<Rightarrow> (go_exit + DemuxSrv) option" where
  "NewDemuxSrv dec dec_init srvEnd wire ended =
     (case transport_ReadCall dec wire of
        None \<Rightarrow> if ended then Some (Inl (Fatal ''NewDemuxSrv: ReadCall err'')) else None
      | Some (Inl e) \<Rightarrow> Some (Inl e)
      | Some (Inr (m, rest)) \<Rightarrow>
          (case dec_init (msg_Data m) of
             None \<Rightarrow> Some (Inl (Fatal ''Unmarshall fatal''))
           | Some clnt \<Rightarrow> Some (Inr
               \<lparr>dx_srvEnd = srvEnd, dx_clntEnd = clnt, dx_closed = False, dx_wire = rest, dx_ended = ended, dx_reading = True,
                dx_serving = {#}, dx_out = [], dx_broken = False, dx_recv = wire, dx_done = []\<rparr>)))"

definition DemuxSrv_ClntEnd :: "DemuxSrv \<Rightarrow> string" where
  "DemuxSrv_ClntEnd dmx = dx_clntEnd dmx"

definition DemuxSrv_setClosed :: "DemuxSrv \<Rightarrow> bool \<times> DemuxSrv" where
  "DemuxSrv_setClosed dmx = (dx_closed dmx, dmx\<lparr>dx_closed := True\<rparr>)"

definition DemuxSrv_Close :: "DemuxSrv \<Rightarrow> DemuxSrv" where
  "DemuxSrv_Close dmx =
     (case DemuxSrv_setClosed dmx of (c, dmx1) \<Rightarrow> if c then dmx1 else dmx1\<lparr>dx_broken := True, dx_ended := True\<rparr>)"

text \<open>
  The error of \<open>ReadCall\<close> at the end of the stream is \<open>io.EOF\<close> between two messages, and also between the
  length of a message and the message.
\<close>

definition at_EOF :: "byte_list \<Rightarrow> bool" where
  "at_EOF wire \<longleftrightarrow> length wire = 0 \<or> length wire = 4"

text \<open>
  The steps of a connection: bytes arrive, the stream ends, the reader reads a message and starts a
  goroutine, or stops; a goroutine has the result of \<open>ServeRequest\<close> (\<open>answer\<close>) and writes it, in whole, or
  only in part when the connection breaks, or not at all once it is broken.
\<close>

inductive DemuxSrv_step :: "(msg \<Rightarrow> byte_list) \<Rightarrow> (byte_list \<Rightarrow> msg option) \<Rightarrow> (string \<Rightarrow> byte_list \<Rightarrow> byte_list \<times> bool \<Rightarrow> bool) \<Rightarrow> DemuxSrv \<Rightarrow> DemuxSrv \<Rightarrow> bool"
  for enc dec answer where
  arrive: "\<not> dx_ended d \<Longrightarrow> DemuxSrv_step enc dec answer d (d\<lparr>dx_wire := dx_wire d @ bs, dx_recv := dx_recv d @ bs\<rparr>)"
| ended: "DemuxSrv_step enc dec answer d (d\<lparr>dx_ended := True\<rparr>)"
| read_call: "dx_reading d \<Longrightarrow> transport_ReadCall dec (dx_wire d) = Some (Inr (m, rest)) \<Longrightarrow>
    DemuxSrv_step enc dec answer d (d\<lparr>dx_wire := rest, dx_serving := add_mset (msg_Tag m, msg_Data m) (dx_serving d)\<rparr>)"
| read_stops: "dx_reading d \<Longrightarrow> transport_ReadCall dec (dx_wire d) = None \<Longrightarrow> dx_ended d \<Longrightarrow>
    DemuxSrv_step enc dec answer d ((if at_EOF (dx_wire d) then snd (DemuxSrv_setClosed d) else d)\<lparr>dx_reading := False\<rparr>)"
| reply: "(t, req) \<in># dx_serving d \<Longrightarrow> answer (dx_clntEnd d) req (rep, ok) \<Longrightarrow> \<not> dx_broken d \<Longrightarrow>
    DemuxSrv_step enc dec answer d (d\<lparr>dx_serving := dx_serving d - {#(t, req)#}, dx_out := transport_WriteCall enc t rep ok (dx_out d),
      dx_done := dx_done d @ [((t, req), rep, ok)]\<rparr>)"
| reply_cut: "(t, req) \<in># dx_serving d \<Longrightarrow> answer (dx_clntEnd d) req (rep, ok) \<Longrightarrow> \<not> dx_broken d \<Longrightarrow> length (dx_out d) \<le> k \<Longrightarrow>
    k < length (transport_WriteCall enc t rep ok (dx_out d)) \<Longrightarrow>
    DemuxSrv_step enc dec answer d (d\<lparr>dx_serving := dx_serving d - {#(t, req)#}, dx_out := take k (transport_WriteCall enc t rep ok (dx_out d)),
      dx_broken := True\<rparr>)"
| reply_lost: "(t, req) \<in># dx_serving d \<Longrightarrow> dx_broken d \<Longrightarrow>
    DemuxSrv_step enc dec answer d (d\<lparr>dx_serving := dx_serving d - {#(t, req)#}\<rparr>)"
| close: "DemuxSrv_step enc dec answer d (DemuxSrv_Close d)"

section \<open>tester1/sockrpc/rpcsrv.go\<close>

text \<open>
  The loop of \<open>listen\<close>, over the connections that are made: what has arrived on each, and whether it
  has ended. \<open>None\<close> is an error of \<open>Accept\<close>.
\<close>

fun RPCSrv_accept :: "(byte_list \<Rightarrow> msg option) \<Rightarrow> (byte_list \<Rightarrow> string option) \<Rightarrow> string \<Rightarrow> (byte_list \<times> bool) option list \<Rightarrow> go_exit + DemuxSrv list" where
  "RPCSrv_accept dec dec_init sock [] = Inr []"
| "RPCSrv_accept dec dec_init sock (None # cs) = Inr []"
| "RPCSrv_accept dec dec_init sock (Some (wire, e) # cs) =
     (case NewDemuxSrv dec dec_init sock wire e of
        None \<Rightarrow> Inr []
      | Some (Inl x) \<Rightarrow> Inl x
      | Some (Inr d) \<Rightarrow> and_then (RPCSrv_accept dec dec_init sock cs) (\<lambda>ds. Inr (d # ds)))"

text \<open>A connection whose initial message does not come keeps the server from accepting any other.\<close>

lemma accept_blocks:
  assumes "transport_ReadCall dec wire = None"
  shows "RPCSrv_accept dec dec_init sock (Some (wire, False) # cs) = Inr []"
    and "RPCSrv_accept dec dec_init sock (Some (wire, True) # cs) = Inl (Fatal ''NewDemuxSrv: ReadCall err'')"
  using assms by (simp_all add: NewDemuxSrv_def)

section \<open>What the server has read\<close>

fun reads :: "(byte_list \<Rightarrow> msg option) \<Rightarrow> byte_list \<Rightarrow> msg list \<Rightarrow> byte_list \<Rightarrow> bool" where
  "reads dec w [] w' \<longleftrightarrow> w = w'"
| "reads dec w (m # ms) w' \<longleftrightarrow> (\<exists>r. transport_ReadCall dec w = Some (Inr (m, r)) \<and> reads dec r ms w')"

lemma ReadCall_more:
  assumes "transport_ReadCall dec w = Some (Inr (m, r))"
  shows "transport_ReadCall dec (w @ x) = Some (Inr (m, r @ x))"
  using assms by (auto simp: transport_ReadCall_def Let_def split: if_splits option.splits)

lemma reads_more: "reads dec w ms w' \<Longrightarrow> reads dec (w @ x) ms (w' @ x)"
  by (induction ms arbitrary: w) (auto dest: ReadCall_more)

lemma reads_snoc: "reads dec w (ms @ [m]) w' \<longleftrightarrow> (\<exists>r. reads dec w ms r \<and> transport_ReadCall dec r = Some (Inr (m, w')))"
  by (induction ms arbitrary: w) auto

lemma reads_read_calls:
  assumes "reads dec w ms w'" and "read_calls dec w = Inr xs"
  shows "\<exists>ys. xs = ms @ ys \<and> read_calls dec w' = Inr ys"
  using assms
proof (induction ms arbitrary: w xs)
  case (Cons m ms)
  then obtain r where r: "transport_ReadCall dec w = Some (Inr (m, r))" "reads dec r ms w'" by auto
  from Cons.prems(2) obtain zs where "read_calls dec r = Inr zs" "xs = m # zs"
    unfolding read_calls.simps [of dec w] r(1) by (auto simp: and_then_eq_Inr)
  then show ?case using Cons.IH [OF r(2)] by auto
qed simp

definition request :: "msg \<Rightarrow> Ttag \<times> byte_list" where
  "request m = (msg_Tag m, msg_Data m)"

definition reply_msg :: "(Ttag \<times> byte_list) \<times> byte_list \<times> bool \<Rightarrow> msg" where
  "reply_msg = (\<lambda>((t, req), rep, ok). \<lparr>msg_Tag = t, msg_Data = rep, msg_Ok = ok\<rparr>)"

text \<open>After the initial message \<open>m0\<close> the server has read \<open>ms\<close>.\<close>

definition conn_inv :: "(msg \<Rightarrow> byte_list) \<Rightarrow> (byte_list \<Rightarrow> msg option) \<Rightarrow> (string \<Rightarrow> byte_list \<Rightarrow> byte_list \<times> bool \<Rightarrow> bool) \<Rightarrow> string \<Rightarrow> msg \<Rightarrow> msg list \<Rightarrow> DemuxSrv \<Rightarrow> bool" where
  "conn_inv enc dec answer clnt m0 ms d \<longleftrightarrow> dx_clntEnd d = clnt \<and> reads dec (dx_recv d) (m0 # ms) (dx_wire d) \<and>
     (\<forall>(r, a)\<in>set (dx_done d). answer clnt (snd r) a) \<and>
     mset (map fst (dx_done d)) + dx_serving d \<subseteq># mset (map request ms) \<and>
     (\<not> dx_broken d \<longrightarrow> mset (map fst (dx_done d)) + dx_serving d = mset (map request ms) \<and> dx_out d = write_calls enc (map reply_msg (dx_done d))) \<and>
     (\<exists>last k. dx_out d = take k (write_calls enc (map reply_msg (dx_done d) @ last)) \<and> length (write_calls enc (map reply_msg (dx_done d))) \<le> k \<and> length last \<le> 1) \<and>
     (\<not> dx_reading d \<longrightarrow> dx_ended d \<and> transport_ReadCall dec (dx_wire d) = None)"

lemma write_calls_snoc: "write_calls enc (ms @ [m]) = transport_WriteCall enc (msg_Tag m) (msg_Data m) (msg_Ok m) (write_calls enc ms)"
  by (simp add: write_calls_def)

lemma write_reply: "transport_WriteCall enc t rep ok (write_calls enc (map reply_msg rs)) = write_calls enc (map reply_msg (rs @ [((t, req), rep, ok)]))"
  by (simp add: write_calls_snoc reply_msg_def)

lemma sent_all: "out = write_calls enc ms \<Longrightarrow> \<exists>last k. out = take k (write_calls enc (ms @ last)) \<and> length (write_calls enc ms) \<le> k \<and> length last \<le> 1"
  by (intro exI [of _ "[]"] exI [of _ "length out"]) simp

lemma submset_less: "A + B \<subseteq># (C :: 'a multiset) \<Longrightarrow> A + (B - D) \<subseteq># C"
  by (meson diff_subset_eq_self mset_subset_eq_mono_add subset_mset.order_trans subset_mset.order_refl)

lemma conn_step:
  assumes "DemuxSrv_step enc dec answer d d'" and inv: "conn_inv enc dec answer clnt m0 ms d"
  shows "\<exists>ms'. conn_inv enc dec answer clnt m0 ms' d'"
proof -
  have fewer: "mset (map fst (dx_done d)) + (dx_serving d - X) \<subseteq># mset (map request ms)" for X
    using inv by (intro submset_less) (simp add: conn_inv_def)
  from assms(1) show ?thesis
  proof cases
    case (arrive bs)
    then have "dx_reading d" using inv by (auto simp: conn_inv_def)
    moreover have "reads dec (dx_recv d @ bs) (m0 # ms) (dx_wire d @ bs)" using inv by (intro reads_more) (simp add: conn_inv_def)
    ultimately show ?thesis using inv arrive by (intro exI [of _ ms]) (simp add: conn_inv_def)
  next
    case (read_call m rest)
    have "reads dec (dx_recv d) ((m0 # ms) @ [m]) rest" using inv read_call(3) unfolding reads_snoc conn_inv_def by blast
    moreover have "mset (map fst (dx_done d)) + dx_serving d + {#request m#} \<subseteq># mset (map request ms) + {#request m#}"
      using inv by (simp add: conn_inv_def del: add_mset_add_single)
    ultimately show ?thesis using inv read_call(1,2) by (intro exI [of _ "ms @ [m]"]) (auto simp: conn_inv_def request_def)
  next
    case read_stops
    then show ?thesis using inv by (intro exI [of _ ms]) (simp add: conn_inv_def DemuxSrv_setClosed_def)
  next
    case (reply t req rep ok)
    let ?done = "dx_done d @ [((t, req), rep, ok)]"
    have eq: "mset (map fst (dx_done d)) + dx_serving d = mset (map request ms)" "dx_out d = write_calls enc (map reply_msg (dx_done d))"
      using inv reply(4) by (simp_all add: conn_inv_def)
    have "transport_WriteCall enc t rep ok (dx_out d) = write_calls enc (map reply_msg ?done)" unfolding eq(2) by (rule write_reply)
    moreover have "(t, req) \<in># mset (map request ms)" using reply(2) unfolding eq(1) [symmetric] by simp
    then have "add_mset (t, req) (image_mset request (mset ms) - {#(t, req)#}) = image_mset request (mset ms)" by simp
    ultimately show ?thesis using inv reply sent_all [of "dx_out d'" enc "map reply_msg ?done"]
      by (intro exI [of _ ms]) (simp add: conn_inv_def)
  next
    case (reply_cut t req rep ok k)
    have out: "dx_out d = write_calls enc (map reply_msg (dx_done d))" using inv reply_cut(4) by (simp add: conn_inv_def)
    let ?m = "\<lparr>msg_Tag = t, msg_Data = rep, msg_Ok = ok\<rparr>"
    have "dx_out d' = take k (write_calls enc (map reply_msg (dx_done d') @ [?m]))" using reply_cut(1) out by (simp add: write_calls_snoc)
    moreover have "length (write_calls enc (map reply_msg (dx_done d'))) \<le> k" using reply_cut(1,5) out by simp
    ultimately have "\<exists>last k. dx_out d' = take k (write_calls enc (map reply_msg (dx_done d') @ last)) \<and>
        length (write_calls enc (map reply_msg (dx_done d'))) \<le> k \<and> length last \<le> 1" by (intro exI [of _ "[?m]"] exI [of _ k]) simp
    then show ?thesis using inv reply_cut(1) fewer by (intro exI [of _ ms]) (simp add: conn_inv_def)
  next
    case (reply_lost t req)
    show ?thesis using inv fewer reply_lost(1,3) by (intro exI [of _ ms]) (simp add: conn_inv_def)
  next
    case close
    then show ?thesis using inv by (intro exI [of _ ms]) (simp add: conn_inv_def DemuxSrv_Close_def DemuxSrv_setClosed_def)
  qed (use inv in \<open>auto simp: conn_inv_def intro!: exI [of _ ms]\<close>)
qed

lemma conn_start:
  assumes "NewDemuxSrv dec dec_init srvEnd wire ended = Some (Inr d)"
  shows "\<exists>m0. dec_init (msg_Data m0) = Some (dx_clntEnd d) \<and> conn_inv enc dec answer (dx_clntEnd d) m0 [] d"
proof -
  obtain m0 rest clnt where m0: "transport_ReadCall dec wire = Some (Inr (m0, rest))" "dec_init (msg_Data m0) = Some clnt"
    "d = \<lparr>dx_srvEnd = srvEnd, dx_clntEnd = clnt, dx_closed = False, dx_wire = rest, dx_ended = ended, dx_reading = True,
                dx_serving = {#}, dx_out = [], dx_broken = False, dx_recv = wire, dx_done = []\<rparr>"
    using assms by (auto simp: NewDemuxSrv_def split: option.splits sum.splits if_splits)
  then show ?thesis by (intro exI [of _ m0]) (auto simp: conn_inv_def write_calls_def intro!: exI [of _ "[]"])
qed

lemma conn_steps:
  assumes "(DemuxSrv_step enc dec answer)\<^sup>*\<^sup>* d d'" and "conn_inv enc dec answer clnt m0 ms d"
  shows "\<exists>ms'. conn_inv enc dec answer clnt m0 ms' d'"
  using assms by (induction rule: rtranclp_induct) (use conn_step in blast)+

text \<open>
  C16: The server end of a connection answers every call that reaches it, once. A client sends its
  name and then the messages \<open>ms\<close>; the stream may be cut anywhere. In every state the server knows the
  client by the name it sent; the calls it has answered or is working on are among those sent, none
  is answered more often than it was sent, every reply has the tag of its call and is a result of
  serving it, and what has been sent is the replies in full, one after the other, followed by at
  most one more that is cut, and that only if the connection is broken. When the reader has stopped, no goroutine is left
  and the connection is not broken, exactly the calls whose bytes have all arrived are answered.
\<close>

theorem server_answers_calls:
  assumes codec: "\<forall>m\<in>set (m0 # ms). dec (enc m) = Some m \<and> length (enc m) < 2 ^ 32" and name: "dec_init (msg_Data m0) = Some clnt"
    and start: "NewDemuxSrv dec dec_init srvEnd wire e = Some (Inr d0)" and run: "(DemuxSrv_step enc dec answer)\<^sup>*\<^sup>* d0 d"
    and stream: "dx_recv d = take k (write_calls enc (m0 # ms))"
  shows "DemuxSrv_ClntEnd d = clnt \<and>
    mset (map fst (dx_done d)) + dx_serving d \<subseteq># mset (map request ms) \<and> (\<forall>(r, a)\<in>set (dx_done d). answer clnt (snd r) a) \<and>
    (\<exists>last j. dx_out d = write_calls enc (map reply_msg (dx_done d)) @ take j (write_calls enc last) \<and> length last \<le> 1 \<and> (\<not> dx_broken d \<longrightarrow> j = 0)) \<and>
    (\<not> dx_reading d \<and> dx_serving d = {#} \<and> \<not> dx_broken d \<longrightarrow>
      (\<exists>j. mset (map fst (dx_done d)) = mset (map request (take j ms)) \<and>
        (\<forall>i \<le> length ms. length (write_calls enc (m0 # take i ms)) \<le> k \<longrightarrow> i \<le> j)))"
proof -
  obtain n0 read where read: "dec_init (msg_Data n0) = Some (dx_clntEnd d0)" "conn_inv enc dec answer (dx_clntEnd d0) n0 read d"
    using conn_start [OF start] conn_steps [OF run] by blast
  have r: "reads dec (dx_recv d) (n0 # read) (dx_wire d)" using read(2) by (simp add: conn_inv_def)
  obtain j where j: "j \<le> length (m0 # ms)" "read_calls dec (dx_recv d) = Inr (take j (m0 # ms))"
    "\<forall>i \<le> length (m0 # ms). length (concat (map (frame enc) (take i (m0 # ms)))) \<le> k \<longrightarrow> i \<le> j"
    using read_calls_prefix [OF codec, of k] stream unfolding write_calls_frames by auto
  from reads_read_calls [OF r j(2)] obtain ys where ys: "take j (m0 # ms) = n0 # read @ ys" "read_calls dec (dx_wire d) = Inr ys" by auto
  then obtain j' where j': "j = Suc j'" by (cases j) auto
  then have n0: "n0 = m0" "take j' ms = read @ ys" using ys(1) by simp_all
  have clnt: "dx_clntEnd d0 = clnt" using read(1) name n0(1) by simp
  note inv = read(2) [unfolded clnt conn_inv_def]
  have "read = take (length read) ms" using n0(2) by (metis append_eq_conv_conj append_take_drop_id append.assoc)
  then have "mset (map request read) \<subseteq># mset (map request ms)" by (metis image_mset_subseteq_mono mset_map mset_subset_eq_add_left append_take_drop_id mset_append)
  moreover have "mset (map fst (dx_done d)) + dx_serving d \<subseteq># mset (map request read)" using inv by blast
  ultimately have sub: "mset (map fst (dx_done d)) + dx_serving d \<subseteq># mset (map request ms)" by (rule subset_mset.order_trans [rotated])
  have out: "\<exists>last i. dx_out d = write_calls enc (map reply_msg (dx_done d)) @ take i (write_calls enc last) \<and> length last \<le> 1 \<and> (\<not> dx_broken d \<longrightarrow> i = 0)"
  proof (cases "dx_broken d")
    case False
    then have "dx_out d = write_calls enc (map reply_msg (dx_done d))" using inv by blast
    then show ?thesis by (intro exI [of _ "[]"] exI [of _ 0]) simp
  next
    case True
    from inv obtain last i where "dx_out d = take i (write_calls enc (map reply_msg (dx_done d) @ last))" "length (write_calls enc (map reply_msg (dx_done d))) \<le> i" "length last \<le> 1"
      by blast
    then show ?thesis using True by (intro exI [of _ last] exI [of _ "i - length (write_calls enc (map reply_msg (dx_done d)))"]) (simp add: write_calls_frames)
  qed
  have all: "\<exists>j. mset (map fst (dx_done d)) = mset (map request (take j ms)) \<and> (\<forall>i \<le> length ms. length (write_calls enc (m0 # take i ms)) \<le> k \<longrightarrow> i \<le> j)"
    if "\<not> dx_reading d" "dx_serving d = {#}" "\<not> dx_broken d"
  proof (intro exI conjI allI impI)
    have "transport_ReadCall dec (dx_wire d) = None" using inv that(1) by blast
    then have "ys = []" using ys(2) by (simp add: read_calls.simps [of dec "dx_wire d"])
    then show "mset (map fst (dx_done d)) = mset (map request (take j' ms))" using inv that(2,3) n0(2) by simp
    show "i \<le> j'" if "i \<le> length ms" "length (write_calls enc (m0 # take i ms)) \<le> k" for i
      using j(3) [rule_format, of "Suc i"] that j' by (simp add: write_calls_frames)
  qed
  show ?thesis using inv sub out all by (simp add: DemuxSrv_ClntEnd_def)
qed


text \<open>A client named \<open>A\<close> sends one call, which is answered, and ends the stream.\<close>

definition tiny_enc :: "msg \<Rightarrow> byte_list" where
  "tiny_enc m = ucast (msg_Tag m) # msg_Data m"

definition tiny_dec :: "byte_list \<Rightarrow> msg option" where
  "tiny_dec b = Some \<lparr>msg_Tag = ucast (hd b), msg_Data = tl b, msg_Ok = True\<rparr>"

definition tiny_name :: "byte_list \<Rightarrow> string option" where
  "tiny_name b = Some (map (\<lambda>x. char_of (unat x)) b)"

theorem server_answers_calls_witness:
  "\<exists>d. (DemuxSrv_step tiny_enc tiny_dec (\<lambda>_ req r. r = (rev req, True)))\<^sup>*\<^sup>*
       (projr (the (NewDemuxSrv tiny_dec tiny_name ''B'' (write_calls tiny_enc [\<lparr>msg_Tag = 0, msg_Data = [65], msg_Ok = True\<rparr>, \<lparr>msg_Tag = 1, msg_Data = [5, 6], msg_Ok = True\<rparr>]) True))) d \<and>
     DemuxSrv_ClntEnd d = ''A'' \<and> map fst (dx_done d) = [(1, [5, 6])]"
proof -
  let ?m0 = "\<lparr>msg_Tag = 0, msg_Data = [65], msg_Ok = True\<rparr>" and ?m1 = "\<lparr>msg_Tag = 1, msg_Data = [5, 6], msg_Ok = True\<rparr> :: msg"
  let ?wire = "write_calls tiny_enc [?m0, ?m1]"
  let ?step = "DemuxSrv_step tiny_enc tiny_dec (\<lambda>_ req r. r = (rev req, True))"
  let ?d0 = "\<lparr>dx_srvEnd = ''B'', dx_clntEnd = ''A'', dx_closed = False, dx_wire = frame tiny_enc ?m1, dx_ended = True, dx_reading = True,
     dx_serving = {#}, dx_out = [], dx_broken = False, dx_recv = ?wire, dx_done = []\<rparr>"
  have codec: "\<forall>m\<in>set [?m0, ?m1]. tiny_dec (tiny_enc m) = Some m \<and> length (tiny_enc m) < 2 ^ 32" by (simp add: tiny_dec_def tiny_enc_def)
  have name: "tiny_name (msg_Data ?m0) = Some ''A''" by code_simp
  have read0: "transport_ReadCall tiny_dec ?wire = Some (Inr (?m0, frame tiny_enc ?m1))"
    using ReadCall_frame [of tiny_dec tiny_enc ?m0 "frame tiny_enc ?m1"] codec by (simp add: write_calls_frames)
  have start: "NewDemuxSrv tiny_dec tiny_name ''B'' ?wire True = Some (Inr ?d0)" using read0 name by (simp add: NewDemuxSrv_def)
  let ?d1 = "?d0\<lparr>dx_wire := [], dx_serving := {#(1, [5, 6])#}\<rparr>"
  have "?step ?d0 ?d1" using DemuxSrv_step.read_call [of ?d0 tiny_dec ?m1 "[]"] ReadCall_frame [of tiny_dec tiny_enc ?m1 "[]"] codec by simp
  moreover let ?d2 = "?d1\<lparr>dx_serving := {#}, dx_out := transport_WriteCall tiny_enc 1 [6, 5] True [], dx_done := [((1, [5, 6]), [6, 5], True)]\<rparr>"
  have "?step ?d1 ?d2" using DemuxSrv_step.reply [of 1 "[5, 6]" ?d1 _ "[6, 5]" True] by simp
  moreover let ?d3 = "?d2\<lparr>dx_closed := True, dx_reading := False\<rparr>"
  have "?step ?d2 ?d3" using DemuxSrv_step.read_stops [of ?d2 tiny_dec] by (simp add: transport_ReadCall_def at_EOF_def DemuxSrv_setClosed_def)
  ultimately have run: "?step\<^sup>*\<^sup>* ?d0 ?d3" by (meson converse_rtranclp_into_rtranclp r_into_rtranclp)
  have "DemuxSrv_ClntEnd ?d3 = ''A''"
    by (rule server_answers_calls [OF codec name start run, where k = "length ?wire", THEN conjunct1]) simp
  then show ?thesis using run unfolding start by (intro exI [of _ ?d3]) simp
qed

end
