(* ===== verification/Raft_Harness.thy ===== *)
theory Raft_Harness
  imports Go_Std
begin

text \<open>
  The servers around a Raft library and the tester that checks them: \<open>raft1/server.go\<close>,
  \<open>raft1/test.go\<close> and the messages of \<open>raftapi/raftapi.go\<close>. The Raft library itself
  (\<open>raft1/raft.go\<close>) is the skeleton that the lab hands out; what a peer reports (\<open>GetState\<close>,
  \<open>Start\<close>, the messages on the apply channel) is an argument here.

  Commands have type \<open>'v option\<close>, with \<open>None\<close> for Go's \<open>nil\<close>. A snapshot is the pair that the
  server encodes, or bytes that do not decode. Error messages are constructors instead of
  formatted text; \<open>NoErr\<close> is the empty string. The RPCs between server and tester are direct calls.
\<close>

type_synonym 'v any = "'v option"

datatype 'v snapshot = NilSnap | Undecodable | Snap int "'v any list"

record 'v ApplyMsg =
  CommandValid :: bool
  Command :: "'v any"
  CommandIndex :: int
  SnapshotValid :: bool
  Snapshot :: "'v snapshot"
  SnapshotTerm :: int
  SnapshotIndex :: int

datatype err_msg =
    NoErr
  | CommitMismatch int nat nat
  | ApplyOutOfOrder nat int
  | ExpectedIndex nat int int
  | NilSnapshotErr
  | UndecodableErr
  | SnapshotIndexErr nat
  | ErrRPC

section \<open>raft1/test.go: the tester's view of the servers\<close>

record 'v raftServer =
  applyErr :: err_msg
  logs :: "int \<rightharpoonup> 'v any"

record 'v Test =
  srvs :: "'v raftServer list"
  maxIndex :: int

definition newRaftServer :: "'v raftServer" where
  "newRaftServer = \<lparr>applyErr = NoErr, logs = Map.empty\<rparr>"

definition entry :: "'v raftServer \<Rightarrow> int \<Rightarrow> 'v any option" where
  "entry rs i = logs rs i"

text \<open>The loop over all servers keeps the last mismatch.\<close>

definition Test_CheckLogs :: "nat \<Rightarrow> 'v ApplyMsg \<Rightarrow> 'v Test \<Rightarrow> (err_msg \<times> bool) \<times> 'v Test" where
  "Test_CheckLogs i m ts =
     (let v = Command m; me = srvs ts ! i;
          err_msg = foldl (\<lambda>e j.
              case entry (srvs ts ! j) (CommandIndex m) of
                Some old \<Rightarrow> if old \<noteq> v then CommitMismatch (CommandIndex m) i j else e
              | None \<Rightarrow> e) NoErr [0..<length (srvs ts)];
          prevok = (entry me (CommandIndex m - 1) \<noteq> None)
      in ((err_msg, prevok),
          ts\<lparr>srvs := (srvs ts)[i := me\<lparr>logs := (logs me)(CommandIndex m \<mapsto> v)\<rparr>],
             maxIndex := (if CommandIndex m > maxIndex ts then CommandIndex m else maxIndex ts)\<rparr>))"

definition Test_IngestLog :: "nat \<Rightarrow> int list \<Rightarrow> (int \<rightharpoonup> 'v any) \<Rightarrow> 'v Test \<Rightarrow> 'v Test" where
  "Test_IngestLog i ks xlog ts =
     ts\<lparr>srvs := (srvs ts)[i := (srvs ts ! i)\<lparr>logs := foldl (\<lambda>l k. l(k \<mapsto> the (xlog k))) Map.empty ks\<rparr>]\<rparr>"

definition Test_ApplyErr :: "nat \<Rightarrow> err_msg \<Rightarrow> 'v Test \<Rightarrow> 'v Test" where
  "Test_ApplyErr i err ts = ts\<lparr>srvs := (srvs ts)[i := (srvs ts ! i)\<lparr>applyErr := err\<rparr>]\<rparr>"

text \<open>\<open>nCommitted\<close>: a recorded error or disagreement fails the test.\<close>

fun n_committed :: "int \<Rightarrow> 'v raftServer list \<Rightarrow> nat \<Rightarrow> 'v any \<Rightarrow> go_exit + nat \<times> 'v any" where
  "n_committed index [] n cmd = Inr (n, cmd)"
| "n_committed index (rs # rss) n cmd =
     (if applyErr rs \<noteq> NoErr then Inl (Fatal ''apply error'')
      else
        (case entry rs index of
           None \<Rightarrow> n_committed index rss n cmd
         | Some cmd1 \<Rightarrow>
             if n > 0 \<and> cmd \<noteq> cmd1 then Inl (Fatal ''committed values do not match'')
             else n_committed index rss (n + 1) cmd1))"

definition Test_nCommitted :: "int \<Rightarrow> 'v Test \<Rightarrow> go_exit + nat \<times> 'v any" where
  "Test_nCommitted index ts = n_committed index (srvs ts) 0 None"

definition Test_checkNoAgreement :: "int \<Rightarrow> 'v Test \<Rightarrow> go_exit + unit" where
  "Test_checkNoAgreement index ts =
     and_then (Test_nCommitted index ts) (\<lambda>(n, _).
       if n > 0 then Inl (Fatal ''committed but no majority'') else Inr ())"

text \<open>
  One iteration of \<open>checkOneLeader\<close> gets, for each connected server, what \<open>GetState\<close> answers. The
  map from terms to leaders is ranged over in the order \<open>ks\<close>.
\<close>

definition leaders_by_term :: "(nat \<times> int \<times> bool) list \<Rightarrow> int \<rightharpoonup> nat list" where
  "leaders_by_term states =
     foldl (\<lambda>m (i, term, leader). if leader then m(term \<mapsto> zget m [] term @ [i]) else m) Map.empty states"

fun scan_terms :: "(int \<rightharpoonup> nat list) \<Rightarrow> int list \<Rightarrow> int \<Rightarrow> go_exit + int" where
  "scan_terms leaders [] lastTerm = Inr lastTerm"
| "scan_terms leaders (t # ks) lastTerm =
     (if length (the (leaders t)) > 1 then Inl (Fatal ''term has more than 1 leader'')
      else scan_terms leaders ks (if t > lastTerm then t else lastTerm))"

definition one_leader_round :: "(nat \<times> int \<times> bool) list \<Rightarrow> int list \<Rightarrow> go_exit + nat option" where
  "one_leader_round states ks =
     (let leaders = leaders_by_term states in
      and_then (scan_terms leaders ks (-1)) (\<lambda>lastTermWithLeader.
        if dom leaders \<noteq> {} then Inr (Some (zget leaders [] lastTermWithLeader ! 0)) else Inr None))"

text \<open>At most ten rounds; each has the states of the connected servers and an iteration order.\<close>

fun Test_checkOneLeader :: "((nat \<times> int \<times> bool) list \<times> int list) list \<Rightarrow> go_exit + nat" where
  "Test_checkOneLeader [] = Inl (Fatal ''expected one leader, got none'')"
| "Test_checkOneLeader ((states, ks) # rounds) =
     and_then (one_leader_round states ks) (\<lambda>r.
       case r of Some l \<Rightarrow> Inr l | None \<Rightarrow> Test_checkOneLeader rounds)"

fun check_terms :: "int list \<Rightarrow> int \<Rightarrow> go_exit + int" where
  "check_terms [] term = Inr term"
| "check_terms (xterm # ts) term =
     (if term = -1 then check_terms ts xterm
      else if term \<noteq> xterm then Inl (Fatal ''servers disagree on term'')
      else check_terms ts term)"

definition Test_checkTerms :: "int list \<Rightarrow> go_exit + int" where
  "Test_checkTerms terms = check_terms terms (-1)"

fun Test_checkNoLeader :: "bool list \<Rightarrow> go_exit + unit" where
  "Test_checkNoLeader [] = Inr ()"
| "Test_checkNoLeader (is_leader # ls) =
     (if is_leader then Inl (Fatal ''leader'') else Test_checkNoLeader ls)"

text \<open>
  The inner loop of \<open>one\<close>: starting after the last server tried, ask each connected server once;
  \<open>start i\<close> is what \<open>rf.Start(cmd)\<close> answers there, \<open>None\<close> if it is not connected or down.
\<close>

fun one_try :: "(nat \<Rightarrow> (int \<times> int \<times> bool) option) \<Rightarrow> nat \<Rightarrow> nat \<Rightarrow> nat \<Rightarrow> nat \<times> int" where
  "one_try start n 0 starts = (starts, -1)"
| "one_try start n (Suc k) starts =
     (let starts' = (starts + 1) mod n in
      case start starts' of
        Some (index1, _, True) \<Rightarrow> (starts', index1)
      | _ \<Rightarrow> one_try start n k starts')"

text \<open>
  The waiting loop of \<open>one\<close>: the states that \<open>nCommitted\<close> sees at successive polls. \<open>None\<close> is a
  timeout of the two seconds.
\<close>

fun one_wait :: "'v any \<Rightarrow> nat \<Rightarrow> int \<Rightarrow> 'v Test list \<Rightarrow> go_exit + int option" where
  "one_wait cmd expectedServers index [] = Inr None"
| "one_wait cmd expectedServers index (ts # tss) =
     and_then (Test_nCommitted index ts) (\<lambda>(nd, cmd1).
       if nd > 0 \<and> nd \<ge> expectedServers \<and> cmd1 = cmd then Inr (Some index)
       else one_wait cmd expectedServers index tss)"

text \<open>
  \<open>one\<close>: the rounds of ten seconds, each with the servers' answers to \<open>Start\<close> and the polls of
  that round; \<open>finished\<close> tells what \<open>checkFinished\<close> says after the last round.
\<close>

fun Test_one :: "'v any \<Rightarrow> nat \<Rightarrow> bool \<Rightarrow> nat \<Rightarrow> bool \<Rightarrow> nat \<Rightarrow>
    ((nat \<Rightarrow> (int \<times> int \<times> bool) option) \<times> 'v Test list) list \<Rightarrow> go_exit + int" where
  "Test_one cmd expectedServers retry n finished starts [] =
     (if \<not> finished then Inl (Fatal ''failed to reach agreement'') else Inr (-1))"
| "Test_one cmd expectedServers retry n finished starts ((start, polls) # rounds) =
     (case one_try start n n starts of
        (starts', index) \<Rightarrow>
          if index \<noteq> -1 then
            and_then (one_wait cmd expectedServers index polls) (\<lambda>r.
              case r of
                Some index \<Rightarrow> Inr index
              | None \<Rightarrow>
                  if \<not> retry then Inl (Fatal ''failed to reach agreement'')
                  else Test_one cmd expectedServers retry n finished starts' rounds)
          else Test_one cmd expectedServers retry n finished starts' rounds)"

text \<open>
  \<open>wait\<close>: each of at most thirty rounds has the tester's state and the terms that the servers
  report after the pause; the last element is the final state. \<open>Inr None\<close> is the result \<open>-1\<close>.
\<close>

fun Test_wait :: "int \<Rightarrow> nat \<Rightarrow> int \<Rightarrow> ('v Test \<times> int list) list \<Rightarrow> 'v Test \<Rightarrow> go_exit + 'v any option" where
  "Test_wait index n startTerm [] final =
     and_then (Test_nCommitted index final) (\<lambda>(nd, cmd).
       if nd < n then Inl (Fatal ''only some decided'') else Inr (Some cmd))"
| "Test_wait index n startTerm ((ts, terms) # rounds) final =
     and_then (Test_nCommitted index ts) (\<lambda>(nd, _).
       if nd \<ge> n then
         and_then (Test_nCommitted index final) (\<lambda>(nd, cmd).
           if nd < n then Inl (Fatal ''only some decided'') else Inr (Some cmd))
       else if startTerm > -1 \<and> (\<exists>t\<in>set terms. t > startTerm) then Inr None
       else Test_wait index n startTerm rounds final)"

section \<open>raft1/server.go\<close>

definition SnapShotInterval :: int where "SnapShotInterval = 10"

record 'v rfsrv =
  rs_me :: nat
  rs_lastApplied :: int
  rs_log :: "int \<rightharpoonup> 'v any"

definition newRfsrv_init :: "nat \<Rightarrow> 'v rfsrv" where
  "newRfsrv_init srv = \<lparr>rs_me = srv, rs_lastApplied = 0, rs_log = Map.empty\<rparr>"

definition rfsrv_ingestSnap :: "'v snapshot \<Rightarrow> int \<Rightarrow> 'v rfsrv \<Rightarrow> err_msg \<times> 'v rfsrv" where
  "rfsrv_ingestSnap snapshot index rs =
     (case snapshot of
        NilSnap \<Rightarrow> (NilSnapshotErr, rs)
      | Undecodable \<Rightarrow> (UndecodableErr, rs)
      | Snap lastIncludedIndex xlog \<Rightarrow>
          if index \<noteq> -1 \<and> index \<noteq> lastIncludedIndex then (SnapshotIndexErr (rs_me rs), rs)
          else (NoErr, rs\<lparr>rs_log := foldl (\<lambda>l j. l(int j \<mapsto> xlog ! j)) Map.empty [0..<length xlog],
                          rs_lastApplied := lastIncludedIndex\<rparr>))"

text \<open>
  \<open>newRfsrv\<close>: with snapshots on, a restarted server first ingests the snapshot that its persister
  holds (\<open>sn\<close>, \<open>None\<close> when there is none or it is empty) and hands its log to the tester.
\<close>

definition newRfsrv :: "nat \<Rightarrow> 'v snapshot option \<Rightarrow> bool \<Rightarrow> int list \<Rightarrow> 'v Test \<Rightarrow> go_exit + 'v rfsrv \<times> 'v Test" where
  "newRfsrv srv sn snapshot ks ts =
     (let s = newRfsrv_init srv in
      if snapshot then
        (case sn of
           None \<Rightarrow> Inr (s, ts)
         | Some b \<Rightarrow>
             (case rfsrv_ingestSnap b (-1) s of
                (err, s') \<Rightarrow>
                  if err \<noteq> NoErr then Inl (Fatal ''ingestSnap err'')
                  else Inr (s', Test_IngestLog (rs_me s') ks (rs_log s') ts)))
      else Inr (s, ts))"

definition report_err :: "nat \<Rightarrow> err_msg \<Rightarrow> 'v Test \<Rightarrow> 'v Test" where
  "report_err me e ts = (if e \<noteq> NoErr then Test_ApplyErr me e ts else ts)"

text \<open>The body of the loop of \<open>applier\<close>, for one message.\<close>

definition rfsrv_applier :: "nat \<Rightarrow> 'v ApplyMsg \<Rightarrow> 'v Test \<Rightarrow> 'v Test" where
  "rfsrv_applier me m ts =
     (if CommandValid m = False then ts
      else
        (case Test_CheckLogs me m ts of
           ((err_msg, prevok), ts1) \<Rightarrow>
             report_err me (if CommandIndex m > 1 \<and> prevok = False then ApplyOutOfOrder me (CommandIndex m) else err_msg) ts1))"

definition make_snapshot :: "int \<Rightarrow> 'v rfsrv \<Rightarrow> 'v snapshot" where
  "make_snapshot index rs = Snap index (map (\<lambda>j. zget (rs_log rs) None j) [0..index])"

text \<open>
  The body of the loop of \<open>applierSnap\<close>: the server, the tester and the snapshots handed to
  \<open>rf.Snapshot\<close>. \<open>ks\<close> is the iteration order of the log that \<open>IngestLog\<close> copies.
\<close>

definition rfsrv_applierSnap ::
    "int list \<Rightarrow> 'v ApplyMsg \<Rightarrow> 'v rfsrv \<times> 'v Test \<Rightarrow> ('v rfsrv \<times> 'v Test) \<times> (int \<times> 'v snapshot) list" where
  "rfsrv_applierSnap ks m = (\<lambda>(rs, ts).
     if SnapshotValid m then
       (case rfsrv_ingestSnap (Snapshot m) (SnapshotIndex m) rs of
          (err_msg, rs') \<Rightarrow>
            ((rs', report_err (rs_me rs) err_msg (Test_IngestLog (rs_me rs) ks (rs_log rs') ts)), []))
     else if CommandValid m then
       (let (err_msg, ts1) =
          (if CommandIndex m \<noteq> rs_lastApplied rs + 1
           then (ExpectedIndex (rs_me rs) (rs_lastApplied rs + 1) (CommandIndex m), ts)
           else
             (case Test_CheckLogs (rs_me rs) m ts of
                ((e, prevok), ts1) \<Rightarrow>
                  (if e \<noteq> ErrRPC \<and> CommandIndex m > 1 \<and> prevok = False
                   then ApplyOutOfOrder (rs_me rs) (CommandIndex m) else e, ts1)));
            rs' = rs\<lparr>rs_log := (rs_log rs)(CommandIndex m \<mapsto> Command m), rs_lastApplied := CommandIndex m\<rparr>
        in ((rs', report_err (rs_me rs) err_msg ts1),
            if go_rem (CommandIndex m + 1) SnapShotInterval = 0 then [(CommandIndex m, make_snapshot (CommandIndex m) rs')] else []))
     else ((rs, ts), []))"

section \<open>The committed logs that the tester collects\<close>









lemma length_applier [simp]: "length (srvs (rfsrv_applier i m ts)) = length (srvs ts)"
  by (auto simp: rfsrv_applier_def report_err_def Test_ApplyErr_def Test_CheckLogs_def Let_def)



lemma leaders_by_term_snoc:
  "leaders_by_term (xs @ [(i, t, l)]) = (if l then (leaders_by_term xs)(t \<mapsto> zget (leaders_by_term xs) [] t @ [i]) else leaders_by_term xs)"
  by (simp add: leaders_by_term_def)

text \<open>The map holds, for every term, its leaders in the order of the servers.\<close>

lemma leaders_by_term_spec:
  "zget (leaders_by_term states) [] t = map fst (filter (\<lambda>(i, t', l). l \<and> t' = t) states) \<and>
   (t \<in> dom (leaders_by_term states) \<longleftrightarrow> (\<exists>i. (i, t, True) \<in> set states))"
proof (induction states rule: rev_induct)
  case Nil
  then show ?case by (simp add: leaders_by_term_def zget_def)
next
  case (snoc x xs)
  obtain i t' l where x: "x = (i, t', l)" by (cases x)
  show ?case using snoc by (auto simp: x leaders_by_term_snoc zget_def)
qed

lemma scan_terms_spec:
  assumes "scan_terms leaders ks t0 = Inr lt"
  shows "(\<forall>t\<in>set ks. length (the (leaders t)) \<le> 1) \<and> lt = Max (insert t0 (set ks))"
  using assms
proof (induction leaders ks t0 rule: scan_terms.induct)
  case (2 leaders t ks t0)
  then have IH: "(\<forall>t\<in>set ks. length (the (leaders t)) \<le> 1) \<and> lt = Max (insert (max t0 t) (set ks))"
    by (auto split: if_splits simp: max_def)
  moreover have "Max (insert (max t0 t) (set ks)) = Max (insert t0 (insert t (set ks)))"
    by (cases "set ks = {}") (simp_all add: max.assoc)
  ultimately show ?case using "2.prems" by (auto split: if_splits)
qed simp

lemma one_leader_round_Some:
  assumes r: "one_leader_round states ks = Inr (Some l)" and ks: "set ks = dom (leaders_by_term states)"
    and pos: "\<forall>(i, t, b)\<in>set states. t \<ge> 0"
  shows "\<exists>t. (l, t, True) \<in> set states \<and> (\<forall>(j, t', b)\<in>set states. b \<longrightarrow> t' < t \<or> (t' = t \<and> j = l))"
proof -
  let ?L = "leaders_by_term states"
  let ?at = "\<lambda>t. map fst (filter (\<lambda>(i, t', l). l \<and> t' = t) states)"
  note spec = leaders_by_term_spec [of states]
  obtain t where scan: "scan_terms ?L ks (-1) = Inr t" and ne: "dom ?L \<noteq> {}" and l: "l = zget ?L [] t ! 0"
    using r by (auto simp: one_leader_round_def Let_def and_then_def split: sum.splits if_splits)
  note sc = scan_terms_spec [OF scan]
  have nonneg: "t' \<ge> 0" if "t' \<in> set ks" for t' using that ks spec pos by fastforce
  have t: "t \<in> set ks" "\<And>t'. t' \<in> set ks \<Longrightarrow> t' \<le> t"
  proof -
    obtain t0 where t0: "t0 \<in> set ks" using ne ks by blast
    have "t \<in> insert (-1) (set ks)" using sc Max_in [of "insert (-1) (set ks)"] by simp
    moreover have "t' \<le> t" if "t' \<in> set ks" for t' using sc that by simp
    ultimately show "t \<in> set ks" using t0 nonneg [OF t0] by fastforce
    show "\<And>t'. t' \<in> set ks \<Longrightarrow> t' \<le> t" by fact
  qed
  have "length (the (?L t)) \<le> 1" using sc t(1) by blast
  then have "length (zget ?L [] t) \<le> 1" by (cases "?L t") (simp_all add: zget_def)
  then have "length (?at t) \<le> 1" using spec [of t] by simp
  moreover have "t \<in> dom ?L" using t(1) ks by simp
  then obtain i where i: "(i, t, True) \<in> set states" using spec [of t] by blast
  moreover from i have "i \<in> set (?at t)" by force
  ultimately have one: "?at t = [i]" by (cases "?at t") auto
  have "l = i" using l spec [of t] one by simp
  moreover have "t' < t \<or> (t' = t \<and> j = i)" if "(j, t', True) \<in> set states" for j t'
  proof (cases "t' = t")
    case True
    then have "j \<in> set (?at t)" using that by force
    then show ?thesis using True one by simp
  next
    case False
    have "t' \<in> set ks" using that spec [of t'] ks by blast
    then show ?thesis using t(2) False by force
  qed
  ultimately show ?thesis using i by (intro exI [of _ t]) (auto dest: \<open>\<And>j t'. (j, t', True) \<in> set states \<Longrightarrow> t' < t \<or> (t' = t \<and> j = i)\<close>)
qed

lemma one_leader_round_None:
  assumes "one_leader_round states ks = Inr None"
  shows "\<forall>(j, t, b)\<in>set states. \<not> b"
proof -
  have "dom (leaders_by_term states) = {}"
    using assms by (auto simp: one_leader_round_def Let_def and_then_def split: sum.splits if_splits)
  then show ?thesis using leaders_by_term_spec [of states] by fastforce
qed

section \<open>Properties of the Raft tester\<close>

text \<open>
  \<open>checkOneLeader\<close> returns a server only when it looked at a round in which no term has two
  leaders: the server returned claims to be the leader of some term, every other leader claims
  a smaller term, and in the earlier rounds there was no leader at all. Terms are non-negative and
  the iteration order ranges over the keys of the map.
\<close>

theorem checkOneLeader_sound:
  assumes "Test_checkOneLeader rounds = Inr l"
    and "\<forall>(states, ks)\<in>set rounds. set ks = dom (leaders_by_term states)"
    and "\<forall>(states, ks)\<in>set rounds. \<forall>(i, t, b)\<in>set states. t \<ge> 0"
  shows "\<exists>pre states ks post t. rounds = pre @ (states, ks) # post \<and> (l, t, True) \<in> set states \<and>
    (\<forall>(j, t', b)\<in>set states. b \<longrightarrow> t' < t \<or> (t' = t \<and> j = l)) \<and>
    (\<forall>(states', ks')\<in>set pre. \<forall>(j, t', b)\<in>set states'. \<not> b)"
  using assms
proof (induction rounds)
  case (Cons r rounds)
  obtain states ks where r: "r = (states, ks)" by (cases r)
  show ?case
  proof (cases "one_leader_round states ks")
    case (Inr x)
    show ?thesis
    proof (cases x)
      case None
      then have none: "\<forall>(j, t, b)\<in>set states. \<not> b" using Inr one_leader_round_None by blast
      have "Test_checkOneLeader rounds = Inr l" using Cons.prems(1) Inr None by (simp add: r and_then_def)
      moreover have "\<forall>(states, ks)\<in>set rounds. set ks = dom (leaders_by_term states)"
        "\<forall>(states, ks)\<in>set rounds. \<forall>(i, t, b)\<in>set states. t \<ge> 0" using Cons.prems(2,3) by simp_all
      ultimately obtain pre st ks' post t where "rounds = pre @ (st, ks') # post" "(l, t, True) \<in> set st"
        "\<forall>(j, t', b)\<in>set st. b \<longrightarrow> t' < t \<or> (t' = t \<and> j = l)" "\<forall>(states', ks')\<in>set pre. \<forall>(j, t', b)\<in>set states'. \<not> b"
        using Cons.IH by blast
      then show ?thesis using none r by (intro exI [of _ "(states, ks) # pre"] exI [of _ st] exI [of _ ks'] exI [of _ post] exI [of _ t]) auto
    next
      case (Some l')
      then have "one_leader_round states ks = Inr (Some l)" using Cons.prems(1) Inr by (simp add: r and_then_def)
      then obtain t where "(l, t, True) \<in> set states" "\<forall>(j, t', b)\<in>set states. b \<longrightarrow> t' < t \<or> (t' = t \<and> j = l)"
        using one_leader_round_Some [of states ks l] Cons.prems(2,3) unfolding r list.set by blast
      then show ?thesis using r by (intro exI [of _ "[]"] exI [of _ states] exI [of _ ks] exI [of _ rounds] exI [of _ t]) auto
    qed
  qed (use Cons.prems(1) in \<open>simp add: r and_then_def\<close>)
qed simp

theorem checkOneLeader_sound_witness:
  "Test_checkOneLeader [([(0, 3, False), (1, 4, False)], []), ([(0, 5, True), (1, 6, True)], [6, 5])] = Inr 1 \<and>
   (\<exists>t. (1, t, True) \<in> {(0 :: nat, 5 :: int, True), (1, 6, True)})"
proof -
  let ?rounds = "[([(0, 3, False), (1, 4, False)], []), ([(0, 5, True), (1, 6, True)], [6, 5])] :: ((nat \<times> int \<times> bool) list \<times> int list) list"
  have run: "Test_checkOneLeader ?rounds = Inr 1"
    by (simp add: one_leader_round_def leaders_by_term_def zget_def and_then_def Let_def)
  have "\<exists>pre states ks post t. ?rounds = pre @ (states, ks) # post \<and> (1, t, True) \<in> set states \<and>
    (\<forall>(j, t', b)\<in>set states. b \<longrightarrow> t' < t \<or> (t' = t \<and> j = 1)) \<and> (\<forall>(states', ks')\<in>set pre. \<forall>(j, t', b)\<in>set states'. \<not> b)"
    by (rule checkOneLeader_sound [OF run]) (auto simp: leaders_by_term_def)
  then show ?thesis using run by auto
qed




definition demo_msg :: "int \<Rightarrow> nat \<Rightarrow> nat ApplyMsg" where
  "demo_msg i v = \<lparr>CommandValid = True, Command = Some v, CommandIndex = i, SnapshotValid = False, Snapshot = NilSnap,
     SnapshotTerm = 0, SnapshotIndex = 0\<rparr>"


text \<open>
  Snapshots restore a server: the snapshot that a server hands to Raft after applying a
  command, when another (or the restarted) server ingests it, gives that server the same
  commands up to and including the index, and the same last applied index; a snapshot whose
  index does not match is refused and changes nothing.
\<close>

theorem snapshot_restores:
  assumes "CommandValid m" and "\<not> SnapshotValid m"
    and "rfsrv_applierSnap ks m (rs, ts) = ((rs', ts'), [(index, snap)])" and "0 \<le> index"
  shows "index = rs_lastApplied rs' \<and> rfsrv_ingestSnap snap index other =
      (NoErr, other\<lparr>rs_log := (\<lambda>j. if 0 \<le> j \<and> j \<le> index then Some (zget (rs_log rs') None j) else None), rs_lastApplied := rs_lastApplied rs'\<rparr>) \<and>
    (\<forall>i. i \<noteq> -1 \<and> i \<noteq> index \<longrightarrow> rfsrv_ingestSnap snap i other = (SnapshotIndexErr (rs_me other), other))"
proof -
  have idx: "index = CommandIndex m" "snap = make_snapshot index rs'"
    "rs' = rs\<lparr>rs_log := (rs_log rs)(CommandIndex m \<mapsto> Command m), rs_lastApplied := CommandIndex m\<rparr>"
    using assms(1-3) by (auto simp: rfsrv_applierSnap_def Let_def split: prod.splits if_splits)
  have fold: "foldl (\<lambda>l j. l(int j \<mapsto> xs ! j)) Map.empty [0..<n] = (\<lambda>j. if 0 \<le> j \<and> j < int n then Some (xs ! nat j) else None)" for xs :: "'a any list" and n
    by (induction n) (auto simp: fun_eq_iff)
  define xs where "xs = map (\<lambda>j. zget (rs_log rs') None j) [0..index]"
  have len: "length xs = nat (index + 1)" by (simp add: xs_def)
  have restored: "foldl (\<lambda>l j. l(int j \<mapsto> xs ! j)) Map.empty [0..<length xs] =
      (\<lambda>j. if 0 \<le> j \<and> j \<le> index then Some (zget (rs_log rs') None j) else None)"
    unfolding fold len using assms(4) by (auto simp: fun_eq_iff nth_upto xs_def)
  have snap: "snap = Snap index xs" using idx(2) by (simp add: make_snapshot_def xs_def)
  show ?thesis using idx(1) by (simp add: snap rfsrv_ingestSnap_def restored) (simp add: idx(3))
qed

theorem snapshot_restores_witness:
  "let rs0 = \<lparr>rs_me = 0, rs_lastApplied = 8, rs_log = Map.empty\<rparr>; ts0 = \<lparr>srvs = [newRaftServer], maxIndex = 8\<rparr>;
       snap = make_snapshot 9 (rs0\<lparr>rs_log := [9 \<mapsto> Some 5]\<rparr>)
   in \<exists>rs'. rfsrv_ingestSnap snap 9 (newRfsrv_init 3) = (NoErr, rs') \<and> rs_log rs' 9 = Some (Some (5 :: nat)) \<and> rs_lastApplied rs' = 9"
proof -
  let ?rs0 = "\<lparr>rs_me = 0, rs_lastApplied = 8, rs_log = Map.empty\<rparr>" and ?ts0 = "\<lparr>srvs = [newRaftServer], maxIndex = 8\<rparr>"
  let ?rs' = "?rs0\<lparr>rs_log := [9 \<mapsto> Some (5 :: nat)], rs_lastApplied := 9\<rparr>"
  have "\<exists>ts'. rfsrv_applierSnap [] (demo_msg 9 5) (?rs0, ?ts0) = ((?rs', ts'), [(9, make_snapshot 9 ?rs')])"
    by (cases "Test_CheckLogs 0 (demo_msg 9 5) ?ts0")
      (auto simp: rfsrv_applierSnap_def demo_msg_def SnapShotInterval_def go_rem_def Let_def)
  then obtain ts' where app: "rfsrv_applierSnap [] (demo_msg 9 5) (?rs0, ?ts0) = ((?rs', ts'), [(9, make_snapshot 9 ?rs')])" ..
  have "make_snapshot 9 ?rs' = make_snapshot 9 (?rs0\<lparr>rs_log := [9 \<mapsto> Some (5 :: nat)]\<rparr>)" by (simp add: make_snapshot_def)
  with snapshot_restores [OF _ _ app, of "newRfsrv_init 3"] show ?thesis
    by (simp add: demo_msg_def Let_def newRfsrv_init_def zget_def)
qed

end
