(* ===== verification/Raft_Service.thy ===== *)
theory Raft_Service
  imports Raft_Harness Tester_Config
begin

text \<open>
  The processes of the Raft tests: the Raft peer that the lab hands out (\<open>raft1/raft.go\<close>), the
  calls between the tester and the servers (\<open>raft1/proxy.go\<close>, the RPC handlers of
  \<open>raft1/server.go\<close> and \<open>raft1/test.go\<close>), and the starting, killing and restarting of servers
  (\<open>raft1/test.go\<close>).

  The reply of a call is an option, \<open>None\<close> when the call fails; a Go reply variable that was not
  filled holds zero values. \<open>rs_slots\<close> are the pointers \<open>ts.srvs\<close>, each with the mark whether its
  \<open>rfsrv\<close> is set: calling a method of a \<open>nil\<close> interface panics.
\<close>

section \<open>raft1/raft.go\<close>

record Raft =
  rf_peers :: "string list"
  rf_persister :: Persister
  rf_me :: nat

definition Raft_GetState :: "Raft \<Rightarrow> int \<times> bool" where
  "Raft_GetState rf = (let term = 0; isleader = False in (term, isleader))"

definition Raft_persist :: "Raft \<Rightarrow> Raft" where
  "Raft_persist rf = rf"

definition Raft_readPersist :: "bytes \<Rightarrow> Raft \<Rightarrow> Raft" where
  "Raft_readPersist data rf = (if length data < 1 then rf else rf)"

definition Raft_PersistBytes :: "Raft \<Rightarrow> nat" where
  "Raft_PersistBytes rf = Persister_RaftStateSize (rf_persister rf)"

definition Raft_Snapshot :: "int \<Rightarrow> bytes \<Rightarrow> Raft \<Rightarrow> Raft" where
  "Raft_Snapshot index snap rf = rf"

text \<open>Arguments and reply have no fields.\<close>

definition Raft_RequestVote :: "Raft \<Rightarrow> Raft" where
  "Raft_RequestVote rf = rf"

definition Raft_sendRequestVote :: "(string \<Rightarrow> string \<Rightarrow> bool) \<Rightarrow> nat \<Rightarrow> Raft \<Rightarrow> go_exit + bool" where
  "Raft_sendRequestVote call server rf = and_then (go_index (rf_peers rf) server) (\<lambda>peer. Inr (call peer ''Raft.RequestVote''))"

definition Raft_Start :: "'v any \<Rightarrow> Raft \<Rightarrow> int \<times> int \<times> bool" where
  "Raft_Start command rf = (let index = -1; term = -1; isLeader = True in (index, term, isLeader))"

text \<open>\<open>r\<close> is \<open>rand.Int63()\<close>.\<close>

definition ticker_ms :: "int \<Rightarrow> int" where
  "ticker_ms r = 50 + go_rem r 300"

definition Raft_Make :: "string list \<Rightarrow> nat \<Rightarrow> Persister \<Rightarrow> Raft" where
  "Raft_Make peers me persister =
     Raft_readPersist (Persister_ReadRaftState persister) \<lparr>rf_peers = peers, rf_persister = persister, rf_me = me\<rparr>"

section \<open>raft1/server.go: the calls of the tester\<close>

text \<open>\<open>raft\<close> is \<open>None\<close> with another Raft library (\<open>UseRaftStateMachine\<close>).\<close>

definition rfsrv_Start :: "Raft option \<Rightarrow> 'v any \<Rightarrow> int \<times> int \<times> bool" where
  "rfsrv_Start raft command = (case raft of None \<Rightarrow> (0, 0, False) | Some rf \<Rightarrow> Raft_Start command rf)"

definition rfsrv_GetState :: "Raft option \<Rightarrow> go_exit + int \<times> bool" where
  "rfsrv_GetState raft =
     (case raft of None \<Rightarrow> Inl (Panic ''nil pointer dereference'') | Some rf \<Rightarrow> Inr (Raft_GetState rf))"

definition NewRfsrv_raft :: "bool \<Rightarrow> string list \<Rightarrow> nat \<Rightarrow> Persister \<Rightarrow> Raft option" where
  "NewRfsrv_raft UseRaftStateMachine ends srv persister =
     (if \<not> UseRaftStateMachine then Some (Raft_Make ends srv persister) else None)"

section \<open>raft1/proxy.go\<close>

definition Rfproxy_GetState :: "(int \<times> bool) option \<Rightarrow> int \<times> bool" where
  "Rfproxy_GetState rep = (case rep of None \<Rightarrow> (0, False) | Some r \<Rightarrow> r)"

definition Rfproxy_Start :: "(int \<times> int \<times> bool) option \<Rightarrow> int \<times> int \<times> bool" where
  "Rfproxy_Start rep = (case rep of None \<Rightarrow> (0, 0, False) | Some r \<Rightarrow> r)"

text \<open>
  Calls from a server to the tester, with the outcome of the call: lost, executed with the reply
  lost, or answered.
\<close>

definition TesterProxy_CheckLogs :: "call_outcome \<Rightarrow> nat \<Rightarrow> 'v ApplyMsg \<Rightarrow> 'v Test \<Rightarrow> (err_msg \<times> bool) \<times> 'v Test" where
  "TesterProxy_CheckLogs oc index m ts =
     (case oc of
        CallLost \<Rightarrow> ((ErrRPC, False), ts)
      | ReplyLost \<Rightarrow> ((ErrRPC, False), snd (Test_CheckLogs index m ts))
      | CallOK \<Rightarrow> Test_CheckLogs index m ts)"

definition TesterProxy_IngestLog :: "call_outcome \<Rightarrow> nat \<Rightarrow> int list \<Rightarrow> (int \<rightharpoonup> 'v any) \<Rightarrow> 'v Test \<Rightarrow> 'v Test" where
  "TesterProxy_IngestLog oc index ks m ts = (if oc = CallLost then ts else Test_IngestLog index ks m ts)"

definition TesterProxy_ApplyErr :: "call_outcome \<Rightarrow> nat \<Rightarrow> err_msg \<Rightarrow> 'v Test \<Rightarrow> 'v Test" where
  "TesterProxy_ApplyErr oc index err ts = (if oc = CallLost then ts else Test_ApplyErr index err ts)"

text \<open>The apply loop over these calls, for one message; \<open>oc1\<close> and \<open>oc2\<close> are the outcomes of its calls.\<close>

definition applier_over_rpc :: "call_outcome \<Rightarrow> call_outcome \<Rightarrow> nat \<Rightarrow> 'v ApplyMsg \<Rightarrow> 'v Test \<Rightarrow> 'v Test" where
  "applier_over_rpc oc1 oc2 me m ts =
     (if CommandValid m = False then ts
      else
        (case TesterProxy_CheckLogs oc1 me m ts of
           ((err_msg, prevok), ts1) \<Rightarrow>
             let err_msg = (if CommandIndex m > 1 \<and> prevok = False then ApplyOutOfOrder me (CommandIndex m) else err_msg) in
             if err_msg \<noteq> NoErr then TesterProxy_ApplyErr oc2 me err_msg ts1 else ts1))"

section \<open>raft1/test.go: starting and killing servers\<close>

record 'v raft_test =
  rs_g :: grp_state
  rs_ann :: ann_state
  rs_finished :: bool
  rs_slots :: "('v raftServer \<times> bool) option list"

definition mksrv :: "nat \<Rightarrow> 'v raft_test \<Rightarrow> go_exit + 'v raft_test" where
  "mksrv srv ts =
     and_then (go_index (rs_slots ts) srv) (\<lambda>slot.
       Inr (ts\<lparr>rs_slots := (rs_slots ts)[srv := Some (case slot of None \<Rightarrow> (newRaftServer, True) | Some (rs, _) \<Rightarrow> (rs, True))]\<rparr>))"

definition clear_rfsrv :: "nat \<Rightarrow> 'v raft_test \<Rightarrow> go_exit + 'v raft_test" where
  "clear_rfsrv srv ts =
     and_then (go_index (rs_slots ts) srv) (\<lambda>slot.
       case slot of
         None \<Rightarrow> Inl (Panic ''nil pointer dereference'')
       | Some (rs, _) \<Rightarrow> Inr (ts\<lparr>rs_slots := (rs_slots ts)[srv := Some (rs, False)]\<rparr>))"

definition raft_kill :: "int \<Rightarrow> nat list \<Rightarrow> 'v raft_test \<Rightarrow> go_exit + 'v raft_test" where
  "raft_kill t servers ts =
     and_then (ServerGrp_Kill servers (rs_g ts)) (\<lambda>g.
     and_then (AnnotateShutdown t servers (rs_ann ts)) (\<lambda>an.
       each clear_rfsrv servers (ts\<lparr>rs_g := g, rs_ann := an\<rparr>)))"

text \<open>\<open>starts\<close>: each server with its new end names, its address and whether its process starts.\<close>

definition raft_restart :: "int \<Rightarrow> (nat \<times> string list \<times> nat \<times> bool) list \<Rightarrow> 'v raft_test \<Rightarrow> go_exit + 'v raft_test" where
  "raft_restart t starts ts =
     and_then (ServerGrp_StartSrvs starts (rs_g ts)) (\<lambda>g.
     and_then (AnnotateRestart t (map fst starts) (rs_ann ts)) (\<lambda>an.
       each (\<lambda>srv ts. and_then (mksrv srv ts) (\<lambda>ts1.
           and_then (ServerGrp_ConnectOne srv (rs_g ts1)) (\<lambda>g1. Inr (ts1\<lparr>rs_g := g1\<rparr>))))
         (map fst starts) (ts\<lparr>rs_g := g, rs_ann := an\<rparr>)))"

definition raft_makeTest :: "nat \<Rightarrow> bool \<Rightarrow> string list list \<Rightarrow> (string list \<times> nat \<times> bool) list \<Rightarrow> ann_state \<Rightarrow> go_exit + 'v raft_test" where
  "raft_makeTest n reliable namess starts an =
     and_then (MakeConfig n reliable namess starts) (\<lambda>cfg.
       let cfg' = Config_SetLongDelays True cfg in
       case Config_Group GRP0 cfg' of
         None \<Rightarrow> Inl (Panic ''nil pointer dereference'')
       | Some g \<Rightarrow> each mksrv [0..<n] \<lparr>rs_g = (g, cfg_net cfg'), rs_ann = an, rs_finished = False, rs_slots = replicate n None\<rparr>)"

definition checkFinished :: "'v raft_test \<Rightarrow> bool" where
  "checkFinished ts = rs_finished ts"

text \<open>
  How the checks ask the connected servers for their state: \<open>reply i\<close> is the answer of server \<open>i\<close>.
\<close>

definition ask_state :: "(nat \<Rightarrow> (int \<times> bool) option) \<Rightarrow> 'v raft_test \<Rightarrow> nat \<Rightarrow> (nat \<times> int \<times> bool) list \<Rightarrow> go_exit + (nat \<times> int \<times> bool) list" where
  "ask_state reply ts i states =
     and_then (ServerGrp_IsConnected i (fst (rs_g ts))) (\<lambda>c.
       if \<not> c then Inr states
       else and_then (go_index (rs_slots ts) i) (\<lambda>slot.
         case slot of
           Some (_, True) \<Rightarrow> (case Rfproxy_GetState (reply i) of (term, leader) \<Rightarrow> Inr (states @ [(i, term, leader)]))
         | _ \<Rightarrow> Inl (Panic ''nil pointer dereference'')))"

definition ask_states :: "(nat \<Rightarrow> (int \<times> bool) option) \<Rightarrow> 'v raft_test \<Rightarrow> go_exit + (nat \<times> int \<times> bool) list" where
  "ask_states reply ts = each (ask_state reply ts) [0..<length (rs_slots ts)] []"

section \<open>No call on a missing server\<close>

text \<open>
  The tests kill, restart, disconnect and connect servers, and the servers report to the tester. A
  server is connected by hand only while it runs.
\<close>

definition has_rfsrv :: "'v raft_test \<Rightarrow> nat \<Rightarrow> bool" where
  "has_rfsrv ts i \<longleftrightarrow> i < length (rs_slots ts) \<and> (\<exists>rs. rs_slots ts ! i = Some (rs, True))"

definition slot_logs :: "'v raft_test \<Rightarrow> 'v raftServer option list" where
  "slot_logs ts = map (map_option fst) (rs_slots ts)"

inductive rt_step :: "'v raft_test \<Rightarrow> 'v raft_test \<Rightarrow> bool" where
  rt_kill: "raft_kill t servers ts = Inr ts' \<Longrightarrow> rt_step ts ts'"
| rt_restart: "raft_restart t starts ts = Inr ts' \<Longrightarrow> rt_step ts ts'"
| rt_disconnect: "ServerGrp_DisconnectAll i (rs_g ts) = Inr g \<Longrightarrow> rt_step ts (ts\<lparr>rs_g := g\<rparr>)"
| rt_connect: "has_rfsrv ts i \<Longrightarrow> ServerGrp_ConnectOne i (rs_g ts) = Inr g \<Longrightarrow> rt_step ts (ts\<lparr>rs_g := g\<rparr>)"
| rt_report: "i < length (rs_slots ts) \<Longrightarrow> rs_slots ts ! i = Some (rs, b) \<Longrightarrow> rt_step ts (ts\<lparr>rs_slots := (rs_slots ts)[i := Some (rs', b)]\<rparr>)"

inductive rt_reach :: "'v raft_test \<Rightarrow> bool" where
  rt_made: "raft_makeTest n reliable namess starts an = Inr ts \<Longrightarrow> length starts = n \<Longrightarrow> length namess = n \<Longrightarrow> rt_reach ts"
| rt_next: "rt_reach ts \<Longrightarrow> rt_step ts ts' \<Longrightarrow> rt_reach ts'"

text \<open>Every connected server can be called.\<close>

definition rt_inv :: "'v raft_test \<Rightarrow> bool" where
  "rt_inv ts \<longleftrightarrow> length (connected (fst (rs_g ts))) = length (rs_slots ts) \<and>
     (\<forall>i<length (rs_slots ts). rs_slots ts ! i \<noteq> None \<and> (connected (fst (rs_g ts)) ! i \<longrightarrow> has_rfsrv ts i))"

lemma connect_flags:
  assumes "ServerGrp_connect i to g = Inr g'"
  shows "i < length (connected (fst g)) \<and> connected (fst g') = (connected (fst g))[i := True]"
  using assms by (cases g) (auto simp: ServerGrp_connect_def Let_def and_then_eq_Inr go_index_def split: if_splits)

lemma disconnect_flags:
  assumes "ServerGrp_disconnect i to g = Inr g'"
  shows "i < length (connected (fst g)) \<and> connected (fst g') = (connected (fst g))[i := False]"
  using assms by (cases g) (auto simp: ServerGrp_disconnect_def Let_def and_then_eq_Inr go_index_def split: if_splits)

lemma shutdown_flags:
  assumes "ServerGrp_ShutdownServer i g = Inr g'"
  shows "i < length (connected (fst g)) \<and> connected (fst g') = (connected (fst g))[i := False]"
  using assms disconnect_flags by (fastforce simp: ServerGrp_ShutdownServer_def and_then_eq_Inr)

lemma start_flags:
  assumes "ServerGrp_StartServer i names addr ok g = Inr (b, g')"
  shows "connected (fst g') = connected (fst g)"
proof (cases g, cases g')
  fix sg net sg' net'
  assume "g = (sg, net)" "g' = (sg', net')"
  then show ?thesis using StartServer_parts [of i names addr ok sg net b sg' net'] assms by auto
qed

lemma StartSrvs_flags: "ServerGrp_StartSrvs starts g = Inr g' \<Longrightarrow> connected (fst g') = connected (fst g)"
  unfolding ServerGrp_StartSrvs_def
  by (erule each_inv [where P = "\<lambda>h. connected (fst h) = connected (fst g)"]) (force simp: and_then_eq_Inr dest: start_flags)+

lemma Kill_flags:
  assumes "ServerGrp_Kill servers g = Inr g'"
  shows "length (connected (fst g')) = length (connected (fst g)) \<and>
    (\<forall>i<length (connected (fst g)). connected (fst g') ! i \<longleftrightarrow> connected (fst g) ! i \<and> i \<notin> set servers)"
  using assms unfolding ServerGrp_Kill_def
proof (induction servers arbitrary: g)
  case (Cons s servers)
  then obtain h where h: "ServerGrp_ShutdownServer s g = Inr h" "each ServerGrp_ShutdownServer servers h = Inr g'"
    by (auto simp: and_then_eq_Inr)
  show ?case using Cons.IH [OF h(2)] shutdown_flags [OF h(1)] by (auto simp: nth_list_update)
qed simp

lemma clear_rfsrv_Inr:
  "clear_rfsrv s ts = Inr ts' \<longleftrightarrow> s < length (rs_slots ts) \<and>
     (\<exists>rs b. rs_slots ts ! s = Some (rs, b) \<and> ts' = ts\<lparr>rs_slots := (rs_slots ts)[s := Some (rs, False)]\<rparr>)"
  by (auto simp: clear_rfsrv_def go_index_def and_then_eq_Inr split: if_splits option.splits)

lemma clear_slots:
  assumes "each clear_rfsrv servers ts = Inr ts'"
  shows "rs_g ts' = rs_g ts \<and> slot_logs ts' = slot_logs ts \<and>
    (\<forall>i. i \<notin> set servers \<longrightarrow> rs_slots ts' ! i = rs_slots ts ! i) \<and> (\<forall>i\<in>set servers. \<not> has_rfsrv ts' i)"
  using assms
proof (induction servers arbitrary: ts)
  case (Cons s servers)
  then obtain rs b where s: "s < length (rs_slots ts)" "rs_slots ts ! s = Some (rs, b)"
    "each clear_rfsrv servers (ts\<lparr>rs_slots := (rs_slots ts)[s := Some (rs, False)]\<rparr>) = Inr ts'"
    by (auto simp: and_then_eq_Inr clear_rfsrv_Inr)
  let ?ts = "ts\<lparr>rs_slots := (rs_slots ts)[s := Some (rs, False)]\<rparr>"
  note IH = Cons.IH [OF s(3)]
  have "slot_logs ?ts = slot_logs ts" using s(1,2) by (simp add: slot_logs_def map_update list_update_same_conv)
  moreover have "\<not> has_rfsrv ts' s"
  proof (cases "s \<in> set servers")
    case False
    then have "rs_slots ts' ! s = Some (rs, False)" using IH s(1) by simp
    then show ?thesis by (simp add: has_rfsrv_def)
  qed (use IH in blast)
  ultimately show ?case using IH by (auto simp: nth_list_update)
qed simp

lemma slot_logs_length: "slot_logs ts = slot_logs ts' \<Longrightarrow> length (rs_slots ts) = length (rs_slots ts')"
  by (metis length_map slot_logs_def)

lemma slot_logs_made: "slot_logs ts = slot_logs ts' \<Longrightarrow> i < length (rs_slots ts) \<Longrightarrow> rs_slots ts ! i = None \<longleftrightarrow> rs_slots ts' ! i = None"
  using slot_logs_length [of ts ts'] unfolding slot_logs_def by (metis map_option_is_None nth_map)

lemma kill_spec:
  assumes "raft_kill t servers ts = Inr ts'"
  shows "slot_logs ts' = slot_logs ts" and "rt_inv ts \<Longrightarrow> rt_inv ts'" and "\<forall>i\<in>set servers. \<not> has_rfsrv ts' i"
proof -
  obtain g an where g: "ServerGrp_Kill servers (rs_g ts) = Inr g" "each clear_rfsrv servers (ts\<lparr>rs_g := g, rs_ann := an\<rparr>) = Inr ts'"
    using assms by (auto simp: raft_kill_def and_then_eq_Inr)
  note c = clear_slots [OF g(2)] and k = Kill_flags [OF g(1)]
  show logs: "slot_logs ts' = slot_logs ts" using c by (simp add: slot_logs_def)
  show "\<forall>i\<in>set servers. \<not> has_rfsrv ts' i" using c by blast
  show "rt_inv ts'" if "rt_inv ts"
    using that c k slot_logs_length [OF logs] slot_logs_made [OF logs] by (auto simp: rt_inv_def has_rfsrv_def)
qed

text \<open>One server of a restart.\<close>

definition restart_one :: "nat \<Rightarrow> 'v raft_test \<Rightarrow> go_exit + 'v raft_test" where
  "restart_one srv ts = and_then (mksrv srv ts) (\<lambda>ts1.
     and_then (ServerGrp_ConnectOne srv (rs_g ts1)) (\<lambda>g1. Inr (ts1\<lparr>rs_g := g1\<rparr>)))"

definition callable :: "'v raft_test \<Rightarrow> nat \<Rightarrow> bool" where
  "callable ts i \<longleftrightarrow> has_rfsrv ts i \<and> connected (fst (rs_g ts)) ! i"

lemma mksrv_Inr:
  "mksrv s ts = Inr ts' \<longleftrightarrow> s < length (rs_slots ts) \<and>
     ts' = ts\<lparr>rs_slots := (rs_slots ts)[s := Some (case rs_slots ts ! s of None \<Rightarrow> (newRaftServer, True) | Some (rs, _) \<Rightarrow> (rs, True))]\<rparr>"
  by (auto simp: mksrv_def go_index_def and_then_eq_Inr)

lemma restart_one_spec:
  assumes "restart_one s ts = Inr ts'" and "rt_inv ts"
  shows "rt_inv ts'" and "slot_logs ts' = slot_logs ts" and "callable ts' s" and "callable ts i \<Longrightarrow> callable ts' i"
proof -
  let ?slot = "Some (case rs_slots ts ! s of None \<Rightarrow> (newRaftServer, True) | Some (rs, _) \<Rightarrow> (rs, True))"
  obtain g where s: "s < length (rs_slots ts)" "ServerGrp_ConnectOne s (rs_g ts) = Inr g"
    "ts' = ts\<lparr>rs_slots := (rs_slots ts)[s := ?slot], rs_g := g\<rparr>"
    using assms(1) by (auto simp: restart_one_def and_then_eq_Inr mksrv_Inr)
  have flags: "connected (fst g) = (connected (fst (rs_g ts)))[s := True]" "s < length (connected (fst (rs_g ts)))"
    using connect_flags s(2) by (auto simp: ServerGrp_ConnectOne_def)
  obtain rs b where rs: "rs_slots ts ! s = Some (rs, b)" using assms(2) s(1) by (fastforce simp: rt_inv_def)
  then have slots: "rs_slots ts' = (rs_slots ts)[s := Some (rs, True)]" "connected (fst (rs_g ts')) = (connected (fst (rs_g ts)))[s := True]"
    using s(3) flags(1) by simp_all
  show "slot_logs ts' = slot_logs ts" using rs s(1) slots(1) by (simp add: slot_logs_def map_update list_update_same_conv)
  show "callable ts' s" using slots s(1) flags(2) by (simp add: callable_def has_rfsrv_def)
  have len: "length (connected (fst (rs_g ts))) = length (rs_slots ts)" using assms(2) by (simp add: rt_inv_def)
  show "callable ts i \<Longrightarrow> callable ts' i"
    using slots len s(1) by (auto simp: callable_def has_rfsrv_def nth_list_update)
  show "rt_inv ts'" using assms(2) slots s(1) by (auto simp: rt_inv_def has_rfsrv_def nth_list_update)
qed

lemma restart_loop:
  assumes "each restart_one servers ts = Inr ts'" and "rt_inv ts"
  shows "rt_inv ts' \<and> slot_logs ts' = slot_logs ts \<and> (\<forall>i. i \<in> set servers \<or> callable ts i \<longrightarrow> callable ts' i)"
  using assms
proof (induction servers arbitrary: ts)
  case (Cons s servers)
  then obtain u where u: "restart_one s ts = Inr u" "each restart_one servers u = Inr ts'" by (auto simp: and_then_eq_Inr)
  note one = restart_one_spec [OF u(1) Cons.prems(2)]
  show ?case using Cons.IH [OF u(2) one(1)] one by auto
qed simp

lemma restart_spec:
  assumes "raft_restart t starts ts = Inr ts'" and "rt_inv ts"
  shows "rt_inv ts' \<and> slot_logs ts' = slot_logs ts \<and> (\<forall>i\<in>fst ` set starts. callable ts' i)"
proof -
  obtain g an where g: "ServerGrp_StartSrvs starts (rs_g ts) = Inr g"
    "each restart_one (map fst starts) (ts\<lparr>rs_g := g, rs_ann := an\<rparr>) = Inr ts'"
    using assms(1) unfolding raft_restart_def restart_one_def [abs_def, symmetric] by (auto simp: and_then_eq_Inr)
  let ?ts = "ts\<lparr>rs_g := g, rs_ann := an\<rparr>"
  have "rt_inv ?ts" using assms(2) StartSrvs_flags [OF g(1)] by (simp add: rt_inv_def has_rfsrv_def)
  moreover have "slot_logs ?ts = slot_logs ts" by (simp add: slot_logs_def)
  ultimately show ?thesis using restart_loop [OF g(2)] by auto
qed

lemma MakeConfig_flags:
  assumes "MakeConfig n reliable namess starts = Inr cfg" and "Config_Group GRP0 cfg = Some g"
  shows "length (connected g) = n"
proof -
  obtain h net h' net' where h: "makeSrvGrp GRP0 n namess MakeNetwork = Inr (h, net)"
    "ServerGrp_StartServers starts (h, net) = Inr (h', net')" "g = h'"
    using assms by (auto simp: MakeConfig_def Config_MakeGroupStart_def with_groups_def Groups_MakeGroup_def on_group_def
        Groups_lookupGroup_def Config_Group_def and_then_eq_Inr newGroups_def)
  obtain m where m: "ServerGrp_StartSrvs (zip (ServerGrp_all h) starts) (h, net) = Inr m" "ServerGrp_ConnectAll m = Inr (h', net')"
    using h(2) by (auto simp: ServerGrp_StartServers_def and_then_eq_Inr)
  have "length (connected (fst (h', net'))) = length (connected (fst m))"
    using m(2) unfolding ServerGrp_ConnectAll_def
    by (rule each_inv [where P = "\<lambda>x. length (connected (fst x)) = length (connected (fst m))"])
      (auto simp: ServerGrp_ConnectOne_def dest: connect_flags)
  moreover have "length (connected (fst (h, net))) = n" using h(1) by (auto simp: makeSrvGrp_def and_then_eq_Inr)
  ultimately show ?thesis using StartSrvs_flags [OF m(1)] h(3) by simp
qed

lemma mksrv_all:
  assumes "each mksrv [0..<k] ts = Inr ts'"
  shows "rs_g ts' = rs_g ts \<and> length (rs_slots ts') = length (rs_slots ts) \<and> (\<forall>i<k. has_rfsrv ts' i)"
  using assms
proof (induction k arbitrary: ts')
  case (Suc k)
  then obtain u where u: "each mksrv [0..<k] ts = Inr u" "mksrv k u = Inr ts'" by (auto simp: each_append and_then_eq_Inr)
  show ?case using Suc.IH [OF u(1)] u(2) by (auto simp: mksrv_Inr has_rfsrv_def nth_list_update less_Suc_eq split: option.splits)
qed simp

lemma makeTest_inv:
  assumes "raft_makeTest n reliable namess starts an = Inr ts"
  shows "rt_inv ts"
proof -
  obtain cfg g where c: "MakeConfig n reliable namess starts = Inr cfg" "Config_Group GRP0 cfg = Some g"
    "each mksrv [0..<n] \<lparr>rs_g = (g, cfg_net (Config_SetLongDelays True cfg)), rs_ann = an, rs_finished = False, rs_slots = replicate n None\<rparr> = Inr ts"
    using assms by (auto simp: raft_makeTest_def and_then_eq_Inr Let_def Config_Group_def Config_SetLongDelays_def split: option.splits)
  show ?thesis using mksrv_all [OF c(3)] MakeConfig_flags [OF c(1,2)] by (fastforce simp: rt_inv_def has_rfsrv_def)
qed

lemma rt_step_inv: "rt_step ts ts' \<Longrightarrow> rt_inv ts \<Longrightarrow> rt_inv ts'"
proof (induction rule: rt_step.induct)
  case (rt_disconnect i ts g)
  then show ?case using disconnect_flags [of i _ "rs_g ts" g]
    by (auto simp: ServerGrp_DisconnectAll_def rt_inv_def has_rfsrv_def nth_list_update)
next
  case (rt_connect ts i g)
  then show ?case using connect_flags [of i _ "rs_g ts" g]
    by (auto simp: ServerGrp_ConnectOne_def rt_inv_def has_rfsrv_def nth_list_update)
next
  case (rt_report i ts rs b rs')
  then show ?case by (auto simp: rt_inv_def has_rfsrv_def nth_list_update)
qed (use kill_spec restart_spec in blast)+

lemma rt_reach_inv: "rt_reach ts \<Longrightarrow> rt_inv ts"
  by (induction rule: rt_reach.induct) (auto intro: makeTest_inv rt_step_inv)

lemma ask_states_eq:
  assumes "rt_inv ts"
  shows "ask_states reply ts = Inr (map (\<lambda>i. (i, Rfproxy_GetState (reply i))) (filter (\<lambda>i. connected (fst (rs_g ts)) ! i) [0..<length (rs_slots ts)]))"
proof -
  have one: "ask_state reply ts i states = Inr (if connected (fst (rs_g ts)) ! i then states @ [(i, Rfproxy_GetState (reply i))] else states)"
    if "i < length (rs_slots ts)" for i states
    using assms that by (auto simp: ask_state_def ServerGrp_IsConnected_def rt_inv_def has_rfsrv_def split: prod.splits)
  have "each (ask_state reply ts) is states =
      Inr (states @ map (\<lambda>i. (i, Rfproxy_GetState (reply i))) (filter (\<lambda>i. connected (fst (rs_g ts)) ! i) is))"
    if "\<forall>i\<in>set is. i < length (rs_slots ts)" for "is" states
    using that by (induction "is" arbitrary: states) (auto simp: one)
  then show ?thesis by (simp add: ask_states_def)
qed


lemma makeTest_total:
  assumes "fresh (end_names namess starts) MakeNetwork" and "length namess = n" and "\<forall>names\<in>set namess. length names = n"
    and "length starts = n" and "\<forall>(names, addr, ok)\<in>set starts. ok \<and> length names = n"
  shows "\<exists>ts :: 'v raft_test. raft_makeTest n reliable namess starts an = Inr ts \<and> (\<forall>i<n. callable ts i) \<and> length (rs_slots ts) = n"
proof -
  have "fresh (end_names namess starts) (cfg_net empty_config)" using assms(1) by (simp add: empty_config_def)
  from MakeGroupStart_total [OF this assms(2-)] obtain cfg1 where run: "Config_MakeGroupStart GRP0 n namess starts empty_config = Inr cfg1" by blast
  from MakeGroupStart_spec [OF run assms(2-)] obtain sg where sg: "Config_Group GRP0 cfg1 = Some sg"
    "\<forall>i<n. ServerGrp_IsConnected i sg = Inr True" by blast
  define cfg where "cfg = cfg1\<lparr>cfg_clnts := makeClnts, cfg_net := Network_Reliable reliable (cfg_net cfg1)\<rparr>"
  have mk: "MakeConfig n reliable namess starts = Inr cfg" using run by (simp add: MakeConfig_def empty_config_def cfg_def)
  let ?ts = "\<lparr>rs_g = (sg, cfg_net (Config_SetLongDelays True cfg)), rs_ann = an, rs_finished = False, rs_slots = replicate n None\<rparr>"
  have g: "Config_Group GRP0 cfg = Some sg" using sg(1) by (simp add: Config_Group_def cfg_def)
  have "\<exists>ts'. each mksrv xs ts = Inr ts' \<and> length (rs_slots ts') = length (rs_slots ts)" if "\<forall>x\<in>set xs. x < length (rs_slots ts)" for xs and ts :: "'v raft_test"
    using that
  proof (induction xs arbitrary: ts)
    case (Cons x xs)
    then obtain u where u: "mksrv x ts = Inr u" "length (rs_slots u) = length (rs_slots ts)" by (auto simp: mksrv_def)
    then show ?case using Cons.IH [of u] Cons.prems by auto
  qed simp
  from this [of "[0..<n]" ?ts] obtain ts :: "'v raft_test" where ts: "each mksrv [0..<n] ?ts = Inr ts" "length (rs_slots ts) = n" by auto
  moreover have "raft_makeTest n reliable namess starts an = each mksrv [0..<n] ?ts"
    using mk g by (simp add: raft_makeTest_def Let_def Config_Group_def Config_SetLongDelays_def)
  moreover have "callable ts i" if "i < n" for i
    using that mksrv_all [OF ts(1)] sg(2) by (auto simp: callable_def ServerGrp_IsConnected_def go_index_def split: if_splits)
  ultimately show ?thesis by metis
qed

lemma demo_raft_test: "\<exists>ts :: 'v raft_test. rt_reach ts \<and> length (rs_slots ts) = 1 \<and> connected (fst (rs_g ts)) ! 0"
proof -
  have "fresh (end_names [[''a'']] [([''b''], 7, True)]) MakeNetwork" by (simp add: fresh_def end_names_def MakeNetwork_def)
  from makeTest_total [OF this, of 1 True] obtain ts :: "'v raft_test" where
    ts: "raft_makeTest 1 True [[''a'']] [([''b''], 7, True)] \<lparr>annotation = mkAnnotation, finfo = None\<rparr> = Inr ts" "callable ts 0" "length (rs_slots ts) = 1"
    by fastforce
  then have "rt_reach ts" by (intro rt_made [OF ts(1)]) simp_all
  then show ?thesis using ts(2,3) by (auto simp: callable_def)
qed


section \<open>The peer that the lab hands out\<close>

lemma ticker_bounds: "0 \<le> r \<Longrightarrow> 50 \<le> ticker_ms r \<and> ticker_ms r < 350"
  using go_rem_bounds [of r 300] by (simp add: ticker_ms_def)

text \<open>What the tester hears from such a peer: its answer, or nothing when the call fails.\<close>

definition skeleton_state :: "(int \<times> bool) option \<Rightarrow> bool" where
  "skeleton_state rep \<longleftrightarrow> rep = None \<or> (\<exists>rf r. rfsrv_GetState (Some rf) = Inr r \<and> rep = Some r)"

definition skeleton_start :: "'v any \<Rightarrow> (int \<times> int \<times> bool) option \<Rightarrow> bool" where
  "skeleton_start cmd st \<longleftrightarrow> st = None \<or> st = Some (Rfproxy_Start None) \<or> (\<exists>rf. st = Some (Rfproxy_Start (Some (rfsrv_Start (Some rf) cmd))))"

lemma one_try_skeleton:
  assumes "\<forall>i. skeleton_start cmd (start i)"
  shows "snd (one_try start n k starts) = -1"
proof (induction k arbitrary: starts)
  case (Suc k)
  have "skeleton_start cmd (start ((starts + 1) mod n))" using assms by blast
  then show ?case using Suc by (auto simp: skeleton_start_def Rfproxy_Start_def rfsrv_Start_def Raft_Start_def Let_def)
qed simp

lemma no_leaders: "(\<forall>(i, term, leader)\<in>set states. \<not> leader) \<Longrightarrow> leaders_by_term states = Map.empty"
  unfolding leaders_by_term_def by (induction states) auto

text \<open>
  The skeleton of Raft is rejected by the tests. Its peers never claim to lead when asked, so
  \<open>checkOneLeader\<close> fails in every reachable state after all its rounds; \<open>Start\<close> claims to lead but
  gives index \<open>-1\<close>, which \<open>one\<close> takes for no leader, so \<open>one\<close> never reports an agreement: it fails,
  or answers \<open>-1\<close> when the test is over.
\<close>

theorem raft_skeleton_rejected:
  assumes "\<forall>(states, ks)\<in>set rounds. key_order (leaders_by_term states) ks \<and>
      (\<exists>ts :: 'v raft_test. \<exists>reply. rt_reach ts \<and> (\<forall>i. skeleton_state (reply i)) \<and> ask_states reply ts = Inr states)"
    and "\<forall>(start, polls)\<in>set tries. \<forall>i. skeleton_start (cmd :: 'v any) (start i)"
  shows "Test_checkOneLeader rounds = Inl (Fatal ''expected one leader, got none'') \<and>
    Test_one cmd expectedServers retry n finished starts tries = (if finished then Inr (-1) else Inl (Fatal ''failed to reach agreement''))"
proof
  show "Test_checkOneLeader rounds = Inl (Fatal ''expected one leader, got none'')"
    using assms(1)
  proof (induction rounds)
    case (Cons round rounds)
    obtain states ks where r: "round = (states, ks)" by fastforce
    then obtain ts :: "'v raft_test" and reply where ts: "rt_reach ts" "\<forall>i. skeleton_state (reply i)" "ask_states reply ts = Inr states"
      "key_order (leaders_by_term states) ks" using Cons.prems by auto
    have "\<not> snd (Rfproxy_GetState (reply i))" for i
      using ts(2) [rule_format, of i] by (auto simp: skeleton_state_def Rfproxy_GetState_def rfsrv_GetState_def Raft_GetState_def)
    then have "leaders_by_term states = Map.empty"
      using ts(3) ask_states_eq [OF rt_reach_inv [OF ts(1)], of reply] by (intro no_leaders) (auto, metis snd_conv)
    then have "one_leader_round states ks = Inr None" using ts(4) by (simp add: one_leader_round_def Let_def key_order_def)
    then show ?case using Cons r by simp
  qed simp
  show "Test_one cmd expectedServers retry n finished starts tries = (if finished then Inr (-1) else Inl (Fatal ''failed to reach agreement''))"
    using assms(2)
  proof (induction tries arbitrary: starts)
    case (Cons attempt tries)
    obtain start polls where t: "attempt = (start, polls)" by fastforce
    then have "snd (one_try start n n starts) = -1" using Cons.prems one_try_skeleton [of cmd start] by auto
    then obtain starts' where "one_try start n n starts = (starts', -1)" by (metis prod.collapse)
    then show ?case using Cons t by simp
  qed simp
qed

theorem raft_skeleton_rejected_witness:
  "Test_checkOneLeader [([(0, 0, False)], [])] = Inl (Fatal ''expected one leader, got none'') \<and>
   Test_one (Some (5 :: nat)) 1 True 1 False 0 [(\<lambda>_. Some (-1, -1, True), [])] = Inl (Fatal ''failed to reach agreement'')"
proof -
  let ?rounds = "[([(0, 0, False)], [])]" and ?tries = "[(\<lambda>_. Some (-1, -1, True), [])]"
  obtain ts :: "nat raft_test" where ts: "rt_reach ts" "length (rs_slots ts) = 1" "connected (fst (rs_g ts)) ! 0"
    using demo_raft_test by blast
  have "ask_states (\<lambda>_. None) ts = Inr [(0, 0, False)]"
    using ask_states_eq [OF rt_reach_inv [OF ts(1)], of "\<lambda>_. None"] ts(2,3) by (simp add: Rfproxy_GetState_def)
  then have "\<forall>(states, ks)\<in>set ?rounds. key_order (leaders_by_term states) ks \<and>
      (\<exists>ts :: nat raft_test. \<exists>reply. rt_reach ts \<and> (\<forall>i. skeleton_state (reply i)) \<and> ask_states reply ts = Inr states)"
    using ts(1) by (auto simp: key_order_def leaders_by_term_def skeleton_state_def intro!: exI [of _ ts] exI [of _ "\<lambda>_. None"])
  moreover have "\<forall>(start, polls)\<in>set ?tries. \<forall>i. skeleton_start (Some 5 :: nat any) (start i)"
    by (auto simp: skeleton_start_def Rfproxy_Start_def rfsrv_Start_def Raft_Start_def)
  ultimately show ?thesis using raft_skeleton_rejected [of ?rounds ?tries "Some 5 :: nat any" 1 True 1 False 0] by simp
qed

text \<open>
  A lost reply of \<open>CheckLogs\<close> looks like a gap: the message is recorded by the tester, and the
  server nevertheless reports that it was applied out of order.
\<close>

lemma lost_reply_reported:
  assumes "CommandValid m" and "CommandIndex m > 1" and "me < length (srvs ts)"
  shows "applyErr (srvs (applier_over_rpc ReplyLost CallOK me m ts) ! me) = ApplyOutOfOrder me (CommandIndex m) \<and>
    logs (srvs (applier_over_rpc ReplyLost CallOK me m ts) ! me) (CommandIndex m) = Some (Command m)"
  using assms by (simp add: applier_over_rpc_def TesterProxy_CheckLogs_def TesterProxy_ApplyErr_def Test_CheckLogs_def Test_ApplyErr_def Let_def)

lemma applier_over_rpc_OK: "applier_over_rpc CallOK CallOK me m ts = rfsrv_applier me m ts"
  by (simp add: applier_over_rpc_def rfsrv_applier_def TesterProxy_CheckLogs_def TesterProxy_ApplyErr_def report_err_def Let_def split: prod.splits)

end
