(* ===== verification/RSM_Harness.thy ===== *)
theory RSM_Harness
  imports KV_Server Tester_Groups
begin

text \<open>
  The replicated state machine of the labs and its tests: \<open>kvraft1/rsm/rsm.go\<close> (whose
  \<open>Submit\<close> is the lab's stub), the counter server \<open>kvraft1/rsm/server.go\<close>, the proxy
  \<open>kvraft1/rsm/proxy.go\<close> and the harness \<open>kvraft1/rsm/test.go\<close>.

  The counter has the width of a Go \<open>int\<close>. An empty error string is \<open>None\<close>, a \<open>nil\<close> reply is
  \<open>None\<close>. The encoding of a snapshot (\<open>labgob\<close>) is a pair of arguments.
\<close>

section \<open>kvraft1/rsm/server.go\<close>

datatype rsm_req = Inc | Null | Dec

datatype rsm_rep = IncRep "64 word" | NullRep

record rsmSrv =
  rs_me :: nat
  rs_counter :: "64 word"

definition newRSMSrv :: "nat \<Rightarrow> rsmSrv" where
  "newRSMSrv srv = \<lparr>rs_me = srv, rs_counter = 0\<rparr>"

definition rsmSrv_GetCounter :: "rsmSrv \<Rightarrow> 64 word" where
  "rsmSrv_GetCounter rs = rs_counter rs"

definition rsmSrv_DoOp :: "rsm_req \<Rightarrow> rsmSrv \<Rightarrow> go_exit + rsm_rep \<times> rsmSrv" where
  "rsmSrv_DoOp req rs =
     (case req of
        Inc \<Rightarrow> (let rs' = rs\<lparr>rs_counter := rs_counter rs + 1\<rparr> in Inr (IncRep (rs_counter rs'), rs'))
      | Null \<Rightarrow> Inr (NullRep, rs)
      | _ \<Rightarrow> Inl (Fatal ''DoOp should execute only Inc''))"

definition rsmSrv_Snapshot :: "(64 word \<Rightarrow> bytes) \<Rightarrow> rsmSrv \<Rightarrow> bytes" where
  "rsmSrv_Snapshot enc rs = enc (rs_counter rs)"

definition rsmSrv_Restore :: "(bytes \<Rightarrow> 64 word option) \<Rightarrow> bytes \<Rightarrow> rsmSrv \<Rightarrow> go_exit + rsmSrv" where
  "rsmSrv_Restore dec data rs =
     (case dec data of
        None \<Rightarrow> Inl (Fatal ''couldn't decode counter'')
      | Some c \<Rightarrow> Inr (rs\<lparr>rs_counter := c\<rparr>))"

section \<open>kvraft1/rsm/rsm.go and kvraft1/rsm/proxy.go\<close>

definition RSM_Submit :: "rsm_req \<Rightarrow> Err option \<times> rsm_rep option" where
  "RSM_Submit req = (Some ErrWrongLeader, None)"

definition rsmSrv_Submit :: "rsm_req \<Rightarrow> Err option \<times> rsm_rep option" where
  "rsmSrv_Submit req = (case RSM_Submit req of (err, rep) \<Rightarrow> (err, rep))"

text \<open>\<open>ok\<close> tells whether the call to the daemon returned; otherwise the reply is the zero value.\<close>

definition RSMproxy_Submit :: "bool \<Rightarrow> (rsm_req \<Rightarrow> Err option \<times> rsm_rep option) \<Rightarrow> rsm_req \<Rightarrow> Err option \<times> rsm_rep option" where
  "RSMproxy_Submit ok submit req = (if ok then submit req else (None, None))"

definition RSMproxy_GetCounter :: "bool \<Rightarrow> rsmSrv \<Rightarrow> 64 word" where
  "RSMproxy_GetCounter ok rs = (if ok then rsmSrv_GetCounter rs else 0)"

section \<open>kvraft1/rsm/test.go\<close>

definition NSRV :: nat where
  "NSRV = 3"

text \<open>
  Of the test record, the leader and the operation counter of the configuration it embeds; the
  group \<open>g\<close> is passed separately, and the servers are what their proxies answer.
\<close>

record rsm_test =
  rt_leader :: int
  rt_ops :: "32 word"

definition makeTest :: rsm_test where
  "makeTest = \<lparr>rt_leader = 0, rt_ops = 0\<rparr>"

fun in_list :: "int \<Rightarrow> int list \<Rightarrow> bool" where
  "in_list s [] = False"
| "in_list s (i # p) = (if s = i then True else in_list s p)"

definition inPartition :: "int \<Rightarrow> int list option \<Rightarrow> bool" where
  "inPartition s p = (case p of None \<Rightarrow> True | Some is \<Rightarrow> in_list s is)"

text \<open>
  One pass over the servers: \<open>submit i\<close> is what \<open>Submit\<close> of server \<open>i\<close> answers, \<open>None\<close> when the
  server is not connected or has been killed.
\<close>

fun one_pass :: "nat \<Rightarrow> int list option \<Rightarrow> (int \<Rightarrow> (Err option \<times> 'r option) option) \<Rightarrow> nat \<Rightarrow> int \<Rightarrow> go_exit + ('r option \<times> int) option" where
  "one_pass n p submit 0 index = Inr None"
| "one_pass n p submit (Suc k) index =
     (if index \<ge> int NSRV then Inl (Fatal ''index'')
      else if index \<noteq> -1 \<and> inPartition index p then
        (case submit index of
           Some (Some OK, rep) \<Rightarrow> Inr (Some (rep, index))
         | _ \<Rightarrow> one_pass n p submit k ((index + 1) mod int n))
      else one_pass n p submit k ((index + 1) mod int n))"

text \<open>The passes before the time is up.\<close>

fun onePartition :: "nat \<Rightarrow> int list option \<Rightarrow> (int \<Rightarrow> (Err option \<times> 'r option) option) list \<Rightarrow> rsm_test \<Rightarrow> go_exit + 'r option \<times> rsm_test" where
  "onePartition n p [] ts = Inr (None, ts)"
| "onePartition n p (submit # passes) ts =
     and_then (one_pass n p submit n (rt_leader ts)) (\<lambda>r.
       case r of
         Some (rep, index) \<Rightarrow> Inr (rep, ts\<lparr>rt_ops := rt_ops ts + 1, rt_leader := index\<rparr>)
       | None \<Rightarrow> onePartition n p passes ts)"

definition oneInc :: "nat \<Rightarrow> (int \<Rightarrow> (Err option \<times> rsm_rep option) option) list \<Rightarrow> rsm_test \<Rightarrow> go_exit + 64 word \<times> rsm_test" where
  "oneInc n passes ts =
     and_then (onePartition n None passes ts) (\<lambda>(rep, ts').
       case rep of
         None \<Rightarrow> Inr (0, ts')
       | Some (IncRep c) \<Rightarrow> Inr (c, ts')
       | Some _ \<Rightarrow> Inl (Panic ''interface conversion''))"

definition oneNull :: "nat \<Rightarrow> (int \<Rightarrow> (Err option \<times> rsm_rep option) option) list \<Rightarrow> rsm_test \<Rightarrow> go_exit + rsm_test" where
  "oneNull n passes ts =
     and_then (onePartition n None passes ts) (\<lambda>(rep, ts').
       case rep of
         None \<Rightarrow> Inr ts'
       | Some NullRep \<Rightarrow> Inr ts'
       | Some _ \<Rightarrow> Inl (Panic ''interface conversion''))"

definition countValue :: "64 word \<Rightarrow> 64 word list \<Rightarrow> nat" where
  "countValue v counters = foldl (\<lambda>i c. if c = v then i + 1 else i) 0 counters"

text \<open>\<open>polls\<close> are the counters that the servers report in the successive iterations.\<close>

fun check_counter :: "64 word \<Rightarrow> nat \<Rightarrow> nat \<Rightarrow> (nat \<Rightarrow> 64 word list) \<Rightarrow> nat \<Rightarrow> go_exit + unit" where
  "check_counter v nsrv 0 polls iters = Inl (Fatal ''checkCounter'')"
| "check_counter v nsrv (Suc left) polls iters =
     (if countValue v (polls iters) \<ge> nsrv then Inr () else check_counter v nsrv left polls (iters + 1))"

definition checkCounter :: "64 word \<Rightarrow> nat \<Rightarrow> (nat \<Rightarrow> 64 word list) \<Rightarrow> go_exit + unit" where
  "checkCounter v nsrv polls = check_counter v nsrv 30 polls 0"

text \<open>The servers are numbered by naturals in the model of the group; the leader is one of them.\<close>

definition disconnectLeader :: "rsm_test \<Rightarrow> grp_state \<Rightarrow> go_exit + int \<times> grp_state" where
  "disconnectLeader ts g = and_then (ServerGrp_DisconnectAll (nat (rt_leader ts)) g) (\<lambda>g'. Inr (rt_leader ts, g'))"

definition rsm_connect :: "int \<Rightarrow> grp_state \<Rightarrow> go_exit + grp_state" where
  "rsm_connect i g = ServerGrp_ConnectOne (nat i) g"

text \<open>The test \<open>TestLeaderFailure4A\<close> of \<open>kvraft1/rsm/rsm_test.go\<close> on a group of servers.\<close>

definition TestLeaderFailure4A ::
    "(int \<Rightarrow> (Err option \<times> rsm_rep option) option) list \<Rightarrow> (nat \<Rightarrow> 64 word list) \<Rightarrow>
     (int \<Rightarrow> (Err option \<times> rsm_rep option) option) list \<Rightarrow> (nat \<Rightarrow> 64 word list) \<Rightarrow> (nat \<Rightarrow> 64 word list) \<Rightarrow>
     grp_state \<Rightarrow> go_exit + grp_state" where
  "TestLeaderFailure4A passes1 polls1 passes2 polls2 polls3 g =
     and_then (oneInc NSRV passes1 makeTest) (\<lambda>(r1, ts1).
     and_then (checkCounter r1 NSRV polls1) (\<lambda>_.
     and_then (disconnectLeader ts1 g) (\<lambda>(l, g1).
     and_then (oneInc NSRV passes2 ts1) (\<lambda>(r2, ts2).
     and_then (checkCounter r2 (NSRV - 1) polls2) (\<lambda>_.
     and_then (rsm_connect l g1) (\<lambda>g2.
     and_then (checkCounter r2 NSRV polls3) (\<lambda>_. Inr g2)))))))"

section \<open>State machines\<close>

text \<open>
  What the replication library asks of a server (the interface \<open>StateMachine\<close> of \<open>rsm.go\<close>): the
  operations are functions of the replicated part of the state, given by \<open>core\<close>, and a snapshot
  holds that part.
\<close>

locale state_machine =
  fixes do_op :: "'req \<Rightarrow> 's \<Rightarrow> go_exit + 'rep \<times> 's"
    and snapshot :: "'s \<Rightarrow> bytes"
    and restore :: "bytes \<Rightarrow> 's \<Rightarrow> go_exit + 's"
    and core :: "'s \<Rightarrow> 'c"
  assumes do_op_core: "core s = core t \<Longrightarrow>
      map_sum id (map_prod id core) (do_op req s) = map_sum id (map_prod id core) (do_op req t)"
    and restore_snapshot: "\<exists>t'. restore (snapshot s) t = Inr t' \<and> core t' = core s"
begin

text \<open>Applying a log: the replies and the final state.\<close>

fun apply_log :: "'req list \<Rightarrow> 's \<Rightarrow> go_exit + 'rep list \<times> 's" where
  "apply_log [] s = Inr ([], s)"
| "apply_log (r # rs) s =
     and_then (do_op r s) (\<lambda>(rep, s'). and_then (apply_log rs s') (\<lambda>(reps, s''). Inr (rep # reps, s'')))"

lemma do_op_core_Inr:
  assumes "core s = core t" and "do_op r s = Inr (rep, s')"
  obtains t' where "do_op r t = Inr (rep, t')" and "core t' = core s'"
  using do_op_core [OF assms(1), of r] assms(2) that by (cases "do_op r t") auto

text \<open>Two replicas with the same state that apply the same log give the same replies and stay equal.\<close>

lemma replicas_agree:
  "apply_log rs s = Inr (reps, s') \<Longrightarrow> core s = core t \<Longrightarrow> \<exists>t'. apply_log rs t = Inr (reps, t') \<and> core t' = core s'"
proof (induction rs arbitrary: s t reps)
  case (Cons r rs)
  from Cons.prems(1) obtain rep s1 reps1 where s1: "do_op r s = Inr (rep, s1)" "apply_log rs s1 = Inr (reps1, s')" "reps = rep # reps1"
    by (auto simp: and_then_eq_Inr)
  obtain t1 where t1: "do_op r t = Inr (rep, t1)" "core t1 = core s1" using do_op_core_Inr [OF Cons.prems(2) s1(1)] .
  from Cons.IH [OF s1(2) t1(2) [symmetric]] show ?case using t1(1) s1(3) by auto
qed simp

lemma apply_log_append:
  "apply_log (xs @ ys) s = and_then (apply_log xs s) (\<lambda>(r1, s1). and_then (apply_log ys s1) (\<lambda>(r2, s2). Inr (r1 @ r2, s2)))"
  by (induction xs arbitrary: s) (auto simp: and_then_def split: sum.splits)

text \<open>
  A replica that restores a snapshot taken after a prefix of the log and applies the rest is where
  the replica is that applied the whole log.
\<close>

lemma snapshot_then_rest:
  assumes "apply_log (xs @ ys) s = Inr (reps, s')" and "apply_log xs s = Inr (reps1, s1)"
  shows "\<exists>t1 reps2 t'. restore (snapshot s1) t = Inr t1 \<and> apply_log ys t1 = Inr (reps2, t') \<and> reps = reps1 @ reps2 \<and> core t' = core s'"
proof -
  obtain t1 where t1: "restore (snapshot s1) t = Inr t1" "core t1 = core s1" using restore_snapshot by blast
  obtain reps2 where r2: "apply_log ys s1 = Inr (reps2, s')" "reps = reps1 @ reps2"
    using assms by (auto simp: apply_log_append and_then_eq_Inr)
  from replicas_agree [OF r2(1) t1(2) [symmetric]] show ?thesis using t1(1) r2(2) by blast
qed

end

text \<open>An encoding of the counter, to instantiate \<open>labgob\<close>.\<close>

definition enc_counter :: "64 word \<Rightarrow> bytes" where
  "enc_counter w = map (\<lambda>c. of_nat (of_char c)) (Itoa (sint w))"

definition dec_counter :: "bytes \<Rightarrow> 64 word option" where
  "dec_counter b = map_option of_int (Atoi (map (\<lambda>x. char_of (unat x)) b))"

lemma dec_enc_counter: "dec_counter (enc_counter w) = Some w"
proof -
  have "char_of (unat (of_nat (of_char c) :: 8 word)) = c" for c by (simp add: unsigned_of_nat char_of_take_bit_eq)
  moreover have "Atoi (Itoa (sint w)) = Some (sint w)"
    using sint_greater_eq [of w] sint_less [of w] by (intro Atoi_Itoa) simp_all
  ultimately show ?thesis by (simp add: dec_counter_def enc_counter_def comp_def)
qed

text \<open>The counter server is a state machine for every encoding that can be read back.\<close>

lemma counter_machine:
  assumes "\<And>c. dec (enc c) = Some c"
  shows "state_machine rsmSrv_DoOp (rsmSrv_Snapshot enc) (rsmSrv_Restore dec) rs_counter"
proof
  show "map_sum id (map_prod id rs_counter) (rsmSrv_DoOp req s) = map_sum id (map_prod id rs_counter) (rsmSrv_DoOp req t)"
    if "rs_counter s = rs_counter t" for s t req
    using that by (cases req) (simp_all add: rsmSrv_DoOp_def)
  show "\<exists>t'. rsmSrv_Restore dec (rsmSrv_Snapshot enc s) t = Inr t' \<and> rs_counter t' = rs_counter s" for s t
    by (simp add: rsmSrv_Restore_def rsmSrv_Snapshot_def assms)
qed

interpretation counter: state_machine rsmSrv_DoOp "rsmSrv_Snapshot enc_counter" "rsmSrv_Restore dec_counter" rs_counter
  by (rule counter_machine) (rule dec_enc_counter)

section \<open>The counter\<close>

lemma apply_log_counter:
  "Dec \<notin> set rs \<Longrightarrow> \<exists>reps s'. counter.apply_log rs s = Inr (reps, s') \<and> length reps = length rs \<and> rs_counter s' = rs_counter s + of_nat (count_list rs Inc) \<and>
    (\<forall>i < length rs. reps ! i = (if rs ! i = Inc then IncRep (rs_counter s + of_nat (count_list (take (Suc i) rs) Inc)) else NullRep))"
proof (induction rs arbitrary: s)
  case (Cons r rs)
  obtain rep s1 where r: "rsmSrv_DoOp r s = Inr (rep, s1)" "rs_counter s1 = rs_counter s + of_nat (count_list [r] Inc)"
    "rep = (if r = Inc then IncRep (rs_counter s + of_nat (count_list [r] Inc)) else NullRep)"
    using Cons.prems by (cases r) (auto simp: rsmSrv_DoOp_def Let_def)
  from Cons.IH [of s1] Cons.prems obtain reps s' where IH: "counter.apply_log rs s1 = Inr (reps, s')" "length reps = length rs"
    "rs_counter s' = rs_counter s1 + of_nat (count_list rs Inc)"
    "\<forall>i < length rs. reps ! i = (if rs ! i = Inc then IncRep (rs_counter s1 + of_nat (count_list (take (Suc i) rs) Inc)) else NullRep)"
    by auto
  have "(rep # reps) ! i = (if (r # rs) ! i = Inc then IncRep (rs_counter s + of_nat (count_list (take (Suc i) (r # rs)) Inc)) else NullRep)"
    if "i < length (r # rs)" for i
    using that IH(4) r(2,3) by (cases i) (auto simp: algebra_simps)
  then show ?case using IH(1-3) r(1,2) by (intro exI [of _ "rep # reps"] exI [of _ s']) (auto simp: algebra_simps)
qed simp

text \<open>
  C20: Replicas of the counter server that apply the same log of \<open>Inc\<close> and \<open>Null\<close> operations give
  the same replies, the \<open>k\<close>-th increment being answered with \<open>k\<close>, and end with the number of
  increments as their counter. This also holds for a replica that restores a snapshot which another
  replica took after any prefix of the log, and applies the rest, for every encoding \<open>enc\<close> of the
  counter that \<open>dec\<close> reads back. A \<open>Dec\<close> ends the server.
\<close>

theorem rsm_replicas_agree:
  assumes "Dec \<notin> set (xs @ ys)" and codec: "\<And>c. dec (enc c) = Some c"
  shows "\<exists>reps s' reps1 s1 t1 reps2 t'. counter.apply_log (xs @ ys) (newRSMSrv i) = Inr (reps, s') \<and>
    rsmSrv_GetCounter s' = of_nat (count_list (xs @ ys) Inc) \<and>
    (\<forall>k < length (xs @ ys). reps ! k = (if (xs @ ys) ! k = Inc then IncRep (of_nat (count_list (take (Suc k) (xs @ ys)) Inc)) else NullRep)) \<and>
    counter.apply_log xs (newRSMSrv i) = Inr (reps1, s1) \<and>
    rsmSrv_Restore dec (rsmSrv_Snapshot enc s1) (newRSMSrv j) = Inr t1 \<and>
    counter.apply_log ys t1 = Inr (reps2, t') \<and> reps = reps1 @ reps2 \<and> rsmSrv_GetCounter t' = rsmSrv_GetCounter s' \<and>
    rsmSrv_DoOp Dec t' = Inl (Fatal ''DoOp should execute only Inc'')"
proof -
  obtain reps s' where all: "counter.apply_log (xs @ ys) (newRSMSrv i) = Inr (reps, s')" "rs_counter s' = of_nat (count_list (xs @ ys) Inc)"
    "\<forall>k < length (xs @ ys). reps ! k = (if (xs @ ys) ! k = Inc then IncRep (of_nat (count_list (take (Suc k) (xs @ ys)) Inc)) else NullRep)"
    using apply_log_counter [OF assms(1), of "newRSMSrv i"] by (auto simp: newRSMSrv_def)
  obtain reps1 s1 where pre: "counter.apply_log xs (newRSMSrv i) = Inr (reps1, s1)"
    using apply_log_counter [of xs "newRSMSrv i"] assms by auto
  from state_machine.snapshot_then_rest [OF counter_machine [OF codec] all(1) pre, of "newRSMSrv j"] obtain t1 reps2 t' where
    "rsmSrv_Restore dec (rsmSrv_Snapshot enc s1) (newRSMSrv j) = Inr t1" "counter.apply_log ys t1 = Inr (reps2, t')"
    "reps = reps1 @ reps2" "rs_counter t' = rs_counter s'" by blast
  then show ?thesis using all pre
    by (intro exI [of _ reps] exI [of _ s'] exI [of _ reps1] exI [of _ s1] exI [of _ t1] exI [of _ reps2] exI [of _ t'])
      (simp add: rsmSrv_GetCounter_def rsmSrv_DoOp_def)
qed

theorem rsm_replicas_agree_witness:
  "\<exists>reps s'. counter.apply_log ([Inc, Null] @ [Inc]) (newRSMSrv 0) = Inr (reps, s') \<and> rsmSrv_GetCounter s' = 2"
  using rsm_replicas_agree [of "[Inc, Null]" "[Inc]" dec_counter enc_counter 0 1] dec_enc_counter by auto

section \<open>Finding a leader\<close>

definition answers :: "int list option \<Rightarrow> (int \<Rightarrow> (Err option \<times> 'r option) option) \<Rightarrow> int \<Rightarrow> bool" where
  "answers p submit i \<longleftrightarrow> inPartition i p \<and> (case submit i of Some (e, _) \<Rightarrow> e = Some OK | None \<Rightarrow> False)"

lemma one_pass_spec:
  assumes "0 \<le> index" and "index < int n" and "n \<le> NSRV"
  shows "(\<exists>rep i. one_pass n p submit k index = Inr (Some (rep, i)) \<and> 0 \<le> i \<and> i < int n \<and> inPartition i p \<and> submit i = Some (Some OK, rep)) \<or>
    (one_pass n p submit k index = Inr None \<and> (\<forall>j < k. \<not> answers p submit ((index + int j) mod int n)))"
  using assms
proof (induction k arbitrary: index)
  case (Suc k)
  let ?next = "(index + 1) mod int n"
  show ?case
  proof (cases "answers p submit index")
    case True
    then obtain rep where "inPartition index p" "submit index = Some (Some OK, rep)"
      by (auto simp: answers_def split: option.splits Err.splits)
    then show ?thesis using Suc.prems by auto
  next
    case False
    have step: "one_pass n p submit (Suc k) index = one_pass n p submit k ?next"
      using False Suc.prems by (auto simp: answers_def split: option.splits Err.splits prod.splits)
    have "(?next + int j) mod int n = (index + int (Suc j)) mod int n" for j by (simp add: mod_simps algebra_simps)
    moreover have "0 \<le> ?next" "?next < int n" using Suc.prems by auto
    note IH = Suc.IH [OF this Suc.prems(3)]
    moreover have "\<not> answers p submit ((index + int 0) mod int n)" using False Suc.prems by simp
    ultimately show ?thesis unfolding step by (metis (no_types, lifting) less_Suc_eq_0_disj)
  qed
qed simp

lemma one_pass_all:
  assumes "0 \<le> index" and "index < int n" and "n \<le> NSRV"
  shows "(\<exists>rep i. one_pass n p submit n index = Inr (Some (rep, i)) \<and> 0 \<le> i \<and> i < int n \<and> inPartition i p \<and> submit i = Some (Some OK, rep)) \<or>
    (one_pass n p submit n index = Inr None \<and> (\<forall>i. 0 \<le> i \<and> i < int n \<longrightarrow> \<not> answers p submit i))"
proof -
  have "\<exists>j < n. (index + int j) mod int n = i" if "0 \<le> i" "i < int n" for i
  proof (intro exI conjI)
    show "nat ((i - index) mod int n) < n" using that by (simp add: nat_less_iff)
    have "int (nat ((i - index) mod int n)) = (i - index) mod int n" using that by simp
    then show "(index + int (nat ((i - index) mod int n))) mod int n = i" using that by (simp add: mod_simps)
  qed
  then show ?thesis using one_pass_spec [OF assms, of p submit n] by metis
qed

text \<open>
  \<open>onePartition\<close> asks every server. With the last known leader one of the servers, it never
  ends the test; it returns a reply only when a connected server of the partition accepted the
  request, returns that server's reply and remembers the server as the leader; and it returns
  without a reply, changing nothing, only if in no pass any server of the partition accepted it.
\<close>

theorem onePartition_finds_leader:
  assumes "0 \<le> rt_leader ts" and "rt_leader ts < int NSRV"
  shows "\<exists>rep ts'. onePartition NSRV p passes ts = Inr (rep, ts') \<and> 0 \<le> rt_leader ts' \<and> rt_leader ts' < int NSRV \<and>
    (if \<exists>submit\<in>set passes. \<exists>i. 0 \<le> i \<and> i < int NSRV \<and> answers p submit i
     then rt_ops ts' = rt_ops ts + 1 \<and> (\<exists>submit\<in>set passes. inPartition (rt_leader ts') p \<and> submit (rt_leader ts') = Some (Some OK, rep))
     else rep = None \<and> ts' = ts)"
  using assms
proof (induction passes)
  case (Cons submit passes)
  from one_pass_all [OF Cons.prems order.refl, of p submit] show ?case
  proof (elim disjE exE conjE)
    fix rep i
    assume a: "one_pass NSRV p submit NSRV (rt_leader ts) = Inr (Some (rep, i))" "0 \<le> i" "i < int NSRV" "inPartition i p" "submit i = Some (Some OK, rep)"
    then have "answers p submit i" by (simp add: answers_def)
    then show ?thesis using a by auto
  next
    assume "one_pass NSRV p submit NSRV (rt_leader ts) = Inr None" "\<forall>i. 0 \<le> i \<and> i < int NSRV \<longrightarrow> \<not> answers p submit i"
    then show ?thesis using Cons.IH [OF Cons.prems] by (auto split: if_splits)
  qed
qed simp

theorem onePartition_finds_leader_witness:
  "\<exists>rep ts'. onePartition NSRV (Some [1, 2]) [\<lambda>_. None, \<lambda>i. if i = 2 then Some (Some OK, Some (IncRep 1)) else Some (Some ErrWrongLeader, None)] makeTest = Inr (rep, ts') \<and>
     rt_leader ts' < 3"
  using onePartition_finds_leader [of makeTest "Some [1, 2]" "[\<lambda>_. None, \<lambda>i. if i = 2 then Some (Some OK, Some (IncRep 1)) else Some (Some ErrWrongLeader, None)]"]
  by (auto simp: makeTest_def NSRV_def)

section \<open>A test without a service\<close>

text \<open>What the tester sees of the servers as they are: the stub \<open>Submit\<close>, and counters at zero.\<close>

definition stub_pass :: "(int \<Rightarrow> (Err option \<times> rsm_rep option) option) \<Rightarrow> bool" where
  "stub_pass submit \<longleftrightarrow> (\<forall>i. submit i = None \<or> (\<exists>ok. submit i = Some (RSMproxy_Submit ok rsmSrv_Submit Inc)))"

definition stub_poll :: "64 word list \<Rightarrow> bool" where
  "stub_poll cs \<longleftrightarrow> (\<exists>oks. length oks = NSRV \<and> cs = map (\<lambda>(i, ok). RSMproxy_GetCounter ok (newRSMSrv i)) (List.enumerate 0 oks))"

lemma stub_poll_zeros: "stub_poll cs \<Longrightarrow> cs = replicate NSRV 0"
  by (auto simp: stub_poll_def RSMproxy_GetCounter_def rsmSrv_GetCounter_def newRSMSrv_def list_eq_iff_nth_eq nth_enumerate_eq split: prod.splits)

lemma oneInc_stub:
  assumes "\<forall>submit\<in>set passes. stub_pass submit" and "0 \<le> rt_leader ts" and "rt_leader ts < int NSRV"
  shows "oneInc NSRV passes ts = Inr (0, ts)"
proof -
  have no: "\<not> answers None submit i" if "submit \<in> set passes" for submit i
  proof -
    have "stub_pass submit" using assms(1) that by blast
    then have "submit i = None \<or> submit i = Some (Some ErrWrongLeader, None) \<or> submit i = Some (None, None)"
      unfolding stub_pass_def RSMproxy_Submit_def rsmSrv_Submit_def RSM_Submit_def by (metis (full_types) case_prod_conv)
    then show ?thesis by (auto simp: answers_def)
  qed
  have "onePartition NSRV None passes ts = Inr (None, ts)"
    using no
  proof (induction passes)
    case (Cons submit passes)
    have "submit i \<noteq> Some (Some OK, rep)" for i rep using Cons.prems [of submit i] by (auto simp: answers_def inPartition_def)
    then have "one_pass NSRV None submit NSRV (rt_leader ts) = Inr None"
      using one_pass_all [OF assms(2,3) order.refl, of None submit] by blast
    then show ?case using Cons by simp
  qed simp
  then show ?thesis by (simp add: oneInc_def)
qed

lemma checkCounter_stub:
  assumes "\<forall>k. stub_poll (polls k)" and "nsrv \<le> NSRV"
  shows "checkCounter 0 nsrv polls = Inr ()"
proof -
  have "countValue 0 (replicate NSRV 0) = NSRV" by (simp add: countValue_def NSRV_def eval_nat_numeral)
  then show ?thesis using assms stub_poll_zeros [of "polls 0"] by (simp add: checkCounter_def eval_nat_numeral)
qed

text \<open>
  The test \<open>TestLeaderFailure4A\<close> passes although no operation is ever executed. With the stub
  \<open>Submit\<close>, which refuses every request, each \<open>oneInc\<close> runs out of time and returns the zero reply,
  and the counters, all still zero (a server that cannot be asked also counts as zero), are then
  compared with that zero. The hypotheses on the group only say that its servers exist.
\<close>

theorem leader_failure_test_vacuous:
  assumes "\<forall>submit\<in>set (passes1 @ passes2). stub_pass submit" and "\<forall>k. stub_poll (polls1 k) \<and> stub_poll (polls2 k) \<and> stub_poll (polls3 k)"
    and "wf_group (fst g)" and "ServerGrp_N (fst g) = NSRV"
  shows "\<exists>g'. TestLeaderFailure4A passes1 polls1 passes2 polls2 polls3 g = Inr g'"
proof -
  have leader: "0 \<le> rt_leader makeTest" "rt_leader makeTest < int NSRV" by (simp_all add: makeTest_def NSRV_def)
  have "oneInc NSRV passes1 makeTest = Inr (0, makeTest)" "oneInc NSRV passes2 makeTest = Inr (0, makeTest)"
    using assms(1) by (auto intro!: oneInc_stub leader)
  moreover have ok: "group_ok (0 # ServerGrp_all (fst g)) (fst g)"
    using assms(3,4) by (auto simp: group_ok_def ServerGrp_all_def ServerGrp_N_def NSRV_def)
  obtain net1 where g1: "disconnectLeader makeTest g = Inr (0, mark 0 False (fst g), net1)"
    using ServerGrp_disconnect_eq [OF ok, of "snd g"] by (simp add: disconnectLeader_def makeTest_def ServerGrp_DisconnectAll_def)
  moreover obtain g2 where "rsm_connect 0 (mark 0 False (fst g), net1) = Inr g2"
    using ServerGrp_connect_eq [of 0 "ServerGrp_all (fst g)" "mark 0 False (fst g)" net1] ok
    by (simp add: rsm_connect_def ServerGrp_ConnectOne_def ServerGrp_all_def)
  ultimately show ?thesis
    using checkCounter_stub assms(2) by (simp add: TestLeaderFailure4A_def)
qed

definition three_servers :: ServerGrp where
  "three_servers = \<lparr>sg_srvs = [\<lparr>saved = None, endNames = [''a'', ''b'', ''c''], dc = None\<rparr>, \<lparr>saved = None, endNames = [''d'', ''e'', ''f''], dc = None\<rparr>,
       \<lparr>saved = None, endNames = [''g'', ''h'', ''i''], dc = None\<rparr>],
     servernames = [''server-0-0'', ''server-0-1'', ''server-0-2''], sg_gid = 0, connected = [True, True, True]\<rparr>"

theorem leader_failure_test_vacuous_witness:
  "\<exists>g'. TestLeaderFailure4A [\<lambda>i. Some (RSMproxy_Submit True rsmSrv_Submit Inc)] (\<lambda>_. [0, 0, 0]) [] (\<lambda>_. [0, 0, 0]) (\<lambda>_. [0, 0, 0]) (three_servers, MakeNetwork) = Inr g'"
proof (rule leader_failure_test_vacuous)
  have "stub_poll [0, 0, 0]"
    by (auto simp: stub_poll_def NSRV_def RSMproxy_GetCounter_def rsmSrv_GetCounter_def newRSMSrv_def intro!: exI [of _ "[True, True, True]"])
  then show "\<forall>k. stub_poll [0, 0, 0] \<and> stub_poll [0, 0, 0] \<and> stub_poll [0, 0, 0]" by simp
qed (auto simp: stub_pass_def wf_group_def three_servers_def ServerGrp_N_def NSRV_def)

end
