(* ===== verification/Shard_Config.thy ===== *)
theory Shard_Config
  imports Go_Std
begin

text \<open>
  The shard configurations of \<open>shardkv1/shardcfg/shardcfg.go\<close>: the assignment of the twelve
  shards to replica groups, and the operations that add and remove groups and rebalance.

  \<open>Shards\<close> is an array: a list of length \<open>NShards\<close> (\<open>cfg_ok\<close>). \<open>Groups\<close> is a Go map; where the
  code ranges over it the iteration order is an argument, except in \<open>analyze\<close>, which sorts the
  keys. \<open>log.Fatalf\<close> and \<open>t.Fatalf\<close> are values \<open>Inl (Fatal msg)\<close>. The loop of \<open>Rebalance\<close> that
  moves shards has no obvious bound: it is a partial function, proved to return.
\<close>

definition NShards :: nat where "NShards = 12"

definition Key2Shard :: "string \<Rightarrow> int" where
  "Key2Shard key = go_rem (uint (fnv32a key)) (int NShards)"

record ShardConfig =
  Num :: int
  Shards :: "int list"
  Groups :: "int \<rightharpoonup> string list"

definition MakeShardConfig :: ShardConfig where
  "MakeShardConfig = \<lparr>Num = 0, Shards = replicate NShards 0, Groups = Map.empty\<rparr>"

definition cfg_ok :: "ShardConfig \<Rightarrow> bool" where
  "cfg_ok c \<longleftrightarrow> length (Shards c) = NShards \<and> finite (dom (Groups c))"

definition ShardConfig_Copy :: "int list \<Rightarrow> ShardConfig \<Rightarrow> ShardConfig" where
  "ShardConfig_Copy ks cfg =
     (let c = MakeShardConfig\<lparr>Num := Num cfg, Shards := Shards cfg\<rparr>
      in foldl (\<lambda>c k. c\<lparr>Groups := (Groups c)(k \<mapsto> the (Groups cfg k))\<rparr>) c ks)"

section \<open>Rebalancing\<close>

definition counts_of :: "int list \<Rightarrow> int \<Rightarrow> int" where
  "counts_of shards = zget (foldl (\<lambda>m g. m(g \<mapsto> zget m 0 g + 1)) Map.empty shards) 0"

definition analyze_group :: "(int \<Rightarrow> int) \<Rightarrow> int \<times> int \<times> int \<times> int \<Rightarrow> int \<Rightarrow> int \<times> int \<times> int \<times> int" where
  "analyze_group cnt = (\<lambda>(mg, mn, lg, ln) g.
     let (lg', ln') = (if cnt g < ln then (g, cnt g) else (lg, ln));
         (mg', mn') = (if cnt g > mn then (g, cnt g) else (mg, mn))
     in (mg', mn', lg', ln'))"

definition analyze :: "ShardConfig \<Rightarrow> int \<times> int \<times> int \<times> int" where
  "analyze c =
     (let counts = counts_of (Shards c); groups = sorted_list_of_set (dom (Groups c))
      in foldl (analyze_group counts) (-1, -1, -1, 257) groups)"

definition least :: "ShardConfig \<Rightarrow> int" where
  "least c = (case analyze c of (_, _, lg, _) \<Rightarrow> lg)"

definition assign_unassigned :: "ShardConfig \<Rightarrow> ShardConfig" where
  "assign_unassigned c =
     foldl (\<lambda>c s. if Groups c (Shards c ! s) = None then c\<lparr>Shards := (Shards c)[s := least c]\<rparr> else c)
       c [0..<length (Shards c)]"

text \<open>The inner loop: the first shard of group \<open>mg\<close> goes to \<open>lg\<close>.\<close>

fun move_one :: "int \<Rightarrow> int \<Rightarrow> int list \<Rightarrow> int list" where
  "move_one mg lg [] = []"
| "move_one mg lg (g # gs) = (if g = mg then lg # gs else g # move_one mg lg gs)"

partial_function (option) move_shards :: "ShardConfig \<Rightarrow> ShardConfig option" where
  "move_shards c =
     (case analyze c of (mg, mn, lg, ln) \<Rightarrow>
        if mn < ln + 2 then Some c else move_shards (c\<lparr>Shards := move_one mg lg (Shards c)\<rparr>))"

definition ShardConfig_Rebalance :: "ShardConfig \<Rightarrow> ShardConfig option" where
  "ShardConfig_Rebalance c =
     (if card (dom (Groups c)) < 1 then Some (c\<lparr>Shards := map (\<lambda>_. 0) (Shards c)\<rparr>)
      else move_shards (assign_unassigned c))"

section \<open>Joining and leaving\<close>

definition shares_server :: "ShardConfig \<Rightarrow> string list \<Rightarrow> bool" where
  "shares_server cfg servers \<longleftrightarrow> (\<exists>xservers\<in>ran (Groups cfg). \<exists>s1\<in>set xservers. \<exists>s2\<in>set servers. s1 = s2)"

fun join_loop :: "(int \<rightharpoonup> string list) \<Rightarrow> int list \<Rightarrow> ShardConfig \<Rightarrow> go_exit + bool \<times> ShardConfig" where
  "join_loop servers [] cfg = Inr (True, cfg)"
| "join_loop servers (gid # gids) cfg =
     (if Groups cfg gid \<noteq> None then Inr (False, cfg)
      else if shares_server cfg (the (servers gid)) then Inl (Fatal ''Join puts server in two groups'')
      else join_loop servers gids (cfg\<lparr>Groups := (Groups cfg)(gid \<mapsto> the (servers gid))\<rparr>))"

definition ShardConfig_Join :: "(int \<rightharpoonup> string list) \<Rightarrow> int list \<Rightarrow> ShardConfig \<Rightarrow> go_exit + bool \<times> ShardConfig" where
  "ShardConfig_Join servers gids cfg =
     (case join_loop servers gids cfg of
        Inl e \<Rightarrow> Inl e
      | Inr (False, cfg') \<Rightarrow> Inr (False, cfg')
      | Inr (True, cfg') \<Rightarrow>
          if gids = [] then Inl (Fatal ''Join but no change'') else Inr (True, cfg'\<lparr>Num := Num cfg' + 1\<rparr>))"

fun leave_loop :: "int list \<Rightarrow> ShardConfig \<Rightarrow> bool \<times> ShardConfig" where
  "leave_loop [] cfg = (True, cfg)"
| "leave_loop (gid # gids) cfg =
     (if Groups cfg gid = None then (False, cfg)
      else leave_loop gids (cfg\<lparr>Groups := (Groups cfg)(gid := None)\<rparr>))"

definition ShardConfig_Leave :: "int list \<Rightarrow> ShardConfig \<Rightarrow> go_exit + bool \<times> ShardConfig" where
  "ShardConfig_Leave gids cfg =
     (case leave_loop gids cfg of
        (False, cfg') \<Rightarrow> Inr (False, cfg')
      | (True, cfg') \<Rightarrow>
          if gids = [] then Inl (Fatal ''Leave but no change'') else Inr (True, cfg'\<lparr>Num := Num cfg' + 1\<rparr>))"

text \<open>The result of \<open>Rebalance\<close> is total here because of \<open>Rebalance_returns\<close> below.\<close>

definition with_rebalance :: "go_exit + bool \<times> ShardConfig \<Rightarrow> go_exit + (bool \<times> ShardConfig) option" where
  "with_rebalance r =
     (case r of
        Inl e \<Rightarrow> Inl e
      | Inr (False, cfg) \<Rightarrow> Inr (Some (False, cfg))
      | Inr (True, cfg) \<Rightarrow> Inr (map_option (Pair True) (ShardConfig_Rebalance cfg)))"

definition ShardConfig_JoinBalance ::
    "(int \<rightharpoonup> string list) \<Rightarrow> int list \<Rightarrow> ShardConfig \<Rightarrow> go_exit + (bool \<times> ShardConfig) option" where
  "ShardConfig_JoinBalance servers gids cfg = with_rebalance (ShardConfig_Join servers gids cfg)"

definition ShardConfig_LeaveBalance :: "int list \<Rightarrow> ShardConfig \<Rightarrow> go_exit + (bool \<times> ShardConfig) option" where
  "ShardConfig_LeaveBalance gids cfg = with_rebalance (ShardConfig_Leave gids cfg)"

section \<open>Queries\<close>

text \<open>An index out of range of \<open>Shards\<close> is a run-time panic.\<close>

definition ShardConfig_GidServers :: "int \<Rightarrow> ShardConfig \<Rightarrow> go_exit + int \<times> string list \<times> bool" where
  "ShardConfig_GidServers sh cfg =
     (if sh < 0 \<or> int (length (Shards cfg)) \<le> sh then Inl (Panic ''index out of range'')
      else let gid = Shards cfg ! nat sh
           in Inr (case Groups cfg gid of Some srvs \<Rightarrow> (gid, srvs, True) | None \<Rightarrow> (gid, [], False)))"

fun is_member :: "int \<Rightarrow> int list \<Rightarrow> bool" where
  "is_member gid [] = False"
| "is_member gid (g # gs) = (if g = gid then True else is_member gid gs)"

definition ShardConfig_IsMember :: "int \<Rightarrow> ShardConfig \<Rightarrow> bool" where
  "ShardConfig_IsMember gid cfg = is_member gid (Shards cfg)"

definition ShardConfig_CheckConfig :: "int list \<Rightarrow> int list \<Rightarrow> ShardConfig \<Rightarrow> go_exit + unit" where
  "ShardConfig_CheckConfig groups ks cfg =
     (if card (dom (Groups cfg)) \<noteq> length groups then Inl (Fatal ''wanted groups'')
      else if \<exists>g\<in>set groups. Groups cfg g = None then Inl (Fatal ''missing group'')
      else if length groups > 0 \<and> (\<exists>g\<in>set (Shards cfg). Groups cfg g = None) then Inl (Fatal ''invalid group'')
      else
        (let counts = counts_of (Shards cfg);
             mx = foldl (\<lambda>m g. if counts g > m then counts g else m) 0 ks;
             mi = foldl (\<lambda>m g. if counts g < m then counts g else m) 257 ks
         in if mx > mi + 1 then Inl (Fatal ''max too much larger than min'') else Inr ()))"

section \<open>Counting shards\<close>

lemma counts_of_eq: "counts_of xs g = int (count (mset xs) g)"
  unfolding counts_of_def by (induction xs rule: rev_induct) (auto simp: zget_def)

lemma counts_bounds: "length xs = NShards \<Longrightarrow> 0 \<le> counts_of xs g \<and> counts_of xs g < 257"
  using count_le_size [of "mset xs" g] by (simp add: counts_of_eq NShards_def)

lemma mset_move_one: "mg \<in> set xs \<Longrightarrow> mset (move_one mg lg xs) = add_mset lg (mset xs - {#mg#})"
  by (induction xs) (auto simp: add_mset_commute)

lemma length_move_one [simp]: "length (move_one mg lg xs) = length xs"
  by (induction xs) auto

lemma counts_move_one:
  "mg \<in> set xs \<Longrightarrow> mg \<noteq> lg \<Longrightarrow> counts_of (move_one mg lg xs) g =
     counts_of xs g + (if g = lg then 1 else 0) - (if g = mg then 1 else 0)"
  by (auto simp: counts_of_eq mset_move_one count_eq_zero_iff of_nat_diff Suc_le_eq)

text \<open>What \<open>analyze\<close> computes.\<close>

definition extremes :: "(int \<Rightarrow> int) \<Rightarrow> int set \<Rightarrow> int \<times> int \<times> int \<times> int \<Rightarrow> bool" where
  "extremes cnt G = (\<lambda>(mg, mn, lg, ln).
     mg \<in> G \<and> mn = cnt mg \<and> (\<forall>g\<in>G. cnt g \<le> mn) \<and> lg \<in> G \<and> ln = cnt lg \<and> (\<forall>g\<in>G. ln \<le> cnt g))"

lemma analyze_fold:
  assumes "\<forall>g\<in>set gs. 0 \<le> cnt g \<and> cnt g < 257" and "gs \<noteq> []"
  shows "extremes cnt (set gs) (foldl (analyze_group cnt) (-1, -1, -1, 257) gs)"
  using assms
proof (induction gs rule: rev_induct)
  case (snoc g gs)
  obtain mg mn lg ln where r: "foldl (analyze_group cnt) (-1, -1, -1, 257) gs = (mg, mn, lg, ln)" by (metis prod_cases4)
  show ?case
  proof (cases "gs = []")
    case True
    then show ?thesis using snoc.prems by (auto simp: analyze_group_def extremes_def)
  next
    case False
    with snoc have "extremes cnt (set gs) (mg, mn, lg, ln)" using r by simp
    then show ?thesis using r by (auto simp: analyze_group_def extremes_def)
  qed
qed simp

lemma analyze_spec:
  assumes "cfg_ok c" and "dom (Groups c) \<noteq> {}"
  shows "extremes (counts_of (Shards c)) (dom (Groups c)) (analyze c)"
proof -
  have fin: "finite (dom (Groups c))" and len: "length (Shards c) = NShards" using assms(1) by (auto simp: cfg_ok_def)
  have "extremes (counts_of (Shards c)) (set (sorted_list_of_set (dom (Groups c)))) (analyze c)"
    unfolding analyze_def Let_def
    by (rule analyze_fold) (use counts_bounds [OF len] fin assms(2) in auto)
  then show ?thesis using fin by simp
qed

lemma extremesE:
  assumes "extremes cnt G (mg, mn, lg, ln)"
  obtains "mg \<in> G" and "lg \<in> G" and "mn = cnt mg" and "ln = cnt lg"
    and "\<And>g. g \<in> G \<Longrightarrow> cnt lg \<le> cnt g" and "\<And>g. g \<in> G \<Longrightarrow> cnt g \<le> cnt mg"
  using assms by (auto simp: extremes_def)

section \<open>Rebalance returns a balanced configuration\<close>

definition all_assigned :: "ShardConfig \<Rightarrow> bool" where
  "all_assigned c \<longleftrightarrow> set (Shards c) \<subseteq> dom (Groups c)"

definition balanced :: "ShardConfig \<Rightarrow> bool" where
  "balanced c \<longleftrightarrow> (\<forall>g\<in>dom (Groups c). \<forall>h\<in>dom (Groups c). counts_of (Shards c) g \<le> counts_of (Shards c) h + 1)"

text \<open>Moving a shard from the most to the least loaded group lowers the sum of squares.\<close>

definition potential :: "ShardConfig \<Rightarrow> nat" where
  "potential c = nat (\<Sum>g\<in>dom (Groups c). counts_of (Shards c) g ^ 2)"

lemma potential_decreases:
  assumes ok: "cfg_ok c" and a: "analyze c = (mg, mn, lg, ln)" and ne: "dom (Groups c) \<noteq> {}" and gap: "\<not> mn < ln + 2"
  shows "potential (c\<lparr>Shards := move_one mg lg (Shards c)\<rparr>) < potential c" and "mg \<in> set (Shards c)" and "lg \<in> dom (Groups c)"
proof -
  let ?cnt = "counts_of (Shards c)" and ?G = "dom (Groups c)" and ?cnt' = "counts_of (move_one mg lg (Shards c))"
  have fin: "finite ?G" and len: "length (Shards c) = NShards" using ok by (auto simp: cfg_ok_def)
  have "extremes ?cnt ?G (mg, mn, lg, ln)" using analyze_spec [OF ok ne] a by simp
  then have G: "mg \<in> ?G" "lg \<in> ?G" and gap': "?cnt mg \<ge> ?cnt lg + 2" using gap by (auto elim!: extremesE)
  then show "lg \<in> dom (Groups c)" by simp
  have pos: "0 \<le> ?cnt lg" using counts_bounds [OF len] by blast
  have "0 < ?cnt mg" using gap' pos by linarith
  then show mem: "mg \<in> set (Shards c)" by (simp add: counts_of_eq)
  have neq: "mg \<noteq> lg" using gap' by auto
  note cnt' = counts_move_one [OF mem neq]
  let ?R = "?G - {mg, lg}"
  have split: "(\<Sum>g\<in>?G. f g) = f mg + f lg + (\<Sum>g\<in>?R. f g)" for f :: "int \<Rightarrow> int"
  proof -
    have "?G = insert mg (insert lg ?R)" using G by blast
    then have "(\<Sum>g\<in>?G. f g) = (\<Sum>g\<in>insert mg (insert lg ?R). f g)" by (rule arg_cong)
    also have "\<dots> = f mg + f lg + (\<Sum>g\<in>?R. f g)" using fin neq by simp
    finally show ?thesis .
  qed
  have "(\<Sum>g\<in>?R. ?cnt' g ^ 2) = (\<Sum>g\<in>?R. ?cnt g ^ 2)" by (intro sum.cong) (auto simp: cnt')
  moreover have "?cnt' mg ^ 2 + ?cnt' lg ^ 2 < ?cnt mg ^ 2 + ?cnt lg ^ 2"
    using gap' neq by (simp add: cnt' power2_eq_square algebra_simps)
  ultimately have "(\<Sum>g\<in>?G. ?cnt' g ^ 2) < (\<Sum>g\<in>?G. ?cnt g ^ 2)" unfolding split by simp
  moreover have "0 \<le> (\<Sum>g\<in>?G. ?cnt' g ^ 2)" by (intro sum_nonneg) simp
  ultimately show "potential (c\<lparr>Shards := move_one mg lg (Shards c)\<rparr>) < potential c" by (simp add: potential_def)
qed

lemma set_move_one: "set (move_one mg lg xs) \<subseteq> insert lg (set xs)"
  by (induction xs) auto

lemma move_shards_ok:
  assumes "cfg_ok c" and "dom (Groups c) \<noteq> {}" and "all_assigned c"
  shows "\<exists>c'. move_shards c = Some c' \<and> cfg_ok c' \<and> Groups c' = Groups c \<and> Num c' = Num c \<and> all_assigned c' \<and> balanced c'"
  using assms
proof (induction "potential c" arbitrary: c rule: less_induct)
  case less
  obtain mg mn lg ln where a: "analyze c = (mg, mn, lg, ln)" by (metis prod_cases4)
  show ?case
  proof (cases "mn < ln + 2")
    case True
    have "extremes (counts_of (Shards c)) (dom (Groups c)) (mg, mn, lg, ln)" using analyze_spec [OF less.prems(1,2)] a by simp
    then have "balanced c" using True unfolding balanced_def by (elim extremesE) (smt (verit))
    then show ?thesis using True a less.prems by (subst move_shards.simps) simp
  next
    case False
    let ?c = "c\<lparr>Shards := move_one mg lg (Shards c)\<rparr>"
    note dec = potential_decreases [OF less.prems(1) a less.prems(2) False]
    have "all_assigned ?c" using less.prems(3) dec(3) set_move_one [of mg lg "Shards c"] by (auto simp: all_assigned_def)
    moreover have "cfg_ok ?c" using less.prems(1) by (simp add: cfg_ok_def)
    ultimately have "\<exists>c'. move_shards ?c = Some c' \<and> cfg_ok c' \<and> Groups c' = Groups ?c \<and> Num c' = Num ?c \<and> all_assigned c' \<and> balanced c'"
      using less.prems(2) by (intro less.hyps [OF dec(1)]) simp_all
    then show ?thesis using False a by (subst move_shards.simps) simp
  qed
qed

lemma assign_step_ok:
  assumes "cfg_ok c" and "dom (Groups c) \<noteq> {}"
  shows "least c \<in> dom (Groups c)"
proof -
  obtain mg mn lg ln where a: "analyze c = (mg, mn, lg, ln)" by (metis prod_cases4)
  then have "extremes (counts_of (Shards c)) (dom (Groups c)) (mg, mn, lg, ln)" using analyze_spec [OF assms] by simp
  then have "lg \<in> dom (Groups c)" by (rule extremesE)
  then show ?thesis using a by (simp add: least_def)
qed

lemma assign_unassigned_ok:
  assumes "cfg_ok c" and "dom (Groups c) \<noteq> {}"
  shows "cfg_ok (assign_unassigned c) \<and> Groups (assign_unassigned c) = Groups c \<and> Num (assign_unassigned c) = Num c \<and>
    all_assigned (assign_unassigned c) \<and> (\<forall>i<NShards. Groups c (Shards c ! i) \<noteq> None \<longrightarrow> Shards (assign_unassigned c) ! i = Shards c ! i)"
proof -
  let ?f = "\<lambda>c s. if Groups c (Shards c ! s) = None then c\<lparr>Shards := (Shards c)[s := least c]\<rparr> else c"
  have "cfg_ok (foldl ?f c [0..<n]) \<and> Groups (foldl ?f c [0..<n]) = Groups c \<and> Num (foldl ?f c [0..<n]) = Num c \<and>
      (\<forall>i<n. Shards (foldl ?f c [0..<n]) ! i \<in> dom (Groups c)) \<and>
      (\<forall>i<NShards. n \<le> i \<or> Groups c (Shards c ! i) \<noteq> None \<longrightarrow> Shards (foldl ?f c [0..<n]) ! i = Shards c ! i)" if "n \<le> NShards" for n
    using that
  proof (induction n)
    case 0
    then show ?case using assms by simp
  next
    case (Suc n)
    define d where "d = foldl ?f c [0..<n]"
    have d: "cfg_ok d" "Groups d = Groups c" "Num d = Num c" "\<forall>i<n. Shards d ! i \<in> dom (Groups c)"
      "\<forall>i<NShards. n \<le> i \<or> Groups c (Shards c ! i) \<noteq> None \<longrightarrow> Shards d ! i = Shards c ! i"
      using Suc unfolding d_def by auto
    have "least d \<in> dom (Groups c)" using assign_step_ok [OF d(1)] d(2) assms(2) by simp
    moreover have "length (Shards d) = NShards" using d(1) by (simp add: cfg_ok_def)
    ultimately show ?case
      using d Suc.prems unfolding upt_Suc_append [OF le0] foldl_append d_def [symmetric]
      by (auto simp: cfg_ok_def less_Suc_eq nth_list_update)
  qed
  from this [of NShards] show ?thesis
    using assms(1) by (auto simp: assign_unassigned_def all_assigned_def cfg_ok_def in_set_conv_nth)
qed

lemma Rebalance_ok:
  assumes "cfg_ok c"
  shows "\<exists>c'. ShardConfig_Rebalance c = Some c' \<and> cfg_ok c' \<and> Groups c' = Groups c \<and> Num c' = Num c \<and> balanced c' \<and>
    (if dom (Groups c) = {} then Shards c' = replicate NShards 0 else all_assigned c')"
proof (cases "dom (Groups c) = {}")
  case True
  then show ?thesis
    using assms by (auto simp: ShardConfig_Rebalance_def cfg_ok_def balanced_def map_replicate_const)
next
  case False
  then have "\<not> card (dom (Groups c)) < 1" using assms by (simp add: cfg_ok_def card_gt_0_iff Suc_le_eq)
  moreover note assign_unassigned_ok [OF assms False]
  moreover have "\<exists>c'. move_shards (assign_unassigned c) = Some c' \<and> cfg_ok c' \<and> Groups c' = Groups (assign_unassigned c) \<and>
      Num c' = Num (assign_unassigned c) \<and> all_assigned c' \<and> balanced c'"
    using assign_unassigned_ok [OF assms False] False by (intro move_shards_ok) simp_all
  ultimately show ?thesis using False by (auto simp: ShardConfig_Rebalance_def)
qed

text \<open>A group that has a shard and stays in the configuration keeps one: only groups with two more than another give one away.\<close>

lemma move_shards_members:
  assumes "cfg_ok c" and "dom (Groups c) \<noteq> {}" and "move_shards c = Some c'"
  shows "set (Shards c) \<subseteq> set (Shards c')"
  using assms
proof (induction "potential c" arbitrary: c rule: less_induct)
  case less
  obtain mg mn lg ln where a: "analyze c = (mg, mn, lg, ln)" by (metis prod_cases4)
  show ?case
  proof (cases "mn < ln + 2")
    case True
    then show ?thesis using less.prems(3) by (subst (asm) move_shards.simps) (simp add: a)
  next
    case False
    let ?c = "c\<lparr>Shards := move_one mg lg (Shards c)\<rparr>"
    note dec = potential_decreases [OF less.prems(1) a less.prems(2) False]
    have "extremes (counts_of (Shards c)) (dom (Groups c)) (mg, mn, lg, ln)" using analyze_spec [OF less.prems(1,2)] a by simp
    then have two: "2 \<le> count (mset (Shards c)) mg" using False by (auto simp: counts_of_eq elim!: extremesE)
    have "count (mset (Shards ?c)) g \<noteq> 0" if "g \<in> set (Shards c)" for g
      using that two by (auto simp: mset_move_one [OF dec(2)] count_eq_zero_iff)
    then have "set (Shards c) \<subseteq> set (Shards ?c)" by (auto simp: count_eq_zero_iff)
    moreover have "move_shards ?c = Some c'" using less.prems(3) False by (subst (asm) move_shards.simps) (simp add: a)
    then have "set (Shards ?c) \<subseteq> set (Shards c')" using less.prems(1,2) by (intro less.hyps [OF dec(1)]) (simp_all add: cfg_ok_def)
    ultimately show ?thesis by (rule order.trans)
  qed
qed

lemma Rebalance_members:
  assumes "cfg_ok c" and ne: "dom (Groups c) \<noteq> {}" and "ShardConfig_Rebalance c = Some c'"
  shows "set (Shards c) \<inter> dom (Groups c) \<subseteq> set (Shards c')"
proof -
  let ?m = "assign_unassigned c"
  have m: "cfg_ok ?m" "Groups ?m = Groups c" "\<forall>i<NShards. Groups c (Shards c ! i) \<noteq> None \<longrightarrow> Shards ?m ! i = Shards c ! i"
    using assign_unassigned_ok [OF assms(1,2)] by auto
  have "\<not> card (dom (Groups c)) < 1" using assms(1) ne by (simp add: cfg_ok_def card_gt_0_iff Suc_le_eq)
  then have "set (Shards ?m) \<subseteq> set (Shards c')"
    using assms(3) m(1,2) ne by (intro move_shards_members) (simp_all add: ShardConfig_Rebalance_def)
  moreover have "set (Shards c) \<inter> dom (Groups c) \<subseteq> set (Shards ?m)"
    using m(1,3) assms(1) by (force simp: in_set_conv_nth cfg_ok_def)
  ultimately show ?thesis by (rule order.trans [rotated])
qed

text \<open>A configuration that needs no change is not changed.\<close>

lemma Rebalance_stable:
  assumes ok: "cfg_ok c" and a: "all_assigned c" and b: "balanced c" and ne: "dom (Groups c) \<noteq> {}"
  shows "ShardConfig_Rebalance c = Some c"
proof -
  have "foldl (\<lambda>c s. if Groups c (Shards c ! s) = None then c\<lparr>Shards := (Shards c)[s := least c]\<rparr> else c) c [0..<n] = c"
    if "n \<le> length (Shards c)" for n
    using that
  proof (induction n)
    case (Suc n)
    then have "Shards c ! n \<in> dom (Groups c)" using a by (simp add: all_assigned_def subsetD)
    then show ?case using Suc by auto
  qed simp
  then have "assign_unassigned c = c" by (simp add: assign_unassigned_def)
  moreover obtain mg mn lg ln where an: "analyze c = (mg, mn, lg, ln)" by (metis prod_cases4)
  then have "extremes (counts_of (Shards c)) (dom (Groups c)) (mg, mn, lg, ln)" using analyze_spec [OF ok ne] by simp
  then have "mn < ln + 2" using b unfolding balanced_def by (elim extremesE) (smt (verit))
  then have "move_shards c = Some c" by (subst move_shards.simps) (simp add: an)
  moreover have "\<not> card (dom (Groups c)) < 1" using ok ne by (simp add: cfg_ok_def card_gt_0_iff Suc_le_eq)
  ultimately show ?thesis by (simp add: ShardConfig_Rebalance_def)
qed

section \<open>Joining and leaving\<close>

lemma join_loop_Inr:
  assumes "join_loop servers gids cfg = Inr (True, cfg')" and "distinct gids"
  shows "cfg' = cfg\<lparr>Groups := \<lambda>g. if g \<in> set gids then Some (the (servers g)) else Groups cfg g\<rparr>"
  using assms
proof (induction servers gids cfg rule: join_loop.induct)
  case (1 servers cfg)
  then show ?case by simp
next
  case (2 servers gid gids cfg)
  then have "cfg' = cfg\<lparr>Groups := \<lambda>g. if g \<in> set gids then Some (the (servers g))
      else ((Groups cfg)(gid \<mapsto> the (servers gid))) g\<rparr>"
    by (auto split: if_splits simp: fun_eq_iff intro!: arg_cong [where f = "\<lambda>G. cfg\<lparr>Groups := G\<rparr>"])
  moreover have "(\<lambda>g. if g \<in> set gids then Some (the (servers g)) else ((Groups cfg)(gid \<mapsto> the (servers gid))) g) =
      (\<lambda>g. if g \<in> set (gid # gids) then Some (the (servers g)) else Groups cfg g)"
    using "2.prems"(2) by (auto simp: fun_eq_iff)
  ultimately show ?case by simp
qed

lemma join_loop_ok: "join_loop servers gids cfg = Inr (b, cfg') \<Longrightarrow> cfg_ok cfg \<Longrightarrow> cfg_ok cfg'"
  by (induction servers gids cfg rule: join_loop.induct) (auto simp: cfg_ok_def split: if_splits)

lemma leave_loop_True:
  "leave_loop gids cfg = (True, cfg') \<longleftrightarrow> distinct gids \<and> set gids \<subseteq> dom (Groups cfg) \<and>
     cfg' = cfg\<lparr>Groups := (Groups cfg) |` (- set gids)\<rparr>"
proof (induction gids arbitrary: cfg)
  case (Cons gid gids)
  have "((Groups cfg)(gid := None)) |` (- set gids) = (Groups cfg) |` (- set (gid # gids))"
    by (auto simp: restrict_map_def fun_eq_iff)
  then show ?case using Cons by (auto simp del: fun_upd_apply)
qed (auto simp: restrict_map_def)

lemma leave_loop_ok: "leave_loop gids cfg = (b, cfg') \<Longrightarrow> cfg_ok cfg \<Longrightarrow> cfg_ok cfg'"
  by (induction gids cfg rule: leave_loop.induct) (auto simp: cfg_ok_def split: if_splits)

lemma Join_ok: "ShardConfig_Join servers gids cfg = Inr (b, cfg') \<Longrightarrow> cfg_ok cfg \<Longrightarrow> cfg_ok cfg'"
  by (auto simp: ShardConfig_Join_def cfg_ok_def dest: join_loop_ok [unfolded cfg_ok_def] split: sum.splits prod.splits bool.splits if_splits)

lemma Leave_ok: "ShardConfig_Leave gids cfg = Inr (b, cfg') \<Longrightarrow> cfg_ok cfg \<Longrightarrow> cfg_ok cfg'"
  by (auto simp: ShardConfig_Leave_def cfg_ok_def dest: leave_loop_ok [unfolded cfg_ok_def] split: prod.splits bool.splits if_splits)

text \<open>The checks of \<open>CheckConfig\<close>, for any iteration order of the groups.\<close>

lemma fold_max_le: "foldl (\<lambda>m g. if f g > m then f g else m) (a :: int) ks \<le> b \<longleftrightarrow> a \<le> b \<and> (\<forall>g\<in>set ks. f g \<le> b)"
  by (induction ks arbitrary: a) auto

lemma fold_min_ge: "b \<le> foldl (\<lambda>m g. if f g < m then f g else m) (a :: int) ks \<longleftrightarrow> b \<le> a \<and> (\<forall>g\<in>set ks. b \<le> f g)"
  by (induction ks arbitrary: a) auto

lemma CheckConfig_balanced:
  assumes ok: "cfg_ok c" and b: "balanced c" and ks: "key_order (Groups c) ks"
    and a: "dom (Groups c) \<noteq> {} \<Longrightarrow> all_assigned c" and groups: "distinct groups" "set groups = dom (Groups c)"
  shows "ShardConfig_CheckConfig groups ks c = Inr ()"
proof -
  let ?cnt = "counts_of (Shards c)"
  let ?mx = "foldl (\<lambda>m g. if ?cnt g > m then ?cnt g else m) 0 ks"
  let ?mi = "foldl (\<lambda>m g. if ?cnt g < m then ?cnt g else m) 257 ks"
  have dom: "set ks = dom (Groups c)" using key_orderD [OF ks] by simp
  have cb: "0 \<le> ?cnt g \<and> ?cnt g < 257" for g using ok by (simp add: cfg_ok_def counts_bounds)
  have "?cnt g \<le> ?mi + 1" if "g \<in> set ks" for g
  proof -
    have "?cnt g - 1 \<le> ?mi" unfolding fold_min_ge
    proof (intro conjI ballI)
      show "?cnt g - 1 \<le> 257" using cb [of g] by simp
      fix h assume "h \<in> set ks"
      then have "?cnt g \<le> ?cnt h + 1" using that b dom by (simp add: balanced_def)
      then show "?cnt g - 1 \<le> ?cnt h" by simp
    qed
    then show ?thesis by simp
  qed
  moreover have "0 \<le> ?mi" unfolding fold_min_ge using cb by simp
  ultimately have "?mx \<le> ?mi + 1" unfolding fold_max_le by simp
  moreover have "card (dom (Groups c)) = length groups" using groups by (metis distinct_card)
  moreover have "Groups c g \<noteq> None" if "g \<in> set groups" for g using that groups by auto
  moreover have "Groups c g \<noteq> None" if "g \<in> set (Shards c)" "length groups > 0" for g
  proof -
    have "dom (Groups c) \<noteq> {}" using that(2) groups(2) by auto
    then show ?thesis using a that(1) by (auto simp: all_assigned_def)
  qed
  ultimately show ?thesis by (auto simp: ShardConfig_CheckConfig_def Let_def)
qed

section \<open>Properties of shard configurations\<close>

text \<open>
  C5: \<open>Rebalance\<close> always returns, keeps the groups and the configuration number, gives every
  shard to a group that exists (or to no group, 0, when there is none), and leaves the numbers
  of shards of any two groups at most one apart.
\<close>

theorem Rebalance_returns:
  assumes "cfg_ok c"
  shows "\<exists>c'. ShardConfig_Rebalance c = Some c' \<and> cfg_ok c' \<and> Groups c' = Groups c \<and> Num c' = Num c \<and>
    (if dom (Groups c) = {} then Shards c' = replicate NShards 0 else set (Shards c') \<subseteq> dom (Groups c)) \<and>
    (\<forall>g\<in>dom (Groups c). \<forall>h\<in>dom (Groups c). counts_of (Shards c') g \<le> counts_of (Shards c') h + 1)"
proof -
  from Rebalance_ok [OF assms] obtain c' where "ShardConfig_Rebalance c = Some c'" "cfg_ok c'" "Groups c' = Groups c"
    "Num c' = Num c" "balanced c'" "if dom (Groups c) = {} then Shards c' = replicate NShards 0 else all_assigned c'" by blast
  then show ?thesis by (intro exI [of _ c']) (auto simp: balanced_def all_assigned_def split: if_splits)
qed

theorem Rebalance_returns_witness:
  "\<exists>c'. ShardConfig_Rebalance (MakeShardConfig\<lparr>Groups := [1 \<mapsto> [''a''], 2 \<mapsto> [''b'']]\<rparr>) = Some c' \<and>
     counts_of (Shards c') 1 \<le> counts_of (Shards c') 2 + 1 \<and> set (Shards c') \<subseteq> {1, 2}"
proof -
  have "cfg_ok (MakeShardConfig\<lparr>Groups := [1 \<mapsto> [''a''], 2 \<mapsto> [''b'']]\<rparr>)" by (simp add: cfg_ok_def MakeShardConfig_def)
  from Rebalance_returns [OF this] show ?thesis by (auto simp: insert_commute)
qed

text \<open>
  \<open>Rebalance\<close> moves nothing without need: a configuration whose shards are all assigned to
  existing groups and balanced is returned unchanged, so rebalancing twice is rebalancing once.
\<close>

theorem Rebalance_idempotent:
  assumes "cfg_ok c" and "dom (Groups c) \<noteq> {}" and "ShardConfig_Rebalance c = Some c'"
  shows "ShardConfig_Rebalance c' = Some c'"
  using Rebalance_ok [OF assms(1)] assms by (auto intro: Rebalance_stable)

theorem Rebalance_idempotent_witness:
  "ShardConfig_Rebalance (MakeShardConfig\<lparr>Groups := [0 \<mapsto> [''a'']]\<rparr>) = Some (MakeShardConfig\<lparr>Groups := [0 \<mapsto> [''a'']]\<rparr>)"
proof -
  let ?c = "MakeShardConfig\<lparr>Groups := [0 \<mapsto> [''a'']]\<rparr>"
  have ok: "cfg_ok ?c" by (simp add: cfg_ok_def MakeShardConfig_def)
  have "ShardConfig_Rebalance ?c = Some ?c"
    by (rule Rebalance_stable [OF ok]) (auto simp: all_assigned_def balanced_def MakeShardConfig_def NShards_def)
  from Rebalance_idempotent [OF ok _ this] show ?thesis by simp
qed

text \<open>
  A successful \<open>JoinBalance\<close> yields a configuration with exactly the old and the new groups
  and the next number, in which every shard belongs to one of them, and which \<open>CheckConfig\<close>
  accepts; the order in which Go iterates over the new groups does not matter for the groups.
\<close>

theorem JoinBalance_checks:
  assumes ok: "cfg_ok cfg" and gids: "key_order servers gids"
    and run: "ShardConfig_JoinBalance servers gids cfg = Inr (Some (True, cfg'))"
    and ks: "key_order (Groups cfg') ks" and groups: "distinct groups" "set groups = dom (Groups cfg) \<union> dom servers"
  shows "Groups cfg' = Groups cfg ++ servers \<and> Num cfg' = Num cfg + 1 \<and> cfg_ok cfg' \<and>
    set (Shards cfg') \<subseteq> dom (Groups cfg') \<and> ShardConfig_CheckConfig groups ks cfg' = Inr ()"
proof -
  note ko = key_orderD [OF gids]
  obtain mid where join: "ShardConfig_Join servers gids cfg = Inr (True, mid)" and reb: "ShardConfig_Rebalance mid = Some cfg'"
    using run by (auto simp: ShardConfig_JoinBalance_def with_rebalance_def split: sum.splits prod.splits bool.splits)
  from join obtain c1 where loop: "join_loop servers gids cfg = Inr (True, c1)" and ne: "gids \<noteq> []"
    and mid: "mid = c1\<lparr>Num := Num c1 + 1\<rparr>"
    by (auto simp: ShardConfig_Join_def split: sum.splits prod.splits bool.splits if_splits)
  have "(\<lambda>g. if g \<in> set gids then Some (the (servers g)) else Groups cfg g) = Groups cfg ++ servers"
    using ko(2) by (auto simp: fun_eq_iff map_add_def domIff split: option.splits)
  then have G: "Groups mid = Groups cfg ++ servers" "Num mid = Num cfg + 1"
    using join_loop_Inr [OF loop ko(1)] mid by simp_all
  have "dom (Groups mid) \<noteq> {}" using ne ko(2) G(1) by (cases gids) (auto simp: domIff)
  with Rebalance_ok [OF Join_ok [OF join ok]] reb
  have c': "cfg_ok cfg'" "Groups cfg' = Groups mid" "Num cfg' = Num mid" "balanced cfg'" "all_assigned cfg'" by auto
  have "ShardConfig_CheckConfig groups ks cfg' = Inr ()"
    by (rule CheckConfig_balanced [OF c'(1,4) ks _ groups(1)]) (use c' G groups in auto)
  then show ?thesis using c' G by (simp add: all_assigned_def)
qed

theorem JoinBalance_checks_witness:
  "\<exists>cfg'. ShardConfig_JoinBalance [1 \<mapsto> [''x'', ''y'']] [1] MakeShardConfig = Inr (Some (True, cfg')) \<and>
     ShardConfig_CheckConfig [1] [1] cfg' = Inr () \<and> set (Shards cfg') \<subseteq> {1}"
proof -
  let ?s = "[1 \<mapsto> [''x'', ''y'']]"
  have ok: "cfg_ok MakeShardConfig" by (simp add: cfg_ok_def MakeShardConfig_def)
  let ?mid = "MakeShardConfig\<lparr>Num := 1, Groups := ?s\<rparr>"
  have join: "ShardConfig_Join ?s [1] MakeShardConfig = Inr (True, ?mid)"
    by (simp add: ShardConfig_Join_def MakeShardConfig_def shares_server_def)
  have "cfg_ok ?mid" by (simp add: cfg_ok_def MakeShardConfig_def)
  from Rebalance_ok [OF this] obtain cfg' where r: "ShardConfig_Rebalance ?mid = Some cfg'" "Groups cfg' = ?s"
    by (auto simp: MakeShardConfig_def)
  then have run: "ShardConfig_JoinBalance ?s [1] MakeShardConfig = Inr (Some (True, cfg'))"
    by (simp add: ShardConfig_JoinBalance_def with_rebalance_def join)
  have "key_order ?s [1]" "key_order (Groups cfg') [1]" using r(2) by (simp_all add: key_order_def)
  from JoinBalance_checks [OF ok this(1) run this(2), of "[1]"] run r(2)
  show ?thesis by (auto simp: MakeShardConfig_def)
qed

text \<open>
  A \<open>LeaveBalance\<close> that answers true has removed exactly the named groups, which were
  distinct and present, and has handed all their shards to the groups that stay, balanced.
\<close>

theorem LeaveBalance_reassigns:
  assumes ok: "cfg_ok cfg" and run: "ShardConfig_LeaveBalance gids cfg = Inr (Some (True, cfg'))"
  shows "distinct gids \<and> set gids \<subseteq> dom (Groups cfg) \<and> Groups cfg' = (Groups cfg) |` (- set gids) \<and> Num cfg' = Num cfg + 1 \<and>
    (if dom (Groups cfg) = set gids then Shards cfg' = replicate NShards 0 else set (Shards cfg') \<inter> set gids = {}) \<and> balanced cfg'"
proof -
  obtain mid where leave: "ShardConfig_Leave gids cfg = Inr (True, mid)" and reb: "ShardConfig_Rebalance mid = Some cfg'"
    using run by (auto simp: ShardConfig_LeaveBalance_def with_rebalance_def split: sum.splits prod.splits bool.splits)
  then obtain c1 where "leave_loop gids cfg = (True, c1)" and mid: "mid = c1\<lparr>Num := Num c1 + 1\<rparr>"
    by (auto simp: ShardConfig_Leave_def split: prod.splits bool.splits if_splits)
  then have l: "distinct gids" "set gids \<subseteq> dom (Groups cfg)" "Groups mid = (Groups cfg) |` (- set gids)" "Num mid = Num cfg + 1"
    by (auto simp: leave_loop_True)
  have dom: "dom (Groups mid) = dom (Groups cfg) - set gids" by (auto simp: l(3))
  have "dom (Groups mid) = {} \<longleftrightarrow> dom (Groups cfg) = set gids" using dom l(2) by auto
  with Rebalance_ok [OF Leave_ok [OF leave ok]] reb l dom show ?thesis
    by (auto simp: all_assigned_def split: if_splits)
qed

theorem LeaveBalance_reassigns_witness:
  "\<exists>cfg'. ShardConfig_LeaveBalance [1] (MakeShardConfig\<lparr>Groups := [1 \<mapsto> [''x''], 2 \<mapsto> [''y'']]\<rparr>) = Inr (Some (True, cfg')) \<and>
     Groups cfg' 1 = None \<and> 1 \<notin> set (Shards cfg')"
proof -
  let ?c = "MakeShardConfig\<lparr>Groups := [1 \<mapsto> [''x''], 2 \<mapsto> [''y'']]\<rparr>" and ?mid = "MakeShardConfig\<lparr>Num := 1, Groups := [2 \<mapsto> [''y'']]\<rparr>"
  have ok: "cfg_ok ?c" "cfg_ok ?mid" by (simp_all add: cfg_ok_def MakeShardConfig_def)
  have "([1 :: int \<mapsto> [''x''], 2 \<mapsto> [''y'']])(1 := None) = [2 \<mapsto> [''y'']]" by (auto simp: fun_eq_iff)
  then have "ShardConfig_Leave [1] ?c = Inr (True, ?mid)"
    by (simp add: ShardConfig_Leave_def MakeShardConfig_def)
  moreover obtain cfg' where "ShardConfig_Rebalance ?mid = Some cfg'" using Rebalance_ok [OF ok(2)] by auto
  ultimately have run: "ShardConfig_LeaveBalance [1] ?c = Inr (Some (True, cfg'))"
    by (simp add: ShardConfig_LeaveBalance_def with_rebalance_def)
  from LeaveBalance_reassigns [OF ok(1) run] run show ?thesis by (auto simp: restrict_map_def split: if_splits)
qed

text \<open>
  \<open>Join\<close> is not all-or-nothing. When one of several groups is already present it answers
  false, as if nothing had happened, but the groups that were visited before it have been
  added, and the configuration number has not changed.
\<close>

theorem Join_false_leaves_groups:
  assumes "servers = [new \<mapsto> srvs, old \<mapsto> srvs']" and "new \<noteq> old" and "Groups cfg old \<noteq> None" and "Groups cfg new = None"
    and "\<not> shares_server cfg srvs"
  shows "ShardConfig_Join servers [new, old] cfg = Inr (False, cfg\<lparr>Groups := (Groups cfg)(new \<mapsto> srvs)\<rparr>) \<and>
    ShardConfig_Join servers [old, new] cfg = Inr (False, cfg)"
  using assms by (auto simp: ShardConfig_Join_def)

theorem Join_false_leaves_groups_witness:
  "\<exists>cfg cfg'. cfg_ok cfg \<and> ShardConfig_Join [2 \<mapsto> [''b''], 1 \<mapsto> [''c'']] [2, 1] cfg = Inr (False, cfg') \<and>
     Groups cfg' 2 = Some [''b''] \<and> Groups cfg 2 = None \<and> Num cfg' = Num cfg"
proof -
  let ?c = "MakeShardConfig\<lparr>Groups := [1 \<mapsto> [''a'']]\<rparr>"
  have "ShardConfig_Join [2 \<mapsto> [''b''], 1 \<mapsto> [''c'']] [2, 1] ?c = Inr (False, ?c\<lparr>Groups := (Groups ?c)(2 \<mapsto> [''b''])\<rparr>)"
    using Join_false_leaves_groups [of "[2 \<mapsto> [''b''], 1 \<mapsto> [''c'']]" 2 "[''b'']" 1 "[''c'']" ?c]
    by (simp add: shares_server_def)
  then show ?thesis by (intro exI [of _ ?c] exI conjI) (auto simp: cfg_ok_def MakeShardConfig_def)
qed

text \<open>
  Routing is total: every key belongs to one of the twelve shards, and in every configuration
  that \<open>Rebalance\<close> returns for at least one group, \<open>GidServers\<close> of that shard names a group of
  the configuration together with its servers.
\<close>

theorem every_key_has_servers:
  assumes "cfg_ok c" and "dom (Groups c) \<noteq> {}" and "ShardConfig_Rebalance c = Some c'"
  shows "0 \<le> Key2Shard key \<and> Key2Shard key < int NShards \<and>
    (\<exists>gid srvs. ShardConfig_GidServers (Key2Shard key) c' = Inr (gid, srvs, True) \<and>
       Groups c gid = Some srvs \<and> ShardConfig_IsMember gid c')"
proof -
  have b: "0 \<le> Key2Shard key \<and> Key2Shard key < int NShards"
    using go_rem_bounds [of "uint (fnv32a key)" "int NShards"] by (simp add: Key2Shard_def NShards_def)
  have c': "cfg_ok c'" "Groups c' = Groups c" "all_assigned c'" using Rebalance_ok [OF assms(1)] assms by auto
  let ?gid = "Shards c' ! nat (Key2Shard key)"
  have mem: "?gid \<in> set (Shards c')" using b c'(1) by (intro nth_mem) (simp add: cfg_ok_def nat_less_iff)
  then obtain srvs where "Groups c' ?gid = Some srvs" using c'(3) by (auto simp: all_assigned_def)
  moreover have "is_member g xs \<longleftrightarrow> g \<in> set xs" for g xs by (induction xs) auto
  ultimately show ?thesis
    using b c' mem by (simp add: ShardConfig_GidServers_def ShardConfig_IsMember_def cfg_ok_def Let_def)
qed

theorem every_key_has_servers_witness:
  "\<exists>c' srvs. ShardConfig_Rebalance (MakeShardConfig\<lparr>Groups := [7 \<mapsto> [''s'']]\<rparr>) = Some c' \<and>
     ShardConfig_GidServers (Key2Shard ''key'') c' = Inr (7, srvs, True)"
proof -
  let ?c = "MakeShardConfig\<lparr>Groups := [7 \<mapsto> [''s'']]\<rparr>"
  have ok: "cfg_ok ?c" by (simp add: cfg_ok_def MakeShardConfig_def)
  then obtain c' where r: "ShardConfig_Rebalance ?c = Some c'" using Rebalance_ok by blast
  from every_key_has_servers [OF ok _ r, of "''key''"] r show ?thesis by (auto split: if_splits)
qed

end
