(* ===== verification/Lab_Skeletons.thy ===== *)
theory Lab_Skeletons
  imports KV_Test Raft_Service RSM_Harness Shard_Config
begin

text \<open>
  The parts of the repository that are left as skeletons: the replicated state machine
  \<open>kvraft1/rsm/rsm.go\<close>, the replicated service \<open>kvraft1\<close> and the sharded service \<open>shardkv1\<close> with its
  groups \<open>shardkv1/shardgrp\<close>. They answer with zero values; the theorem shows what the
  checks of \<open>kvtest1\<close> make of it. \<open>any\<close> values and byte slices that are \<open>nil\<close> are \<open>None\<close>; an empty string
  as error is \<open>ErrEmpty\<close>.
\<close>

section \<open>kvraft1/rsm/rsm.go and kvraft1/rsm/server.go\<close>

record RSM =
  rsm_me :: nat
  rsm_rf :: "Raft option"
  rsm_maxraftstate :: int

definition MakeRSM :: "bool \<Rightarrow> string list \<Rightarrow> nat \<Rightarrow> Persister \<Rightarrow> int \<Rightarrow> RSM" where
  "MakeRSM UseRaftStateMachine servers me persister maxraftstate =
     \<lparr>rsm_me = me, rsm_rf = (if \<not> UseRaftStateMachine then Some (Raft_Make servers me persister) else None), rsm_maxraftstate = maxraftstate\<rparr>"

definition RSM_Raft :: "RSM \<Rightarrow> Raft option" where
  "RSM_Raft rsm = rsm_rf rsm"

section \<open>kvraft1/client.go\<close>

record kvraft_Clerk =
  kck_clnt :: nat
  kck_servers :: "string list"
  kck_leader :: nat

definition kvraft_MakeClerk :: "nat \<Rightarrow> string list \<Rightarrow> kvraft_Clerk" where
  "kvraft_MakeClerk clnt servers = \<lparr>kck_clnt = clnt, kck_servers = servers, kck_leader = 0\<rparr>"

definition kvraft_Leader :: "kvraft_Clerk \<Rightarrow> nat" where
  "kvraft_Leader ck = kck_leader ck"

definition kvraft_Get :: "string \<Rightarrow> kvraft_Clerk \<Rightarrow> string \<times> Tversion \<times> Err" where
  "kvraft_Get key ck = ([], 0, ErrEmpty)"

definition kvraft_Put :: "string \<Rightarrow> string \<Rightarrow> Tversion \<Rightarrow> kvraft_Clerk \<Rightarrow> Err" where
  "kvraft_Put key value version ck = ErrEmpty"

section \<open>kvraft1/server.go\<close>

record kvraft_KVServer =
  kvr_me :: nat
  kvr_rsm :: RSM

definition kvraft_DoOp :: "'a \<Rightarrow> kvraft_KVServer \<Rightarrow> 'b option \<times> kvraft_KVServer" where
  "kvraft_DoOp req kv = (None, kv)"

definition kvraft_Snapshot :: "kvraft_KVServer \<Rightarrow> bytes option" where
  "kvraft_Snapshot kv = None"

definition kvraft_Restore :: "bytes \<Rightarrow> kvraft_KVServer \<Rightarrow> kvraft_KVServer" where
  "kvraft_Restore data kv = kv"

text \<open>The handlers leave the reply as it is.\<close>

definition kvraft_srv_Get :: "string \<Rightarrow> GetReply \<Rightarrow> kvraft_KVServer \<Rightarrow> GetReply \<times> kvraft_KVServer" where
  "kvraft_srv_Get args reply kv = (reply, kv)"

definition kvraft_srv_Put :: "PutArgs \<Rightarrow> Err \<Rightarrow> kvraft_KVServer \<Rightarrow> Err \<times> kvraft_KVServer" where
  "kvraft_srv_Put args reply kv = (reply, kv)"

text \<open>The two services of a server: the key/value server and its Raft peer.\<close>

definition kvraft_StartKVServer :: "bool \<Rightarrow> string list \<Rightarrow> nat \<Rightarrow> Persister \<Rightarrow> int \<Rightarrow> kvraft_KVServer \<times> Raft option" where
  "kvraft_StartKVServer UseRaftStateMachine servers me persister maxraftstate =
     (let kv = \<lparr>kvr_me = me, kvr_rsm = MakeRSM UseRaftStateMachine servers me persister maxraftstate\<rparr>
      in (kv, RSM_Raft (kvr_rsm kv)))"

definition kvraft_NewServer :: "bool \<Rightarrow> int \<Rightarrow> string list \<Rightarrow> int \<Rightarrow> nat \<Rightarrow> Persister \<Rightarrow> kvraft_KVServer \<times> Raft option" where
  "kvraft_NewServer UseRaftStateMachine MaxRaftState ends grp srv persister =
     kvraft_StartKVServer UseRaftStateMachine ends srv persister MaxRaftState"

section \<open>shardkv1/shardgrp\<close>

record FreezeShardArgs =
  fsa_Shard :: int
  fsa_Num :: int

record FreezeShardReply =
  fsr_State :: "bytes option"
  fsr_Num :: int
  fsr_Err :: Err

record InstallShardArgs =
  isa_Shard :: int
  isa_State :: "bytes option"
  isa_Num :: int

record DeleteShardArgs =
  dsa_Shard :: int
  dsa_Num :: int

definition shardgrp_MakeClerk :: "nat \<Rightarrow> string list \<Rightarrow> kvraft_Clerk" where
  "shardgrp_MakeClerk clnt servers = \<lparr>kck_clnt = clnt, kck_servers = servers, kck_leader = 0\<rparr>"

definition shardgrp_Leader :: "kvraft_Clerk \<Rightarrow> nat" where
  "shardgrp_Leader ck = kck_leader ck"

definition shardgrp_Get :: "string \<Rightarrow> kvraft_Clerk \<Rightarrow> string \<times> Tversion \<times> Err" where
  "shardgrp_Get key ck = ([], 0, ErrEmpty)"

definition shardgrp_Put :: "string \<Rightarrow> string \<Rightarrow> Tversion \<Rightarrow> kvraft_Clerk \<Rightarrow> Err" where
  "shardgrp_Put key value version ck = ErrEmpty"

definition shardgrp_FreezeShard :: "int \<Rightarrow> int \<Rightarrow> kvraft_Clerk \<Rightarrow> bytes option \<times> Err" where
  "shardgrp_FreezeShard s num ck = (None, ErrEmpty)"

definition shardgrp_InstallShard :: "int \<Rightarrow> bytes \<Rightarrow> int \<Rightarrow> kvraft_Clerk \<Rightarrow> Err" where
  "shardgrp_InstallShard s state num ck = ErrEmpty"

definition shardgrp_DeleteShard :: "int \<Rightarrow> int \<Rightarrow> kvraft_Clerk \<Rightarrow> Err" where
  "shardgrp_DeleteShard s num ck = ErrEmpty"

record shardgrp_KVServer =
  kvg_me :: nat
  kvg_rsm :: RSM
  kvg_gid :: int

definition shardgrp_DoOp :: "'a \<Rightarrow> shardgrp_KVServer \<Rightarrow> 'b option \<times> shardgrp_KVServer" where
  "shardgrp_DoOp req kv = (None, kv)"

definition shardgrp_Snapshot :: "shardgrp_KVServer \<Rightarrow> bytes option" where
  "shardgrp_Snapshot kv = None"

definition shardgrp_Restore :: "bytes \<Rightarrow> shardgrp_KVServer \<Rightarrow> shardgrp_KVServer" where
  "shardgrp_Restore data kv = kv"

definition shardgrp_srv_Get :: "string \<Rightarrow> GetReply \<Rightarrow> shardgrp_KVServer \<Rightarrow> GetReply \<times> shardgrp_KVServer" where
  "shardgrp_srv_Get args reply kv = (reply, kv)"

definition shardgrp_srv_Put :: "PutArgs \<Rightarrow> Err \<Rightarrow> shardgrp_KVServer \<Rightarrow> Err \<times> shardgrp_KVServer" where
  "shardgrp_srv_Put args reply kv = (reply, kv)"

definition shardgrp_srv_FreezeShard :: "FreezeShardArgs \<Rightarrow> FreezeShardReply \<Rightarrow> shardgrp_KVServer \<Rightarrow> FreezeShardReply \<times> shardgrp_KVServer" where
  "shardgrp_srv_FreezeShard args reply kv = (reply, kv)"

definition shardgrp_srv_InstallShard :: "InstallShardArgs \<Rightarrow> Err \<Rightarrow> shardgrp_KVServer \<Rightarrow> Err \<times> shardgrp_KVServer" where
  "shardgrp_srv_InstallShard args reply kv = (reply, kv)"

definition shardgrp_srv_DeleteShard :: "DeleteShardArgs \<Rightarrow> Err \<Rightarrow> shardgrp_KVServer \<Rightarrow> Err \<times> shardgrp_KVServer" where
  "shardgrp_srv_DeleteShard args reply kv = (reply, kv)"

definition StartServerShardGrp :: "bool \<Rightarrow> string list \<Rightarrow> int \<Rightarrow> nat \<Rightarrow> Persister \<Rightarrow> int \<Rightarrow> shardgrp_KVServer \<times> Raft option" where
  "StartServerShardGrp UseRaftStateMachine servers gid me persister maxraftstate =
     (let kv = \<lparr>kvg_me = me, kvg_rsm = MakeRSM UseRaftStateMachine servers me persister maxraftstate, kvg_gid = gid\<rparr>
      in (kv, RSM_Raft (kvg_rsm kv)))"

definition shardgrp_NewServer :: "bool \<Rightarrow> int \<Rightarrow> string list \<Rightarrow> int \<Rightarrow> nat \<Rightarrow> Persister \<Rightarrow> shardgrp_KVServer \<times> Raft option" where
  "shardgrp_NewServer UseRaftStateMachine MaxRaftState ends grp srv persister =
     StartServerShardGrp UseRaftStateMachine ends grp srv persister MaxRaftState"

section \<open>shardkv1/client.go\<close>

record 'c shardkv_Clerk =
  sck_clnt :: nat
  sck_sck :: 'c
  sck_rcks :: "int \<rightharpoonup> kvraft_Clerk"

definition shardkv_MakeClerk :: "nat \<Rightarrow> 'c \<Rightarrow> 'c shardkv_Clerk" where
  "shardkv_MakeClerk clnt sck = \<lparr>sck_clnt = clnt, sck_sck = sck, sck_rcks = Map.empty\<rparr>"

definition shardkv_GetClerk :: "int \<Rightarrow> 'c shardkv_Clerk \<Rightarrow> kvraft_Clerk option" where
  "shardkv_GetClerk gid ck = sck_rcks ck gid"

definition shardkv_Get :: "string \<Rightarrow> 'c shardkv_Clerk \<Rightarrow> string \<times> Tversion \<times> Err" where
  "shardkv_Get key ck = ([], 0, ErrEmpty)"

definition shardkv_Put :: "string \<Rightarrow> string \<Rightarrow> Tversion \<Rightarrow> 'c shardkv_Clerk \<Rightarrow> Err" where
  "shardkv_Put key value version ck = ErrEmpty"

section \<open>The skeletons under test\<close>

text \<open>A clerk whose methods do not change it, as the tests use it.\<close>

definition iface :: "(string \<Rightarrow> 'c \<Rightarrow> string \<times> Tversion \<times> Err) \<Rightarrow> (string \<Rightarrow> string \<Rightarrow> Tversion \<Rightarrow> 'c \<Rightarrow> Err) \<Rightarrow> 'c IKVClerk" where
  "iface get put = \<lparr>ck_Get = (\<lambda>key c. Some (get key c, c)), ck_Put = (\<lambda>key value version c. Some (put key value version c, c))\<rparr>"

definition empty_clerk :: "'c IKVClerk \<Rightarrow> bool" where
  "empty_clerk ck \<longleftrightarrow> ck = iface (\<lambda>key c. ([], 0, ErrEmpty)) (\<lambda>key value version c. ErrEmpty)"

lemma skeleton_clerks: "empty_clerk (iface kvraft_Get kvraft_Put)" "empty_clerk (iface shardgrp_Get shardgrp_Put)" "empty_clerk (iface shardkv_Get shardkv_Put)"
  by (simp_all add: empty_clerk_def iface_def kvraft_Get_def kvraft_Put_def shardgrp_Get_def shardgrp_Put_def shardkv_Get_def shardkv_Put_def)

lemma empty_put:
  assumes "empty_clerk ck"
  shows "\<exists>st'. KvTest_Put ck key value ver me st = Some (ErrEmpty, st')" "\<exists>st'. kvtest_Put ck key value ver me st = Some (ErrEmpty, st')"
  using assms by (simp_all add: empty_clerk_def iface_def KvTest_Put_def kvtest_Put_def)

lemma empty_get:
  assumes "empty_clerk ck"
  shows "KvTest_CheckGet ck key value version st = Some (Inl (Fatal ''Get returns error''))"
    "KvTest_GetJson dec ck key me st = Some (Inl (Fatal ''Get err''))"
  using assms by (simp_all add: empty_clerk_def iface_def KvTest_CheckGet_def KvTest_Get_def KvTest_GetJson_def kvtest_Get_def)

text \<open>\<open>PutAtLeastOnce\<close> takes the empty error for one that asks for another attempt when its version is zero.\<close>

lemma empty_PutAtLeastOnce_hangs:
  assumes "empty_clerk ck"
  shows "KvTest_PutAtLeastOnce ck key value 0 me st = None"
proof -
  have "ck0 \<noteq> ck \<or> ver \<noteq> 0" if r: "KvTest_PutAtLeastOnce ck0 key v ver me st = Some r" for ck0 key v ver me st r
  proof (rule KvTest_PutAtLeastOnce.raw_induct [where P = "\<lambda>ck0 key v ver me st r. ck0 \<noteq> ck \<or> ver \<noteq> 0", OF _ r])
    fix f ck1 key v ver me st r
    assume IH: "\<And>ck1 key v ver me st r. f ck1 key v ver me st = Some r \<Longrightarrow> ck1 \<noteq> ck \<or> ver \<noteq> 0"
      and body: "(case KvTest_Put ck1 key v ver me st of None \<Rightarrow> None
        | Some (err, st') \<Rightarrow>
            if err = OK then Some (Inr (ver + 1, st'))
            else if err = ErrMaybe \<or> err = ErrVersion then f ck1 key v (ver + 1) me st'
            else if ver \<noteq> 0 then Some (Inl (Fatal ''Put err'')) else f ck1 key v ver me st') = Some r"
    obtain st' where "KvTest_Put ck key v 0 me st = Some (ErrEmpty, st')" using empty_put(1) [OF assms] by blast
    then show "ck1 \<noteq> ck \<or> ver \<noteq> 0" using IH body by force
  qed
  then show ?thesis by fastforce
qed

text \<open>What happens when a clerk is tested; \<open>ver\<close> is the version of a put.\<close>

definition fails_checks :: "'c IKVClerk \<Rightarrow> bool" where
  "fails_checks ck \<longleftrightarrow>
     (\<forall>key v version st. KvTest_CheckGet ck key v version st = Some (Inl (Fatal ''Get returns error''))) \<and>
     (\<forall>dec key rs res reliable st. KvTest_CheckPutConcurrent dec ck key rs res reliable st = Some (Inl (Fatal ''Get err''))) \<and>
     (\<forall>enc dec me key ver st. enc \<lparr>ev_Id = me, ev_V = ver\<rparr> \<noteq> None \<longrightarrow> KvTest_OnePut enc dec me ck key ver st = Some (Inl (Fatal ''Wrong error''))) \<and>
     (\<forall>n va st. 0 < n \<and> va \<noteq> [] \<longrightarrow> KvTest_SpreadPutsSize ck n va st = Some (Inl (Fatal ''Get returns error''))) \<and>
     (\<forall>key v ver me st. KvTest_PutAtLeastOnce ck key v ver me st = (if ver = 0 then None else Some (Inl (Fatal ''Put err''))))"

lemma empty_clerk_fails:
  assumes ck: "empty_clerk ck"
  shows "fails_checks ck"
proof -
  have "KvTest_CheckPutConcurrent dec ck key rs res reliable st = Some (Inl (Fatal ''Get err''))" for dec key rs res reliable st
    by (simp add: KvTest_CheckPutConcurrent_def empty_get(2) [OF ck])
  moreover have "KvTest_OnePut enc dec me ck key ver st = Some (Inl (Fatal ''Wrong error''))" if "enc \<lparr>ev_Id = me, ev_V = ver\<rparr> = Some b" for enc dec me key ver st b
  proof -
    obtain st' where "kvtest_Put ck key b ver me st = Some (ErrEmpty, st')" using empty_put(2) [OF ck] by blast
    then show ?thesis using that by (subst KvTest_OnePut.simps) (simp add: KvTest_PutJson_def)
  qed
  moreover have "KvTest_SpreadPutsSize ck n va st = Some (Inl (Fatal ''Get returns error''))" if nz: "0 < n" "va \<noteq> []" for n va st
  proof -
    have "\<exists>s. spread_puts ck kvs s0 = Some s" for kvs s0
      using ck by (induction kvs arbitrary: s0) (auto simp: empty_clerk_def iface_def)
    then obtain s where "spread_puts ck (zip (MakeKeys n) va) (kt_clerk st) = Some s" by blast
    moreover obtain k v kvs where "zip (MakeKeys n) va = (k, v) # kvs"
      using nz by (cases n; cases va) (auto simp: MakeKeys_def upt_conv_Cons simp del: upt_Suc)
    ultimately show ?thesis by (simp add: KvTest_SpreadPutsSize_def empty_get(1) [OF ck])
  qed
  moreover have "KvTest_PutAtLeastOnce ck key v ver me st = Some (Inl (Fatal ''Put err''))" if "ver \<noteq> 0" for key v ver me st
    using that empty_put(1) [OF ck, of key v ver me st] by (subst KvTest_PutAtLeastOnce.simps) auto
  ultimately show ?thesis using empty_get(1) [OF ck] empty_PutAtLeastOnce_hangs [OF ck] unfolding fails_checks_def by auto
qed

text \<open>
  The skeletons of the replicated and the sharded service do not pass for services. Their clerks
  return an empty error, and: \<open>CheckGet\<close> fails the test, and so does \<open>GetJson\<close> in
  \<open>CheckPutConcurrent\<close>; \<open>OnePut\<close> and \<open>SpreadPuts\<close> of at least one key fail it; \<open>PutAtLeastOnce\<close> fails
  it for a version other than zero, and for version zero it never returns.
\<close>

theorem skeleton_services_rejected:
  "fails_checks (iface kvraft_Get kvraft_Put) \<and> fails_checks (iface shardgrp_Get shardgrp_Put) \<and>
   fails_checks (iface shardkv_Get shardkv_Put)"
  by (simp add: empty_clerk_fails skeleton_clerks)

end
