(* ===== verification/Tester_Finish.thy ===== *)
theory Tester_Finish
  imports Lab_Skeletons
begin

text \<open>
  The end of a test: \<open>Config.End\<close> and \<open>Config.Cleanup\<close> of \<open>tester1/config.go\<close>, \<open>Cleanup\<close> of
  \<open>kvtest1/kvtest.go\<close>; and the test object of \<open>kvraft1/test.go\<close>, which stops and restarts all its
  servers. The orders of the loops over Go maps are arguments.
\<close>

section \<open>tester1/config.go\<close>

record test_env =
  te_cfg :: Config
  te_destroyed :: bool
  te_trpc :: "bool option"
  te_ann :: ann_state

text \<open>\<open>labrpc.Network.Cleanup\<close> closes the channel \<open>done\<close>; a second time it panics.\<close>

definition Network_Cleanup :: "bool \<Rightarrow> go_exit + bool" where
  "Network_Cleanup destroyed = (if destroyed then Inl (Panic ''close of closed channel'') else Inr True)"

text \<open>\<open>te_trpc\<close>: whether there is a server for the daemons' calls, and whether it is open.\<close>

definition TesterRPC_cleanup :: "bool option \<Rightarrow> bool option" where
  "TesterRPC_cleanup trpc = (case trpc of None \<Rightarrow> None | Some _ \<Rightarrow> Some False)"

definition Config_Cleanup ::
    "(nat \<Rightarrow> string list) \<Rightarrow> nat list \<Rightarrow> int list \<Rightarrow> string \<Rightarrow> bool \<Rightarrow> int \<Rightarrow> int \<Rightarrow> string list \<Rightarrow> bool \<Rightarrow> test_env \<Rightarrow>
     go_exit + porc_annotation list option \<times> test_env" where
  "Config_Cleanup kss addrs gids enabled open_ok t1 t2 ks failed te =
     and_then (Clnts_cleanup kss addrs (cfg_clnts (te_cfg te), cfg_net (te_cfg te))) (\<lambda>(clnts, net1).
     and_then (Groups_cleanup gids (cfg_groups (te_cfg te), net1)) (\<lambda>(gs, net2).
     and_then (Network_Cleanup (te_destroyed te)) (\<lambda>destroyed.
     case (if failed then Annotation_cleanup enabled open_ok t1 t2 ks True ''test failed'' (annotation (te_ann te))
           else Annotation_cleanup enabled open_ok t1 t2 ks False ''test passed'' (annotation (te_ann te))) of
       (file, an) \<Rightarrow>
         Inr (file, \<lparr>te_cfg = (te_cfg te)\<lparr>cfg_clnts := clnts, cfg_groups := gs, cfg_net := net2\<rparr>, te_destroyed = destroyed,
                    te_trpc = TesterRPC_cleanup (te_trpc te), te_ann = (te_ann te)\<lparr>annotation := an\<rparr>\<rparr>))))"

text \<open>The line that \<open>End\<close> prints: peers, calls and operations; nothing for a failed test.\<close>

definition Config_End :: "bool \<Rightarrow> nat \<Rightarrow> Config \<Rightarrow> go_exit + (nat \<times> int \<times> 32 word) option" where
  "Config_End failed elapsed cfg =
     and_then (Config_CheckTimeout failed elapsed) (\<lambda>_.
       if failed then Inr None
       else (case Config_Group GRP0 cfg of
               None \<Rightarrow> Inl (Panic ''nil pointer dereference'')
             | Some sg \<Rightarrow> Inr (Some (ServerGrp_N sg, Config_RpcTotal cfg - cfg_rpcs0 cfg, cfg_ops cfg))))"

definition KvTest_Cleanup ::
    "(nat \<Rightarrow> string list) \<Rightarrow> nat list \<Rightarrow> int list \<Rightarrow> string \<Rightarrow> bool \<Rightarrow> int \<Rightarrow> int \<Rightarrow> string list \<Rightarrow> bool \<Rightarrow> nat \<Rightarrow> test_env \<Rightarrow>
     go_exit + porc_annotation list option \<times> test_env" where
  "KvTest_Cleanup kss addrs gids enabled open_ok t1 t2 ks failed elapsed te =
     and_then (Config_End failed elapsed (te_cfg te)) (\<lambda>_. Config_Cleanup kss addrs gids enabled open_ok t1 t2 ks failed te)"

section \<open>kvraft1/test.go\<close>

record kvraft_Test =
  kt_part :: string
  kt_nclients :: int
  kt_nservers :: nat
  kt_crash :: bool
  kt_partitions :: bool
  kt_maxraftstate :: int
  kt_randomkeys :: bool

definition kvraft_makeTitle :: "kvraft_Test \<Rightarrow> string" where
  "kvraft_makeTitle ts =
     ''Test: '' @ (if kt_crash ts then ''restarts, '' else []) @ (if kt_partitions ts then ''partitions, '' else []) @
     (if kt_maxraftstate ts \<noteq> -1 then ''snapshots, '' else []) @ (if kt_randomkeys ts then ''random keys, '' else []) @
     (if kt_nclients ts > 1 then ''many clients'' else ''one client'') @ '' ('' @ kt_part ts @ '')''"

text \<open>The test object, its configuration and its title.\<close>

definition kvraft_MakeTest ::
    "string \<Rightarrow> int \<Rightarrow> nat \<Rightarrow> bool \<Rightarrow> bool \<Rightarrow> bool \<Rightarrow> int \<Rightarrow> bool \<Rightarrow> string list list \<Rightarrow> (string list \<times> nat \<times> bool) list \<Rightarrow>
     go_exit + kvraft_Test \<times> Config \<times> string" where
  "kvraft_MakeTest part nclients nsrv reliable crash partitions maxraftstate randomkeys namess starts =
     (let ts = \<lparr>kt_part = part, kt_nclients = nclients, kt_nservers = nsrv, kt_crash = crash, kt_partitions = partitions,
               kt_maxraftstate = maxraftstate, kt_randomkeys = randomkeys\<rparr>
      in and_then (MakeConfig nsrv reliable namess starts) (\<lambda>cfg. Inr (ts, Config_Begin cfg, kvraft_makeTitle ts)))"



text \<open>The new client is the \<open>Clnt\<close> at the address \<open>addr\<close>.\<close>

definition kvraft_test_MakeClerk :: "nat \<Rightarrow> Config \<Rightarrow> go_exit + kvraft_Clerk \<times> Config" where
  "kvraft_test_MakeClerk addr cfg =
     (case Config_Group GRP0 cfg of
        None \<Rightarrow> Inl (Panic ''nil pointer dereference'')
      | Some sg \<Rightarrow> Inr (kvraft_MakeClerk addr (ServerGrp_SrvNames sg), cfg\<lparr>cfg_clnts := Clnts_MakeClient addr (cfg_clnts cfg)\<rparr>))"

definition kvraft_test_MakeClerkTo :: "nat list \<Rightarrow> nat \<Rightarrow> Config \<Rightarrow> go_exit + kvraft_Clerk \<times> Config" where
  "kvraft_test_MakeClerkTo to addr cfg =
     (case Config_Group GRP0 cfg of
        None \<Rightarrow> Inl (Panic ''nil pointer dereference'')
      | Some sg \<Rightarrow>
          and_then (ServerGrp_SrvNamesTo to sg) (\<lambda>ns.
            Inr (kvraft_MakeClerk addr (ServerGrp_SrvNames sg), cfg\<lparr>cfg_clnts := Clnts_MakeClientTo (Some ns) addr (cfg_clnts cfg)\<rparr>)))"

definition kvraft_test_DeleteClerk :: "(nat \<Rightarrow> string list) \<Rightarrow> kvraft_Clerk \<Rightarrow> Config \<Rightarrow> go_exit + Config" where
  "kvraft_test_DeleteClerk kss ck cfg =
     and_then (Clnts_DeleteClient kss (kck_clnt ck) (cfg_clnts cfg, cfg_net cfg)) (\<lambda>(clnts, net).
       Inr (cfg\<lparr>cfg_clnts := clnts, cfg_net := net\<rparr>))"

section \<open>Stopping the clients\<close>







section \<open>Stopping the groups\<close>





section \<open>Cleanup\<close>




section \<open>Crash and restart of the whole service\<close>







end
