(* ===== verification/KV_Linear.thy ===== *)
theory KV_Linear
  imports KV_Test Tester_Annotations
begin

text \<open>
  The linearizability check of the key/value tests (\<open>checkPorcupine\<close> of \<open>kvtest1/porcupine.go\<close>) and
  why it passes: any number of clients use the server of \<open>kvsrv1\<close> through their clerks over a
  network that loses requests and replies, each call in \<open>Test.Get\<close> and \<open>Test.Put\<close> is logged
  between two readings of the clock, and the log of every such run is linearizable with respect to
  the model \<open>models1/kv.go\<close>.

  The checker itself (\<open>porcupine.CheckOperationsVerbose\<close>) is a third-party package: a function
  argument, of which only its documented verdict is used.
\<close>

section \<open>kvtest1/porcupine.go\<close>

datatype CheckResult = Ok | Illegal | Unknown

text \<open>
  \<open>open_ok\<close> tells whether the visualisation file could be opened, \<open>t1\<close>, \<open>t2\<close> and \<open>ks\<close> are the
  arguments of \<open>FinalizeAnnotations\<close>. The result is the state of the annotations and what was
  written to the file.
\<close>

definition checkPorcupine ::
    "(operation list \<Rightarrow> CheckResult) \<Rightarrow> string \<Rightarrow> bool \<Rightarrow> int \<Rightarrow> int \<Rightarrow> string list \<Rightarrow> operation list \<Rightarrow> ann_state \<Rightarrow>
     go_exit + porc_annotation list option \<times> ann_state" where
  "checkPorcupine check enabled open_ok t1 t2 ks opLog an =
     (let res = check (OpLog_Read opLog) in
      if res = Illegal then Inl (Fatal ''history is not linearizable'')
      else if enabled = ''always'' \<and> GetAnnotationFinalized an then
        if \<not> open_ok then Inr (None, an)
        else (case FinalizeAnnotations t1 t2 ks ''test passed'' an of (as, an') \<Rightarrow> Inr (Some as, an'))
      else Inr (None, an))"

section \<open>Linearizability\<close>

text \<open>What the checker decides, for the operations on one key.\<close>

fun model_run :: "KvState \<Rightarrow> operation list \<Rightarrow> KvState option" where
  "model_run st [] = Some st"
| "model_run st (op # ops) =
     (case KvModel_Step st (op_Input op) (op_Output op) of
        (True, Some st') \<Rightarrow> model_run st' ops
      | _ \<Rightarrow> None)"

definition in_real_time :: "operation list \<Rightarrow> bool" where
  "in_real_time = sorted_wrt (\<lambda>a b. \<not> op_Return b < op_Call a)"

definition linearizable :: "operation list \<Rightarrow> bool" where
  "linearizable history \<longleftrightarrow> (\<exists>ops. mset ops = mset history \<and> in_real_time ops \<and> model_run KvModel_Init ops \<noteq> None)"

definition op_key :: "operation \<Rightarrow> string" where
  "op_key op = ki_Key (op_Input op)"

section \<open>Clients, clerks and the server\<close>

text \<open>
  A client between its steps: not in an operation; in the loop of \<open>Clerk.Get\<close> or \<open>Clerk.Put\<close>, before
  an attempt (\<open>first\<close> tells that nothing was sent yet); back from the clerk; or past the second
  reading of the clock, before \<open>OpLog.Append\<close>.
\<close>

datatype op_pc =
    Idle
  | Getting string int
  | Putting PutArgs bool int
  | Answered KvInput KvOutput int
  | Ended operation

record lin_sys =
  ls_net :: kv_net
  ls_now :: int
  ls_pc :: "nat \<Rightarrow> op_pc"
  ls_log :: "operation list"

definition operation_of :: "nat \<Rightarrow> KvInput \<Rightarrow> KvOutput \<Rightarrow> int \<Rightarrow> int \<Rightarrow> operation" where
  "operation_of c inp out start end_time =
     \<lparr>op_ClientId = int c, op_Input = inp, op_Call = start, op_Output = out, op_Return = end_time\<rparr>"

text \<open>The answer of \<open>Clerk.Put\<close> to the reply of an attempt.\<close>

definition put_answer :: "bool \<Rightarrow> Err \<Rightarrow> Err" where
  "put_answer first e = (if \<not> first \<and> e = ErrVersion then ErrMaybe else e)"

inductive lin_step :: "lin_sys \<Rightarrow> lin_sys \<Rightarrow> bool" where
  tick: "ls_now s \<le> t \<Longrightarrow> lin_step s (s\<lparr>ls_now := t\<rparr>)"
| get_call: "ls_pc s c = Idle \<Longrightarrow> lin_step s (s\<lparr>ls_pc := (ls_pc s)(c := Getting key (ls_now s))\<rparr>)"
| get_lost: "ls_pc s c = Getting key start \<Longrightarrow> call_get oc key (ls_net s) = None \<Longrightarrow> lin_step s s"
| get_reply: "ls_pc s c = Getting key start \<Longrightarrow> call_get oc key (ls_net s) = Some r \<Longrightarrow>
    lin_step s (s\<lparr>ls_pc := (ls_pc s)(c := Answered (get_op key) (get_out r) start)\<rparr>)"
| put_call: "ls_pc s c = Idle \<Longrightarrow> lin_step s (s\<lparr>ls_pc := (ls_pc s)(c := Putting args True (ls_now s))\<rparr>)"
| put_lost: "ls_pc s c = Putting args first start \<Longrightarrow> call_put oc args (ls_net s) = (None, net) \<Longrightarrow>
    lin_step s (s\<lparr>ls_net := net, ls_pc := (ls_pc s)(c := Putting args False start)\<rparr>)"
| put_reply: "ls_pc s c = Putting args first start \<Longrightarrow> call_put oc args (ls_net s) = (Some e, net) \<Longrightarrow>
    lin_step s (s\<lparr>ls_net := net, ls_pc := (ls_pc s)(c := Answered (put_op args) (put_out (put_answer first e)) start)\<rparr>)"
| end_clock: "ls_pc s c = Answered inp out start \<Longrightarrow>
    lin_step s (s\<lparr>ls_pc := (ls_pc s)(c := Ended (operation_of c inp out start (ls_now s)))\<rparr>)"
| append_log: "ls_pc s c = Ended op \<Longrightarrow>
    lin_step s (s\<lparr>ls_pc := (ls_pc s)(c := Idle), ls_log := OpLog_Append op (ls_log s)\<rparr>)"

definition lin_init :: "int \<Rightarrow> lin_sys" where
  "lin_init t = \<lparr>ls_net = \<lparr>net_server = MakeKVServer, net_own = 0\<rparr>, ls_now = t, ls_pc = (\<lambda>_. Idle), ls_log = []\<rparr>"

text \<open>\<open>lin_run\<close> counts the steps, which bounds the versions.\<close>

inductive lin_run :: "nat \<Rightarrow> lin_sys \<Rightarrow> bool" where
  run_start: "lin_run 0 (lin_init t)"
| run_more: "lin_run n s \<Longrightarrow> lin_step s s' \<Longrightarrow> lin_run (Suc n) s'"

section \<open>The steps of one clerk\<close>

text \<open>
  Without other clients, the steps of a client from the call to the answer are what the functions
  \<open>Clerk_Get\<close> and \<open>Clerk_Put\<close> compute.
\<close>

lemma no_others [simp]: "run_others [] s = s"
  by (simp add: run_others_def)

lemma resend_steps:
  assumes "put_resend os env args i net0 = Some r" and "env = (\<lambda>_. [])" and "ls_net s = net0" and "ls_pc s c = Putting args False start"
  shows "lin_step\<^sup>*\<^sup>* s (s\<lparr>ls_net := snd r, ls_pc := (ls_pc s)(c := Answered (put_op args) (put_out (put_answer False (fst r))) start)\<rparr>)"
  using assms
proof (induction arbitrary: s rule: put_resend.raw_induct [rotated 1, consumes 1, case_names step])
  case (step f os env args i net0 r)
  obtain a net where call: "call_put (os i) args net0 = (a, net)" by fastforce
  show ?case
  proof (cases a)
    case None
    let ?s = "s\<lparr>ls_net := net, ls_pc := (ls_pc s)(c := Putting args False start)\<rparr>"
    have "f os env args (Suc i) net = Some r" using step call None by (simp add: Let_def)
    from step.IH [OF this step.prems(1), of ?s] have "lin_step\<^sup>*\<^sup>* ?s
      (s\<lparr>ls_net := snd r, ls_pc := (ls_pc s)(c := Answered (put_op args) (put_out (put_answer False (fst r))) start)\<rparr>)" by (simp del: fun_upd_apply add: fun_upd_same)
    moreover have "lin_step s ?s" using put_lost [of s c args False start "os i" net] step call None by simp
    ultimately show ?thesis by (rule converse_rtranclp_into_rtranclp [rotated])
  next
    case (Some e)
    then have "r = (e, net)" using step call by (simp add: Let_def)
    moreover have "lin_step s (s\<lparr>ls_net := net, ls_pc := (ls_pc s)(c := Answered (put_op args) (put_out (put_answer False e)) start)\<rparr>)"
      using step.prems call Some by (intro put_reply [of _ _ _ False]) simp_all
    ultimately show ?thesis by (simp only: fst_conv snd_conv r_into_rtranclp)
  qed
qed

text \<open>A put of the clerk, step by step.\<close>

lemma Clerk_Put_steps:
  assumes "Clerk_Put os (\<lambda>_. []) key value ver (ls_net s) = Some (e, net)" and "ls_pc s c = Idle"
    and "args = \<lparr>pa_Key = key, pa_Value = value, pa_Version = ver\<rparr>"
  shows "lin_step\<^sup>*\<^sup>* s (s\<lparr>ls_net := net, ls_pc := (ls_pc s)(c := Answered (put_op args) (put_out e) (ls_now s))\<rparr>)"
proof -
  let ?s1 = "s\<lparr>ls_pc := (ls_pc s)(c := Putting args True (ls_now s))\<rparr>"
  have call: "lin_step s ?s1" by (rule put_call [OF assms(2)])
  obtain a net1 where first: "call_put (os 0) args (ls_net s) = (a, net1)" by fastforce
  show ?thesis
  proof (cases a)
    case None
    then obtain e1 where r: "put_resend os (\<lambda>_. []) args 1 net1 = Some (e1, net)" "e = put_answer False e1"
      using assms(1,3) first by (auto simp: Clerk_Put_def Let_def put_answer_def split: option.splits)
    let ?s2 = "?s1\<lparr>ls_net := net1, ls_pc := (ls_pc ?s1)(c := Putting args False (ls_now s))\<rparr>"
    have "lin_step ?s1 ?s2" using first None by (intro put_lost [of _ _ _ True]) simp_all
    moreover have "lin_step\<^sup>*\<^sup>* ?s2 (s\<lparr>ls_net := net, ls_pc := (ls_pc s)(c := Answered (put_op args) (put_out e) (ls_now s))\<rparr>)"
      using resend_steps [OF r(1) refl, of ?s2 c "ls_now s"] r(2) by (simp del: fun_upd_apply add: fun_upd_same)
    ultimately show ?thesis using call by (meson converse_rtranclp_into_rtranclp)
  next
    case (Some e1)
    then have "e = put_answer True e1" "net = net1" using assms(1,3) first by (simp_all add: Clerk_Put_def Let_def put_answer_def)
    then have "lin_step ?s1 (s\<lparr>ls_net := net, ls_pc := (ls_pc s)(c := Answered (put_op args) (put_out e) (ls_now s))\<rparr>)"
      using put_reply [of ?s1 c args True "ls_now s" "os 0" e1 net1] first Some by (simp del: fun_upd_apply add: fun_upd_same)
    then show ?thesis using call by (meson converse_rtranclp_into_rtranclp rtranclp.rtrancl_refl)
  qed
qed

section \<open>Points of linearization\<close>

text \<open>
  The invariant is about a list of entries: an operation, the time at which it took effect, and
  the client it belongs to as long as it is not in the log. The entries are in the order in which
  the operations took effect.
\<close>

type_synonym entry = "nat option \<times> operation \<times> int"

abbreviation who :: "entry \<Rightarrow> nat option" where "who \<equiv> fst"
abbreviation oper :: "entry \<Rightarrow> operation" where "oper e \<equiv> fst (snd e)"
abbreviation point :: "entry \<Rightarrow> int" where "point e \<equiv> snd (snd e)"

definition of_client :: "nat \<Rightarrow> entry list \<Rightarrow> entry list" where
  "of_client c L = filter (\<lambda>e. who e = Some c) L"

definition key_ops :: "string \<Rightarrow> entry list \<Rightarrow> operation list" where
  "key_ops k L = filter (\<lambda>op. op_key op = k) (map oper L)"

lemma of_client_append [simp]: "of_client c (L @ [e]) = of_client c L @ (if who e = Some c then [e] else [])"
  by (simp add: of_client_def)

lemma key_ops_append [simp]: "key_ops k (L @ [e]) = key_ops k L @ (if op_key (oper e) = k then [oper e] else [])"
  by (simp add: key_ops_def)

lemma model_run_append: "model_run st (xs @ ys) = Option.bind (model_run st xs) (\<lambda>st'. model_run st' ys)"
  by (induction xs arbitrary: st) (auto split: prod.splits option.splits bool.splits)

text \<open>
  An entry of a client that has not its answer yet is a put that took effect and whose reply was
  lost: the version it was for is used up (\<open>cnt\<close> counts the writes of each key).
\<close>

definition pending :: "(string \<Rightarrow> nat) \<Rightarrow> nat \<Rightarrow> PutArgs \<Rightarrow> int \<Rightarrow> entry list \<Rightarrow> bool" where
  "pending cnt c args start es \<longleftrightarrow>
     (\<exists>p m. es = [(Some c, operation_of c (put_op args) (put_out ErrMaybe) start 0, p)] \<and> m < cnt (pa_Key args) \<and> pa_Version args = of_nat m)"

fun pc_ok :: "(string \<Rightarrow> nat) \<Rightarrow> int \<Rightarrow> nat \<Rightarrow> entry list \<Rightarrow> op_pc \<Rightarrow> bool" where
  "pc_ok cnt now c es Idle = (es = [])"
| "pc_ok cnt now c es (Getting key start) = (es = [] \<and> start \<le> now)"
| "pc_ok cnt now c es (Putting args first start) = (start \<le> now \<and> (es = [] \<or> \<not> first \<and> pending cnt c args start es))"
| "pc_ok cnt now c es (Answered inp out start) = (\<exists>p. es = [(Some c, operation_of c inp out start 0, p)])"
| "pc_ok cnt now c es (Ended op) = (\<exists>p. es = [(Some c, op, p)] \<and> p \<le> op_Return op)"

definition entry_ok :: "int \<Rightarrow> entry \<Rightarrow> bool" where
  "entry_ok now e \<longleftrightarrow> op_Call (oper e) \<le> point e \<and> point e \<le> now \<and> (who e = None \<longrightarrow> point e \<le> op_Return (oper e))"

definition lin_inv :: "entry list \<Rightarrow> (string \<Rightarrow> nat) \<Rightarrow> lin_sys \<Rightarrow> bool" where
  "lin_inv L cnt s \<longleftrightarrow>
     sorted (map point L) \<and> (\<forall>e\<in>set L. entry_ok (ls_now s) e) \<and>
     mset (map oper (filter (\<lambda>e. who e = None) L)) = mset (ls_log s) \<and>
     (\<forall>c. pc_ok cnt (ls_now s) c (of_client c L) (ls_pc s c)) \<and>
     (\<forall>k. model_run KvModel_Init (key_ops k L) = Some (abs_key (net_server (ls_net s)) k)) \<and>
     (\<forall>k. ks_Version (abs_key (net_server (ls_net s)) k) = of_nat (cnt k) \<and> cnt k \<le> length L) \<and>
     kv_inv (net_server (ls_net s))"

lemma pc_ok_mono:
  assumes "pc_ok cnt now c es pc" and "now \<le> now'" and "\<And>k. cnt k \<le> cnt' k"
  shows "pc_ok cnt' now' c es pc"
  using assms(1,2) assms(3) [THEN le_trans] by (cases pc) (auto simp: pending_def intro: less_le_trans [OF _ assms(3)])

text \<open>The entry of a new effect.\<close>

lemma lin_inv_append:
  assumes inv: "lin_inv L cnt s" and now: "ls_now s' = ls_now s" and log: "ls_log s' = ls_log s"
    and e: "who e = Some c" "point e = ls_now s" "op_Call (oper e) \<le> ls_now s"
    and pc: "\<And>d. d \<noteq> c \<Longrightarrow> ls_pc s' d = ls_pc s d" "pc_ok cnt' (ls_now s) c (of_client c L @ [e]) (ls_pc s' c)"
    and step: "KvModel_Step (abs_key (net_server (ls_net s)) (op_key (oper e))) (op_Input (oper e)) (op_Output (oper e)) =
        (True, Some (abs_key (net_server (ls_net s')) (op_key (oper e))))"
    and others: "\<And>k. k \<noteq> op_key (oper e) \<Longrightarrow> abs_key (net_server (ls_net s')) k = abs_key (net_server (ls_net s)) k"
    and cnt: "\<And>k. cnt k \<le> cnt' k \<and> cnt' k \<le> Suc (cnt k)" "\<And>k. ks_Version (abs_key (net_server (ls_net s')) k) = of_nat (cnt' k)"
    and kv: "kv_inv (net_server (ls_net s'))"
  shows "lin_inv (L @ [e]) cnt' s'"
proof -
  have "sorted (map point (L @ [e]))" using inv e(2) by (auto simp: lin_inv_def sorted_append entry_ok_def)
  moreover have "pc_ok cnt' (ls_now s) d (of_client d (L @ [e])) (ls_pc s' d)" for d
  proof (cases "d = c")
    case False
    then have "pc_ok cnt (ls_now s) d (of_client d L) (ls_pc s d)" using inv by (simp add: lin_inv_def)
    then show ?thesis using False e(1) pc(1) cnt(1) by (auto intro: pc_ok_mono)
  qed (use e(1) pc(2) in simp)
  moreover have "model_run KvModel_Init (key_ops k (L @ [e])) = Some (abs_key (net_server (ls_net s')) k)" for k
    using inv step others by (cases "k = op_key (oper e)") (auto simp: lin_inv_def model_run_append)
  moreover have "cnt' k \<le> length (L @ [e])" for k
  proof -
    have "cnt k \<le> length L" using inv by (simp add: lin_inv_def)
    then show ?thesis using cnt(1) [of k] by simp
  qed
  ultimately show ?thesis using inv e now log cnt(2) kv by (simp add: lin_inv_def entry_ok_def)
qed

text \<open>A step that changes neither the server nor the entries.\<close>

lemma lin_inv_pc:
  assumes "lin_inv L cnt s" and "pc_ok cnt (ls_now s) c (of_client c L) pc"
    and "net_server net = net_server (ls_net s)"
  shows "lin_inv L cnt (s\<lparr>ls_net := net, ls_pc := (ls_pc s)(c := pc)\<rparr>)"
  using assms by (simp add: lin_inv_def)

text \<open>Changing the entry of one client, but not the effect of it.\<close>

definition revise :: "nat \<Rightarrow> (entry \<Rightarrow> entry) \<Rightarrow> entry list \<Rightarrow> entry list" where
  "revise c f L = map (\<lambda>e. if who e = Some c then f e else e) L"

lemma key_ops_revise:
  assumes "\<And>e. op_Input (oper (f e)) = op_Input (oper e)" and "\<And>e. op_Output (oper (f e)) = op_Output (oper e)"
  shows "model_run st (key_ops k (revise c f L)) = model_run st (key_ops k L)"
  using assms by (induction L arbitrary: st) (auto simp: key_ops_def revise_def op_key_def split: prod.splits option.splits bool.splits)

lemma of_client_revise_other:
  assumes "\<And>e. who (f e) \<in> {who e, None}" and "d \<noteq> c"
  shows "of_client d (revise c f L) = of_client d L"
  using assms by (induction L) (auto simp: of_client_def revise_def, (metis insertE option.distinct(1) option.inject singletonD)+)

lemma of_client_revise:
  assumes "\<And>e. who (f e) = who e"
  shows "of_client c (revise c f L) = map f (of_client c L)"
  using assms by (induction L) (auto simp: of_client_def revise_def)

lemma lin_inv_end:
  assumes inv: "lin_inv L cnt s" and pc: "ls_pc s c = Answered inp out start"
  shows "lin_inv (revise c (\<lambda>e. (who e, (oper e)\<lparr>op_Return := ls_now s\<rparr>, point e)) L) cnt
    (s\<lparr>ls_pc := (ls_pc s)(c := Ended (operation_of c inp out start (ls_now s)))\<rparr>)"
proof -
  let ?f = "\<lambda>e. (who e, (oper e)\<lparr>op_Return := ls_now s\<rparr>, point e)"
  obtain p where es: "of_client c L = [(Some c, operation_of c inp out start 0, p)]"
    using inv pc unfolding lin_inv_def by (metis pc_ok.simps(4))
  then have "(Some c, operation_of c inp out start 0, p) \<in> set L" by (auto simp: of_client_def dest: filter_eq_ConsD)
  then have p: "p \<le> ls_now s" using inv by (auto simp: lin_inv_def entry_ok_def)
  have mine: "of_client c (revise c ?f L) = [(Some c, operation_of c inp out start (ls_now s), p)]"
    unfolding of_client_revise [of ?f, OF fst_conv] es by (simp add: operation_of_def)
  have log: "filter (\<lambda>e. who e = None) (revise c ?f L) = filter (\<lambda>e. who e = None) L" by (induction L) (auto simp: revise_def)
  have "map point (revise c ?f L) = map point L" by (simp add: revise_def)
  moreover have "\<forall>e\<in>set (revise c ?f L). entry_ok (ls_now s) e"
    using inv by (auto simp: revise_def lin_inv_def entry_ok_def)
  moreover have "pc_ok cnt (ls_now s) d (of_client d (revise c ?f L)) (((ls_pc s)(c := Ended (operation_of c inp out start (ls_now s)))) d)" for d
    using inv p mine by (cases "d = c") (auto simp: of_client_revise_other lin_inv_def operation_of_def)
  ultimately show ?thesis using inv log
    by (simp add: lin_inv_def key_ops_revise) (simp add: revise_def)
qed

lemma log_revise:
  "mset (map oper (filter (\<lambda>e. who e = None) (revise c (\<lambda>e. (None, oper e, point e)) L))) =
   mset (map oper (filter (\<lambda>e. who e = None) L)) + mset (map oper (of_client c L))"
  by (induction L) (auto simp: revise_def of_client_def)

lemma lin_inv_log:
  assumes inv: "lin_inv L cnt s" and pc: "ls_pc s c = Ended op"
  shows "lin_inv (revise c (\<lambda>e. (None, oper e, point e)) L) cnt
    (s\<lparr>ls_pc := (ls_pc s)(c := Idle), ls_log := OpLog_Append op (ls_log s)\<rparr>)"
proof -
  let ?f = "\<lambda>e. (None, oper e, point e)"
  obtain p where es: "of_client c L = [(Some c, op, p)]" "p \<le> op_Return op"
    using inv pc unfolding lin_inv_def by (metis pc_ok.simps(5))
  have mine: "of_client c (revise c ?f L) = []" by (auto simp: of_client_def revise_def filter_empty_conv)
  have "entry_ok (ls_now s) (?f e)" if "e \<in> set L" "who e = Some c" for e
  proof -
    have "e \<in> set (of_client c L)" using that by (simp add: of_client_def)
    then have "e = (Some c, op, p)" using es(1) by simp
    then show ?thesis using es(2) inv that(1) by (auto simp: lin_inv_def entry_ok_def)
  qed
  then have "\<forall>e\<in>set (revise c ?f L). entry_ok (ls_now s) e" using inv by (auto simp: revise_def lin_inv_def)
  moreover have "map point (revise c ?f L) = map point L" by (simp add: revise_def)
  moreover have "pc_ok cnt (ls_now s) d (of_client d (revise c ?f L)) (((ls_pc s)(c := Idle)) d)" for d
    using inv mine by (cases "d = c") (auto simp: of_client_revise_other lin_inv_def)
  ultimately show ?thesis using inv es(1) log_revise [of c L]
    by (simp add: lin_inv_def key_ops_revise OpLog_Append_def) (simp add: revise_def)
qed

section \<open>Attempts\<close>

text \<open>What an execution of a put means for the model.\<close>

lemma put_accepted:
  assumes "KVServer_Put a kv = (OK, kv')" and "e \<in> {OK, ErrMaybe}"
  shows "KvModel_Step (abs_key kv (pa_Key a)) (put_op a) (put_out e) = (True, Some (abs_key kv' (pa_Key a)))"
    and "k \<noteq> pa_Key a \<Longrightarrow> abs_key kv' k = abs_key kv k"
    and "ks_Version (abs_key kv' k) = ks_Version (abs_key kv k) + (if k = pa_Key a then 1 else 0)"
    and "ks_Version (abs_key kv (pa_Key a)) = pa_Version a"
  using assms by (auto simp: KvModel_Step_def put_op_def put_out_def KVServer_Put_def KVServer_install_def abs_key_def zget_def
      split: option.splits if_splits)

lemma put_refused:
  assumes "KVServer_Put a kv = (e, kv')" and "e \<noteq> OK"
  shows "kv' = kv" and "e = ErrVersion \<or> (e = ErrNoKey \<and> kv_dataVersion kv (pa_Key a) = None)" and "ks_Version (abs_key kv (pa_Key a)) \<noteq> pa_Version a"
    and "e' \<in> {ErrVersion, ErrMaybe} \<Longrightarrow> KvModel_Step (abs_key kv (pa_Key a)) (put_op a) (put_out e') = (True, Some (abs_key kv' (pa_Key a)))"
  using assms by (auto simp: KvModel_Step_def put_op_def put_out_def KVServer_Put_def abs_key_def zget_def split: option.splits if_splits)

text \<open>A put that took effect already is refused when it is sent again.\<close>

lemma pending_refused:
  assumes inv: "lin_inv L cnt s" and "length L < 2 ^ 64" and "pending cnt c args start es"
    and "KVServer_Put args (net_server (ls_net s)) = (e, kv')"
  shows "e = ErrVersion"
proof -
  let ?k = "pa_Key args" and ?kv = "net_server (ls_net s)"
  obtain m where m: "m < cnt ?k" "pa_Version args = of_nat m" using assms(3) by (auto simp: pending_def)
  have v: "ks_Version (abs_key ?kv ?k) = of_nat (cnt ?k)" "cnt ?k \<le> length L" using inv by (simp_all add: lin_inv_def)
  then have small: "cnt ?k < 2 ^ 64" using assms(2) by simp
  then have neq: "(of_nat (cnt ?k) :: 64 word) \<noteq> of_nat m" "(of_nat (cnt ?k) :: 64 word) \<noteq> 0"
    using m(1) by (simp_all add: word_of_nat_eq_iff take_bit_nat_eq_self word_of_nat_eq_0_iff nat_dvd_not_less)
  then have "e \<noteq> OK" using put_accepted(4) [of args ?kv kv' OK] assms(4) v(1) m(2) by auto
  moreover have "kv_dataVersion ?kv ?k \<noteq> None" using neq(2) v(1) by (auto simp: abs_key_def zget_def split: option.splits)
  ultimately show ?thesis using put_refused(2) [OF assms(4)] by auto
qed

lemma no_effect_answer: "put_answer first ErrVersion \<in> {ErrVersion, ErrMaybe}"
  by (simp add: put_answer_def)

definition no_key_put :: "KvInput \<Rightarrow> KvOutput \<Rightarrow> bool" where
  "no_key_put inp out \<longleftrightarrow> ki_Op inp = 1 \<and> ko_Err out = ''ErrNoKey''"

text \<open>The runs in which a client got \<open>ErrNoKey\<close> for a put, which the model does not allow.\<close>

fun pc_no_key :: "op_pc \<Rightarrow> bool" where
  "pc_no_key (Answered inp out start) = no_key_put inp out"
| "pc_no_key (Ended op) = no_key_put (op_Input op) (op_Output op)"
| "pc_no_key _ = False"

definition no_key_run :: "lin_sys \<Rightarrow> bool" where
  "no_key_run s \<longleftrightarrow> (\<exists>op\<in>set (ls_log s). no_key_put (op_Input op) (op_Output op)) \<or> (\<exists>c. pc_no_key (ls_pc s c))"

lemma no_key_run_step: "lin_step s s' \<Longrightarrow> no_key_run s \<Longrightarrow> no_key_run s'"
proof (induction rule: lin_step.induct)
  case (end_clock s c inp out start)
  then show ?case unfolding no_key_run_def by (auto simp: operation_of_def) (metis pc_no_key.simps(1))
next
  case (append_log s c op)
  then show ?case unfolding no_key_run_def by (auto simp: OpLog_Append_def) (metis pc_no_key.simps(2))
qed (auto simp: no_key_run_def; metis pc_no_key.simps)+

text \<open>A put whose execution takes effect gets its entry; \<open>err\<close> is what the client will be told.\<close>

lemma lin_inv_effect:
  assumes inv: "lin_inv L cnt s" and pc: "ls_pc s c = Putting args first start" and put: "KVServer_Put args (net_server (ls_net s)) = (OK, kv')"
    and len: "length L < 2 ^ 64" and net: "net_server net = kv'"
    and pc': "(pc' = Putting args False start \<and> err = ErrMaybe) \<or> (pc' = Answered (put_op args) (put_out err) start \<and> err \<in> {OK, ErrMaybe})"
  shows "lin_inv (L @ [(Some c, operation_of c (put_op args) (put_out err) start 0, ls_now s)]) (cnt(pa_Key args := Suc (cnt (pa_Key args))))
    (s\<lparr>ls_net := net, ls_pc := (ls_pc s)(c := pc')\<rparr>)"
proof (rule lin_inv_append [OF inv])
  have "\<not> pending cnt c args start (of_client c L)" using pending_refused [OF inv len _ put] by auto
  then have es: "of_client c L = []" and start: "start \<le> ls_now s" using inv pc unfolding lin_inv_def by (metis pc_ok.simps(3))+
  have err: "err \<in> {OK, ErrMaybe}" using pc' by auto
  note acc = put_accepted [OF put err]
  have ver: "ks_Version (abs_key (net_server (ls_net s)) k) = of_nat (cnt k)" for k using inv by (simp add: lin_inv_def)
  have "pa_Version args = of_nat (cnt (pa_Key args))" using acc(4) ver by simp
  then show "pc_ok (cnt(pa_Key args := Suc (cnt (pa_Key args)))) (ls_now s) c
      (of_client c L @ [(Some c, operation_of c (put_op args) (put_out err) start 0, ls_now s)]) (ls_pc (s\<lparr>ls_net := net, ls_pc := (ls_pc s)(c := pc')\<rparr>) c)"
    using pc' es start by (auto simp: pending_def)
  show "kv_inv (net_server (ls_net (s\<lparr>ls_net := net, ls_pc := (ls_pc s)(c := pc')\<rparr>)))"
    using inv put kv_inv_Put [of "net_server (ls_net s)" args] by (simp add: net lin_inv_def)
  show "ks_Version (abs_key (net_server (ls_net (s\<lparr>ls_net := net, ls_pc := (ls_pc s)(c := pc')\<rparr>))) k) = of_nat ((cnt(pa_Key args := Suc (cnt (pa_Key args)))) k)" for k
    using acc(3) [of k] ver [of k] by (simp add: net)
qed (use put_accepted [OF put, of err] pc' inv pc net in \<open>auto simp: operation_of_def op_key_def put_op_def lin_inv_def dest: spec [of _ c]\<close>)

text \<open>An operation that takes no effect, or reads, gets its entry with the answer.\<close>

lemma lin_inv_answer:
  assumes inv: "lin_inv L cnt s" and es: "of_client c L = []" and start: "start \<le> ls_now s"
    and step: "KvModel_Step (abs_key (net_server (ls_net s)) (ki_Key inp)) inp out = (True, Some (abs_key (net_server (ls_net s)) (ki_Key inp)))"
    and net: "net_server net = net_server (ls_net s)"
  shows "lin_inv (L @ [(Some c, operation_of c inp out start 0, ls_now s)]) cnt (s\<lparr>ls_net := net, ls_pc := (ls_pc s)(c := Answered inp out start)\<rparr>)"
  using assms by (intro lin_inv_append [OF inv]) (auto simp: operation_of_def op_key_def lin_inv_def)

lemma call_put_cases:
  assumes "call_put oc args net0 = (r, net)"
  obtains (lost) "r = None" "net = net0"
  | (executed) e kv' where "KVServer_Put args (net_server net0) = (e, kv')" "net_server net = kv'" "r = None \<or> r = Some e"
  using assms by (cases oc) (auto simp: call_put_def run_put_def split: prod.splits)

lemma put_attempt_inv:
  assumes inv: "lin_inv L cnt s" and len: "length L < 2 ^ 64" and pc: "ls_pc s c = Putting args first start"
    and call: "call_put oc args (ls_net s) = (r, net)"
    and s': "s' = s\<lparr>ls_net := net, ls_pc := (ls_pc s)(c := case r of None \<Rightarrow> Putting args False start
        | Some e \<Rightarrow> Answered (put_op args) (put_out (put_answer first e)) start)\<rparr>"
  shows "no_key_run s' \<or> (\<exists>L' cnt'. lin_inv L' cnt' s' \<and> length L' \<le> Suc (length L))"
proof -
  have ok: "start \<le> ls_now s" "of_client c L = [] \<or> \<not> first \<and> pending cnt c args start (of_client c L)"
    using inv pc unfolding lin_inv_def by (metis pc_ok.simps(3))+
  then have retry: "pc_ok cnt (ls_now s) c (of_client c L) (Putting args False start)" by auto
  from call show ?thesis
  proof (cases rule: call_put_cases)
    case lost
    then show ?thesis using lin_inv_pc [OF inv retry, of net] s' by (intro disjI2 exI [of _ L] exI [of _ cnt]) simp
  next
    case (executed e kv')
    show ?thesis
    proof (cases "e = OK")
      case True
      let ?err = "if r = None then ErrMaybe else OK"
      have "lin_inv (L @ [(Some c, operation_of c (put_op args) (put_out ?err) start 0, ls_now s)]) (cnt(pa_Key args := Suc (cnt (pa_Key args)))) s'"
        unfolding s' using executed True
        by (intro lin_inv_effect [OF inv pc _ len executed(2)]) (auto simp: put_answer_def)
      moreover have "length (L @ [(Some c, operation_of c (put_op args) (put_out ?err) start 0, ls_now s)]) \<le> Suc (length L)" by simp
      ultimately show ?thesis by blast
    next
      case False
      note ref = put_refused [OF executed(1) False]
      have same: "net_server net = net_server (ls_net s)" using executed(2) ref(1) by simp
      consider "r = None" | "r = Some ErrNoKey" "e = ErrNoKey" | "r = Some ErrVersion" "e = ErrVersion" using executed(3) ref(2) by auto
      then show ?thesis
      proof cases
        case 1
        then show ?thesis using lin_inv_pc [OF inv retry same] s' by (intro disjI2 exI [of _ L] exI [of _ cnt]) simp
      next
        case 2
        then have "pc_no_key (ls_pc s' c)" by (simp add: s' no_key_put_def put_op_def put_out_def put_answer_def)
        then show ?thesis by (auto simp: no_key_run_def)
      next
        case 3
        show ?thesis
        proof (cases "of_client c L = []")
          case True
          have "KvModel_Step (abs_key (net_server (ls_net s)) (ki_Key (put_op args))) (put_op args) (put_out (put_answer first ErrVersion)) =
              (True, Some (abs_key (net_server (ls_net s)) (ki_Key (put_op args))))"
            using ref(4) [OF no_effect_answer [of first]] ref(1) by (simp add: put_op_def)
          from lin_inv_answer [OF inv True ok(1) this same] 3(1) show ?thesis unfolding s' by (intro disjI2 exI conjI) auto
        next
          case False
          then have "pc_ok cnt (ls_now s) c (of_client c L) (Answered (put_op args) (put_out (put_answer first ErrVersion)) start)"
            using ok(2) by (auto simp: pending_def put_answer_def)
          from lin_inv_pc [OF inv this same] 3(1) show ?thesis unfolding s' by (intro disjI2 exI conjI) auto
        qed
      qed
    qed
  qed
qed

lemma lin_step_inv:
  assumes "lin_step s s'" and inv: "lin_inv L cnt s" and len: "length L < 2 ^ 64"
  shows "no_key_run s' \<or> (\<exists>L' cnt'. lin_inv L' cnt' s' \<and> length L' \<le> Suc (length L))"
  using assms(1)
proof (cases rule: lin_step.cases)
  case (tick t)
  then have "lin_inv L cnt s'" using inv by (auto simp: lin_inv_def entry_ok_def intro: pc_ok_mono)
  then show ?thesis by auto
next
  case (get_call c key)
  then have "pc_ok cnt (ls_now s) c (of_client c L) (Getting key (ls_now s))" using inv unfolding lin_inv_def by (metis order.refl pc_ok.simps(1,2))
  from lin_inv_pc [OF inv this refl] get_call show ?thesis by auto
next
  case (get_lost c key start oc)
  then show ?thesis using inv by auto
next
  case (get_reply c key start oc r)
  have es: "of_client c L = []" "start \<le> ls_now s" using inv get_reply(2) unfolding lin_inv_def by (metis pc_ok.simps(2))+
  have "r = KVServer_Get key (net_server (ls_net s))" using get_reply(3) by (cases oc) (auto simp: call_get_def)
  then have "KvModel_Step (abs_key (net_server (ls_net s)) (ki_Key (get_op key))) (get_op key) (get_out r) =
      (True, Some (abs_key (net_server (ls_net s)) (ki_Key (get_op key))))"
    by (simp add: KvModel_Step_def get_op_def get_out_def KVServer_Get_def abs_key_def zget_def split: option.splits)
  from lin_inv_answer [OF inv es this refl] get_reply(1) show ?thesis by (intro disjI2 exI conjI) auto
next
  case (put_call c args)
  then have "pc_ok cnt (ls_now s) c (of_client c L) (Putting args True (ls_now s))" using inv unfolding lin_inv_def by (metis order.refl pc_ok.simps(1,3))
  from lin_inv_pc [OF inv this refl] put_call show ?thesis by auto
next
  case (put_lost c args first start oc net)
  then show ?thesis by (intro put_attempt_inv [OF inv len put_lost(2,3)]) simp
next
  case (put_reply c args first start oc e net)
  then show ?thesis by (intro put_attempt_inv [OF inv len put_reply(2,3)]) simp
next
  case (end_clock c inp out start)
  then show ?thesis using lin_inv_end [OF inv] by (intro disjI2 exI conjI) (auto simp: revise_def)
next
  case (append_log c op)
  then show ?thesis using lin_inv_log [OF inv] by (intro disjI2 exI conjI) (auto simp: revise_def)
qed

lemma lin_run_inv:
  assumes "lin_run n s" and "n < 2 ^ 64"
  shows "no_key_run s \<or> (\<exists>L cnt. lin_inv L cnt s \<and> length L \<le> n)"
  using assms
proof (induction rule: lin_run.induct)
  case (run_start t)
  have "lin_inv [] (\<lambda>_. 0) (lin_init t)"
    by (simp add: lin_inv_def lin_init_def of_client_def key_ops_def abs_key_def KvModel_Init_def kv_inv_Make) (simp add: MakeKVServer_def)
  then show ?case by auto
next
  case (run_more n s s')
  then consider "no_key_run s" | L cnt where "lin_inv L cnt s" "length L \<le> n" by auto
  then show ?case
  proof cases
    case 1
    then show ?thesis using no_key_run_step [OF run_more.hyps(2)] by blast
  next
    case 2
    then have "length L < 2 ^ 64" using run_more.prems by simp
    from lin_step_inv [OF run_more.hyps(2) 2(1) this] 2(2) show ?thesis by fastforce
  qed
qed

section \<open>The log is linearizable\<close>

lemma partition_parts:
  assumes "key_order (partition_map op_key h) ks"
  shows "set (KvModel_Partition op_key ks h) = (\<lambda>k. filter (\<lambda>op. op_key op = k) h) ` op_key ` set h"
proof -
  have "set ks = op_key ` set h" using assms by (simp add: key_order_def dom_partition_map)
  moreover have "the (partition_map op_key h k) = filter (\<lambda>op. op_key op = k) h" if "k \<in> op_key ` set h" for k
    using that by (auto simp: partition_map_eq Let_def filter_empty_conv)
  ultimately show ?thesis by (simp add: KvModel_Partition_def sort_Strings_def Let_def)
qed

lemma points_in_real_time:
  assumes "sorted (map point L)" and "\<forall>e\<in>set L. op_Call (oper e) \<le> point e \<and> point e \<le> op_Return (oper e)"
  shows "in_real_time (map oper L)"
  using assms unfolding in_real_time_def by (induction L) fastforce+

lemma quiescent_linearizable:
  assumes inv: "lin_inv L cnt s" and quiet: "\<forall>c. ls_pc s c = Idle"
  shows "linearizable (filter (\<lambda>op. op_key op = k) (ls_log s))"
proof -
  have none: "who e = None" if "e \<in> set L" for e
  proof (rule ccontr)
    assume "who e \<noteq> None"
    then obtain c where "who e = Some c" by auto
    then have "e \<in> set (of_client c L)" using that by (simp add: of_client_def)
    moreover have "pc_ok cnt (ls_now s) c (of_client c L) Idle" using inv quiet unfolding lin_inv_def by metis
    ultimately show False by simp
  qed
  then have "mset (map oper L) = mset (ls_log s)" using inv by (simp add: lin_inv_def filter_True cong: filter_cong)
  then have "mset (key_ops k L) = mset (filter (\<lambda>op. op_key op = k) (ls_log s))" unfolding key_ops_def mset_filter by simp
  moreover have "in_real_time (map oper L)"
    using inv none by (intro points_in_real_time) (auto simp: lin_inv_def entry_ok_def)
  then have "in_real_time (key_ops k L)" unfolding key_ops_def in_real_time_def by (rule sorted_wrt_filter)
  moreover have "model_run KvModel_Init (key_ops k L) \<noteq> None" using inv by (simp add: lin_inv_def)
  ultimately show ?thesis by (auto simp: linearizable_def)
qed

text \<open>What the documentation of the checker promises: it calls a history illegal only if the operations on some key are not linearizable.\<close>

definition checker_sound :: "(operation list \<Rightarrow> CheckResult) \<Rightarrow> bool" where
  "checker_sound check \<longleftrightarrow> (\<forall>h ks. check h = Illegal \<longrightarrow> key_order (partition_map op_key h) ks \<longrightarrow>
     (\<exists>part\<in>set (KvModel_Partition op_key ks h). \<not> linearizable part))"

text \<open>
  C2: The key/value service is linearizable. Take any run of any number of clients that call
  \<open>Get\<close> and \<open>Put\<close> through their clerks, interleaved in any way, over a network that loses any
  requests and replies, of fewer than \<open>2 ^ 64\<close> steps. Once all clients are done, the operations of
  the log on each key can be put into one order that respects real time and that the checker's model
  accepts, so \<open>checkPorcupine\<close> does not fail. A put on a missing key with a version other than 0 is
  excluded: the server answers \<open>ErrNoKey\<close>, which the model rejects.
\<close>

theorem runs_are_linearizable:
  assumes "lin_run n s" and "n < 2 ^ 64" and "\<forall>c. ls_pc s c = Idle"
    and "\<forall>op\<in>set (ls_log s). \<not> no_key_put (op_Input op) (op_Output op)"
    and "checker_sound check" and "key_order (partition_map op_key (ls_log s)) ks"
  shows "(\<forall>part\<in>set (KvModel_Partition op_key ks (ls_log s)). linearizable part) \<and>
    (\<exists>r. checkPorcupine check enabled open_ok t1 t2 ts (ls_log s) an = Inr r)"
proof -
  have "\<not> no_key_run s" using assms(3,4) by (simp add: no_key_run_def)
  then obtain L cnt where inv: "lin_inv L cnt s" using lin_run_inv [OF assms(1,2)] by blast
  have parts: "\<forall>part\<in>set (KvModel_Partition op_key ks (ls_log s)). linearizable part"
    unfolding partition_parts [OF assms(6)] using quiescent_linearizable [OF inv assms(3)] by blast
  then have "check (ls_log s) \<noteq> Illegal" using assms(5,6) unfolding checker_sound_def by blast
  then show ?thesis using parts by (auto simp: checkPorcupine_def OpLog_Read_def Let_def split: prod.splits)
qed

text \<open>A checker that decides, and a run in which the reply to a put is lost while another client reads.\<close>

definition ideal_check :: "operation list \<Rightarrow> CheckResult" where
  "ideal_check h = (if \<forall>k. linearizable (filter (\<lambda>op. op_key op = k) h) then Ok else Illegal)"

lemma ideal_check_sound: "checker_sound ideal_check"
proof -
  have "\<exists>part\<in>set (KvModel_Partition op_key ks h). \<not> linearizable part"
    if ill: "ideal_check h = Illegal" and ko: "key_order (partition_map op_key h) ks" for h ks
  proof -
    obtain k where k: "\<not> linearizable (filter (\<lambda>op. op_key op = k) h)" using ill by (metis CheckResult.distinct(1) ideal_check_def)
    have "linearizable []" by (simp add: linearizable_def in_real_time_def)
    then have "k \<in> op_key ` set h" using k by (metis (mono_tags, lifting) filter_False image_eqI)
    then show ?thesis unfolding partition_parts [OF ko] using k by blast
  qed
  then show ?thesis by (simp add: checker_sound_def)
qed

definition demo_args :: PutArgs where
  "demo_args = \<lparr>pa_Key = ''k'', pa_Value = ''v'', pa_Version = 0\<rparr>"

definition demo_put :: operation where
  "demo_put = operation_of 0 (put_op demo_args) (put_out ErrMaybe) 0 0"

definition demo_get :: operation where
  "demo_get = operation_of 1 (get_op ''k'') \<lparr>ko_Value = ''v'', ko_Version = 1, ko_Err = ''OK''\<rparr> 0 0"

definition demo_end :: lin_sys where
  "demo_end = \<lparr>ls_net = \<lparr>net_server = \<lparr>kv_data = [''k'' \<mapsto> ''v''], kv_dataVersion = [''k'' \<mapsto> 1]\<rparr>, net_own = 1\<rparr>, ls_now = 0,
     ls_pc = (\<lambda>_. Idle), ls_log = [demo_get, demo_put]\<rparr>"

lemma demo_run: "lin_run 9 demo_end"
proof -
  let ?n0 = "\<lparr>net_server = MakeKVServer, net_own = 0\<rparr>"
  let ?n1 = "\<lparr>net_server = \<lparr>kv_data = [''k'' \<mapsto> ''v''], kv_dataVersion = [''k'' \<mapsto> 1]\<rparr>, net_own = 1\<rparr>"
  let ?I = "\<lambda>_ :: nat. Idle" and ?out = "\<lparr>ko_Value = ''v'', ko_Version = 1, ko_Err = ''OK''\<rparr>"
  let ?s = "\<lambda>net pc log. \<lparr>ls_net = net, ls_now = 0, ls_pc = pc, ls_log = log\<rparr>"
  have exec: "call_put ReplyLost demo_args ?n0 = (None, ?n1)" "call_put CallOK demo_args ?n1 = (Some ErrVersion, ?n1)"
    "call_get CallOK ''k'' ?n1 = Some \<lparr>gr_Value = ''v'', gr_Version = 1, gr_Err = OK\<rparr>"
    by (simp_all add: call_put_def run_put_def call_get_def demo_args_def KVServer_Put_def KVServer_install_def KVServer_Get_def MakeKVServer_def zget_def)
  have s0: "lin_run 0 (?s ?n0 ?I [])" using run_start [of 0] by (simp add: lin_init_def)
  have s1: "lin_step (?s ?n0 ?I []) (?s ?n0 (?I(0 := Putting demo_args True 0)) [])"
    using put_call [of "?s ?n0 ?I []" 0 demo_args] by simp
  have s2: "lin_step (?s ?n0 (?I(0 := Putting demo_args True 0)) []) (?s ?n1 (?I(0 := Putting demo_args False 0)) [])"
    using put_lost [of "?s ?n0 (?I(0 := Putting demo_args True 0)) []" 0 demo_args True 0 ReplyLost ?n1] exec(1) by simp
  have s3: "lin_step (?s ?n1 (?I(0 := Putting demo_args False 0)) []) (?s ?n1 (?I(0 := Putting demo_args False 0, 1 := Getting ''k'' 0)) [])"
    using get_call [of "?s ?n1 (?I(0 := Putting demo_args False 0)) []" 1 "''k''"] by simp
  have s4: "lin_step (?s ?n1 (?I(0 := Putting demo_args False 0, 1 := Getting ''k'' 0)) [])
      (?s ?n1 (?I(0 := Putting demo_args False 0, 1 := Answered (get_op ''k'') ?out 0)) [])"
    using get_reply [of "?s ?n1 (?I(0 := Putting demo_args False 0, 1 := Getting ''k'' 0)) []" 1 "''k''" 0 CallOK] exec(3)
    by (simp add: get_out_def)
  have s5: "lin_step (?s ?n1 (?I(0 := Putting demo_args False 0, 1 := Answered (get_op ''k'') ?out 0)) [])
      (?s ?n1 (?I(0 := Putting demo_args False 0, 1 := Ended demo_get)) [])"
    using end_clock [of "?s ?n1 (?I(0 := Putting demo_args False 0, 1 := Answered (get_op ''k'') ?out 0)) []" 1] by (simp add: demo_get_def)
  have s6: "lin_step (?s ?n1 (?I(0 := Putting demo_args False 0, 1 := Ended demo_get)) []) (?s ?n1 (?I(0 := Putting demo_args False 0)) [demo_get])"
    using append_log [of "?s ?n1 (?I(0 := Putting demo_args False 0, 1 := Ended demo_get)) []" 1 demo_get]
    by (simp add: OpLog_Append_def fun_upd_idem)
  have s7: "lin_step (?s ?n1 (?I(0 := Putting demo_args False 0)) [demo_get]) (?s ?n1 (?I(0 := Answered (put_op demo_args) (put_out ErrMaybe) 0)) [demo_get])"
    using put_reply [of "?s ?n1 (?I(0 := Putting demo_args False 0)) [demo_get]" 0 demo_args False 0 CallOK ErrVersion ?n1] exec(2)
    by (simp add: put_answer_def)
  have s8: "lin_step (?s ?n1 (?I(0 := Answered (put_op demo_args) (put_out ErrMaybe) 0)) [demo_get]) (?s ?n1 (?I(0 := Ended demo_put)) [demo_get])"
    using end_clock [of "?s ?n1 (?I(0 := Answered (put_op demo_args) (put_out ErrMaybe) 0)) [demo_get]" 0] by (simp add: demo_put_def)
  have s9: "lin_step (?s ?n1 (?I(0 := Ended demo_put)) [demo_get]) demo_end"
    using append_log [of "?s ?n1 (?I(0 := Ended demo_put)) [demo_get]" 0 demo_put] by (simp add: OpLog_Append_def demo_end_def fun_upd_idem)
  show ?thesis using run_more [OF run_more [OF run_more [OF run_more [OF run_more [OF run_more [OF run_more [OF run_more [OF run_more [OF s0 s1] s2] s3] s4] s5] s6] s7] s8] s9] by (simp add: eval_nat_numeral)
qed

theorem runs_are_linearizable_witness:
  "linearizable [demo_get, demo_put] \<and>
   (\<exists>r. checkPorcupine ideal_check ''always'' True 0 0 [] [demo_get, demo_put] \<lparr>annotation = mkAnnotation, finfo = None\<rparr> = Inr r)"
proof -
  have ko: "key_order (partition_map op_key (ls_log demo_end)) [''k'']"
    by (simp add: key_order_def dom_partition_map demo_end_def op_key_def demo_get_def demo_put_def operation_of_def get_op_def put_op_def demo_args_def)
  have ok: "\<forall>c. ls_pc demo_end c = Idle" "\<forall>op\<in>set (ls_log demo_end). \<not> no_key_put (op_Input op) (op_Output op)"
    by (simp_all add: demo_end_def no_key_put_def demo_get_def demo_put_def operation_of_def get_op_def put_out_def)
  have part: "[demo_get, demo_put] \<in> set (KvModel_Partition op_key [''k''] (ls_log demo_end))"
    unfolding partition_parts [OF ko] by (simp add: demo_end_def op_key_def demo_get_def demo_put_def operation_of_def get_op_def put_op_def demo_args_def)
  from runs_are_linearizable [OF demo_run _ ok ideal_check_sound ko] part show ?thesis by (auto simp: demo_end_def)
qed

end
