(* ===== verification/KV_Network.thy ===== *)
theory KV_Network
  imports KV_Clerk Tester_Sockets "HOL-Library.Monad_Syntax"
begin











section \<open>One request through the network and the socket\<close>





section \<open>Refinement\<close>


section \<open>A codec\<close>

text \<open>An encoding of the messages with the round trip that is asked of \<open>labgob\<close>.\<close>

fun put_string :: "string \<Rightarrow> bytes" where
  "put_string [] = [0]"
| "put_string (c # cs) = 1 # of_nat (of_char c) # put_string cs"

fun get_string :: "bytes \<Rightarrow> (string \<times> bytes) option" where
  "get_string (b # bs) =
     (if b = 0 then Some ([], bs)
      else case bs of [] \<Rightarrow> None | c # cs \<Rightarrow> map_option (map_prod ((#) (char_of (unat c))) id) (get_string cs))"
| "get_string [] = None"

lemma get_put_string [simp]: "get_string (put_string s @ bs) = Some (s, bs)"
proof (induction s)
  case (Cons c s)
  have "char_of (unat (of_nat (of_char c) :: 8 word)) = c" by (simp add: unsigned_of_nat char_of_take_bit_eq)
  then show ?case using Cons by simp
qed simp

fun err_byte :: "Err \<Rightarrow> 8 word" where
  "err_byte OK = 0"
| "err_byte ErrNoKey = 1"
| "err_byte ErrVersion = 2"
| "err_byte ErrMaybe = 3"
| "err_byte ErrWrongLeader = 4"
| "err_byte ErrWrongGroup = 5"
| "err_byte ErrEmpty = 6"

definition all_errs :: "Err list" where
  "all_errs = [OK, ErrNoKey, ErrVersion, ErrMaybe, ErrWrongLeader, ErrWrongGroup, ErrEmpty]"

lemma find_err [simp]: "find (\<lambda>x. err_byte e = err_byte x) all_errs = Some e"
  by (cases e) (simp_all add: all_errs_def)


lemma get_put_string_end [simp]: "get_string (put_string s) = Some (s, [])"
  using get_put_string [of s "[]"] by simp



end
