(* ===== verification/Lab_Gob.thy ===== *)
theory Lab_Gob
  imports Go_Std
begin

text \<open>
  The checks that \<open>labgob/labgob.go\<close> adds to Go's \<open>encoding/gob\<close>: \<open>checkType\<close> warns about
  lower-case field names of every type that is sent, \<open>checkDefault\<close> about decoding into a
  variable that already has a value. The encoding itself is \<open>encoding/gob\<close> and not modelled.

  Go types can be recursive, so a type is a node \<open>'t\<close> of a graph and \<open>kind\<close> tells what
  \<open>reflect\<close> reports of it. \<open>checkType\<close> recurses; its fuel is the nesting depth of the calls, and
  one more than the number of types that the argument refers to is enough. \<open>upper\<close> is the test that
  the first rune of a field name is an upper-case letter.
\<close>

section \<open>Types\<close>

datatype 't kind =
    Struct "(string \<times> 't) list"
  | Elem 't
  | MapOf 't 't
  | OtherKind

record 't gob_state =
  g_checked :: "'t set"
  g_errorCount :: nat

text \<open>The types that the body of \<open>checkType\<close> goes on to, each with whether its field name is bad.\<close>

definition type_children :: "(string \<Rightarrow> bool) \<Rightarrow> ('t \<Rightarrow> 't kind) \<Rightarrow> 't \<Rightarrow> (bool \<times> 't) list" where
  "type_children upper kind t =
     (case kind t of
        Struct fs \<Rightarrow> map (\<lambda>f. (\<not> upper (fst f), snd f)) fs
      | Elem e \<Rightarrow> [(False, e)]
      | MapOf e k \<Rightarrow> [(False, e), (False, k)]
      | OtherKind \<Rightarrow> [])"

fun check_types :: "nat \<Rightarrow> (string \<Rightarrow> bool) \<Rightarrow> ('t \<Rightarrow> 't kind) \<Rightarrow> (bool \<times> 't) list \<Rightarrow> 't gob_state \<Rightarrow> 't gob_state option" where
  "check_types n upper kind [] st = Some st"
| "check_types 0 upper kind (x # xs) st = None"
| "check_types (Suc n) upper kind ((bad, t) # ts) st =
     (let st1 = (if bad then st\<lparr>g_errorCount := g_errorCount st + 1\<rparr> else st) in
      if t \<in> g_checked st1 then check_types (Suc n) upper kind ts st1
      else
        (case check_types n upper kind (type_children upper kind t) (st1\<lparr>g_checked := insert t (g_checked st1)\<rparr>) of
           None \<Rightarrow> None
         | Some st2 \<Rightarrow> check_types (Suc n) upper kind ts st2))"

definition checkType :: "nat \<Rightarrow> (string \<Rightarrow> bool) \<Rightarrow> ('t \<Rightarrow> 't kind) \<Rightarrow> 't \<Rightarrow> 't gob_state \<Rightarrow> 't gob_state option" where
  "checkType n upper kind t st = check_types n upper kind [(False, t)] st"

section \<open>Values\<close>

text \<open>
  A value as \<open>checkDefault1\<close> sees it: a basic value carries the name of its type and whether it
  is the zero value. The state is the error count and the warnings printed so far.
\<close>

datatype gval =
    VStruct "(string \<times> gval) list"
  | VPtr "gval option"
  | VBasic string bool
  | VOther

type_synonym gob_out = "nat \<times> string list"

definition report_nonzero :: "string \<Rightarrow> string \<Rightarrow> gob_out \<Rightarrow> gob_out" where
  "report_nonzero name tname = (\<lambda>(errorCount, printed).
     (errorCount + 1, if errorCount < 1 then printed @ [if name = [] then tname else name] else printed))"

fun checkDefault1 :: "gval \<Rightarrow> nat \<Rightarrow> string \<Rightarrow> gob_out \<Rightarrow> gob_out" where
  "checkDefault1 v depth name out =
     (if depth > 3 then out
      else
        (case v of
           VStruct fs \<Rightarrow>
             foldl (\<lambda>out (fname, vv). checkDefault1 vv (depth + 1) (if name \<noteq> [] then name @ ''.'' @ fname else fname) out) out fs
         | VPtr None \<Rightarrow> out
         | VPtr (Some vv) \<Rightarrow> checkDefault1 vv (depth + 1) name out
         | VBasic tname zero \<Rightarrow> if \<not> zero then report_nonzero name tname out else out
         | VOther \<Rightarrow> out))"

declare checkDefault1.simps [simp del]

definition checkDefault :: "gval option \<Rightarrow> gob_out \<Rightarrow> gob_out" where
  "checkDefault value out = (case value of None \<Rightarrow> out | Some v \<Rightarrow> checkDefault1 v 1 [] out)"

section \<open>What checkType visits\<close>

definition refers :: "('t \<Rightarrow> 't kind) \<Rightarrow> 't \<Rightarrow> 't \<Rightarrow> bool" where
  "refers kind t u \<longleftrightarrow> u \<in> snd ` set (type_children (\<lambda>_. True) kind t)"

definition type_reach :: "('t \<Rightarrow> 't kind) \<Rightarrow> 't \<Rightarrow> 't set" where
  "type_reach kind t = {u. (refers kind)\<^sup>*\<^sup>* t u}"

definition bad_fields :: "(string \<Rightarrow> bool) \<Rightarrow> ('t \<Rightarrow> 't kind) \<Rightarrow> 't \<Rightarrow> nat" where
  "bad_fields upper kind t = (case kind t of Struct fs \<Rightarrow> length (filter (\<lambda>f. \<not> upper (fst f)) fs) | _ \<Rightarrow> 0)"

lemma refers_children: "refers kind t u \<longleftrightarrow> u \<in> snd ` set (type_children upper kind t)"
  by (auto simp: refers_def type_children_def image_image split: kind.splits)

lemma bad_children: "length (filter fst (type_children upper kind t)) = bad_fields upper kind t"
  by (auto simp: type_children_def bad_fields_def filter_map comp_def split: kind.splits)

definition visits :: "(string \<Rightarrow> bool) \<Rightarrow> ('t \<Rightarrow> 't kind) \<Rightarrow> 't set \<Rightarrow> (bool \<times> 't) list \<Rightarrow> 't gob_state \<Rightarrow> 't gob_state \<Rightarrow> bool" where
  "visits upper kind U ts st st' \<longleftrightarrow>
     g_checked st \<subseteq> g_checked st' \<and> g_checked st' \<subseteq> g_checked st \<union> U \<and> snd ` set ts \<subseteq> g_checked st' \<and>
     (\<forall>t\<in>g_checked st' - g_checked st. \<forall>u. refers kind t u \<longrightarrow> u \<in> g_checked st') \<and>
     g_errorCount st' = g_errorCount st + length (filter fst ts) + (\<Sum>t\<in>g_checked st' - g_checked st. bad_fields upper kind t)"

lemma visits_trans:
  assumes "visits upper kind U xs a b" and "visits upper kind U ys b c" and "finite U"
  shows "visits upper kind U (xs @ ys) a c"
proof -
  have sets: "g_checked a \<subseteq> g_checked b" "g_checked b \<subseteq> g_checked c"
    "g_checked b \<subseteq> g_checked a \<union> U" "g_checked c \<subseteq> g_checked b \<union> U"
    using assms(1,2) by (auto simp: visits_def)
  then have split: "g_checked c - g_checked a = (g_checked b - g_checked a) \<union> (g_checked c - g_checked b)" by blast
  have fin: "finite (g_checked b - g_checked a)" "finite (g_checked c - g_checked b)"
    using sets assms(3) by (meson Diff_subset_conv finite_subset)+
  have "(\<Sum>t\<in>g_checked c - g_checked a. bad_fields upper kind t) =
      (\<Sum>t\<in>g_checked b - g_checked a. bad_fields upper kind t) + (\<Sum>t\<in>g_checked c - g_checked b. bad_fields upper kind t)"
    unfolding split using fin sets by (intro sum.union_disjoint) auto
  then have err: "g_errorCount c = g_errorCount a + length (filter fst (xs @ ys)) + (\<Sum>t\<in>g_checked c - g_checked a. bad_fields upper kind t)"
    using assms(1,2) by (simp add: visits_def)
  have closed: "\<forall>t\<in>g_checked c - g_checked a. \<forall>u. refers kind t u \<longrightarrow> u \<in> g_checked c"
    unfolding split using assms(1,2) sets by (simp add: visits_def ball_Un subset_iff)
  have "snd ` set (xs @ ys) \<subseteq> g_checked c" using assms(1,2) sets unfolding visits_def set_append image_Un by blast
  with err closed sets show ?thesis unfolding visits_def by blast
qed

text \<open>Checking the children of a new type is checking the type.\<close>

lemma visits_one:
  assumes v: "visits upper kind U (type_children upper kind t) (st1\<lparr>g_checked := insert t (g_checked st1)\<rparr>) st2"
    and c1: "g_checked st1 = g_checked st" and e1: "g_errorCount st1 = g_errorCount st + (if bad then 1 else 0)"
    and t: "t \<notin> g_checked st" "t \<in> U" and fin: "finite U"
  shows "visits upper kind U [(bad, t)] st st2"
proof -
  let ?N = "g_checked st2 - insert t (g_checked st)"
  have grow: "insert t (g_checked st) \<subseteq> g_checked st2" and new: "g_checked st2 \<subseteq> insert t (g_checked st) \<union> U"
    and closed: "\<forall>x\<in>?N. \<forall>u. refers kind x u \<longrightarrow> u \<in> g_checked st2"
    and kids: "snd ` set (type_children upper kind t) \<subseteq> g_checked st2"
    and err: "g_errorCount st2 = g_errorCount st1 + bad_fields upper kind t + (\<Sum>x\<in>?N. bad_fields upper kind x)"
    using v c1 by (simp_all add: visits_def bad_children)
  have split: "g_checked st2 - g_checked st = insert t ?N" using grow t by blast
  have "finite ?N" using new fin by (meson Diff_subset_conv finite_subset)
  then have "(\<Sum>x\<in>g_checked st2 - g_checked st. bad_fields upper kind x) = bad_fields upper kind t + (\<Sum>x\<in>?N. bad_fields upper kind x)"
    unfolding split by simp
  moreover have "\<forall>x\<in>g_checked st2 - g_checked st. \<forall>u. refers kind x u \<longrightarrow> u \<in> g_checked st2"
  proof -
    have "u \<in> g_checked st2" if "refers kind t u" for u
      using that kids unfolding refers_children [of kind t u upper] by blast
    then show ?thesis unfolding split using closed by blast
  qed
  moreover have "g_checked st2 \<subseteq> g_checked st \<union> U" "g_checked st \<subseteq> g_checked st2" "t \<in> g_checked st2"
    using new grow t by blast+
  ultimately show ?thesis using err e1 by (simp add: visits_def)
qed

text \<open>Enough fuel: more than the number of types that are still to be checked.\<close>

lemma check_types_visits:
  assumes "finite U" and "\<forall>t\<in>U. \<forall>u. refers kind t u \<longrightarrow> u \<in> U" and "snd ` set ts \<subseteq> U"
    and "card (U - g_checked st) < n"
  shows "\<exists>st'. check_types n upper kind ts st = Some st' \<and> visits upper kind U ts st st'"
  using assms
proof (induction n upper kind ts st rule: check_types.induct)
  case (1 n upper kind st)
  then show ?case by (simp add: visits_def)
next
  case (2 upper kind x xs st)
  then show ?case by simp
next
  case (3 n upper kind bad t ts st)
  define st1 where "st1 = (if bad then st\<lparr>g_errorCount := g_errorCount st + 1\<rparr> else st)"
  have c1: "g_checked st1 = g_checked st" by (simp add: st1_def)
  have e1: "g_errorCount st1 = g_errorCount st + (if bad then 1 else 0)" by (simp add: st1_def)
  have tU: "t \<in> U" and ts: "snd ` set ts \<subseteq> U" using "3.prems"(3) by auto
  show ?case
  proof (cases "t \<in> g_checked st1")
    case True
    have "\<exists>st'. check_types (Suc n) upper kind ts st1 = Some st' \<and> visits upper kind U ts st1 st'"
      using "3.IH"(1) [OF st1_def True] "3.prems" ts c1 by simp
    then obtain st' where r: "check_types (Suc n) upper kind ts st1 = Some st'" and v: "visits upper kind U ts st1 st'" by blast
    have "visits upper kind U ((bad, t) # ts) st st'"
      using v True c1 e1 by (auto simp: visits_def)
    then show ?thesis using r True by (simp add: st1_def [symmetric] Let_def)
  next
    case False
    let ?st = "st1\<lparr>g_checked := insert t (g_checked st1)\<rparr>"
    have less: "card (U - insert t (g_checked st)) < card (U - g_checked st)"
      using False tU c1 "3.prems"(1) by (intro psubset_card_mono) auto
    have "snd ` set (type_children upper kind t) \<subseteq> U"
      using "3.prems"(2) tU refers_children [of kind t _ upper] by blast
    then obtain st2 where r2: "check_types n upper kind (type_children upper kind t) ?st = Some st2"
      and v2: "visits upper kind U (type_children upper kind t) ?st st2"
      using "3.IH"(2) [OF st1_def False] "3.prems"(1,2,4) less c1 by auto
    have grow: "insert t (g_checked st) \<subseteq> g_checked st2" using v2 c1 by (simp add: visits_def)
    then have "U - g_checked st2 \<subseteq> U - g_checked st" by blast
    then have "card (U - g_checked st2) \<le> card (U - g_checked st)" using "3.prems"(1) by (intro card_mono) auto
    then obtain st' where r3: "check_types (Suc n) upper kind ts st2 = Some st'" and v3: "visits upper kind U ts st2 st'"
      using "3.IH"(3) [OF st1_def False r2] "3.prems"(1,2,4) ts by auto
    have "visits upper kind U [(bad, t)] st st2"
      by (rule visits_one [OF v2 c1 e1]) (use False tU c1 "3.prems"(1) in auto)
    from visits_trans [OF this v3 "3.prems"(1)] have "visits upper kind U ((bad, t) # ts) st st'" by simp
    then show ?thesis using r2 r3 False by (simp add: st1_def [symmetric] Let_def)
  qed
qed

lemma type_reach_closed: "u \<in> type_reach kind t \<Longrightarrow> refers kind u w \<Longrightarrow> w \<in> type_reach kind t"
  by (auto simp: type_reach_def)

section \<open>What checkDefault reports\<close>

text \<open>The names of the basic fields within three levels that are not zero, in order.\<close>

fun nonzero_fields :: "gval \<Rightarrow> nat \<Rightarrow> string \<Rightarrow> string list" where
  "nonzero_fields v depth name =
     (if depth > 3 then []
      else
        (case v of
           VStruct fs \<Rightarrow> concat (map (\<lambda>(fname, vv). nonzero_fields vv (depth + 1) (if name \<noteq> [] then name @ ''.'' @ fname else fname)) fs)
         | VPtr None \<Rightarrow> []
         | VPtr (Some vv) \<Rightarrow> nonzero_fields vv (depth + 1) name
         | VBasic tname zero \<Rightarrow> if \<not> zero then [if name = [] then tname else name] else []
         | VOther \<Rightarrow> []))"

declare nonzero_fields.simps [simp del]

definition report_all :: "string list \<Rightarrow> gob_out \<Rightarrow> gob_out" where
  "report_all names = (\<lambda>(errorCount, printed).
     (errorCount + length names, if errorCount < 1 then printed @ take 1 names else printed))"

lemma report_all_append: "report_all ys (report_all xs out) = report_all (xs @ ys) out"
  by (cases out; cases xs) (auto simp: report_all_def)

lemma report_all_Nil [simp]: "report_all [] out = out"
  by (cases out) (simp add: report_all_def)

lemma report_fold:
  assumes "\<And>x out. x \<in> set xs \<Longrightarrow> f out x = report_all (g x) out"
  shows "foldl f out xs = report_all (concat (map g xs)) out"
  using assms by (induction xs arbitrary: out) (simp_all add: report_all_append)

lemma checkDefault1_reports: "checkDefault1 v depth name out = report_all (nonzero_fields v depth name) out"
proof (induction v depth name out rule: checkDefault1.induct)
  case (1 v depth name out)
  show ?case
  proof (cases "depth > 3")
    case True
    then show ?thesis by (simp add: checkDefault1.simps nonzero_fields.simps)
  next
    case False
    show ?thesis
    proof (cases v)
      case (VStruct fs)
      let ?nm = "\<lambda>fname. if name \<noteq> [] then name @ ''.'' @ fname else fname"
      have "foldl (\<lambda>out (fname, vv). checkDefault1 vv (depth + 1) (?nm fname) out) out fs =
          report_all (concat (map (\<lambda>(fname, vv). nonzero_fields vv (depth + 1) (?nm fname)) fs)) out"
        by (rule report_fold) (use "1.IH"(1) [OF False VStruct] in auto)
      then show ?thesis
        using False VStruct by (simp add: checkDefault1.simps [of "VStruct fs"] nonzero_fields.simps [of "VStruct fs"])
    next
      case (VPtr p)
      then show ?thesis
        using False "1.IH"(2) [OF False VPtr]
        by (cases p) (simp_all add: checkDefault1.simps [of "VPtr q" for q] nonzero_fields.simps [of "VPtr q" for q])
    next
      case (VBasic tname zero)
      then show ?thesis
        using False
        by (cases out) (auto simp: checkDefault1.simps [of "VBasic a b" for a b] nonzero_fields.simps [of "VBasic a b" for a b]
            report_nonzero_def report_all_def)
    next
      case VOther
      then show ?thesis by (simp add: checkDefault1.simps [of VOther] nonzero_fields.simps [of VOther])
    qed
  qed
qed

section \<open>Properties of the checks\<close>

text \<open>
  \<open>checkType\<close> terminates, also for recursive types, and complains exactly once about each
  field name that does not start with an upper-case letter, in all types that the argument
  refers to directly or indirectly and that were not checked before; checking a type again
  reports nothing.
\<close>

theorem checkType_complete:
  assumes fin: "finite (type_reach kind t)"
    and closed: "\<forall>x\<in>g_checked st. \<forall>u. refers kind x u \<longrightarrow> u \<in> g_checked st"
  shows "\<exists>st'. checkType (Suc (card (type_reach kind t))) upper kind t st = Some st' \<and>
    g_checked st' = g_checked st \<union> type_reach kind t \<and>
    g_errorCount st' = g_errorCount st + (\<Sum>x\<in>type_reach kind t - g_checked st. bad_fields upper kind x) \<and>
    checkType 1 upper kind t st' = Some st'"
proof -
  let ?U = "type_reach kind t"
  have "\<forall>x\<in>?U. \<forall>u. refers kind x u \<longrightarrow> u \<in> ?U" by (auto intro: type_reach_closed)
  moreover have "card (?U - g_checked st) < Suc (card ?U)" using card_mono [OF fin, of "?U - g_checked st"] by auto
  moreover have "snd ` set [(False, t)] \<subseteq> ?U" by (simp add: type_reach_def)
  ultimately obtain st' where r: "check_types (Suc (card ?U)) upper kind [(False, t)] st = Some st'"
    and v: "visits upper kind ?U [(False, t)] st st'" using check_types_visits [OF fin] by blast
  have sub: "g_checked st \<subseteq> g_checked st'" "g_checked st' \<subseteq> g_checked st \<union> ?U" "t \<in> g_checked st'" using v by (auto simp: visits_def)
  have step: "u \<in> g_checked st'" if "x \<in> g_checked st'" "refers kind x u" for x u
    using v closed that sub by (cases "x \<in> g_checked st") (auto simp: visits_def)
  have "u \<in> g_checked st'" if "(refers kind)\<^sup>*\<^sup>* t u" for u
    using that by (induction rule: rtranclp_induct) (use sub(3) step in blast)+
  then have eq: "g_checked st' = g_checked st \<union> ?U" using sub by (auto simp: type_reach_def)
  moreover have "g_checked st' - g_checked st = ?U - g_checked st" using eq by auto
  ultimately show ?thesis using r v sub(3) by (auto simp: checkType_def visits_def)
qed

text \<open>For the witness: a linked list node with a lower-case field.\<close>

definition node_kind :: "nat \<Rightarrow> nat kind" where
  "node_kind i = (if i = 0 then Struct [(''next'', 1), (''Val'', 2)] else if i = 1 then Elem 0 else OtherKind)"

lemma node_reach: "type_reach node_kind 0 = {0, 1, 2}"
proof
  have "u \<in> {0, 1, 2}" if "(refers node_kind)\<^sup>*\<^sup>* 0 u" for u
    using that by (induction rule: rtranclp_induct) (auto simp: refers_def type_children_def node_kind_def)
  then show "type_reach node_kind 0 \<subseteq> {0, 1, 2}" by (auto simp: type_reach_def)
  have "refers node_kind 0 1" "refers node_kind 0 2" by (simp_all add: refers_def type_children_def node_kind_def)
  then show "{0, 1, 2} \<subseteq> type_reach node_kind 0" by (auto simp: type_reach_def)
qed

theorem checkType_complete_witness:
  "\<exists>st'. checkType 4 (\<lambda>name. hd name \<in> {CHR ''A''..CHR ''Z''}) node_kind 0 \<lparr>g_checked = {}, g_errorCount = 0\<rparr> = Some st' \<and>
     g_errorCount st' = 1"
proof -
  let ?upper = "\<lambda>name :: string. hd name \<in> {CHR ''A''..CHR ''Z''}"
  have "bad_fields ?upper node_kind 0 = 1" "bad_fields ?upper node_kind 1 = 0" "bad_fields ?upper node_kind 2 = 0"
    by (simp_all add: bad_fields_def node_kind_def less_eq_char_def)
  moreover have "card {0, 1, 2 :: nat} = 3" by simp
  ultimately show ?thesis
    using checkType_complete [of node_kind 0 "\<lparr>g_checked = {}, g_errorCount = 0\<rparr>" ?upper]
    by (auto simp: node_reach numeral_eq_Suc)
qed

text \<open>
  \<open>checkDefault\<close> counts exactly the basic fields with a non-zero value that lie within three
  levels of structs and pointers of the variable, and prints a warning, naming the first of
  them by its path, only if nothing has been reported before.
\<close>

theorem checkDefault_reports:
  "checkDefault (Some v) (errorCount, printed) =
     (errorCount + length (nonzero_fields v 1 []),
      if errorCount < 1 then printed @ take 1 (nonzero_fields v 1 []) else printed)"
  by (simp add: checkDefault_def checkDefault1_reports report_all_def)

end
