(* ===== verification/RSM_Service.thy ===== *)
theory RSM_Service
  imports RSM_Harness Raft_Service
begin

text \<open>
  The servers of the tests of the replicated state machine (\<open>kvraft1/rsm/test.go\<close>): making the
  test, killing and restarting servers, and which servers its checks call. \<open>kill\<close> leaves the proxies
  of the killed servers in place, so \<open>countValue\<close> goes on to ask them. The reply of a call is \<open>None\<close>
  when the call fails; using a proxy whose daemon client is \<open>nil\<close> panics.
\<close>

section \<open>kvraft1/rsm/server.go: the handlers\<close>

record SubmitArgs =
  sa_Req :: rsm_req

record SubmitReply =
  sr_Err :: "Err option"
  sr_Rep :: "rsm_rep option"

definition rsmSrv_SubmitRPC :: "SubmitArgs \<Rightarrow> SubmitReply" where
  "rsmSrv_SubmitRPC args = (case rsmSrv_Submit (sa_Req args) of (err, rep) \<Rightarrow> \<lparr>sr_Err = err, sr_Rep = rep\<rparr>)"

record GetCounterReply =
  gcr_Count :: "64 word"

definition rsmSrv_GetCounterRPC :: "rsmSrv \<Rightarrow> GetCounterReply" where
  "rsmSrv_GetCounterRPC rs = \<lparr>gcr_Count = rsmSrv_GetCounter rs\<rparr>"

text \<open>A proxy whose call succeeds returns what the server's method returns.\<close>

lemma proxy_over_rpc:
  "RSMproxy_Submit True (\<lambda>req. case rsmSrv_SubmitRPC \<lparr>sa_Req = req\<rparr> of rep \<Rightarrow> (sr_Err rep, sr_Rep rep)) req = rsmSrv_Submit req"
  "RSMproxy_GetCounter True rs = gcr_Count (rsmSrv_GetCounterRPC rs)"
  by (simp_all add: RSMproxy_Submit_def rsmSrv_SubmitRPC_def RSMproxy_GetCounter_def rsmSrv_GetCounterRPC_def split: prod.split)

section \<open>kvraft1/rsm/proxy.go and kvraft1/rsm/test.go\<close>

text \<open>The clients of daemons are those of \<open>Tester_Servers\<close>.\<close>

record RSMproxy =
  px_dc :: "Persister option"

definition newRSMproxy :: "Persister option \<Rightarrow> RSMproxy" where
  "newRSMproxy d = \<lparr>px_dc = d\<rparr>"

record rsmServer =
  sv_rsm :: "RSMproxy option"

definition newRSMServer :: "RSMproxy \<Rightarrow> rsmServer" where
  "newRSMServer rsm = \<lparr>sv_rsm = Some rsm\<rparr>"

definition rsmServer_getRSM :: "rsmServer \<Rightarrow> RSMproxy option" where
  "rsmServer_getRSM rs = sv_rsm rs"

definition rsmServer_Kill :: "rsmServer \<Rightarrow> rsmServer" where
  "rsmServer_Kill rs = rs\<lparr>sv_rsm := None\<rparr>"

record rsm_ts =
  ts_test :: rsm_test
  ts_g :: grp_state
  ts_ann :: ann_state
  ts_srvs :: "rsmServer option list"

definition ServerGrp_DaemonClnt :: "nat \<Rightarrow> ServerGrp \<Rightarrow> go_exit + Persister option" where
  "ServerGrp_DaemonClnt i sg = and_then (go_index (sg_srvs sg) i) (\<lambda>s. Inr (dc s))"

definition rsm_mksrv :: "nat \<Rightarrow> rsm_ts \<Rightarrow> go_exit + rsm_ts" where
  "rsm_mksrv srv ts =
     and_then (ServerGrp_DaemonClnt srv (fst (ts_g ts))) (\<lambda>d.
     and_then (go_index (ts_srvs ts) srv) (\<lambda>_.
       Inr (ts\<lparr>ts_srvs := (ts_srvs ts)[srv := Some (newRSMServer (newRSMproxy d))]\<rparr>)))"

definition rsm_makeTest :: "string list list \<Rightarrow> (string list \<times> nat \<times> bool) list \<Rightarrow> ann_state \<Rightarrow> go_exit + rsm_ts" where
  "rsm_makeTest namess starts an =
     and_then (MakeConfig NSRV True namess starts) (\<lambda>cfg.
       case Config_Group GRP0 cfg of
         None \<Rightarrow> Inl (Panic ''nil pointer dereference'')
       | Some g \<Rightarrow> each rsm_mksrv [0..<NSRV]
           \<lparr>ts_test = makeTest, ts_g = (g, cfg_net cfg), ts_ann = an, ts_srvs = replicate NSRV None\<rparr>)"

definition rsm_kill :: "int \<Rightarrow> nat list \<Rightarrow> rsm_ts \<Rightarrow> go_exit + rsm_ts" where
  "rsm_kill t servers ts =
     and_then (ServerGrp_Kill servers (ts_g ts)) (\<lambda>g.
     and_then (AnnotateShutdown t servers (ts_ann ts)) (\<lambda>an. Inr (ts\<lparr>ts_g := g, ts_ann := an\<rparr>)))"

text \<open>\<open>starts\<close>: each server with its new end names, its address and whether its process starts.\<close>

definition rsm_restart :: "int \<Rightarrow> (nat \<times> string list \<times> nat \<times> bool) list \<Rightarrow> rsm_ts \<Rightarrow> go_exit + rsm_ts" where
  "rsm_restart t starts ts =
     and_then (ServerGrp_StartSrvs starts (ts_g ts)) (\<lambda>g.
     and_then (ServerGrp_ConnectAll g) (\<lambda>g1.
     and_then (AnnotateRestart t (map fst starts) (ts_ann ts)) (\<lambda>an.
       each rsm_mksrv (map fst starts) (ts\<lparr>ts_g := g1, ts_ann := an\<rparr>))))"

definition rsm_getLeader :: "rsm_ts \<Rightarrow> int" where
  "rsm_getLeader ts = rt_leader (ts_test ts)"

text \<open>What the body of \<open>onePartition\<close> gets from one server of the partition: \<open>None\<close> if it is not asked.\<close>

definition rsm_ask :: "(nat \<Rightarrow> (Err option \<times> rsm_rep option) option) \<Rightarrow> nat \<Rightarrow> rsm_ts \<Rightarrow> go_exit + (Err option \<times> rsm_rep option) option" where
  "rsm_ask reply index ts =
     and_then (ServerGrp_IsConnected index (fst (ts_g ts))) (\<lambda>c.
       if \<not> c then Inr None
       else and_then (go_index (ts_srvs ts) index) (\<lambda>slot.
         case slot of
           None \<Rightarrow> Inl (Panic ''nil pointer dereference'')
         | Some s \<Rightarrow>
             (case rsmServer_getRSM s of
                None \<Rightarrow> Inr None
              | Some rsm \<Rightarrow>
                  if px_dc rsm = None then Inl (Panic ''nil pointer dereference'')
                  else Inr (Some (RSMproxy_Submit (reply index \<noteq> None) (\<lambda>_. the (reply index)) Inc)))))"

definition rsm_countValue :: "(nat \<Rightarrow> rsmSrv option) \<Rightarrow> 64 word \<Rightarrow> rsm_ts \<Rightarrow> go_exit + nat" where
  "rsm_countValue reply v ts =
     each (\<lambda>index i.
       case ts_srvs ts ! index of
         None \<Rightarrow> Inl (Panic ''nil pointer dereference'')
       | Some s \<Rightarrow>
           (case sv_rsm s of
              None \<Rightarrow> Inl (Panic ''nil pointer dereference'')
            | Some rsm \<Rightarrow>
                if px_dc rsm = None then Inl (Panic ''nil pointer dereference'')
                else let c = RSMproxy_GetCounter (reply index \<noteq> None) (the (reply index)) in Inr (if c = v then i + 1 else i)))
     [0..<length (ts_srvs ts)] 0"

section \<open>The servers that are called\<close>

text \<open>Every server can be called.\<close>

definition rsm_inv :: "rsm_ts \<Rightarrow> bool" where
  "rsm_inv ts \<longleftrightarrow> length (ts_srvs ts) = NSRV \<and> length (connected (fst (ts_g ts))) = NSRV \<and> length (sg_srvs (fst (ts_g ts))) = NSRV \<and>
     (\<forall>i<NSRV. \<exists>d. ts_srvs ts ! i = Some (newRSMServer (newRSMproxy (Some d))))"

inductive rsm_reach :: "rsm_ts \<Rightarrow> bool" where
  rsm_made: "rsm_makeTest namess starts an = Inr ts \<Longrightarrow> length namess = NSRV \<Longrightarrow> \<forall>names\<in>set namess. length names = NSRV \<Longrightarrow>
    length starts = NSRV \<Longrightarrow> \<forall>(names, addr, ok)\<in>set starts. ok \<and> length names = NSRV \<Longrightarrow> rsm_reach ts"
| rsm_killed: "rsm_reach ts \<Longrightarrow> rsm_kill t servers ts = Inr ts' \<Longrightarrow> rsm_reach ts'"
| rsm_restarted: "rsm_reach ts \<Longrightarrow> rsm_restart t starts ts = Inr ts' \<Longrightarrow> \<forall>(i, names, addr, ok)\<in>set starts. ok \<Longrightarrow> rsm_reach ts'"
| rsm_disconnected: "rsm_reach ts \<Longrightarrow> disconnectLeader (ts_test ts) (ts_g ts) = Inr (l, g) \<Longrightarrow> rsm_reach (ts\<lparr>ts_g := g\<rparr>)"
| rsm_connected: "rsm_reach ts \<Longrightarrow> rsm_connect i (ts_g ts) = Inr g \<Longrightarrow> rsm_reach (ts\<lparr>ts_g := g\<rparr>)"
| rsm_submitted: "rsm_reach ts \<Longrightarrow> rsm_reach (ts\<lparr>ts_test := ts1\<rparr>)"

lemma connect_srvs: "ServerGrp_connect i to g = Inr g' \<Longrightarrow> sg_srvs (fst g') = sg_srvs (fst g)"
  by (cases g) (auto simp: ServerGrp_connect_def Let_def and_then_eq_Inr go_index_def split: if_splits)

lemma ConnectAll_spec:
  assumes "ServerGrp_ConnectAll g = Inr g'"
  shows "sg_srvs (fst g') = sg_srvs (fst g)" "length (connected (fst g')) = length (connected (fst g))"
    "\<forall>i<length (sg_srvs (fst g)). connected (fst g') ! i"
proof -
  have loop: "each ServerGrp_ConnectOne xs h = Inr g' \<Longrightarrow> sg_srvs (fst g') = sg_srvs (fst h) \<and> length (connected (fst g')) = length (connected (fst h)) \<and>
      (\<forall>i<length (connected (fst h)). i \<in> set xs \<or> connected (fst h) ! i \<longrightarrow> connected (fst g') ! i) \<and> set xs \<subseteq> {..<length (connected (fst h))}" for xs h
  proof (induction xs arbitrary: h)
    case (Cons x xs)
    then obtain k where k: "ServerGrp_ConnectOne x h = Inr k" "each ServerGrp_ConnectOne xs k = Inr g'" by (auto simp: and_then_eq_Inr)
    from k(1) have "connected (fst k) = (connected (fst h))[x := True]" "x < length (connected (fst h))" "sg_srvs (fst k) = sg_srvs (fst h)"
      using connect_flags connect_srvs by (auto simp: ServerGrp_ConnectOne_def)
    then show ?case using Cons.IH [OF k(2)] by (auto simp: nth_list_update)
  qed simp
  from loop [of "ServerGrp_all (fst g)" g] assms
  show "sg_srvs (fst g') = sg_srvs (fst g)" "length (connected (fst g')) = length (connected (fst g))" "\<forall>i<length (sg_srvs (fst g)). connected (fst g') ! i"
    by (auto simp: ServerGrp_ConnectAll_def ServerGrp_all_def)
qed

lemma StartSrvs_running:
  assumes "ServerGrp_StartSrvs starts g = Inr g'" and "\<forall>(i, names, addr, ok)\<in>set starts. ok"
  shows "length (sg_srvs (fst g')) = length (sg_srvs (fst g)) \<and> (\<forall>i. i \<in> fst ` set starts \<or> dc (sg_srvs (fst g) ! i) \<noteq> None \<longrightarrow> dc (sg_srvs (fst g') ! i) \<noteq> None)"
  using assms unfolding ServerGrp_StartSrvs_def
proof (induction starts arbitrary: g)
  case (Cons x starts)
  obtain i names addr where x: "x = (i, names, addr, True)" using Cons.prems(2) by (cases x) auto
  obtain sg net where g: "g = (sg, net)" by fastforce
  obtain b h where h: "ServerGrp_StartServer i names addr True (sg, net) = Inr (b, h)"
    "each (\<lambda>(srv, names, addr, ok) st. and_then (ServerGrp_StartServer srv names addr ok st) (\<lambda>(_, st'). Inr st')) starts h = Inr g'"
    using Cons.prems(1) by (auto simp: x g and_then_eq_Inr)
  obtain s' where s: "i < length (sg_srvs sg)" "sg_srvs (fst h) = (sg_srvs sg)[i := s']" "dc s' \<noteq> None"
    using StartServer_parts [of i names addr True sg net b "fst h" "snd h"] h(1) by auto
  have "length (sg_srvs (fst g')) = length (sg_srvs (fst h)) \<and> (\<forall>i. i \<in> fst ` set starts \<or> dc (sg_srvs (fst h) ! i) \<noteq> None \<longrightarrow> dc (sg_srvs (fst g') ! i) \<noteq> None)"
    using Cons.IH [OF h(2)] Cons.prems(2) by auto
  moreover have "dc (sg_srvs (fst h) ! j) \<noteq> None" if "j = i \<or> dc (sg_srvs sg ! j) \<noteq> None" for j
    using that s by (cases "j = i") auto
  ultimately show ?case using s(2) by (auto simp: x g)
qed simp

lemma mksrv_loop:
  assumes "each rsm_mksrv xs ts = Inr ts'" and "\<forall>i\<in>set xs. dc (sg_srvs (fst (ts_g ts)) ! i) \<noteq> None"
  shows "ts_g ts' = ts_g ts \<and> length (ts_srvs ts') = length (ts_srvs ts) \<and>
    (\<forall>i. i \<in> set xs \<or> (\<exists>d. ts_srvs ts ! i = Some (newRSMServer (newRSMproxy (Some d)))) \<longrightarrow> (\<exists>d. ts_srvs ts' ! i = Some (newRSMServer (newRSMproxy (Some d)))))"
  using assms
proof (induction xs arbitrary: ts)
  case (Cons x xs)
  then obtain u where u: "rsm_mksrv x ts = Inr u" "each rsm_mksrv xs u = Inr ts'" by (auto simp: and_then_eq_Inr)
  obtain d where d: "dc (sg_srvs (fst (ts_g ts)) ! x) = Some d" using Cons.prems(2) by auto
  then have "ts_g u = ts_g ts" "x < length (ts_srvs ts)" "ts_srvs u = (ts_srvs ts)[x := Some (newRSMServer (newRSMproxy (Some d)))]"
    using u(1) by (auto simp: rsm_mksrv_def ServerGrp_DaemonClnt_def and_then_eq_Inr go_index_def split: if_splits)
  then show ?case using Cons.IH [OF u(2)] Cons.prems(2) by (auto simp: nth_list_update split: if_splits)
qed simp

lemma disconnect_srvs: "ServerGrp_disconnect i to g = Inr g' \<Longrightarrow> sg_srvs (fst g') = sg_srvs (fst g)"
  by (cases g) (auto simp: ServerGrp_disconnect_def Let_def and_then_eq_Inr go_index_def split: if_splits)

lemma Kill_length: "ServerGrp_Kill servers g = Inr g' \<Longrightarrow> length (sg_srvs (fst g')) = length (sg_srvs (fst g))"
  unfolding ServerGrp_Kill_def
  by (erule each_inv [where P = "\<lambda>h. length (sg_srvs (fst h)) = length (sg_srvs (fst g))"])
    (auto simp: ServerGrp_ShutdownServer_def and_then_eq_Inr dest!: disconnect_srvs)

lemma rsm_made_inv:
  assumes "rsm_makeTest namess starts an = Inr ts" and "length namess = NSRV" "\<forall>names\<in>set namess. length names = NSRV"
    and "length starts = NSRV" "\<forall>(names, addr, ok)\<in>set starts. ok \<and> length names = NSRV"
  shows "rsm_inv ts"
proof -
  obtain cfg sg where cfg: "MakeConfig NSRV True namess starts = Inr cfg" "Config_Group GRP0 cfg = Some sg"
    "each rsm_mksrv [0..<NSRV] \<lparr>ts_test = makeTest, ts_g = (sg, cfg_net cfg), ts_ann = an, ts_srvs = replicate NSRV None\<rparr> = Inr ts"
    using assms(1) by (auto simp: rsm_makeTest_def and_then_eq_Inr split: option.splits)
  obtain cfg1 where run: "Config_MakeGroupStart GRP0 NSRV namess starts empty_config = Inr cfg1" "Config_Group GRP0 cfg1 = Some sg"
    using cfg(1,2) by (auto simp: MakeConfig_def and_then_eq_Inr empty_config_def Config_Group_def)
  from MakeGroupStart_spec [OF run(1) assms(2-)] run(2) have sg: "length (sg_srvs sg) = NSRV" "\<forall>i<NSRV. dc (sg_srvs sg ! i) \<noteq> None"
    by (auto simp: ServerGrp_N_def)
  then show ?thesis using mksrv_loop [OF cfg(3)] MakeConfig_flags [OF cfg(1,2)] by (simp add: rsm_inv_def)
qed

lemma rsm_restart_inv:
  assumes "rsm_restart t starts ts = Inr ts'" and "\<forall>(i, names, addr, ok)\<in>set starts. ok" and "rsm_inv ts"
  shows "rsm_inv ts'" and "\<forall>i<NSRV. connected (fst (ts_g ts')) ! i"
proof -
  obtain g g1 an where g: "ServerGrp_StartSrvs starts (ts_g ts) = Inr g" "ServerGrp_ConnectAll g = Inr g1"
    "each rsm_mksrv (map fst starts) (ts\<lparr>ts_g := g1, ts_ann := an\<rparr>) = Inr ts'"
    using assms(1) by (auto simp: rsm_restart_def and_then_eq_Inr)
  note s = StartSrvs_running [OF g(1) assms(2)] StartSrvs_flags [OF g(1)] and c = ConnectAll_spec [OF g(2)]
  have "\<forall>i\<in>set (map fst starts). dc (sg_srvs (fst (ts_g (ts\<lparr>ts_g := g1, ts_ann := an\<rparr>))) ! i) \<noteq> None" using s(1) c(1) by simp
  note m = mksrv_loop [OF g(3) this]
  show "rsm_inv ts'" using assms(3) m s c(1,2) by (simp add: rsm_inv_def)
  show "\<forall>i<NSRV. connected (fst (ts_g ts')) ! i" using assms(3) m s c(3) by (simp add: rsm_inv_def)
qed

lemma rsm_reach_inv: "rsm_reach ts \<Longrightarrow> rsm_inv ts"
proof (induction rule: rsm_reach.induct)
  case (rsm_made namess starts an ts)
  then show ?case by (rule rsm_made_inv)
next
  case (rsm_killed ts t servers ts')
  then obtain g an where "ServerGrp_Kill servers (ts_g ts) = Inr g" "ts' = ts\<lparr>ts_g := g, ts_ann := an\<rparr>"
    by (auto simp: rsm_kill_def and_then_eq_Inr)
  then show ?case using rsm_killed.IH Kill_flags [of servers "ts_g ts" g] Kill_length [of servers "ts_g ts" g] by (simp add: rsm_inv_def)
next
  case (rsm_restarted ts t starts ts')
  then show ?case using rsm_restart_inv by blast
next
  case (rsm_disconnected ts l g)
  then show ?case using disconnect_flags [of _ _ "ts_g ts" g] disconnect_srvs [of _ _ "ts_g ts" g]
    by (auto simp: rsm_inv_def disconnectLeader_def ServerGrp_DisconnectAll_def and_then_eq_Inr)
next
  case (rsm_connected ts i g)
  then show ?case using connect_flags [of _ _ "ts_g ts" g] connect_srvs [of _ _ "ts_g ts" g]
    by (auto simp: rsm_inv_def rsm_connect_def ServerGrp_ConnectOne_def)
qed (simp add: rsm_inv_def)

text \<open>The counter that \<open>countValue\<close> compares: zero for a server that does not answer.\<close>

definition seen_counter :: "rsmSrv option \<Rightarrow> 64 word" where
  "seen_counter r = (case r of None \<Rightarrow> 0 | Some rs \<Rightarrow> rsmSrv_GetCounter rs)"

lemma countValue_filter: "countValue v cs = length (filter (\<lambda>c. c = v) cs)"
proof -
  have "foldl (\<lambda>i c. if c = v then i + 1 else i) k cs = k + length (filter (\<lambda>c. c = v) cs)" for k
    by (induction cs arbitrary: k) auto
  then show ?thesis by (simp add: countValue_def)
qed

lemma rsm_countValue_eq:
  assumes "rsm_inv ts"
  shows "rsm_countValue reply v ts = Inr (countValue v (map (\<lambda>i. seen_counter (reply i)) [0..<NSRV]))"
proof -
  let ?body = "\<lambda>index i. case ts_srvs ts ! index of None \<Rightarrow> Inl (Panic ''nil pointer dereference'')
       | Some s \<Rightarrow> (case sv_rsm s of None \<Rightarrow> Inl (Panic ''nil pointer dereference'')
            | Some rsm \<Rightarrow> if px_dc rsm = None then Inl (Panic ''nil pointer dereference'')
                else let c = RSMproxy_GetCounter (reply index \<noteq> None) (the (reply index)) in Inr (if c = v then i + 1 else i))"
  have body: "?body x k = Inr (if seen_counter (reply x) = v then k + 1 else k)" if x: "x < NSRV" for x k
  proof -
    obtain d where "ts_srvs ts ! x = Some (newRSMServer (newRSMproxy (Some d)))" using assms x by (auto simp: rsm_inv_def)
    then show ?thesis
      by (cases "reply x") (simp_all add: newRSMServer_def newRSMproxy_def RSMproxy_GetCounter_def seen_counter_def Let_def)
  qed
  have "each ?body xs k = Inr (k + length (filter (\<lambda>c. c = v) (map (\<lambda>i. seen_counter (reply i)) xs)))" if "set xs \<subseteq> {..<NSRV}" for xs k
    using that
  proof (induction xs arbitrary: k)
    case (Cons x xs)
    then show ?case using body [of x k] by simp
  qed simp
  then have "each ?body [0..<NSRV] 0 = Inr (0 + length (filter (\<lambda>c. c = v) (map (\<lambda>i. seen_counter (reply i)) [0..<NSRV])))" by (simp add: lessThan_atLeast0)
  then show ?thesis using assms by (simp add: rsm_countValue_def countValue_filter rsm_inv_def)
qed

text \<open>
  C29: The checks of the tests of the replicated state machine never use a missing server. In every
  state that a test reaches by submitting, killing, restarting, disconnecting and connecting (all processes start), \<open>onePartition\<close>
  asks exactly the connected servers. \<open>countValue\<close> asks all of them, also those that were
  killed, and counts a server that does not answer as one with counter zero. A restart makes all
  servers connected, including those that were disconnected or killed and are not restarted.
\<close>

theorem rsm_test_calls:
  assumes "rsm_reach ts"
  shows "(\<forall>i<NSRV. rsm_ask reply i ts = Inr (if connected (fst (ts_g ts)) ! i then Some (case reply i of None \<Rightarrow> (None, None) | Some r \<Rightarrow> r) else None)) \<and>
    rsm_countValue counters v ts = Inr (countValue v (map (\<lambda>i. seen_counter (counters i)) [0..<NSRV])) \<and>
    (\<forall>t servers ts1 i. rsm_kill t servers ts = Inr ts1 \<and> i \<in> set servers \<and> i < NSRV \<longrightarrow> \<not> connected (fst (ts_g ts1)) ! i \<and> rsm_ask reply i ts1 = Inr None) \<and>
    (\<forall>t starts ts1. rsm_restart t starts ts = Inr ts1 \<and> (\<forall>(i, names, addr, ok)\<in>set starts. ok) \<longrightarrow>
       (\<forall>i<NSRV. connected (fst (ts_g ts1)) ! i \<and> rsm_ask reply i ts1 \<noteq> Inr None))"
proof -
  have ask: "rsm_ask reply i u = Inr (if connected (fst (ts_g u)) ! i then Some (case reply i of None \<Rightarrow> (None, None) | Some r \<Rightarrow> r) else None)"
    if u: "rsm_reach u" "i < NSRV" for i u
  proof -
    have inv: "rsm_inv u" using rsm_reach_inv [OF u(1)] .
    then obtain d where "ts_srvs u ! i = Some (newRSMServer (newRSMproxy (Some d)))" using u(2) by (auto simp: rsm_inv_def)
    then show ?thesis using inv u(2)
      by (cases "reply i") (simp_all add: rsm_ask_def ServerGrp_IsConnected_def go_index_def rsm_inv_def newRSMServer_def newRSMproxy_def rsmServer_getRSM_def RSMproxy_Submit_def)
  qed
  have inv: "rsm_inv ts" using rsm_reach_inv [OF assms] .
  have kill: "\<not> connected (fst (ts_g ts1)) ! i \<and> rsm_ask reply i ts1 = Inr None" if k: "rsm_kill t servers ts = Inr ts1" "i \<in> set servers" "i < NSRV" for t servers ts1 i
  proof -
    obtain g an where "ServerGrp_Kill servers (ts_g ts) = Inr g" "ts1 = ts\<lparr>ts_g := g, ts_ann := an\<rparr>"
      using k(1) by (auto simp: rsm_kill_def and_then_eq_Inr)
    then have "\<not> connected (fst (ts_g ts1)) ! i" using Kill_flags [of servers "ts_g ts" g] inv k(2,3) by (simp add: rsm_inv_def)
    then show ?thesis using ask [OF rsm_killed [OF assms k(1)] k(3)] by simp
  qed
  have restart: "connected (fst (ts_g ts1)) ! i \<and> rsm_ask reply i ts1 \<noteq> Inr None"
    if "rsm_restart t starts ts = Inr ts1" "\<forall>(i, names, addr, ok)\<in>set starts. ok" "i < NSRV" for t starts ts1 i
    using rsm_restart_inv(2) [OF that(1,2) inv] ask [OF rsm_restarted [OF assms that(1,2)] that(3)] that(3) by simp
  show ?thesis using ask [OF assms] rsm_countValue_eq [OF inv] kill restart by blast
qed

theorem rsm_test_calls_witness:
  "\<exists>ts. rsm_reach ts \<and> rsm_countValue (\<lambda>i. if i = 1 then None else Some (newRSMSrv i)) 0 ts = Inr 3"
proof -
  let ?names = "[[''a'', ''b'', ''c''], [''d'', ''e'', ''f''], [''g'', ''h'', ''i'']]"
  let ?starts = "[([''j'', ''k'', ''l''], 1, True), ([''m'', ''n'', ''o''], 2, True), ([''p'', ''q'', ''r''], 3, True)] :: (string list \<times> nat \<times> bool) list"
  have fresh: "fresh (end_names ?names ?starts) (cfg_net empty_config)" by (simp add: fresh_def end_names_def MakeNetwork_def empty_config_def)
  have sizes: "length ?names = NSRV" "\<forall>names\<in>set ?names. length names = NSRV" "length ?starts = NSRV" "\<forall>(names, addr, ok)\<in>set ?starts. ok \<and> length names = NSRV"
    by (simp_all add: NSRV_def)
  from MakeGroupStart_total [OF fresh sizes] obtain cfg1 where run: "Config_MakeGroupStart GRP0 NSRV ?names ?starts empty_config = Inr cfg1" by blast
  from MakeGroupStart_spec [OF run sizes] obtain sg where sg: "Config_Group GRP0 cfg1 = Some sg" "length (sg_srvs sg) = NSRV"
    by (auto simp: ServerGrp_N_def)
  have "\<exists>ts. rsm_makeTest ?names ?starts an = Inr ts" for an
  proof -
    have "\<exists>ts'. each rsm_mksrv xs ts = Inr ts'" if "set xs \<subseteq> {..<NSRV}" "length (ts_srvs ts) = NSRV" "length (sg_srvs (fst (ts_g ts))) = NSRV" for xs ts
      using that by (induction xs arbitrary: ts) (auto simp: rsm_mksrv_def ServerGrp_DaemonClnt_def)
    then show ?thesis using run sg
      by (simp add: rsm_makeTest_def MakeConfig_def empty_config_def Config_Group_def lessThan_atLeast0)
  qed
  then obtain ts where ts: "rsm_makeTest ?names ?starts \<lparr>annotation = mkAnnotation, finfo = None\<rparr> = Inr ts" by blast
  from rsm_made [OF ts sizes] have "rsm_reach ts" .
  moreover from rsm_test_calls [OF this, of "\<lambda>_. None" "\<lambda>i. if i = 1 then None else Some (newRSMSrv i)" 0]
  have "rsm_countValue (\<lambda>i. if i = 1 then None else Some (newRSMSrv i)) 0 ts = Inr 3"
    by (simp add: countValue_def seen_counter_def newRSMSrv_def rsmSrv_GetCounter_def NSRV_def eval_nat_numeral)
  ultimately show ?thesis by blast
qed

end
