(* ===== verification/Shard_Test.thy ===== *)
theory Shard_Test
  imports Shard_Config Tester_Config
begin

text \<open>
  The harness of the sharded key/value service (\<open>shardkv1/test.go\<close>): it starts and stops groups
  of servers, and asks a shard controller to add them to and remove them from the configuration.

  The controller of the repository (\<open>shardkv1/shardctrler/shardctrler.go\<close>) is a stub: \<open>Query\<close>
  returns \<open>nil\<close>. The harness is therefore modelled over any controller, given by its
  operations; the theorems state which of its documented behaviour they use. \<open>nil\<close> is \<open>None\<close>, and
  its use panics. A value \<open>None\<close> of an operation of the harness means that it does not return
  (the loop of \<open>Rebalance\<close>). The order in which \<open>Copy\<close> ranges over the groups is the argument
  \<open>ord\<close>.
\<close>

section \<open>Results of code that may not return\<close>

type_synonym 'a run = "(go_exit + 'a) option"

definition run_then :: "'a run \<Rightarrow> ('a \<Rightarrow> 'b run) \<Rightarrow> 'b run" where
  "run_then r f = (case r of None \<Rightarrow> None | Some (Inl e) \<Rightarrow> Some (Inl e) | Some (Inr a) \<Rightarrow> f a)"

lemma run_then_simps [simp]:
  "run_then None f = None" "run_then (Some (Inl e)) f = Some (Inl e)" "run_then (Some (Inr a)) f = f a"
  by (simp_all add: run_then_def)

definition returned :: "go_exit + 'a option \<Rightarrow> 'a run" where
  "returned r = (case r of Inl e \<Rightarrow> Some (Inl e) | Inr None \<Rightarrow> None | Inr (Some a) \<Rightarrow> Some (Inr a))"

section \<open>shardkv1/shardctrler/shardctrler.go\<close>

record 'c controller =
  InitController :: "'c \<Rightarrow> 'c"
  InitConfig :: "ShardConfig \<Rightarrow> 'c \<Rightarrow> 'c"
  ChangeConfigTo :: "ShardConfig \<Rightarrow> 'c \<Rightarrow> 'c"
  Query :: "'c \<Rightarrow> ShardConfig option"

text \<open>The controller of the repository.\<close>

definition ShardCtrler_InitController :: "unit \<Rightarrow> unit" where
  "ShardCtrler_InitController sck = sck"

definition ShardCtrler_InitConfig :: "ShardConfig \<Rightarrow> unit \<Rightarrow> unit" where
  "ShardCtrler_InitConfig cfg sck = sck"

definition ShardCtrler_ChangeConfigTo :: "ShardConfig \<Rightarrow> unit \<Rightarrow> unit" where
  "ShardCtrler_ChangeConfigTo new sck = sck"

definition ShardCtrler_Query :: "unit \<Rightarrow> ShardConfig option" where
  "ShardCtrler_Query sck = None"

definition ShardCtrler :: "unit controller" where
  "ShardCtrler = \<lparr>InitController = ShardCtrler_InitController, InitConfig = ShardCtrler_InitConfig, ChangeConfigTo = ShardCtrler_ChangeConfigTo, Query = ShardCtrler_Query\<rparr>"

section \<open>shardkv1/test.go\<close>

definition Gid1 :: int where
  "Gid1 = 1"

definition SHARD_NSRV :: nat where
  "SHARD_NSRV = 3"

definition newGid :: "int \<Rightarrow> int \<times> int" where
  "newGid ngid = (let gid = ngid; ngid' = ngid + 1 in (gid, ngid'))"

text \<open>The numbers of \<open>n\<close> new groups.\<close>

primrec new_groups :: "nat \<Rightarrow> int \<Rightarrow> int list \<times> int" where
  "new_groups 0 ngid = ([], ngid)"
| "new_groups (Suc n) ngid =
     (case newGid ngid of (gid, ngid1) \<Rightarrow> case new_groups n ngid1 of (gids, ngid2) \<Rightarrow> (gid # gids, ngid2))"

text \<open>The names of the ends and the processes of a group: arguments of \<open>MakeGroupStart\<close>.\<close>

type_synonym launch = "string list list \<times> (string list \<times> nat \<times> bool) list"

definition make_group :: "int \<times> launch \<Rightarrow> Config \<Rightarrow> go_exit + Config" where
  "make_group = (\<lambda>(gid, namess, starts). Config_MakeGroupStart gid SHARD_NSRV namess starts)"

definition group_names :: "int \<Rightarrow> Config \<Rightarrow> go_exit + string list" where
  "group_names gid config =
     (case Config_Group gid config of
        None \<Rightarrow> Inl (Panic ''nil pointer dereference'')
      | Some sg \<Rightarrow> Inr (ServerGrp_SrvNames sg))"

definition setupKVService :: "'c controller \<Rightarrow> launch \<Rightarrow> Config \<times> 'c \<Rightarrow> (int \<times> Config \<times> 'c) run" where
  "setupKVService K la = (\<lambda>(config, sck).
     let scfg = MakeShardConfig
     in run_then (Some (make_group (Gid1, la) config)) (\<lambda>config1.
        run_then (Some (group_names Gid1 config1)) (\<lambda>names.
        run_then (returned (ShardConfig_JoinBalance [Gid1 \<mapsto> names] [Gid1] scfg)) (\<lambda>(_, scfg').
        Some (Inr (Gid1, config1, InitConfig K scfg' sck))))))"

definition checkMember :: "'c controller \<Rightarrow> int \<Rightarrow> 'c \<Rightarrow> go_exit + bool" where
  "checkMember K gid sck =
     (case Query K sck of
        None \<Rightarrow> Inl (Panic ''nil pointer dereference'')
      | Some cfg \<Rightarrow> Inr (ShardConfig_IsMember gid cfg))"

text \<open>The configuration that \<open>join\<close> asks for.\<close>

definition join_config :: "(ShardConfig \<Rightarrow> int list) \<Rightarrow> int \<Rightarrow> string list \<Rightarrow> ShardConfig \<Rightarrow> ShardConfig run" where
  "join_config ord gid srvs cfg =
     (let newcfg = ShardConfig_Copy (ord cfg) cfg
      in run_then (returned (ShardConfig_JoinBalance [gid \<mapsto> srvs] [gid] newcfg)) (\<lambda>(ok, newcfg').
         if \<not> ok then Some (Inl (Fatal ''join: group is already present'')) else Some (Inr newcfg')))"

definition join :: "'c controller \<Rightarrow> (ShardConfig \<Rightarrow> int list) \<Rightarrow> int \<Rightarrow> string list \<Rightarrow> 'c \<Rightarrow> 'c run" where
  "join K ord gid srvs sck =
     (case Query K sck of
        None \<Rightarrow> Some (Inl (Panic ''nil pointer dereference''))
      | Some cfg \<Rightarrow> run_then (join_config ord gid srvs cfg) (\<lambda>newcfg. Some (Inr (ChangeConfigTo K newcfg sck))))"

fun joinGroups :: "'c controller \<Rightarrow> (ShardConfig \<Rightarrow> int list) \<Rightarrow> (int \<times> launch) list \<Rightarrow> Config \<times> 'c \<Rightarrow> (bool \<times> Config \<times> 'c) run" where
  "joinGroups K ord [] (config, sck) = Some (Inr (True, config, sck))"
| "joinGroups K ord ((gid, la) # gids) (config, sck) =
     run_then (Some (make_group (gid, la) config)) (\<lambda>config1.
     run_then (Some (group_names gid config1)) (\<lambda>names.
     run_then (join K ord gid names sck) (\<lambda>sck1.
     run_then (Some (checkMember K gid sck1)) (\<lambda>ok.
     if \<not> ok then Some (Inr (False, config1, sck1)) else joinGroups K ord gids (config1, sck1)))))"

definition leave_config :: "(ShardConfig \<Rightarrow> int list) \<Rightarrow> int \<Rightarrow> ShardConfig \<Rightarrow> ShardConfig run" where
  "leave_config ord gid cfg =
     (let newcfg = ShardConfig_Copy (ord cfg) cfg
      in run_then (returned (ShardConfig_LeaveBalance [gid] newcfg)) (\<lambda>(ok, newcfg').
         if \<not> ok then Some (Inl (Fatal ''leave: group is already not present'')) else Some (Inr newcfg')))"

definition leave :: "'c controller \<Rightarrow> (ShardConfig \<Rightarrow> int list) \<Rightarrow> int \<Rightarrow> 'c \<Rightarrow> 'c run" where
  "leave K ord gid sck =
     (case Query K sck of
        None \<Rightarrow> Some (Inl (Panic ''nil pointer dereference''))
      | Some cfg \<Rightarrow> run_then (leave_config ord gid cfg) (\<lambda>newcfg. Some (Inr (ChangeConfigTo K newcfg sck))))"

fun leaveGroups :: "'c controller \<Rightarrow> (ShardConfig \<Rightarrow> int list) \<Rightarrow> int list \<Rightarrow> Config \<times> 'c \<Rightarrow> (bool \<times> Config \<times> 'c) run" where
  "leaveGroups K ord [] (config, sck) = Some (Inr (True, config, sck))"
| "leaveGroups K ord (gid # gids) (config, sck) =
     run_then (leave K ord gid sck) (\<lambda>sck1.
     run_then (Some (checkMember K gid sck1)) (\<lambda>ok.
     if ok then Some (Inr (False, config, sck1))
     else run_then (Some (Config_ExitGroup gid config)) (\<lambda>config1. leaveGroups K ord gids (config1, sck1))))"

text \<open>\<open>leader\<close> is the leader that the clerk of the group \<open>gid\<close> knows, if there is such a clerk.\<close>

definition shutdownLeader :: "nat option \<Rightarrow> int \<Rightarrow> Config \<Rightarrow> go_exit + nat \<times> Config" where
  "shutdownLeader leader gid config =
     (case leader of
        None \<Rightarrow> Inl (Fatal ''shutdownLeader: no shardgrp clerk'')
      | Some l \<Rightarrow> and_then (with_groups (on_group gid (ServerGrp_ShutdownServer l)) config) (\<lambda>config'. Inr (l, config')))"

text \<open>
  \<open>gets\<close> are the calls of \<open>Get\<close> that return before the time is up: the index of the key and the
  result.
\<close>

definition check_get :: "string list \<Rightarrow> nat \<times> string \<Rightarrow> nat \<Rightarrow> go_exit + nat" where
  "check_get va = (\<lambda>(i, v) ndone. if v \<noteq> va ! i then Inl (Fatal ''Get: expected another string'') else Inr (ndone + 1))"

definition checkShutdownSharding ::
    "int \<Rightarrow> string list \<Rightarrow> string list \<Rightarrow> (nat \<times> string) list \<Rightarrow> (string list \<times> nat \<times> bool) list \<Rightarrow> Config \<Rightarrow> go_exit + Config" where
  "checkShutdownSharding down ka va gets starts config =
     and_then (with_groups (on_group down ServerGrp_Shutdown) config) (\<lambda>config1.
     and_then (each (check_get va) gets 0) (\<lambda>ndone.
     if ndone \<ge> length ka then Inl (Fatal ''expected less completions'')
     else with_groups (on_group down (ServerGrp_StartServers starts)) config1))"

section \<open>Server names\<close>

lemma Itoa_nat_no_dash: "CHR ''-'' \<notin> set (Itoa (int i))"
  using itoa_nat_digits [of "CHR ''-''" i] by (auto simp: Itoa_def)

lemma split_last_eq:
  assumes "xs @ c # ys = xs' @ c # ys'" and "c \<notin> set ys" and "c \<notin> set ys'"
  shows "xs = xs' \<and> ys = ys'"
  using assms by (auto simp: append_eq_append_conv2 Cons_eq_append_conv append_eq_Cons_conv)

text \<open>Servers of different groups have different names.\<close>

lemma ServerName_inj_pair: "ServerName g (int i) = ServerName h (int j) \<longleftrightarrow> g = h \<and> i = j"
proof
  assume "ServerName g (int i) = ServerName h (int j)"
  then have "Itoa g @ CHR ''-'' # Itoa (int i) = Itoa h @ CHR ''-'' # Itoa (int j)" by (simp add: ServerName_def)
  from split_last_eq [OF this Itoa_nat_no_dash Itoa_nat_no_dash] show "g = h \<and> i = j" by (simp add: Itoa_inj)
qed simp

definition names_of :: "int \<Rightarrow> string list" where
  "names_of gid = map (\<lambda>i. ServerName gid (int i)) [0..<SHARD_NSRV]"

lemma names_of_disjoint: "g \<noteq> h \<Longrightarrow> set (names_of g) \<inter> set (names_of h) = {}"
  by (auto simp: names_of_def ServerName_inj_pair)

section \<open>Configurations of the tests\<close>

text \<open>The configurations that a controller holds: balanced, and each group with the servers that the harness started for it.\<close>

definition shard_inv :: "ShardConfig \<Rightarrow> bool" where
  "shard_inv c \<longleftrightarrow> cfg_ok c \<and> balanced c \<and> all_assigned c \<and> (\<forall>g srvs. Groups c g = Some srvs \<longrightarrow> srvs = names_of g)"

lemma Copy_id:
  assumes "key_order (Groups cfg) ks"
  shows "ShardConfig_Copy ks cfg = cfg"
proof -
  have "foldl (\<lambda>c k. c\<lparr>Groups := (Groups c)(k \<mapsto> the (Groups cfg k))\<rparr>) c ks =
      c\<lparr>Groups := (\<lambda>k. if k \<in> set ks then Some (the (Groups cfg k)) else Groups c k)\<rparr>" for c :: ShardConfig
    by (induction ks arbitrary: c) (auto simp: fun_eq_iff)
  moreover have "(\<lambda>k. if k \<in> set ks then Some (the (Groups cfg k)) else None) = Groups cfg"
    using assms by (auto simp: key_order_def fun_eq_iff domIff)
  ultimately show ?thesis by (simp add: ShardConfig_Copy_def MakeShardConfig_def cong: if_cong)
qed

text \<open>The shards of the groups add up.\<close>

lemma counts_sum:
  assumes "cfg_ok c" and "all_assigned c"
  shows "(\<Sum>g\<in>dom (Groups c). counts_of (Shards c) g) = int NShards"
proof -
  have "(\<Sum>g\<in>dom (Groups c). count_list (Shards c) g) = NShards"
    using assms by (subst sum_count_set) (auto simp: cfg_ok_def all_assigned_def)
  then show ?thesis by (simp add: counts_of_eq count_mset flip: of_nat_sum)
qed

lemma member_iff: "ShardConfig_IsMember g c \<longleftrightarrow> g \<in> set (Shards c)"
proof -
  have "is_member g xs \<longleftrightarrow> g \<in> set xs" for xs by (induction xs) auto
  then show ?thesis by (simp add: ShardConfig_IsMember_def)
qed

lemma counts_zero: "counts_of xs g = 0 \<longleftrightarrow> g \<notin> set xs"
  by (simp add: counts_of_eq)

lemma counts_nonneg: "0 \<le> counts_of xs g"
  by (simp add: counts_of_eq)

lemma sum_ones_remove:
  assumes "finite D" and "g \<in> D"
  shows "(\<Sum>h\<in>D - {g}. 1) = int (card D) - 1"
proof -
  have "card D = Suc (card (D - {g}))" using assms by (simp only: card_Suc_Diff1)
  then show ?thesis by simp
qed

text \<open>With at most as many groups as shards, every group of a balanced configuration has a shard.\<close>

lemma few_groups_members:
  assumes inv: "cfg_ok c" "balanced c" "all_assigned c" and few: "card (dom (Groups c)) \<le> NShards" and g: "g \<in> dom (Groups c)"
  shows "g \<in> set (Shards c)"
proof (rule ccontr)
  assume "g \<notin> set (Shards c)"
  then have zero: "counts_of (Shards c) g = 0" by (simp add: counts_zero)
  let ?D = "dom (Groups c)"
  have fin: "finite ?D" using inv(1) by (simp add: cfg_ok_def)
  have "(\<Sum>h\<in>?D. counts_of (Shards c) h) = (\<Sum>h\<in>?D - {g}. counts_of (Shards c) h)" using fin g zero by (simp add: sum.remove)
  also have "\<dots> \<le> (\<Sum>h\<in>?D - {g}. 1)" using inv(2) g zero by (intro sum_mono) (force simp: balanced_def)
  also have "\<dots> = int (card ?D) - 1" by (rule sum_ones_remove [OF fin g])
  finally show False using counts_sum [OF inv(1,3)] few by simp
qed

text \<open>With as many groups as shards, no group has two.\<close>

lemma many_groups_single:
  assumes inv: "cfg_ok c" "balanced c" "all_assigned c" and many: "NShards \<le> card (dom (Groups c))" and g: "g \<in> dom (Groups c)"
  shows "counts_of (Shards c) g \<le> 1"
proof (rule ccontr)
  assume "\<not> counts_of (Shards c) g \<le> 1"
  then have two: "2 \<le> counts_of (Shards c) g" by simp
  let ?D = "dom (Groups c)"
  have fin: "finite ?D" using inv(1) by (simp add: cfg_ok_def)
  have "1 \<le> counts_of (Shards c) h" if "h \<in> ?D" for h
    using inv(2) g that two unfolding balanced_def by (metis add_le_cancel_right dual_order.trans one_add_one)
  then have "(\<Sum>h\<in>?D - {g}. 1) \<le> (\<Sum>h\<in>?D - {g}. counts_of (Shards c) h)" by (intro sum_mono) auto
  moreover have "(\<Sum>h\<in>?D. counts_of (Shards c) h) = counts_of (Shards c) g + (\<Sum>h\<in>?D - {g}. counts_of (Shards c) h)"
    using fin g by (simp add: sum.remove)
  moreover have "(\<Sum>h\<in>?D - {g}. 1) = int (card ?D) - 1" by (rule sum_ones_remove [OF fin g])
  ultimately show False using counts_sum [OF inv(1,3)] many two by simp
qed

section \<open>Joining and leaving\<close>

lemma JoinBalance_one:
  assumes ok: "cfg_ok cfg" and named: "\<forall>g srvs. Groups cfg g = Some srvs \<longrightarrow> srvs = names_of g" and new: "Groups cfg gid = None"
  shows "\<exists>cfg'. ShardConfig_JoinBalance [gid \<mapsto> names_of gid] [gid] cfg = Inr (Some (True, cfg')) \<and> shard_inv cfg' \<and>
    Groups cfg' = (Groups cfg)(gid \<mapsto> names_of gid) \<and> Num cfg' = Num cfg + 1 \<and> set (Shards cfg) \<inter> dom (Groups cfg) \<subseteq> set (Shards cfg')"
proof -
  let ?mid = "cfg\<lparr>Groups := (Groups cfg)(gid \<mapsto> names_of gid), Num := Num cfg + 1\<rparr>"
  have "\<not> shares_server cfg (names_of gid)"
  proof
    assume "shares_server cfg (names_of gid)"
    then obtain g xs s where s: "Groups cfg g = Some xs" "s \<in> set xs" "s \<in> set (names_of gid)" by (auto simp: shares_server_def ran_def)
    then have "g \<noteq> gid" "xs = names_of g" using new named by auto
    then show False using names_of_disjoint [of g gid] s(2,3) by auto
  qed
  then have "ShardConfig_Join [gid \<mapsto> names_of gid] [gid] cfg = Inr (True, ?mid)" using new by (simp add: ShardConfig_Join_def)
  moreover have mid: "cfg_ok ?mid" using ok by (simp add: cfg_ok_def)
  from Rebalance_ok [OF this] obtain cfg' where r: "ShardConfig_Rebalance ?mid = Some cfg'" "cfg_ok cfg'" "Groups cfg' = (Groups cfg)(gid \<mapsto> names_of gid)"
    "Num cfg' = Num cfg + 1" "balanced cfg'" "all_assigned cfg'" by (auto split: if_splits)
  moreover have "set (Shards cfg) \<inter> dom (Groups cfg) \<subseteq> set (Shards cfg')" using Rebalance_members [OF mid _ r(1)] by auto
  ultimately show ?thesis using named by (auto simp: ShardConfig_JoinBalance_def with_rebalance_def shard_inv_def)
qed

lemma LeaveBalance_one:
  assumes inv: "shard_inv cfg" and old: "gid \<in> dom (Groups cfg)" and others: "dom (Groups cfg) \<noteq> {gid}"
  shows "\<exists>cfg'. ShardConfig_LeaveBalance [gid] cfg = Inr (Some (True, cfg')) \<and> shard_inv cfg' \<and>
    Groups cfg' = (Groups cfg)(gid := None) \<and> Num cfg' = Num cfg + 1 \<and> set (Shards cfg) - {gid} \<subseteq> set (Shards cfg')"
proof -
  let ?mid = "cfg\<lparr>Groups := (Groups cfg)(gid := None), Num := Num cfg + 1\<rparr>"
  have "ShardConfig_Leave [gid] cfg = Inr (True, ?mid)" using old by (auto simp: ShardConfig_Leave_def)
  moreover have mid: "cfg_ok ?mid" "dom (Groups ?mid) \<noteq> {}" using inv old others by (auto simp: cfg_ok_def shard_inv_def)
  with Rebalance_ok [OF this(1)] obtain cfg' where r: "ShardConfig_Rebalance ?mid = Some cfg'" "cfg_ok cfg'" "Groups cfg' = (Groups cfg)(gid := None)"
    "Num cfg' = Num cfg + 1" "balanced cfg'" "all_assigned cfg'" by auto
  moreover have "set (Shards cfg) - {gid} \<subseteq> set (Shards cfg')"
    using Rebalance_members [OF mid r(1)] inv by (auto simp: shard_inv_def all_assigned_def)
  ultimately show ?thesis using inv by (auto simp: ShardConfig_LeaveBalance_def with_rebalance_def shard_inv_def split: if_splits)
qed

text \<open>What the harness uses of a controller, and of the order of a loop over the groups.\<close>

definition controller_ok :: "'c controller \<Rightarrow> bool" where
  "controller_ok K \<longleftrightarrow> (\<forall>c s. Query K (ChangeConfigTo K c s) = Some c \<and> Query K (InitConfig K c s) = Some c)"

definition order_ok :: "(ShardConfig \<Rightarrow> int list) \<Rightarrow> bool" where
  "order_ok ord \<longleftrightarrow> (\<forall>c. finite (dom (Groups c)) \<longrightarrow> key_order (Groups c) (ord c))"

lemma copy_ok: "order_ok ord \<Longrightarrow> shard_inv cfg \<Longrightarrow> ShardConfig_Copy (ord cfg) cfg = cfg"
  by (rule Copy_id) (simp add: order_ok_def shard_inv_def cfg_ok_def)

lemma join_config_spec:
  assumes "order_ok ord" and inv: "shard_inv cfg" and new: "Groups cfg gid = None"
  shows "\<exists>cfg'. join_config ord gid (names_of gid) cfg = Some (Inr cfg') \<and> shard_inv cfg' \<and>
    Groups cfg' = (Groups cfg)(gid \<mapsto> names_of gid) \<and> Num cfg' = Num cfg + 1 \<and> set (Shards cfg) \<subseteq> set (Shards cfg')"
proof -
  obtain cfg' where "ShardConfig_JoinBalance [gid \<mapsto> names_of gid] [gid] cfg = Inr (Some (True, cfg'))" "shard_inv cfg'"
    "Groups cfg' = (Groups cfg)(gid \<mapsto> names_of gid)" "Num cfg' = Num cfg + 1" "set (Shards cfg) \<subseteq> set (Shards cfg')"
    using JoinBalance_one [OF _ _ new] inv unfolding shard_inv_def all_assigned_def by blast
  then show ?thesis by (intro exI [of _ cfg']) (simp add: join_config_def returned_def copy_ok [OF assms(1) inv])
qed

lemma leave_config_spec:
  assumes "order_ok ord" and inv: "shard_inv cfg" and old: "gid \<in> dom (Groups cfg)" "dom (Groups cfg) \<noteq> {gid}"
  shows "\<exists>cfg'. leave_config ord gid cfg = Some (Inr cfg') \<and> shard_inv cfg' \<and>
    Groups cfg' = (Groups cfg)(gid := None) \<and> Num cfg' = Num cfg + 1 \<and> set (Shards cfg) - {gid} \<subseteq> set (Shards cfg')"
proof -
  obtain cfg' where "ShardConfig_LeaveBalance [gid] cfg = Inr (Some (True, cfg'))" "shard_inv cfg'"
    "Groups cfg' = (Groups cfg)(gid := None)" "Num cfg' = Num cfg + 1" "set (Shards cfg) - {gid} \<subseteq> set (Shards cfg')"
    using LeaveBalance_one [OF inv old] by blast
  then show ?thesis by (intro exI [of _ cfg']) (simp add: leave_config_def returned_def copy_ok [OF assms(1) inv])
qed

lemma join_spec:
  assumes "order_ok ord" and q: "Query K sck = Some cfg" and inv: "shard_inv cfg" and new: "Groups cfg gid = None"
  shows "\<exists>cfg'. join K ord gid (names_of gid) sck = Some (Inr (ChangeConfigTo K cfg' sck)) \<and> shard_inv cfg' \<and>
    Groups cfg' = (Groups cfg)(gid \<mapsto> names_of gid) \<and> Num cfg' = Num cfg + 1"
  using join_config_spec [OF assms(1) inv new] q by (auto simp: join_def)

lemma leave_spec:
  assumes "order_ok ord" and q: "Query K sck = Some cfg" and inv: "shard_inv cfg" and old: "gid \<in> dom (Groups cfg)" "dom (Groups cfg) \<noteq> {gid}"
  shows "\<exists>cfg'. leave K ord gid sck = Some (Inr (ChangeConfigTo K cfg' sck)) \<and> shard_inv cfg' \<and>
    Groups cfg' = (Groups cfg)(gid := None) \<and> Num cfg' = Num cfg + 1"
  using leave_config_spec [OF assms(1) inv old] q by (auto simp: leave_def)

section \<open>Groups of servers\<close>

text \<open>Every process of the group starts, and there are as many end names as needed.\<close>

definition launch_ok :: "launch \<Rightarrow> bool" where
  "launch_ok = (\<lambda>(namess, starts). length namess = SHARD_NSRV \<and> (\<forall>names\<in>set namess. length names = SHARD_NSRV) \<and>
     length starts = SHARD_NSRV \<and> (\<forall>(names, addr, ok)\<in>set starts. ok \<and> length names = SHARD_NSRV))"

definition group_runs :: "Config \<Rightarrow> int \<Rightarrow> bool" where
  "group_runs config gid \<longleftrightarrow> (\<exists>sg. Config_Group gid config = Some sg \<and> wf_group sg \<and> sg_gid sg = gid)"

lemma group_runs_cong: "Config_Group g config' = Config_Group g config \<Longrightarrow> group_runs config' g = group_runs config g"
  by (simp add: group_runs_def)

lemma make_group_spec:
  assumes "make_group (gid, la) config = Inr config1" and "launch_ok la"
  shows "group_names gid config1 = Inr (names_of gid) \<and> group_runs config1 gid \<and> (\<forall>g. g \<noteq> gid \<longrightarrow> Config_Group g config1 = Config_Group g config)"
proof -
  obtain namess starts where la: "la = (namess, starts)" by fastforce
  have run: "Config_MakeGroupStart gid SHARD_NSRV namess starts config = Inr config1" using assms(1) by (simp add: make_group_def la)
  have "length namess = SHARD_NSRV" "\<forall>names\<in>set namess. length names = SHARD_NSRV" "length starts = SHARD_NSRV"
    "\<forall>(names, addr, ok)\<in>set starts. ok \<and> length names = SHARD_NSRV" using assms(2) by (simp_all add: la launch_ok_def)
  from MakeGroupStart_spec [OF run this] show ?thesis by (auto simp: group_names_def group_runs_def names_of_def)
qed

definition la_names :: "launch \<Rightarrow> string list" where
  "la_names = (\<lambda>(namess, starts). end_names namess starts)"

lemma make_groups_total:
  assumes "fresh (concat (map (\<lambda>x. la_names (snd x)) gs)) (cfg_net config)" and "\<forall>x\<in>set gs. launch_ok (snd x)"
  shows "\<exists>config1. each make_group gs config = Inr config1"
  using assms
proof (induction gs arbitrary: config)
  case (Cons x gs)
  obtain gid namess starts where x: "x = (gid, namess, starts)" by (cases x)
  have "launch_ok (namess, starts)" using Cons.prems(2) by (simp add: x)
  moreover have "fresh (end_names namess starts) (cfg_net config)" using Cons.prems(1) by (simp add: x la_names_def fresh_append)
  ultimately obtain config1 where 1: "make_group x config = Inr config1"
    "dom (rn_ends (cfg_net config1)) = dom (rn_ends (cfg_net config)) \<union> set (end_names namess starts)"
    using MakeGroupStart_total [of namess starts config SHARD_NSRV gid] by (auto simp: make_group_def x launch_ok_def)
  have "fresh (concat (map (\<lambda>x. la_names (snd x)) gs)) (cfg_net config1)"
    by (rule fresh_rest [of "end_names namess starts" _ "cfg_net config"]) (use Cons.prems(1) 1(2) in \<open>simp_all add: x la_names_def\<close>)
  from Cons.IH [OF this] Cons.prems(2) 1(1) show ?case by simp
qed simp

text \<open>Joining one group after the other.\<close>

lemma joinGroups_spec:
  assumes K: "controller_ok K" and ord: "order_ok ord"
    and "each make_group gs config = Inr config1" and "\<forall>(gid, la)\<in>set gs. launch_ok la" and "distinct (map fst gs)"
    and "Query K sck = Some cfg" and "shard_inv cfg" and "\<forall>g\<in>fst ` set gs. Groups cfg g = None"
    and "card (dom (Groups cfg)) + length gs \<le> NShards"
  shows "\<exists>sck' cfg'. joinGroups K ord gs (config, sck) = Some (Inr (True, config1, sck')) \<and> Query K sck' = Some cfg' \<and> shard_inv cfg' \<and>
    Groups cfg' = (\<lambda>g. if g \<in> fst ` set gs then Some (names_of g) else Groups cfg g) \<and> Num cfg' = Num cfg + int (length gs) \<and>
    (\<forall>g. if g \<in> fst ` set gs then group_runs config1 g else Config_Group g config1 = Config_Group g config)"
  using assms(3-)
proof (induction gs arbitrary: config sck cfg)
  case (Cons x gs)
  obtain gid la where x: "x = (gid, la)" by (cases x)
  obtain config' where mk: "make_group (gid, la) config = Inr config'" and rest: "each make_group gs config' = Inr config1"
    using Cons.prems(1) by (auto simp: x and_then_eq_Inr)
  have g: "group_names gid config' = Inr (names_of gid)" "group_runs config' gid" "\<forall>h. h \<noteq> gid \<longrightarrow> Config_Group h config' = Config_Group h config"
    using make_group_spec [OF mk] Cons.prems(2) by (auto simp: x)
  have new: "Groups cfg gid = None" using Cons.prems(6) by (simp add: x)
  obtain cfg1 where j: "join K ord gid (names_of gid) sck = Some (Inr (ChangeConfigTo K cfg1 sck))" "shard_inv cfg1"
    "Groups cfg1 = (Groups cfg)(gid \<mapsto> names_of gid)" "Num cfg1 = Num cfg + 1"
    using join_spec [OF ord Cons.prems(4,5) new] by blast
  have q: "Query K (ChangeConfigTo K cfg1 sck) = Some cfg1" using K by (simp add: controller_ok_def)
  have card: "card (dom (Groups cfg1)) = Suc (card (dom (Groups cfg)))"
    using new Cons.prems(5) by (simp add: j(3) shard_inv_def cfg_ok_def card_insert_if domIff)
  have "gid \<in> set (Shards cfg1)"
  proof (rule few_groups_members)
    show "cfg_ok cfg1" "balanced cfg1" "all_assigned cfg1" using j(2) by (simp_all add: shard_inv_def)
    show "card (dom (Groups cfg1)) \<le> NShards" using Cons.prems(7) card by simp
    show "gid \<in> dom (Groups cfg1)" by (simp add: j(3))
  qed
  then have step: "joinGroups K ord (x # gs) (config, sck) = joinGroups K ord gs (config', ChangeConfigTo K cfg1 sck)"
    using mk g(1) j(1) q by (simp add: x checkMember_def member_iff)
  have "\<exists>sck' cfg'. joinGroups K ord gs (config', ChangeConfigTo K cfg1 sck) = Some (Inr (True, config1, sck')) \<and> Query K sck' = Some cfg' \<and> shard_inv cfg' \<and>
    Groups cfg' = (\<lambda>g. if g \<in> fst ` set gs then Some (names_of g) else Groups cfg1 g) \<and> Num cfg' = Num cfg1 + int (length gs) \<and>
    (\<forall>g. if g \<in> fst ` set gs then group_runs config1 g else Config_Group g config1 = Config_Group g config')"
  proof (rule Cons.IH [OF rest _ _ q j(2)])
    show "\<forall>(gid, la)\<in>set gs. launch_ok la" "distinct (map fst gs)" using Cons.prems(2,3) by simp_all
    show "\<forall>g\<in>fst ` set gs. Groups cfg1 g = None" using Cons.prems(3,6) by (auto simp: j(3) x)
    show "card (dom (Groups cfg1)) + length gs \<le> NShards" using Cons.prems(7) card by simp
  qed
  then obtain sck' cfg' where IH: "joinGroups K ord gs (config', ChangeConfigTo K cfg1 sck) = Some (Inr (True, config1, sck'))" "Query K sck' = Some cfg'" "shard_inv cfg'"
    "Groups cfg' = (\<lambda>g. if g \<in> fst ` set gs then Some (names_of g) else Groups cfg1 g)" "Num cfg' = Num cfg1 + int (length gs)"
    "\<forall>g. if g \<in> fst ` set gs then group_runs config1 g else Config_Group g config1 = Config_Group g config'" by blast
  have "Groups cfg' = (\<lambda>g. if g \<in> fst ` set (x # gs) then Some (names_of g) else Groups cfg g)"
    using Cons.prems(3) by (auto simp: IH(4) j(3) x fun_eq_iff)
  moreover have "if h \<in> fst ` set (x # gs) then group_runs config1 h else Config_Group h config1 = Config_Group h config" for h
    using IH(6) [rule_format, of h] g(2,3) Cons.prems(3) by (auto simp: x dest: group_runs_cong split: if_splits)
  ultimately show ?case using step IH(1-3,5) j(4) by (intro exI [of _ sck'] exI [of _ cfg']) simp
qed simp

lemma leaveGroups_spec:
  assumes K: "controller_ok K" and ord: "order_ok ord"
    and "distinct gids" and "\<forall>g\<in>set gids. group_runs config g" and "Query K sck = Some cfg" and "shard_inv cfg"
    and "set gids \<subset> dom (Groups cfg)"
  shows "\<exists>sck' cfg' config'. leaveGroups K ord gids (config, sck) = Some (Inr (True, config', sck')) \<and> Query K sck' = Some cfg' \<and> shard_inv cfg' \<and>
    Groups cfg' = Groups cfg |` (- set gids) \<and> Num cfg' = Num cfg + int (length gids) \<and>
    (\<forall>g. Config_Group g config' = (if g \<in> set gids then None else Config_Group g config))"
  using assms(3-)
proof (induction gids arbitrary: config sck cfg)
  case (Cons gid gids)
  obtain cfg1 where l: "leave K ord gid sck = Some (Inr (ChangeConfigTo K cfg1 sck))" "shard_inv cfg1"
    "Groups cfg1 = (Groups cfg)(gid := None)" "Num cfg1 = Num cfg + 1"
    using leave_spec [OF ord Cons.prems(3,4), of gid] Cons.prems(5) by auto
  have q: "Query K (ChangeConfigTo K cfg1 sck) = Some cfg1" using K by (simp add: controller_ok_def)
  have out: "gid \<notin> set (Shards cfg1)" using l(2,3) by (auto simp: shard_inv_def all_assigned_def)
  obtain config1 where e: "Config_ExitGroup gid config = Inr config1" "Config_Group gid config1 = None"
    "\<forall>g. g \<noteq> gid \<longrightarrow> Config_Group g config1 = Config_Group g config"
    using Cons.prems(2) ExitGroup_spec [of gid config] by (auto simp: group_runs_def)
  have step: "leaveGroups K ord (gid # gids) (config, sck) = leaveGroups K ord gids (config1, ChangeConfigTo K cfg1 sck)"
    using l(1) q out e(1) by (simp add: checkMember_def member_iff)
  have "\<forall>g\<in>set gids. group_runs config1 g" using Cons.prems(1,2) e(3) group_runs_cong by (metis distinct.simps(2) list.set_intros(2))
  moreover have "set gids \<subset> dom (Groups cfg1)" using Cons.prems(1,5) by (auto simp: l(3))
  ultimately obtain sck' cfg' config' where IH: "leaveGroups K ord gids (config1, ChangeConfigTo K cfg1 sck) = Some (Inr (True, config', sck'))" "Query K sck' = Some cfg'"
    "shard_inv cfg'" "Groups cfg' = Groups cfg1 |` (- set gids)" "Num cfg' = Num cfg1 + int (length gids)"
    "\<forall>g. Config_Group g config' = (if g \<in> set gids then None else Config_Group g config1)"
    using Cons.IH [OF _ _ q l(2), of config1] Cons.prems(1) by auto
  have "Groups cfg' = Groups cfg |` (- set (gid # gids))" by (auto simp: IH(4) l(3) restrict_map_def fun_eq_iff)
  moreover have "Config_Group g config' = (if g \<in> set (gid # gids) then None else Config_Group g config)" for g
    using IH(6) e(2,3) by auto
  ultimately show ?case using step IH(1-3,5) l(4) by (intro exI [of _ sck'] exI [of _ cfg'] exI [of _ config']) simp
qed (simp add: restrict_map_def)

section \<open>The life of a sharded service\<close>

lemma new_groups_eq: "new_groups n g = (map (\<lambda>i. g + int i) [0..<n], g + int n)"
proof (induction n arbitrary: g)
  case (Suc n)
  have "[0..<Suc n] = 0 # map Suc [0..<n]" by (simp only: upt_conv_Cons zero_less_Suc map_Suc_upt)
  then show ?case using Suc [of "g + 1"] by (simp add: newGid_def comp_def algebra_simps)
qed simp

lemma setup_spec:
  assumes "make_group (Gid1, la) config = Inr config1" and "launch_ok la"
  shows "\<exists>cfg. setupKVService K la (config, sck) = Some (Inr (Gid1, config1, InitConfig K cfg sck)) \<and> shard_inv cfg \<and>
    Groups cfg = [Gid1 \<mapsto> names_of Gid1] \<and> Num cfg = 1"
proof -
  obtain cfg where "ShardConfig_JoinBalance [Gid1 \<mapsto> names_of Gid1] [Gid1] MakeShardConfig = Inr (Some (True, cfg))" "shard_inv cfg"
    "Groups cfg = [Gid1 \<mapsto> names_of Gid1]" "Num cfg = 1"
    using JoinBalance_one [of MakeShardConfig Gid1] by (auto simp: MakeShardConfig_def cfg_ok_def)
  then show ?thesis using assms(1) make_group_spec [OF assms]
    by (intro exI [of _ cfg]) (simp add: setupKVService_def returned_def)
qed

lemma single_group_shards:
  assumes "shard_inv cfg" and "Groups cfg = [g \<mapsto> srvs]"
  shows "Shards cfg = replicate NShards g"
  using assms by (intro replicate_eqI) (auto simp: shard_inv_def cfg_ok_def all_assigned_def)

lemma service_made:
  assumes "length gids = length las" and "\<forall>la\<in>set (la0 # las). launch_ok la" and "fresh (concat (map la_names (la0 # las))) (cfg_net config)"
  shows "\<exists>config0 config1. make_group (g0, la0) config = Inr config0 \<and> each make_group (zip gids las) config0 = Inr config1"
proof -
  have "\<exists>config1. each make_group ((g0, la0) # zip gids las) config = Inr config1"
  proof (rule make_groups_total)
    have "map (\<lambda>x. la_names (snd x)) (zip gids las) = map la_names las" using assms(1) by (intro nth_equalityI) simp_all
    then show "fresh (concat (map (\<lambda>x. la_names (snd x)) ((g0, la0) # zip gids las))) (cfg_net config)" using assms(3) by simp
    show "\<forall>x\<in>set ((g0, la0) # zip gids las). launch_ok (snd x)" using assms(2) by (auto dest: set_zip_rightD)
  qed
  then show ?thesis by (auto simp: and_then_eq_Inr)
qed

text \<open>
  C17: The life of a sharded service, over any controller that answers \<open>Query\<close> with the last
  configuration it was given. \<open>setupKVService\<close> gives all shards to group 1; joining up to eleven
  new groups succeeds, each getting at least one shard; when they leave again, each is found to be
  gone and its servers are stopped, and group 1 has all shards, under a configuration number that
  counts every change. None of it panics, fails or loops for ever, provided that the processes start and
  that the random names of the client ends are new.
\<close>

theorem sharded_service_life:
  assumes K: "controller_ok K" and ord: "order_ok ord" and n: "n < NShards" "length las = n" and gids: "new_groups n (Gid1 + 1) = (gids, ngid)"
    and la: "launch_ok la0" "\<forall>la\<in>set las. launch_ok la"
    and names: "fresh (concat (map la_names (la0 # las))) (cfg_net config)"
  shows "\<exists>config0 sck1 config1 sck2 cfg config2 sck3. setupKVService K la0 (config, sck) = Some (Inr (Gid1, config0, sck1)) \<and>
    joinGroups K ord (zip gids las) (config0, sck1) = Some (Inr (True, config1, sck2)) \<and>
    Query K sck2 = Some cfg \<and> dom (Groups cfg) = insert Gid1 (set gids) \<and> (\<forall>g\<in>insert Gid1 (set gids). ShardConfig_IsMember g cfg) \<and>
    leaveGroups K ord gids (config1, sck2) = Some (Inr (True, config2, sck3)) \<and>
    Query K sck3 = Some \<lparr>Num = 1 + 2 * int n, Shards = replicate NShards Gid1, Groups = [Gid1 \<mapsto> names_of Gid1]\<rparr> \<and>
    (\<forall>g\<in>set gids. Config_Group g config2 = None) \<and> Config_Group Gid1 config2 \<noteq> None"
proof -
  have gids_eq: "gids = map (\<lambda>i. 2 + int i) [0..<n]" using gids by (simp add: new_groups_eq Gid1_def)
  have g: "length gids = n" "distinct gids" "Gid1 \<notin> set gids" by (auto simp: gids_eq Gid1_def distinct_map inj_on_def)
  have fst: "map fst (zip gids las) = gids" using n(2) g(1) by simp
  then have fst_set: "fst ` set (zip gids las) = set gids" by (metis list.set_map)
  obtain config0 config1 where mk: "make_group (Gid1, la0) config = Inr config0" and rest: "each make_group (zip gids las) config0 = Inr config1"
    using service_made [of gids las la0 config Gid1] n(2) g(1) la names by auto
  obtain cfg0 where start: "setupKVService K la0 (config, sck) = Some (Inr (Gid1, config0, InitConfig K cfg0 sck))" "shard_inv cfg0"
    "Groups cfg0 = [Gid1 \<mapsto> names_of Gid1]" "Num cfg0 = 1" using setup_spec [OF mk la(1), of K sck] by blast
  let ?sck1 = "InitConfig K cfg0 sck"
  have q0: "Query K ?sck1 = Some cfg0" using K by (simp add: controller_ok_def)
  have "\<exists>sck' cfg'. joinGroups K ord (zip gids las) (config0, ?sck1) = Some (Inr (True, config1, sck')) \<and> Query K sck' = Some cfg' \<and> shard_inv cfg' \<and>
    Groups cfg' = (\<lambda>g. if g \<in> fst ` set (zip gids las) then Some (names_of g) else Groups cfg0 g) \<and> Num cfg' = Num cfg0 + int (length (zip gids las)) \<and>
    (\<forall>g. if g \<in> fst ` set (zip gids las) then group_runs config1 g else Config_Group g config1 = Config_Group g config0)"
  proof (rule joinGroups_spec [OF K ord rest _ _ q0 start(2)])
    show "\<forall>(gid, la)\<in>set (zip gids las). launch_ok la" using la(2) by (auto dest: set_zip_rightD)
    show "distinct (map fst (zip gids las))" using fst g(2) by simp
    show "\<forall>h\<in>fst ` set (zip gids las). Groups cfg0 h = None" unfolding fst_set start(3) using g(3) by auto
    show "card (dom (Groups cfg0)) + length (zip gids las) \<le> NShards" using n g(1) by (simp add: start(3))
  qed
  then obtain sck2 cfg where j: "joinGroups K ord (zip gids las) (config0, ?sck1) = Some (Inr (True, config1, sck2))" "Query K sck2 = Some cfg" "shard_inv cfg"
    "Groups cfg = (\<lambda>g. if g \<in> set gids then Some (names_of g) else Groups cfg0 g)" "Num cfg = 1 + int n"
    "\<forall>g. if g \<in> set gids then group_runs config1 g else Config_Group g config1 = Config_Group g config0"
    using n(2) g(1) start(4) unfolding fst_set by auto
  have dom: "dom (Groups cfg) = insert Gid1 (set gids)" by (auto simp: j(4) start(3) dom_def split: if_splits)
  have members: "ShardConfig_IsMember h cfg" if "h \<in> insert Gid1 (set gids)" for h
    unfolding member_iff using j(3) n(1) g that
    by (intro few_groups_members) (simp_all add: shard_inv_def dom distinct_card)
  have "set gids \<subset> dom (Groups cfg)" using dom g(3) by auto
  then obtain sck3 cfg3 config2 where l: "leaveGroups K ord gids (config1, sck2) = Some (Inr (True, config2, sck3))" "Query K sck3 = Some cfg3" "shard_inv cfg3"
    "Groups cfg3 = Groups cfg |` (- set gids)" "Num cfg3 = Num cfg + int n"
    "\<forall>g. Config_Group g config2 = (if g \<in> set gids then None else Config_Group g config1)"
    using leaveGroups_spec [OF K ord g(2) _ j(2,3), of config1] j(6) g(1) by auto
  have groups3: "Groups cfg3 = [Gid1 \<mapsto> names_of Gid1]" using g(3) by (auto simp: l(4) j(4) start(3) restrict_map_def fun_eq_iff)
  then have "cfg3 = \<lparr>Num = 1 + 2 * int n, Shards = replicate NShards Gid1, Groups = [Gid1 \<mapsto> names_of Gid1]\<rparr>"
    using single_group_shards [OF l(3)] l(5) j(5) by simp
  moreover have "Config_Group Gid1 config2 \<noteq> None"
    using l(6) j(6) g(3) make_group_spec [OF mk la(1)] by (auto simp: group_runs_def)
  ultimately show ?thesis using start(1) j(1,2) dom members l(1,2,6)
    by (intro exI [of _ config0] exI [of _ ?sck1] exI [of _ config1] exI [of _ sck2] exI [of _ cfg] exI [of _ config2] exI [of _ sck3]) simp
qed

text \<open>A controller that keeps the configuration, and groups whose ends and processes have fresh names.\<close>

definition keeper :: "ShardConfig option controller" where
  "keeper = \<lparr>InitController = (\<lambda>s. s), InitConfig = (\<lambda>c _. Some c), ChangeConfigTo = (\<lambda>c _. Some c), Query = (\<lambda>s. s)\<rparr>"

definition sorted_groups :: "ShardConfig \<Rightarrow> int list" where
  "sorted_groups c = sorted_list_of_set (dom (Groups c))"

lemma keeper_ok: "controller_ok keeper" and sorted_groups_ok: "order_ok sorted_groups"
  by (simp_all add: controller_ok_def keeper_def order_ok_def sorted_groups_def key_order_def)

text \<open>Names of different lengths.\<close>

definition demo_names :: "nat \<Rightarrow> string list" where
  "demo_names k = map (\<lambda>i. replicate i CHR ''a'') [k..<k + 3]"

definition demo_launch :: "nat \<Rightarrow> launch" where
  "demo_launch k = (map demo_names [k, k + 3, k + 6], map (\<lambda>j. (demo_names j, j, True)) [k + 9, k + 12, k + 15])"

lemma demo_launch_ok: "launch_ok (demo_launch k)"
  by (simp add: launch_ok_def demo_launch_def demo_names_def SHARD_NSRV_def)

lemma demo_launch_names: "la_names (demo_launch k) = map (\<lambda>i. replicate i CHR ''a'') [k..<k + 18]"
proof -
  have "[k..<k + 18] = [k..<k + 3] @ [k + 3..<k + 6] @ [k + 6..<k + 9] @ [k + 9..<k + 12] @ [k + 12..<k + 15] @ [k + 15..<k + 18]"
    by (simp add: upt_add_eq_append [symmetric] upt_conv_Cons)
  then show ?thesis by (simp add: la_names_def demo_launch_def end_names_def demo_names_def add.commute)
qed

lemma demo_fresh: "fresh (map (\<lambda>i. replicate i CHR ''a'') [k..<m]) (cfg_net empty_config)"
  by (simp add: fresh_def empty_config_def MakeNetwork_def distinct_map inj_on_def)

theorem sharded_service_life_witness:
  "\<exists>config0 sck1 sck2 config1 config2 sck3. setupKVService keeper (demo_launch 0) (empty_config, None) = Some (Inr (1, config0, sck1)) \<and>
     joinGroups keeper sorted_groups [(2, demo_launch 18)] (config0, sck1) = Some (Inr (True, config1, sck2)) \<and>
     leaveGroups keeper sorted_groups [2] (config1, sck2) = Some (Inr (True, config2, sck3)) \<and>
     Query keeper sck3 = Some \<lparr>Num = 3, Shards = replicate 12 1, Groups = [1 \<mapsto> names_of 1]\<rparr>"
proof -
  have "concat (map la_names [demo_launch 0, demo_launch 18]) = map (\<lambda>i. replicate i CHR ''a'') ([0..<18] @ [18..<36])"
    by (simp only: demo_launch_names list.map concat.simps append_Nil2 map_append add_0) (simp add: eval_nat_numeral)
  also have "[0..<18] @ [18..<36] = [0..<36]" using upt_add_eq_append [of 0 18 18] by simp
  finally have names: "fresh (concat (map la_names (demo_launch 0 # [demo_launch 18]))) (cfg_net empty_config)" using demo_fresh by simp
  have "1 < NShards" "length [demo_launch 18] = 1" "new_groups 1 (Gid1 + 1) = ([2], 3)" "\<forall>la\<in>set [demo_launch 18]. launch_ok la"
    by (simp_all add: NShards_def Gid1_def newGid_def demo_launch_ok)
  from sharded_service_life [OF keeper_ok sorted_groups_ok this(1-3) demo_launch_ok this(4) names, of None]
  obtain config0 sck1 config1 sck2 config2 sck3 where
    "setupKVService keeper (demo_launch 0) (empty_config, None) = Some (Inr (1, config0, sck1))"
    "joinGroups keeper sorted_groups (zip [2] [demo_launch 18]) (config0, sck1) = Some (Inr (True, config1, sck2))"
    "leaveGroups keeper sorted_groups [2] (config1, sck2) = Some (Inr (True, config2, sck3))"
    "Query keeper sck3 = Some \<lparr>Num = 1 + 2 * int 1, Shards = replicate 12 1, Groups = [1 \<mapsto> names_of 1]\<rparr>"
    unfolding Gid1_def NShards_def by blast
  then show ?thesis by (intro exI conjI) simp_all
qed

section \<open>More groups than shards\<close>

text \<open>
  A group that joins when there already are at least as many groups as shards gets no shard.
  \<open>joinGroups\<close> then stops with the answer false, as if the group had not joined, although the
  configuration lists it and its servers run: membership is decided by owning a shard.
\<close>

theorem join_without_shard:
  assumes K: "controller_ok K" and ord: "order_ok ord" and q: "Query K sck = Some cfg" and inv: "shard_inv cfg"
    and many: "NShards \<le> card (dom (Groups cfg))" and new: "Groups cfg gid = None"
    and made: "make_group (gid, la) config = Inr config1" and la: "launch_ok la"
  shows "\<exists>sck' cfg'. joinGroups K ord ((gid, la) # rest) (config, sck) = Some (Inr (False, config1, sck')) \<and> Query K sck' = Some cfg' \<and>
    Groups cfg' gid = Some (names_of gid) \<and> Shards cfg' = Shards cfg \<and> Config_Group gid config1 \<noteq> None"
proof -
  let ?mid = "cfg\<lparr>Groups := (Groups cfg)(gid \<mapsto> names_of gid), Num := Num cfg + 1\<rparr>"
  have i: "cfg_ok cfg" "balanced cfg" "all_assigned cfg" using inv by (simp_all add: shard_inv_def)
  have out: "gid \<notin> set (Shards cfg)" using i(3) new by (auto simp: all_assigned_def)
  have le: "counts_of (Shards cfg) h \<le> 1" if "h \<in> insert gid (dom (Groups cfg))" for h
    using that many_groups_single [OF i many, of h] counts_zero [of "Shards cfg" gid] out by auto
  have "counts_of (Shards cfg) g \<le> counts_of (Shards cfg) h + 1" if "g \<in> insert gid (dom (Groups cfg))" for g h
    using le [OF that] counts_nonneg [of "Shards cfg" h] by linarith
  then have "balanced ?mid" by (auto simp: balanced_def)
  moreover have "cfg_ok ?mid" "all_assigned ?mid" using i(1,3) by (auto simp: cfg_ok_def all_assigned_def)
  ultimately have "ShardConfig_Rebalance ?mid = Some ?mid" by (intro Rebalance_stable) auto
  moreover obtain cfg' where "ShardConfig_JoinBalance [gid \<mapsto> names_of gid] [gid] cfg = Inr (Some (True, cfg'))"
    using JoinBalance_one [OF i(1) _ new] inv by (auto simp: shard_inv_def)
  ultimately have "ShardConfig_JoinBalance [gid \<mapsto> names_of gid] [gid] cfg = Inr (Some (True, ?mid))"
    using new by (auto simp: ShardConfig_JoinBalance_def with_rebalance_def ShardConfig_Join_def split: if_splits)
  then have "join K ord gid (names_of gid) sck = Some (Inr (ChangeConfigTo K ?mid sck))"
    using q by (simp add: join_def join_config_def returned_def copy_ok [OF ord inv])
  moreover have "Query K (ChangeConfigTo K ?mid sck) = Some ?mid" using K by (simp add: controller_ok_def)
  ultimately show ?thesis
    using made make_group_spec [OF made la] out
    by (intro exI [of _ "ChangeConfigTo K ?mid sck"] exI [of _ ?mid]) (auto simp: checkMember_def member_iff group_runs_def)
qed

definition full_config :: ShardConfig where
  "full_config = \<lparr>Num = 12, Shards = [1..12], Groups = map_of (map (\<lambda>g. (g, names_of g)) [1..12])\<rparr>"

lemma full_config_dom: "dom (Groups full_config) = {1..12}"
  by (simp add: full_config_def dom_map_of_conv_image_fst image_image)

lemma full_config_inv: "shard_inv full_config"
proof -
  have "Groups full_config g = Some srvs \<Longrightarrow> srvs = names_of g" for g srvs by (auto simp: full_config_def dest: map_of_SomeD)
  moreover have "counts_of (Shards full_config) g = 1" if "g \<in> dom (Groups full_config)" for g
    using that distinct_upto [of 1 12] unfolding full_config_dom distinct_count_atmost_1 by (simp add: full_config_def counts_of_eq)
  moreover have "all_assigned full_config" unfolding all_assigned_def full_config_dom by (simp add: full_config_def)
  moreover have "cfg_ok full_config" unfolding cfg_ok_def full_config_dom by (simp add: full_config_def NShards_def)
  ultimately show ?thesis by (simp add: shard_inv_def balanced_def)
qed

theorem join_without_shard_witness:
  "\<exists>config1 sck'. joinGroups keeper sorted_groups [(13, demo_launch 0)] (empty_config, Some full_config) = Some (Inr (False, config1, sck'))"
proof -
  obtain config1 where "each make_group [(13, demo_launch 0)] empty_config = Inr config1"
    using make_groups_total [of "[(13, demo_launch 0)]" empty_config] demo_fresh demo_launch_ok by (auto simp: demo_launch_names)
  then have "make_group (13, demo_launch 0) empty_config = Inr config1" by (simp add: and_then_eq_Inr)
  moreover have "13 \<notin> dom (Groups full_config)" by (simp add: full_config_dom)
  then have "Groups full_config 13 = None" by (simp add: domIff)
  moreover have "NShards \<le> card (dom (Groups full_config))" "Query keeper (Some full_config) = Some full_config"
    by (simp_all add: full_config_dom NShards_def keeper_def)
  ultimately show ?thesis using join_without_shard [OF keeper_ok sorted_groups_ok _ full_config_inv _ _ _ demo_launch_ok,
      where sck = "Some full_config" and gid = 13 and config = empty_config and rest = "[]"]
    by blast
qed

text \<open>With the controller of the repository, the first join panics.\<close>

lemma stub_join_panics: "join ShardCtrler ord gid srvs sck = Some (Inl (Panic ''nil pointer dereference''))"
  by (simp add: join_def ShardCtrler_def ShardCtrler_Query_def)

end
