(* ===== verification/Shard_Concurrent.thy ===== *)
theory Shard_Concurrent
  imports Shard_Test KV_Spawn Tester_Finish
begin

text \<open>
  The rest of the harness of the sharded service (\<open>shardkv1/test.go\<close>): making the test and its
  clients, and \<open>concurCtrler\<close>, where four controllers join and leave groups at the same time.

  A goroutine is a program counter, and one step runs it up to the next access to state that
  others use: the counter of group numbers, the tables of the tester, or the stored configuration.
  The operations of the controllers act on one stored configuration and are atomic; sleeping only
  delays a step. \<open>las g\<close> are the end names and processes drawn for group \<open>g\<close> and \<open>mem g\<close> is the
  address of the client made for the controller that adds group \<open>g\<close>; a number is given to one
  group only. The calls that a controller makes over its client are part of the controller.
\<close>

section \<open>Making the test\<close>

record shardkv_Test =
  st_partition :: bool
  st_maxraftstate :: int
  st_ngid :: int

definition MakeTestMaxRaft ::
    "int \<Rightarrow> string \<Rightarrow> bool \<Rightarrow> bool \<Rightarrow> int \<Rightarrow> string list list \<Rightarrow> (string list \<times> nat \<times> bool) list \<Rightarrow> ann_state \<Rightarrow>
     go_exit + shardkv_Test \<times> Config \<times> ann_state" where
  "MakeTestMaxRaft t part reliable partition' maxraftstate namess starts an =
     (let ts = \<lparr>st_partition = partition', st_maxraftstate = maxraftstate, st_ngid = Gid1 + 1\<rparr>
      in and_then (MakeConfig 1 reliable namess starts) (\<lambda>cfg. Inr (ts, Config_Begin cfg, AnnotateTest t part 1 an)))"

definition shardkv_MakeTest ::
    "int \<Rightarrow> string \<Rightarrow> bool \<Rightarrow> string list list \<Rightarrow> (string list \<times> nat \<times> bool) list \<Rightarrow> ann_state \<Rightarrow> go_exit + shardkv_Test \<times> Config \<times> ann_state" where
  "shardkv_MakeTest t part reliable = MakeTestMaxRaft t part reliable False (-1)"

definition MakeTestLeases ::
    "int \<Rightarrow> string \<Rightarrow> bool \<Rightarrow> string list list \<Rightarrow> (string list \<times> nat \<times> bool) list \<Rightarrow> ann_state \<Rightarrow> go_exit + shardkv_Test \<times> Config \<times> ann_state" where
  "MakeTestLeases t part reliable = MakeTestMaxRaft t part reliable True (-1)"

text \<open>A controller has a clerk of the key/value server that stores its configuration.\<close>

definition MakeShardCtrler :: "nat \<Rightarrow> Clnt \<Rightarrow> Config \<Rightarrow> kv_Clerk \<times> Config" where
  "MakeShardCtrler addr clnt config = kvsrv_MakeClerk addr clnt (ServerName GRP0 0) config"

definition makeShardCtrlerClnt :: "nat \<Rightarrow> Config \<Rightarrow> (kv_Clerk \<times> nat) \<times> Config" where
  "makeShardCtrlerClnt addr config =
     (let (sck, config') = MakeShardCtrler addr (makeClntTo None) (config\<lparr>cfg_clnts := Clnts_MakeClient addr (cfg_clnts config)\<rparr>)
      in ((sck, addr), config'))"

definition makeShardCtrler :: "nat \<Rightarrow> Config \<Rightarrow> kv_Clerk \<times> Config" where
  "makeShardCtrler addr config = (let ((ck, _), config') = makeShardCtrlerClnt addr config in (ck, config'))"

definition makeKVClerk :: "nat \<Rightarrow> Config \<Rightarrow> kv_Clerk \<times> Config" where
  "makeKVClerk addr config =
     kvsrv_MakeClerk addr (makeClntTo None) (ServerName GRP0 0) (config\<lparr>cfg_clnts := Clnts_MakeClient addr (cfg_clnts config)\<rparr>)"

text \<open>A clerk of the service has a client of its own and a controller with another.\<close>

definition shardkv_test_MakeClerk :: "nat \<Rightarrow> nat \<Rightarrow> Config \<Rightarrow> kv_Clerk shardkv_Clerk \<times> Config" where
  "shardkv_test_MakeClerk addr addr' config =
     (let (sck, config') = makeShardCtrler addr' (config\<lparr>cfg_clnts := Clnts_MakeClient addr (cfg_clnts config)\<rparr>)
      in (shardkv_MakeClerk addr sck, config'))"

definition shardkv_test_DeleteClerk :: "(nat \<Rightarrow> string list) \<Rightarrow> 'c shardkv_Clerk \<Rightarrow> Config \<Rightarrow> go_exit + Config" where
  "shardkv_test_DeleteClerk kss ck cfg =
     and_then (Clnts_DeleteClient kss (sck_clnt ck) (cfg_clnts cfg, cfg_net cfg)) (\<lambda>(clnts, net).
       Inr (cfg\<lparr>cfg_clnts := clnts, cfg_net := net\<rparr>))"

section \<open>Joining and leaving, one access at a time\<close>

record 'c ctl_test =
  ct_ngid :: int
  ct_config :: Config
  ct_store :: 'c

text \<open>
  Where a goroutine is: at the loop head, before making and initialising its controller, then in
  \<open>joinGroups\<close> (starting the group, before \<open>Query\<close>, before \<open>ChangeConfigTo\<close>, before
  \<open>checkMember\<close>), before the \<open>checkMember\<close> that follows, and in \<open>leaveGroups\<close> likewise. A
  goroutine that is \<open>Dead\<close> has ended the program; one that is \<open>Hung\<close> loops for ever.
\<close>

datatype ctl_pc =
  Select | MakeCtl int | InitCtl int
| JStart int | JQuery int | JChange int ShardConfig | JMember int
| Check int
| LQuery int | LChange int ShardConfig | LMember int | LExit int
| Stopped | Dead go_exit | Hung

definition finish_run :: "'a run \<Rightarrow> 'c ctl_test \<Rightarrow> ('a \<Rightarrow> ctl_pc \<times> 'c ctl_test) \<Rightarrow> ctl_pc \<times> 'c ctl_test" where
  "finish_run r t f = (case r of None \<Rightarrow> (Hung, t) | Some (Inl e) \<Rightarrow> (Dead e, t) | Some (Inr a) \<Rightarrow> f a)"

lemma finish_run_simps [simp]:
  "finish_run None t f = (Hung, t)" "finish_run (Some (Inl e)) t f = (Dead e, t)" "finish_run (Some (Inr a)) t f = f a"
  by (simp_all add: finish_run_def)


definition ask :: "'c controller \<Rightarrow> 'c ctl_test \<Rightarrow> ShardConfig run" where
  "ask K t = (case Query K (ct_store t) of None \<Rightarrow> Some (Inl (Panic ''nil pointer dereference'')) | Some cfg \<Rightarrow> Some (Inr cfg))"

text \<open>\<open>deposed\<close> is where the loop goes when the group is found not to have joined.\<close>

fun group_act :: "'c controller \<Rightarrow> (ShardConfig \<Rightarrow> int list) \<Rightarrow> (int \<Rightarrow> launch) \<Rightarrow> ctl_pc \<Rightarrow> ctl_pc \<Rightarrow> 'c ctl_test \<Rightarrow> ctl_pc \<times> 'c ctl_test" where
  "group_act K ord las deposed (JStart g) t =
     finish_run (Some (make_group (g, las g) (ct_config t))) t (\<lambda>config. (JQuery g, t\<lparr>ct_config := config\<rparr>))"
| "group_act K ord las deposed (JQuery g) t =
     finish_run (Some (group_names g (ct_config t))) t (\<lambda>srvs.
     finish_run (ask K t) t (\<lambda>cfg.
     finish_run (join_config ord g srvs cfg) t (\<lambda>new. (JChange g new, t))))"
| "group_act K ord las deposed (JChange g new) t = (JMember g, t\<lparr>ct_store := ChangeConfigTo K new (ct_store t)\<rparr>)"
| "group_act K ord las deposed (JMember g) t = finish_run (Some (checkMember K g (ct_store t))) t (\<lambda>_. (Check g, t))"
| "group_act K ord las deposed (Check g) t =
     finish_run (Some (checkMember K g (ct_store t))) t (\<lambda>ok. (if ok then LQuery g else deposed, t))"
| "group_act K ord las deposed (LQuery g) t =
     finish_run (ask K t) t (\<lambda>cfg. finish_run (leave_config ord g cfg) t (\<lambda>new. (LChange g new, t)))"
| "group_act K ord las deposed (LChange g new) t = (LMember g, t\<lparr>ct_store := ChangeConfigTo K new (ct_store t)\<rparr>)"
| "group_act K ord las deposed (LMember g) t =
     finish_run (Some (checkMember K g (ct_store t))) t (\<lambda>ok. (if ok then Select else LExit g, t))"
| "group_act K ord las deposed (LExit g) t =
     finish_run (Some (Config_ExitGroup g (ct_config t))) t (\<lambda>config. (Select, t\<lparr>ct_config := config\<rparr>))"
| "group_act K ord las deposed pc t = (pc, t)"

text \<open>Without interruption, these steps are \<open>joinGroups\<close> and \<open>leaveGroups\<close> for one group.\<close>

lemma solo_joinGroups:
  assumes "joinGroups K ord [(g, las g)] (ct_config t, ct_store t) = Some (Inr (ok, config', s'))"
  shows "((\<lambda>(pc, t). group_act K ord las deposed pc t) ^^ 4) (JStart g, t) = (Check g, t\<lparr>ct_config := config', ct_store := s'\<rparr>)"
  using assms
  by (auto simp: eval_nat_numeral join_def ask_def checkMember_def run_then_def
      split: sum.splits option.splits if_splits prod.splits)

lemma solo_leaveGroups:
  assumes "leaveGroups K ord [g] (ct_config t, ct_store t) = Some (Inr (True, config', s'))"
  shows "((\<lambda>(pc, t). group_act K ord las deposed pc t) ^^ 4) (LQuery g, t) = (Select, t\<lparr>ct_config := config', ct_store := s'\<rparr>)"
  using assms
  by (auto simp: eval_nat_numeral leave_def ask_def checkMember_def run_then_def
      split: sum.splits option.splits if_splits prod.splits)

section \<open>concurCtrler\<close>


text \<open>
  \<open>cc_sends\<close> is \<open>None\<close> while the main goroutine sleeps, and then the number of stop messages it
  has yet to send. A message is taken at a loop head; with a sender waiting, \<open>select\<close> does not take
  its default branch.
\<close>

record 'c concur =
  cc_t :: "'c ctl_test"
  cc_pcs :: "ctl_pc list"
  cc_sends :: "nat option"





text \<open>When all messages are sent, the main goroutine checks the keys.\<close>

definition concur_checks :: "'s IKVClerk \<Rightarrow> string list \<Rightarrow> string list \<Rightarrow> 'c concur \<Rightarrow> 's kv_test \<Rightarrow> (go_exit + 's kv_test) option" where
  "concur_checks ck ka va s st = (if cc_sends s = Some 0 then spread_checks ck (zip ka va) st else None)"


section \<open>What the goroutines rely on\<close>









text \<open>What a step for group \<open>h\<close> may change.\<close>

definition changes_only :: "int \<Rightarrow> ShardConfig \<times> Config \<Rightarrow> ShardConfig \<times> Config \<Rightarrow> bool" where
  "changes_only h = (\<lambda>(cfg, config) (cfg', config').
     (cfg' = cfg \<or> Num cfg' = Num cfg + 1 \<and> (\<forall>g. g \<noteq> h \<longrightarrow> Groups cfg' g = Groups cfg g) \<and> set (Shards cfg) - {h} \<subseteq> set (Shards cfg')) \<and>
     (\<forall>g. g \<noteq> h \<longrightarrow> Config_Group g config' = Config_Group g config))"


lemma changes_only_refl [simp]: "changes_only h x x"
  by (simp add: changes_only_def split: prod.split)




section \<open>One step of a goroutine\<close>
















section \<open>All goroutines together\<close>














section \<open>Stopping\<close>






















end
