(* ===== verification/Shard_Partition.thy ===== *)
theory Shard_Partition
  imports Shard_Concurrent
begin

text \<open>
  \<open>partitionCtrler\<close> of \<open>shardkv1/test.go\<close>: one goroutine joins and leaves groups; the main goroutine
  shuts down a group, cuts the goroutine off, and lets a second controller finish what the first
  left. The steps of the goroutine are those of \<open>Shard_Concurrent\<close>; a call on a controller that is
  cut off does not return. Waiting only delays a step. \<open>half new s\<close> is the stored configuration that
  a change to \<open>new\<close> leaves behind when its controller is cut off during the change.

  \<open>state\<close> and \<open>ngid\<close> are variables that both goroutines use without a lock; the goroutine sets
  them together when it takes a new number.
\<close>

section \<open>The goroutine\<close>







section \<open>The main goroutine\<close>






text \<open>The end of the test: the keys are checked and both clients deleted.\<close>

definition part_end ::
    "'s IKVClerk \<Rightarrow> string list \<Rightarrow> string list \<Rightarrow> (nat \<Rightarrow> string list) \<Rightarrow> nat \<Rightarrow> nat \<Rightarrow> Config \<Rightarrow> 's kv_test \<Rightarrow> (go_exit + Config \<times> 's kv_test) option" where
  "part_end ck ka va kss addr addr0 config st =
     run_then (spread_checks ck (zip ka va) st) (\<lambda>st'.
     run_then (Some (Clnts_DeleteClient kss addr (cfg_clnts config, cfg_net config))) (\<lambda>(clnts, net).
     run_then (Some (Clnts_DeleteClient kss addr0 (clnts, net))) (\<lambda>(clnts', net').
     Some (Inr (config\<lparr>cfg_clnts := clnts', cfg_net := net'\<rparr>, st')))))"


section \<open>What recovery relies on\<close>









section \<open>The loop of the goroutine\<close>




section \<open>Shutting down, restarting and the clients\<close>









section \<open>Recovery\<close>











end
