(* ===== verification/Shard_History.thy ===== *)
theory Shard_History
  imports Shard_Config
begin

text \<open>
  The configurations that the operations of \<open>shardcfg.go\<close> can produce, in any order and with any
  arguments, starting from \<open>MakeShardConfig\<close>: the invariants that the type \<open>ShardConfig\<close> promises
  to its users. Also \<open>String\<close> and \<open>FromString\<close>, over a JSON codec.
\<close>

section \<open>Text form\<close>

text \<open>\<open>None\<close> is an error of \<open>encoding/json\<close>.\<close>

definition ShardConfig_String :: "(ShardConfig \<Rightarrow> string option) \<Rightarrow> ShardConfig \<Rightarrow> go_exit + string" where
  "ShardConfig_String marshal cfg = (case marshal cfg of None \<Rightarrow> Inl (Fatal ''Unmarshall err'') | Some b \<Rightarrow> Inr b)"

definition FromString :: "(string \<Rightarrow> ShardConfig option) \<Rightarrow> string \<Rightarrow> go_exit + ShardConfig" where
  "FromString unmarshal s = (case unmarshal s of None \<Rightarrow> Inl (Fatal ''Unmarshall err'') | Some scfg \<Rightarrow> Inr scfg)"

section \<open>Operations\<close>

text \<open>The groups of a configuration have no server in common.\<close>

definition disjoint_groups :: "ShardConfig \<Rightarrow> bool" where
  "disjoint_groups c \<longleftrightarrow> (\<forall>g h xs ys. Groups c g = Some xs \<longrightarrow> Groups c h = Some ys \<longrightarrow> g \<noteq> h \<longrightarrow> set xs \<inter> set ys = {})"

text \<open>
  What every operation promises: twelve shards, finitely many groups, disjoint groups; and the
  configuration number goes up by one exactly if the operation answers \<open>true\<close> to a change.
\<close>

locale config_operation =
  fixes op :: "ShardConfig \<Rightarrow> bool \<Rightarrow> ShardConfig \<Rightarrow> bool"
  assumes keeps_ok: "op c b c' \<Longrightarrow> cfg_ok c \<Longrightarrow> cfg_ok c'"
    and keeps_disjoint: "op c b c' \<Longrightarrow> cfg_ok c \<Longrightarrow> disjoint_groups c \<Longrightarrow> disjoint_groups c'"
    and counts_change: "op c b c' \<Longrightarrow> cfg_ok c \<Longrightarrow> Num c' = (if b then Num c + 1 else Num c)"
begin

definition well_formed :: "nat \<Rightarrow> ShardConfig \<Rightarrow> bool" where
  "well_formed n c \<longleftrightarrow> cfg_ok c \<and> disjoint_groups c \<and> Num c = int n"

inductive history :: "nat \<Rightarrow> ShardConfig \<Rightarrow> bool" where
  made: "history 0 MakeShardConfig"
| change: "history n c \<Longrightarrow> op c b c' \<Longrightarrow> history (if b then Suc n else n) c'"

lemma history_well_formed: "history n c \<Longrightarrow> well_formed n c"
proof (induction rule: history.induct)
  case made
  then show ?case by (simp add: well_formed_def cfg_ok_def MakeShardConfig_def disjoint_groups_def)
next
  case (change n c b c')
  then show ?case using keeps_ok keeps_disjoint counts_change by (simp add: well_formed_def)
qed

end

text \<open>An operation of the code and its answer; \<open>Rebalance\<close> and \<open>Copy\<close> make no numbered change.\<close>

inductive config_op :: "ShardConfig \<Rightarrow> bool \<Rightarrow> ShardConfig \<Rightarrow> bool" where
  op_Join: "key_order servers gids \<Longrightarrow> ShardConfig_Join servers gids c = Inr (b, c') \<Longrightarrow> config_op c b c'"
| op_Leave: "ShardConfig_Leave gids c = Inr (b, c') \<Longrightarrow> config_op c b c'"
| op_Rebalance: "ShardConfig_Rebalance c = Some c' \<Longrightarrow> config_op c False c'"
| op_JoinBalance: "key_order servers gids \<Longrightarrow> ShardConfig_JoinBalance servers gids c = Inr (Some (b, c')) \<Longrightarrow> config_op c b c'"
| op_LeaveBalance: "ShardConfig_LeaveBalance gids c = Inr (Some (b, c')) \<Longrightarrow> config_op c b c'"
| op_Copy: "key_order (Groups c) ks \<Longrightarrow> config_op c False (ShardConfig_Copy ks c)"

inductive config_history :: "nat \<Rightarrow> ShardConfig \<Rightarrow> bool" where
  config_made: "config_history 0 MakeShardConfig"
| config_changed: "config_history n c \<Longrightarrow> config_op c b c' \<Longrightarrow> config_history (if b then Suc n else n) c'"

section \<open>Each operation keeps the promises\<close>

lemma disjoint_add:
  assumes "disjoint_groups c" and "\<not> shares_server c srvs"
  shows "disjoint_groups (c\<lparr>Groups := (Groups c)(gid \<mapsto> srvs)\<rparr>)"
proof -
  have "set xs \<inter> set srvs = {}" if "Groups c g = Some xs" for g xs
    using assms(2) ranI [of "Groups c", OF that] unfolding shares_server_def by blast
  then show ?thesis using assms(1) unfolding disjoint_groups_def by (auto split: if_splits)
qed

lemma disjoint_restrict: "disjoint_groups c \<Longrightarrow> disjoint_groups (c\<lparr>Groups := (Groups c)(gid := None)\<rparr>)"
  unfolding disjoint_groups_def by auto

lemma disjoint_groups_cong: "Groups c' = Groups c \<Longrightarrow> disjoint_groups c' = disjoint_groups c"
  by (simp add: disjoint_groups_def)

lemma join_loop_keeps:
  "join_loop servers gids c = Inr (b, c') \<Longrightarrow> disjoint_groups c \<Longrightarrow> disjoint_groups c'"
  "join_loop servers gids c = Inr (b, c') \<Longrightarrow> Num c' = Num c"
  by (induction servers gids c rule: join_loop.induct) (auto simp del: fun_upd_apply split: if_splits intro: disjoint_add)

lemma leave_loop_keeps:
  "leave_loop gids c = (b, c') \<Longrightarrow> disjoint_groups c \<Longrightarrow> disjoint_groups c'"
  "leave_loop gids c = (b, c') \<Longrightarrow> Num c' = Num c"
  by (induction gids c rule: leave_loop.induct) (auto simp del: fun_upd_apply split: if_splits intro: disjoint_restrict)

lemma Join_keeps:
  assumes "ShardConfig_Join servers gids c = Inr (b, c')"
  shows "disjoint_groups c \<longrightarrow> disjoint_groups c'" and "Num c' = (if b then Num c + 1 else Num c)"
proof -
  obtain c1 where "join_loop servers gids c = Inr (b, c1)" "c' = c1\<lparr>Num := if b then Num c1 + 1 else Num c1\<rparr>"
    using assms by (auto simp: ShardConfig_Join_def split: sum.splits prod.splits bool.splits if_splits)
  with join_loop_keeps [of servers gids c b c1] disjoint_groups_cong [of c' c1]
  show "disjoint_groups c \<longrightarrow> disjoint_groups c'" and "Num c' = (if b then Num c + 1 else Num c)" by simp_all
qed

lemma Leave_keeps:
  assumes "ShardConfig_Leave gids c = Inr (b, c')"
  shows "disjoint_groups c \<longrightarrow> disjoint_groups c'" and "Num c' = (if b then Num c + 1 else Num c)"
proof -
  obtain c1 where "leave_loop gids c = (b, c1)" "c' = c1\<lparr>Num := if b then Num c1 + 1 else Num c1\<rparr>"
    using assms by (auto simp: ShardConfig_Leave_def split: prod.splits bool.splits if_splits)
  with leave_loop_keeps [of gids c b c1] disjoint_groups_cong [of c' c1]
  show "disjoint_groups c \<longrightarrow> disjoint_groups c'" and "Num c' = (if b then Num c + 1 else Num c)" by simp_all
qed

lemma Rebalance_keeps:
  assumes "ShardConfig_Rebalance c = Some c'" and "cfg_ok c"
  shows "cfg_ok c'" and "Groups c' = Groups c" and "Num c' = Num c"
  using Rebalance_ok [OF assms(2)] assms(1) by auto

lemma with_rebalance_Some:
  "with_rebalance r = Inr (Some (b, c')) \<longleftrightarrow>
     (\<exists>c1. r = Inr (b, c1) \<and> (if b then ShardConfig_Rebalance c1 = Some c' else c' = c1))"
  by (auto simp: with_rebalance_def split: sum.splits prod.splits bool.splits)

lemma Copy_keeps:
  assumes "key_order (Groups c) ks"
  shows "ShardConfig_Copy ks c = c"
proof -
  have "foldl (\<lambda>d k. d\<lparr>Groups := (Groups d)(k \<mapsto> the (Groups c k))\<rparr>) d ks =
      d\<lparr>Groups := \<lambda>g. if g \<in> set ks then Some (the (Groups c g)) else Groups d g\<rparr>" for d :: ShardConfig
    by (induction ks arbitrary: d) (auto simp: fun_eq_iff intro!: ShardConfig.equality)
  moreover have "(\<lambda>g. if g \<in> set ks then Some (the (Groups c g)) else None) = Groups c"
    using assms by (auto simp: key_order_def fun_eq_iff domIff)
  ultimately show ?thesis by (simp add: ShardConfig_Copy_def Let_def MakeShardConfig_def cong: if_cong)
qed

lemma config_op_keeps:
  assumes "config_op c b c'" and "cfg_ok c"
  shows "cfg_ok c' \<and> (disjoint_groups c \<longrightarrow> disjoint_groups c') \<and> Num c' = (if b then Num c + 1 else Num c)"
  using assms
proof (induction rule: config_op.induct)
  case (op_Join servers gids c b c')
  then show ?case using Join_keeps [OF op_Join(2)] Join_ok by simp
next
  case (op_Leave gids c b c')
  then show ?case using Leave_keeps [OF op_Leave(1)] Leave_ok by simp
next
  case (op_Rebalance c c')
  then show ?case using Rebalance_keeps [of c c'] disjoint_groups_cong [of c' c] by simp
next
  case (op_JoinBalance servers gids c b c')
  then obtain c1 where c1: "ShardConfig_Join servers gids c = Inr (b, c1)" "if b then ShardConfig_Rebalance c1 = Some c' else c' = c1"
    by (auto simp: ShardConfig_JoinBalance_def with_rebalance_Some)
  moreover have "cfg_ok c1" using Join_ok c1(1) op_JoinBalance(3) .
  ultimately show ?case
    using Join_keeps [OF c1(1)] Rebalance_keeps [of c1 c'] disjoint_groups_cong [of c' c1] by (auto split: if_splits)
next
  case (op_LeaveBalance gids c b c')
  then obtain c1 where c1: "ShardConfig_Leave gids c = Inr (b, c1)" "if b then ShardConfig_Rebalance c1 = Some c' else c' = c1"
    by (auto simp: ShardConfig_LeaveBalance_def with_rebalance_Some)
  moreover have "cfg_ok c1" using Leave_ok c1(1) op_LeaveBalance(2) .
  ultimately show ?case
    using Leave_keeps [OF c1(1)] Rebalance_keeps [of c1 c'] disjoint_groups_cong [of c' c1] by (auto split: if_splits)
next
  case (op_Copy c ks)
  then show ?case using Copy_keeps by simp
qed

interpretation shard_op: config_operation config_op
  using config_op_keeps by unfold_locales blast+

lemma config_history_eq: "config_history n c \<Longrightarrow> shard_op.history n c"
  by (induction rule: config_history.induct) (simp_all only: shard_op.history.intros)

section \<open>The type of configurations\<close>

lemma config_history_ok:
  assumes "config_history n c"
  shows "cfg_ok c" and "disjoint_groups c" and "Num c = int n"
  using shard_op.history_well_formed [OF config_history_eq [OF assms]] by (simp_all add: shard_op.well_formed_def)

text \<open>
  C27: The invariants of the type \<open>ShardConfig\<close>. Whatever sequence of \<open>Join\<close>, \<open>Leave\<close>, \<open>JoinBalance\<close>,
  \<open>LeaveBalance\<close>, \<open>Rebalance\<close> and \<open>Copy\<close> produced a configuration, refused changes included, it has
  twelve shards and finitely many groups, its number is the number of changes that answered true, no
  server is in two groups, \<open>GidServers\<close> of the shard of any key is within the array and answers true
  exactly if the group is known, and \<open>Rebalance\<close> returns.
\<close>

theorem shard_config_type:
  assumes "config_history n cfg"
  shows "length (Shards cfg) = NShards \<and> finite (dom (Groups cfg)) \<and> Num cfg = int n \<and>
    (\<forall>g h xs ys s. Groups cfg g = Some xs \<and> Groups cfg h = Some ys \<and> s \<in> set xs \<and> s \<in> set ys \<longrightarrow> g = h) \<and>
    (\<forall>key. \<exists>gid srvs ok. ShardConfig_GidServers (Key2Shard key) cfg = Inr (gid, srvs, ok) \<and> (ok \<longleftrightarrow> gid \<in> dom (Groups cfg))) \<and>
    (\<exists>cfg'. ShardConfig_Rebalance cfg = Some cfg')"
proof -
  note ok = config_history_ok [OF assms]
  have "\<exists>gid srvs ok. ShardConfig_GidServers (Key2Shard key) cfg = Inr (gid, srvs, ok) \<and> (ok \<longleftrightarrow> gid \<in> dom (Groups cfg))" for key
  proof -
    have "0 \<le> Key2Shard key \<and> Key2Shard key < int NShards"
      using go_rem_bounds [of "uint (fnv32a key)" "int NShards"] by (simp add: Key2Shard_def NShards_def)
    then show ?thesis using ok(1) by (auto simp: ShardConfig_GidServers_def cfg_ok_def Let_def split: option.splits)
  qed
  moreover have "g = h" if "Groups cfg g = Some xs" "Groups cfg h = Some ys" "s \<in> set xs" "s \<in> set ys" for g h xs ys s
    using ok(2) that unfolding disjoint_groups_def by blast
  moreover have "\<exists>cfg'. ShardConfig_Rebalance cfg = Some cfg'" using Rebalance_ok [OF ok(1)] by blast
  ultimately show ?thesis using ok(1,3) by (auto simp: cfg_ok_def)
qed

text \<open>A join of one group, and a join that is refused.\<close>

lemma demo_history: "config_history 1 (MakeShardConfig\<lparr>Num := 1, Groups := [1 \<mapsto> [''a'']]\<rparr>)"
proof -
  let ?c = "MakeShardConfig\<lparr>Num := 1, Groups := [1 \<mapsto> [''a'']]\<rparr>"
  have "ShardConfig_Join [1 \<mapsto> [''a'']] [1] MakeShardConfig = Inr (True, ?c)"
    by (simp add: ShardConfig_Join_def MakeShardConfig_def shares_server_def)
  then have "config_op MakeShardConfig True ?c" by (rule op_Join [rotated]) (simp add: key_order_def)
  from config_changed [OF config_made this] have h: "config_history 1 ?c" by simp
  have "ShardConfig_Join [1 \<mapsto> [''b'']] [1] ?c = Inr (False, ?c)" by (simp add: ShardConfig_Join_def)
  then have "config_op ?c False ?c" by (rule op_Join [rotated]) (simp add: key_order_def)
  from config_changed [OF h this] show ?thesis by simp
qed

theorem shard_config_type_witness:
  "\<exists>gid srvs ok. ShardConfig_GidServers (Key2Shard ''k'') (MakeShardConfig\<lparr>Num := 1, Groups := [1 \<mapsto> [''a'']]\<rparr>) = Inr (gid, srvs, ok) \<and>
     (ok \<longleftrightarrow> gid = 1)"
proof -
  let ?c = "MakeShardConfig\<lparr>Num := 1, Groups := [1 \<mapsto> [''a'']]\<rparr>"
  have dom: "gid \<in> dom (Groups ?c) \<longleftrightarrow> gid = 1" for gid by simp
  from shard_config_type [OF demo_history]
  have "\<forall>key. \<exists>gid srvs ok. ShardConfig_GidServers (Key2Shard key) ?c = Inr (gid, srvs, ok) \<and> (ok \<longleftrightarrow> gid \<in> dom (Groups ?c))" by (elim conjE)
  then show ?thesis unfolding dom by (rule spec)
qed

text \<open>A configuration survives its text form, when JSON decodes what it encoded.\<close>

lemma config_text_roundtrip:
  assumes "\<And>c s. marshal c = Some s \<Longrightarrow> unmarshal s = Some c" and "ShardConfig_String marshal cfg = Inr s"
  shows "FromString unmarshal s = Inr cfg"
  using assms by (simp add: ShardConfig_String_def FromString_def split: option.splits)

end
