(* ===== verification/MR_Apps.thy ===== *)
theory MR_Apps
  imports MR_Sequential
begin

text \<open>
  The plugins of \<open>mrapps/\<close> that observe the workers through files of the working directory:
  \<open>nparallel\<close> of \<open>mtiming.go\<close> and \<open>rtiming.go\<close> counts the workers that run at the same time,
  \<open>jobcount.go\<close> counts the executions of \<open>Map\<close>. The results of file operations, the listing of
  the directory and the answers of \<open>kill(pid, 0)\<close> are arguments; \<open>par_step\<close> says which of them
  are possible when several workers run. The check of \<open>mr/mr_test.go\<close> that uses the counts is here too.
\<close>

section \<open>fmt.Sscanf with one number\<close>

text \<open>
  The format is a text without spaces followed by one decimal number: white space before the number
  is skipped, what follows it is ignored, and a number out of range is an error. Names are ASCII.
\<close>

definition scan_space :: "char \<Rightarrow> bool" where
  "scan_space c \<longleftrightarrow> of_char c \<in> {9, 11, 12, 13, 32 :: nat}"

definition scan_digits :: "string \<Rightarrow> nat option" where
  "scan_digits s = atoi_digits (takeWhile is_digit s)"

fun scan_number :: "string \<Rightarrow> int option" where
  "scan_number [] = None"
| "scan_number (c # cs) =
     (if c = CHR ''-'' then Option.bind (scan_digits cs) (\<lambda>n. int64_range (- int n))
      else if c = CHR ''+'' then Option.bind (scan_digits cs) (\<lambda>n. int64_range (int n))
      else Option.bind (scan_digits (c # cs)) (\<lambda>n. int64_range (int n)))"

definition Sscanf_d :: "string \<Rightarrow> string \<Rightarrow> int option" where
  "Sscanf_d pat name =
     (if take (length pat) name = pat then scan_number (dropWhile scan_space (drop (length pat) name)) else None)"

section \<open>mrapps/mtiming.go and mrapps/rtiming.go\<close>

definition worker_prefix :: "string \<Rightarrow> string" where
  "worker_prefix phase = ''mr-worker-'' @ phase @ ''-''"

definition worker_file :: "string \<Rightarrow> int \<Rightarrow> string" where
  "worker_file phase pid = worker_prefix phase @ Itoa pid"

text \<open>The body of the loop over the names.\<close>

definition check_name :: "string \<Rightarrow> (int \<Rightarrow> bool) \<Rightarrow> string \<Rightarrow> nat \<Rightarrow> nat" where
  "check_name phase kill name ret =
     (case Sscanf_d (worker_prefix phase) name of
        Some xpid \<Rightarrow> if kill xpid then ret + 1 else ret
      | None \<Rightarrow> ret)"

text \<open>The answers of \<open>kill\<close> may change from one name to the next.\<close>

fun count_names :: "string \<Rightarrow> (nat \<Rightarrow> int \<Rightarrow> bool) \<Rightarrow> nat \<Rightarrow> string list \<Rightarrow> nat \<Rightarrow> nat" where
  "count_names phase kill i [] ret = ret"
| "count_names phase kill i (name # names) ret = count_names phase kill (Suc i) names (check_name phase (kill i) name ret)"

record np_env =
  np_write :: bool
  np_open :: bool
  np_names :: "string list option"
  np_kill :: "nat \<Rightarrow> int \<Rightarrow> bool"
  np_remove :: bool

definition nparallel :: "np_env \<Rightarrow> string \<Rightarrow> go_exit + nat" where
  "nparallel env phase =
     (if \<not> np_write env then Inl (Panic ''WriteFile'')
      else if \<not> np_open env then Inl (Panic ''Open'')
      else case np_names env of
        None \<Rightarrow> Inl (Panic ''Readdirnames'')
      | Some names \<Rightarrow>
          (let ret = count_names phase (np_kill env) 0 names 0 in
           if \<not> np_remove env then Inl (Panic ''Remove'') else Inr ret))"

text \<open>\<open>ts\<close> is the time of the start, formatted.\<close>

definition mtiming_Map :: "np_env \<Rightarrow> int \<Rightarrow> string \<Rightarrow> string \<Rightarrow> string \<Rightarrow> go_exit + KeyValue list" where
  "mtiming_Map env pid ts filename contents =
     and_then (nparallel env ''map'') (\<lambda>n.
       Inr [\<lparr>Key = ''times-'' @ Itoa pid, Value = ts\<rparr>, \<lparr>Key = ''parallel-'' @ Itoa pid, Value = Itoa (int n)\<rparr>])"

definition rtiming_Reduce :: "np_env \<Rightarrow> string \<Rightarrow> string list \<Rightarrow> go_exit + string" where
  "rtiming_Reduce env key values = and_then (nparallel env ''reduce'') (\<lambda>n. Inr (Itoa (int n)))"

section \<open>mrapps/jobcount.go\<close>

definition HasPrefix :: "string \<Rightarrow> string \<Rightarrow> bool" where
  "HasPrefix s p \<longleftrightarrow> take (length p) s = p"

definition jobcount_file :: "int \<Rightarrow> int \<Rightarrow> string" where
  "jobcount_file me n = ''mr-worker-jobcount-'' @ Itoa me @ ''-'' @ Itoa n"

text \<open>The state is the global \<open>count\<close> of the process and the names in the directory.\<close>

definition jobcount_Map :: "bool \<Rightarrow> int \<Rightarrow> int \<times> string set \<Rightarrow> go_exit + KeyValue list \<times> int \<times> string set" where
  "jobcount_Map write_ok me st =
     (let (count, files) = st; f = jobcount_file me count in
      if \<not> write_ok then Inl (Panic ''WriteFile'')
      else Inr ([\<lparr>Key = ''a'', Value = ''x''\<rparr>], count + 1, insert f files))"

definition jobcount_Reduce :: "string list option \<Rightarrow> string \<Rightarrow> string list \<Rightarrow> go_exit + string" where
  "jobcount_Reduce dir key values =
     (case dir of
        None \<Rightarrow> Inl (Panic ''ReadDir'')
      | Some files \<Rightarrow> Inr (Itoa (int (length (filter (\<lambda>f. HasPrefix f ''mr-worker-jobcount'') files)))))"

text \<open>Executions of \<open>Map\<close> by the processes \<open>pids\<close> in turn, each with its own counter.\<close>

definition jobcount_run :: "int list \<Rightarrow> (int \<Rightarrow> int) \<times> string set \<Rightarrow> go_exit + (int \<Rightarrow> int) \<times> string set" where
  "jobcount_run = each (\<lambda>me (counts, files).
     and_then (jobcount_Map True me (counts me, files)) (\<lambda>(kva, count, files'). Inr (counts(me := count), files')))"

section \<open>mr/util.go and mr/mr_test.go: counting patterns\<close>

text \<open>
  The regular expressions of the tests are sequences of characters and character classes, possibly
  followed by \<open>.*\<close>, which takes the rest of the line. Matches do not overlap.
\<close>

record regex =
  re_classes :: "(char \<Rightarrow> bool) list"
  re_star :: bool

definition lit :: "string \<Rightarrow> (char \<Rightarrow> bool) list" where
  "lit s = map (\<lambda>c x. x = c) s"

definition matches_at :: "(char \<Rightarrow> bool) list \<Rightarrow> string \<Rightarrow> bool" where
  "matches_at cls s \<longleftrightarrow> length cls \<le> length s \<and> list_all2 (\<lambda>f c. f c) cls (take (length cls) s)"

function find_all :: "regex \<Rightarrow> string \<Rightarrow> nat" where
  "find_all re s =
     (if s = [] \<or> re_classes re = [] then 0
      else if matches_at (re_classes re) s then
        let rest = drop (length (re_classes re)) s in
        1 + find_all re (if re_star re then dropWhile (\<lambda>c. c \<noteq> newline) rest else rest)
      else find_all re (tl s))"
  by pat_completeness auto
termination
proof (relation "measure (\<lambda>(re, s). length s)", goal_cases)
  case (2 re s rest)
  have "length rest < length s" using 2 by simp
  moreover have "length (dropWhile (\<lambda>c. c \<noteq> newline) rest) \<le> length rest" by (rule length_dropWhile_le)
  ultimately show ?case by simp
qed auto

declare find_all.simps [simp del]

text \<open>\<open>None\<close> is a file that cannot be read.\<close>

definition countPatternFile :: "(string \<rightharpoonup> string) \<Rightarrow> string \<Rightarrow> regex \<Rightarrow> go_exit + nat" where
  "countPatternFile fs f p = (case fs f of None \<Rightarrow> Inl (Fatal ''Open failed'') | Some data \<Rightarrow> Inr (find_all p data))"

definition countPattern :: "(string \<rightharpoonup> string) \<Rightarrow> string list \<Rightarrow> regex \<Rightarrow> go_exit + nat" where
  "countPattern fs files p = each (\<lambda>f n. and_then (countPatternFile fs f p) (\<lambda>k. Inr (n + k))) files 0"

text \<open>The checks of \<open>TestMapParallel\<close> on the output files of the job.\<close>

definition map_parallel_check :: "(string \<rightharpoonup> string) \<Rightarrow> string list \<Rightarrow> go_exit + unit" where
  "map_parallel_check fs files =
     and_then (countPattern fs files \<lparr>re_classes = lit ''times-'', re_star = False\<rparr>) (\<lambda>n.
       if n \<noteq> 2 then Inl (Fatal ''saw worker(s) instead of 2'')
       else and_then (countPattern fs files \<lparr>re_classes = lit ''parallel'', re_star = True\<rparr>) (\<lambda>m.
         if m = 0 then Inl (Fatal ''map workers did not run in parallel'') else Inr ()))"

section \<open>Workers that run nparallel at the same time\<close>

text \<open>
  A worker is outside \<open>nparallel\<close>, has written its file, is in the loop over the names, or sleeps
  before it removes its file and returns. \<open>ps_seen\<close> records, for each worker, which live workers
  were inside when it read the directory. A worker that crashes leaves its file behind. Process
  numbers are not reused, and other files of the directory do not look like those of a worker.
\<close>

datatype np_pc = Outside | Entered | Scanning "string list" nat | Sleeping nat

record par_sys =
  ps_files :: "string set"
  ps_alive :: "int set"
  ps_used :: "int set"
  ps_pc :: "int \<Rightarrow> np_pc"
  ps_seen :: "int \<Rightarrow> int set"

definition inside :: "par_sys \<Rightarrow> int set" where
  "inside s = {q \<in> ps_alive s. ps_pc s q \<noteq> Outside}"

inductive par_step :: "string \<Rightarrow> par_sys \<Rightarrow> par_sys \<Rightarrow> bool" for phase where
  start_worker: "p \<notin> ps_used s \<Longrightarrow> 0 < p \<Longrightarrow> p < 2 ^ 63 \<Longrightarrow>
    par_step phase s (s\<lparr>ps_alive := insert p (ps_alive s), ps_used := insert p (ps_used s)\<rparr>)"
| write_file: "p \<in> ps_alive s \<Longrightarrow> ps_pc s p = Outside \<Longrightarrow>
    par_step phase s (s\<lparr>ps_files := insert (worker_file phase p) (ps_files s), ps_pc := (ps_pc s)(p := Entered)\<rparr>)"
| read_names: "p \<in> ps_alive s \<Longrightarrow> ps_pc s p = Entered \<Longrightarrow> distinct names \<Longrightarrow> set names = ps_files s \<Longrightarrow>
    par_step phase s (s\<lparr>ps_pc := (ps_pc s)(p := Scanning names 0), ps_seen := (ps_seen s)(p := inside s)\<rparr>)"
| check_one: "p \<in> ps_alive s \<Longrightarrow> ps_pc s p = Scanning (name # names) ret \<Longrightarrow>
    par_step phase s (s\<lparr>ps_pc := (ps_pc s)(p := Scanning names (check_name phase (\<lambda>q. q \<in> ps_alive s) name ret))\<rparr>)"
| all_checked: "p \<in> ps_alive s \<Longrightarrow> ps_pc s p = Scanning [] ret \<Longrightarrow>
    par_step phase s (s\<lparr>ps_pc := (ps_pc s)(p := Sleeping ret)\<rparr>)"
| remove_file: "p \<in> ps_alive s \<Longrightarrow> ps_pc s p = Sleeping ret \<Longrightarrow>
    par_step phase s (s\<lparr>ps_files := ps_files s - {worker_file phase p}, ps_pc := (ps_pc s)(p := Outside)\<rparr>)"
| crash_worker: "p \<in> ps_alive s \<Longrightarrow> par_step phase s (s\<lparr>ps_alive := ps_alive s - {p}\<rparr>)"
| other_created: "Sscanf_d (worker_prefix phase) name = None \<Longrightarrow> par_step phase s (s\<lparr>ps_files := insert name (ps_files s)\<rparr>)"
| other_removed: "Sscanf_d (worker_prefix phase) name = None \<Longrightarrow> par_step phase s (s\<lparr>ps_files := ps_files s - {name}\<rparr>)"

definition par_init :: par_sys where
  "par_init = \<lparr>ps_files = {}, ps_alive = {}, ps_used = {}, ps_pc = (\<lambda>_. Outside), ps_seen = (\<lambda>_. {})\<rparr>"

inductive par_reach :: "string \<Rightarrow> par_sys \<Rightarrow> bool" for phase where
  par_start: "par_reach phase par_init"
| par_more: "par_reach phase s \<Longrightarrow> par_step phase s t \<Longrightarrow> par_reach phase t"

lemma scan_worker_file:
  assumes "0 < p" and "p < 2 ^ 63"
  shows "Sscanf_d (worker_prefix phase) (worker_file phase p) = Some p"
proof -
  obtain c cs where s: "itoa_nat (nat p) = c # cs" by (cases "itoa_nat (nat p)") simp_all
  have "is_digit x" if "x \<in> set (c # cs)" for x using itoa_nat_digits [of x "nat p"] that s by (simp add: is_digit_def)
  then have all: "takeWhile is_digit (c # cs) = c # cs" "is_digit c" by (simp_all add: takeWhile_eq_all_conv)
  then have "c \<noteq> CHR ''-''" "c \<noteq> CHR ''+''" "\<not> scan_space c" by (auto simp: is_digit_def scan_space_def)
  moreover have "scan_digits (c # cs) = Some (nat p)" using atoi_digits_itoa [of "nat p"] s all(1) by (simp add: scan_digits_def)
  ultimately show ?thesis using assms s by (simp add: Sscanf_d_def worker_file_def Itoa_def int64_range_def)
qed

lemma worker_file_inj: "worker_file phase p = worker_file phase q \<longleftrightarrow> p = q"
  by (simp add: worker_file_def Itoa_inj)

text \<open>A name in the directory is that of a worker or does not look like one.\<close>

definition known_name :: "string \<Rightarrow> int set \<Rightarrow> string \<Rightarrow> bool" where
  "known_name phase used name \<longleftrightarrow> Sscanf_d (worker_prefix phase) name = None \<or> (\<exists>q\<in>used. name = worker_file phase q)"

text \<open>What the loop has counted: \<open>C\<close> is the set of the workers it found alive among the names it has \<open>checked\<close>.\<close>

definition scan_inv ::
    "string \<Rightarrow> int set \<Rightarrow> int set \<Rightarrow> int set \<Rightarrow> string list \<Rightarrow> string list \<Rightarrow> int set \<Rightarrow> bool" where
  "scan_inv phase alive used seen checked names C \<longleftrightarrow>
     distinct (checked @ names) \<and> (\<forall>n\<in>set (checked @ names). known_name phase used n) \<and>
     (\<forall>q\<in>seen. worker_file phase q \<in> set (checked @ names)) \<and>
     (\<forall>q\<in>alive. worker_file phase q \<in> set (checked @ names) \<longrightarrow> q \<in> seen) \<and>
     finite C \<and> C \<subseteq> seen \<and> (\<forall>q\<in>C. worker_file phase q \<in> set checked) \<and>
     (\<forall>q\<in>seen \<inter> alive. worker_file phase q \<in> set checked \<longrightarrow> q \<in> C)"

lemma scan_invE:
  assumes "scan_inv phase alive used seen checked names C"
  obtains "distinct (checked @ names)" "\<And>n. n \<in> set (checked @ names) \<Longrightarrow> known_name phase used n"
    "\<And>q. q \<in> seen \<Longrightarrow> worker_file phase q \<in> set (checked @ names)"
    "\<And>q. q \<in> alive \<Longrightarrow> worker_file phase q \<in> set (checked @ names) \<Longrightarrow> q \<in> seen"
    "finite C" "C \<subseteq> seen" "\<And>q. q \<in> C \<Longrightarrow> worker_file phase q \<in> set checked"
    "\<And>q. q \<in> seen \<Longrightarrow> q \<in> alive \<Longrightarrow> worker_file phase q \<in> set checked \<Longrightarrow> q \<in> C"
  using assms unfolding scan_inv_def by blast

lemma scan_invI:
  assumes "distinct (checked @ names)" and "\<And>n. n \<in> set (checked @ names) \<Longrightarrow> known_name phase used n"
    and "\<And>q. q \<in> seen \<Longrightarrow> worker_file phase q \<in> set (checked @ names)"
    and "\<And>q. q \<in> alive \<Longrightarrow> worker_file phase q \<in> set (checked @ names) \<Longrightarrow> q \<in> seen"
    and "finite C" and "C \<subseteq> seen" and "\<And>q. q \<in> C \<Longrightarrow> worker_file phase q \<in> set checked"
    and "\<And>q. q \<in> seen \<Longrightarrow> q \<in> alive \<Longrightarrow> worker_file phase q \<in> set checked \<Longrightarrow> q \<in> C"
  shows "scan_inv phase alive used seen checked names C"
  using assms unfolding scan_inv_def by blast

fun np_inv :: "string \<Rightarrow> int set \<Rightarrow> int set \<Rightarrow> int set \<Rightarrow> np_pc \<Rightarrow> bool" where
  "np_inv phase alive used seen (Scanning names ret) = (\<exists>checked C. scan_inv phase alive used seen checked names C \<and> card C = ret)"
| "np_inv phase alive used seen (Sleeping ret) = (\<exists>C. finite C \<and> card C = ret \<and> C \<subseteq> seen \<and> seen \<inter> alive \<subseteq> C)"
| "np_inv phase alive used seen _ = True"

definition par_inv :: "string \<Rightarrow> par_sys \<Rightarrow> bool" where
  "par_inv phase s \<longleftrightarrow>
     finite (ps_alive s) \<and> ps_alive s \<subseteq> ps_used s \<and> (\<forall>p\<in>ps_used s. 0 < p \<and> p < 2 ^ 63) \<and>
     (\<forall>n\<in>ps_files s. known_name phase (ps_used s) n) \<and>
     (\<forall>p. p \<notin> ps_used s \<longrightarrow> ps_pc s p = Outside) \<and>
     (\<forall>p\<in>ps_alive s. worker_file phase p \<in> ps_files s \<longleftrightarrow> ps_pc s p \<noteq> Outside) \<and>
     (\<forall>p. ps_pc s p \<notin> {Outside, Entered} \<longrightarrow> finite (ps_seen s p) \<and> p \<in> ps_seen s p \<and> ps_seen s p \<subseteq> ps_used s) \<and>
     (\<forall>p. np_inv phase (ps_alive s) (ps_used s) (ps_seen s p) (ps_pc s p))"

lemma known_name_mono: "known_name phase used n \<Longrightarrow> known_name phase (insert p used) n"
  by (auto simp: known_name_def)

lemma new_worker_unknown:
  assumes "known_name phase used (worker_file phase p)" and "0 < p" and "p < 2 ^ 63"
  shows "p \<in> used"
  using assms scan_worker_file [OF assms(2,3), of phase] by (auto simp: known_name_def worker_file_inj)

lemma np_inv_start:
  assumes "np_inv phase alive used seen pc" and "p \<notin> used" and "0 < p" and "p < 2 ^ 63"
    and "pc \<notin> {Outside, Entered} \<longrightarrow> seen \<subseteq> used"
  shows "np_inv phase (insert p alive) (insert p used) seen pc"
proof (cases pc)
  case (Scanning names ret)
  then obtain checked C where C: "scan_inv phase alive used seen checked names C" "card C = ret" using assms(1) by auto
  from C(1) have "scan_inv phase (insert p alive) (insert p used) seen checked names C"
  proof (rule scan_invE, goal_cases)
    case 1
    have new: "worker_file phase p \<notin> set (checked @ names)" using 1(2) new_worker_unknown [OF _ assms(3,4)] assms(2) by blast
    show ?case
    proof (rule scan_invI)
      show "known_name phase (insert p used) n" if "n \<in> set (checked @ names)" for n using 1(2) [OF that] by (rule known_name_mono)
      show "q \<in> seen" if "q \<in> insert p alive" "worker_file phase q \<in> set (checked @ names)" for q using 1(4) new that by blast
      show "q \<in> C" if "q \<in> seen" "q \<in> insert p alive" "worker_file phase q \<in> set checked" for q
        using 1(8) [OF that(1) _ that(3)] new that by auto
    qed (use 1 in blast)+
  qed
  then show ?thesis using Scanning C(2) by auto
next
  case (Sleeping ret)
  then have "seen \<inter> insert p alive = seen \<inter> alive" using assms(2,5) by auto
  then show ?thesis using assms(1) Sleeping by simp
qed simp_all

lemma np_inv_crash:
  assumes "np_inv phase alive used seen pc" and "alive' \<subseteq> alive"
  shows "np_inv phase alive' used seen pc"
proof (cases pc)
  case (Scanning names ret)
  then obtain checked C where C: "scan_inv phase alive used seen checked names C" "card C = ret" using assms(1) by auto
  from C(1) have "scan_inv phase alive' used seen checked names C"
    by (rule scan_invE) (rule scan_invI; use assms(2) in blast)
  then show ?thesis using Scanning C(2) by auto
next
  case (Sleeping ret)
  then show ?thesis using assms by (simp, blast)
qed simp_all

text \<open>One turn of the loop counts the owner of the file if it is alive.\<close>

lemma scan_inv_check:
  assumes "scan_inv phase alive used seen checked (name # names) C" and "alive \<subseteq> used" and "\<forall>p\<in>used. 0 < p \<and> p < 2 ^ 63"
  shows "\<exists>C'. scan_inv phase alive used seen (checked @ [name]) names C' \<and>
    card C' = check_name phase (\<lambda>q. q \<in> alive) name (card C)"
  using assms(1)
proof (rule scan_invE, goal_cases)
  case 1
  have fresh: "name \<notin> set checked" using 1(1) by simp
  have scan: "Sscanf_d (worker_prefix phase) (worker_file phase q) = Some q" if "q \<in> used" for q
    using assms(3) scan_worker_file that by blast
  show ?case
  proof (cases "\<exists>q\<in>alive. name = worker_file phase q")
    case True
    then obtain q where q: "q \<in> alive" "name = worker_file phase q" by blast
    have seen: "q \<in> seen" using 1(4) [OF q(1)] q(2) by simp
    have "q \<notin> C" using 1(7) [of q] fresh q(2) by blast
    then have "card (insert q C) = check_name phase (\<lambda>q. q \<in> alive) name (card C)"
      using 1(5) scan [of q] q assms(2) by (auto simp: check_name_def)
    moreover have "scan_inv phase alive used seen (checked @ [name]) names (insert q C)"
    proof (rule scan_invI)
      show "worker_file phase x \<in> set (checked @ [name])" if "x \<in> insert q C" for x using 1(7) [of x] q(2) that by auto
      show "x \<in> insert q C" if "x \<in> seen" "x \<in> alive" "worker_file phase x \<in> set (checked @ [name])" for x
        using 1(8) [OF that(1,2)] that(3) q(2) by (auto simp: worker_file_inj)
    qed (use 1 seen in auto)
    ultimately show ?thesis by blast
  next
    case False
    have "check_name phase (\<lambda>q. q \<in> alive) name (card C) = card C"
      using 1(2) [of name] False scan by (auto simp: check_name_def known_name_def)
    moreover have "scan_inv phase alive used seen (checked @ [name]) names C"
    proof (rule scan_invI)
      show "worker_file phase x \<in> set (checked @ [name])" if "x \<in> C" for x using 1(7) [OF that] by simp
      show "x \<in> C" if "x \<in> seen" "x \<in> alive" "worker_file phase x \<in> set (checked @ [name])" for x
        using 1(8) [OF that(1,2)] that(2,3) False by auto
    qed (use 1 in auto)
    ultimately show ?thesis by metis
  qed
qed

lemma np_inv_checked:
  assumes "np_inv phase alive used seen (Scanning [] ret)"
  shows "np_inv phase alive used seen (Sleeping ret)"
proof -
  obtain checked C where C: "scan_inv phase alive used seen checked [] C" "card C = ret" using assms by auto
  from C(1) have "finite C" "C \<subseteq> seen" "seen \<inter> alive \<subseteq> C" by (auto simp: scan_inv_def)
  then show ?thesis using C(2) by auto
qed

lemma par_invD:
  assumes "par_inv phase s"
  shows "finite (ps_alive s)" "ps_alive s \<subseteq> ps_used s" "\<forall>p\<in>ps_used s. 0 < p \<and> p < 2 ^ 63"
    "\<forall>n\<in>ps_files s. known_name phase (ps_used s) n" "\<forall>p. p \<notin> ps_used s \<longrightarrow> ps_pc s p = Outside"
    "\<forall>p\<in>ps_alive s. worker_file phase p \<in> ps_files s \<longleftrightarrow> ps_pc s p \<noteq> Outside"
    "\<forall>p. ps_pc s p \<notin> {Outside, Entered} \<longrightarrow> finite (ps_seen s p) \<and> p \<in> ps_seen s p \<and> ps_seen s p \<subseteq> ps_used s"
    "\<forall>p. np_inv phase (ps_alive s) (ps_used s) (ps_seen s p) (ps_pc s p)"
  using assms unfolding par_inv_def by blast+

lemma par_inv_init: "par_inv phase par_init"
  by (simp add: par_inv_def par_init_def)

lemma par_step_inv:
  assumes "par_step phase s t" and "par_inv phase s"
  shows "par_inv phase t"
  using assms(1)
proof cases
  case (start_worker p)
  note inv = par_invD [OF assms(2)]
  have "p \<notin> ps_alive s" using inv(2) start_worker(2) by blast
  have "worker_file phase p \<notin> ps_files s" using inv(4) new_worker_unknown start_worker(2-4) by blast
  moreover have "\<forall>q. np_inv phase (insert p (ps_alive s)) (insert p (ps_used s)) (ps_seen s q) (ps_pc s q)"
    using np_inv_start [OF _ start_worker(2-4)] inv(7,8) by blast
  ultimately show ?thesis using inv start_worker known_name_mono unfolding par_inv_def by auto
next
  case (write_file p)
  note inv = par_invD [OF assms(2)]
  have "known_name phase (ps_used s) (worker_file phase p)" using inv(2) write_file(2) by (auto simp: known_name_def)
  then show ?thesis using inv write_file(2) unfolding par_inv_def write_file(1) by (auto simp: worker_file_inj)
next
  case (read_names p names)
  note inv = par_invD [OF assms(2)]
  have ins: "finite (inside s)" "p \<in> inside s" "inside s \<subseteq> ps_used s" using inv(1,2) read_names by (auto simp: inside_def)
  have "scan_inv phase (ps_alive s) (ps_used s) (inside s) [] names {}"
    using inv(4,6) read_names by (intro scan_invI) (auto simp: inside_def)
  then have "np_inv phase (ps_alive s) (ps_used s) (inside s) (Scanning names 0)" by (auto intro!: exI [of _ "[]"] exI [of _ "{}"])
  then show ?thesis using inv ins read_names(2,3) unfolding par_inv_def read_names(1) by auto
next
  case (check_one p name names ret)
  note inv = par_invD [OF assms(2)]
  have "np_inv phase (ps_alive s) (ps_used s) (ps_seen s p) (Scanning (name # names) ret)" using inv(8) check_one(3) by metis
  then obtain checked C where "scan_inv phase (ps_alive s) (ps_used s) (ps_seen s p) checked (name # names) C" "card C = ret" by auto
  from scan_inv_check [OF this(1) inv(2,3)] this(2)
  have "np_inv phase (ps_alive s) (ps_used s) (ps_seen s p) (Scanning names (check_name phase (\<lambda>q. q \<in> ps_alive s) name ret))"
    by (auto intro!: exI [of _ "checked @ [name]"])
  moreover have "finite (ps_seen s p) \<and> p \<in> ps_seen s p \<and> ps_seen s p \<subseteq> ps_used s" using inv(7) check_one(3) by auto
  ultimately show ?thesis using inv check_one(2,3) unfolding par_inv_def check_one(1) by auto
next
  case (all_checked p ret)
  note inv = par_invD [OF assms(2)]
  have "np_inv phase (ps_alive s) (ps_used s) (ps_seen s p) (Scanning [] ret)" using inv(8) all_checked(3) by metis
  then have "np_inv phase (ps_alive s) (ps_used s) (ps_seen s p) (Sleeping ret)" by (rule np_inv_checked)
  moreover have "finite (ps_seen s p) \<and> p \<in> ps_seen s p \<and> ps_seen s p \<subseteq> ps_used s" using inv(7) all_checked(3) by auto
  ultimately show ?thesis using inv all_checked(2,3) unfolding par_inv_def all_checked(1) by auto
next
  case (remove_file p ret)
  note inv = par_invD [OF assms(2)]
  then show ?thesis using remove_file(2,3) unfolding par_inv_def remove_file(1) by (auto simp: worker_file_inj)
next
  case (crash_worker p)
  note inv = par_invD [OF assms(2)]
  have "\<forall>q. np_inv phase (ps_alive s - {p}) (ps_used s) (ps_seen s q) (ps_pc s q)" using inv(8) np_inv_crash by blast
  then show ?thesis using inv unfolding par_inv_def crash_worker(1) by auto
next
  case (other_created name)
  note inv = par_invD [OF assms(2)]
  have "name \<noteq> worker_file phase p" if "p \<in> ps_used s" for p using inv(3) scan_worker_file other_created(2) that by fastforce
  then show ?thesis using inv other_created(2) unfolding par_inv_def other_created(1) by (auto simp: known_name_def)
next
  case (other_removed name)
  note inv = par_invD [OF assms(2)]
  have "name \<noteq> worker_file phase p" if "p \<in> ps_used s" for p using inv(3) scan_worker_file other_removed(2) that by fastforce
  then show ?thesis using inv unfolding par_inv_def other_removed(1) by auto
qed

lemma par_reach_inv: "par_reach phase s \<Longrightarrow> par_inv phase s"
  by (induction rule: par_reach.induct) (auto intro: par_inv_init par_step_inv)

text \<open>
  \<open>nparallel\<close> counts the workers that run at the same time. For any number of workers that
  start, run \<open>nparallel\<close> and crash in any order, a worker that is about to return \<open>ret\<close> was itself
  counted; \<open>ret\<close> is at most the number of live workers that were inside \<open>nparallel\<close> when the
  directory was read (files that crashed workers left behind are not counted) and at least the number
  of those that are still alive. Without a crash it is exactly their number.
\<close>

theorem nparallel_counts_workers:
  assumes "par_reach phase s" and "p \<in> ps_alive s" and "ps_pc s p = Sleeping ret"
  shows "p \<in> ps_seen s p \<and> 1 \<le> ret \<and> ret \<le> card (ps_seen s p) \<and> card (ps_seen s p \<inter> ps_alive s) \<le> ret \<and>
    (ps_seen s p \<subseteq> ps_alive s \<longrightarrow> ret = card (ps_seen s p))"
proof -
  note inv = par_invD [OF par_reach_inv [OF assms(1)]]
  have "np_inv phase (ps_alive s) (ps_used s) (ps_seen s p) (Sleeping ret)" using inv(8) assms(3) by metis
  then obtain C where C: "finite C" "card C = ret" "C \<subseteq> ps_seen s p" "ps_seen s p \<inter> ps_alive s \<subseteq> C" by auto
  have seen: "finite (ps_seen s p)" "p \<in> ps_seen s p" using inv(7) assms(3) by auto
  have "p \<in> C" using C(4) seen(2) assms(2) by blast
  then have "1 \<le> ret" using C(1,2) by (metis One_nat_def Suc_leI card_gt_0_iff empty_iff)
  moreover have "ret \<le> card (ps_seen s p)" using card_mono [OF seen(1) C(3)] C(2) by simp
  moreover have "card (ps_seen s p \<inter> ps_alive s) \<le> ret" using card_mono [OF C(1,4)] C(2) by simp
  ultimately show ?thesis using seen(2) by (auto simp: inf.absorb1)
qed

text \<open>Workers 1 and 2 are inside when worker 1 reads the directory, and worker 2 crashes after it was counted.\<close>

definition demo_par :: "np_pc \<Rightarrow> int set \<Rightarrow> par_sys" where
  "demo_par pc alive = \<lparr>ps_files = {''mr-worker-map-1'', ''mr-worker-map-2''}, ps_alive = alive, ps_used = {1, 2},
     ps_pc = (\<lambda>_. Outside)(1 := pc, 2 := Entered), ps_seen = (\<lambda>_. {})(1 := {1, 2})\<rparr>"

lemma demo_files: "worker_file ''map'' 1 = ''mr-worker-map-1''" "worker_file ''map'' 2 = ''mr-worker-map-2''"
  by code_simp+

lemma demo_par_inside:
  "par_reach ''map'' \<lparr>ps_files = {''mr-worker-map-1'', ''mr-worker-map-2''}, ps_alive = {1, 2}, ps_used = {1, 2},
     ps_pc = (\<lambda>_. Outside)(1 := Entered, 2 := Entered), ps_seen = (\<lambda>_. {})\<rparr>"
proof -
  let ?s = "\<lambda>files ps pc. \<lparr>ps_files = files, ps_alive = ps, ps_used = ps, ps_pc = pc, ps_seen = (\<lambda>_. {})\<rparr>"
  let ?O = "\<lambda>_ :: int. Outside"
  have s0: "par_reach ''map'' (?s {} {} ?O)" using par_start [of "''map''"] by (simp add: par_init_def)
  have s1: "par_step ''map'' (?s {} {} ?O) (?s {} {1} ?O)" using start_worker [of 1 "?s {} {} ?O" "''map''"] by simp
  have s2: "par_step ''map'' (?s {} {1} ?O) (?s {} {1, 2} ?O)"
    using start_worker [of 2 "?s {} {1} ?O" "''map''"] by (simp add: insert_commute)
  have s3: "par_step ''map'' (?s {} {1, 2} ?O) (?s {''mr-worker-map-1''} {1, 2} (?O(1 := Entered)))"
    using write_file [of 1 "?s {} {1, 2} ?O" "''map''"] by (simp add: demo_files)
  have s4: "par_step ''map'' (?s {''mr-worker-map-1''} {1, 2} (?O(1 := Entered)))
      (?s {''mr-worker-map-1'', ''mr-worker-map-2''} {1, 2} (?O(1 := Entered, 2 := Entered)))"
    using write_file [of 2 "?s {''mr-worker-map-1''} {1, 2} (?O(1 := Entered))" "''map''"]
    by (simp add: demo_files insert_commute)
  show ?thesis by (rule par_more [OF par_more [OF par_more [OF par_more [OF s0 s1] s2] s3] s4])
qed

lemma demo_par_reach: "par_reach ''map'' (demo_par (Sleeping 2) {1})"
proof -
  let ?n = "[''mr-worker-map-1'', ''mr-worker-map-2'']"
  have ins: "inside \<lparr>ps_files = f, ps_alive = {1, 2}, ps_used = {1, 2}, ps_pc = (\<lambda>_. Outside)(1 := Entered, 2 := Entered), ps_seen = g\<rparr> = {1, 2}"
    for f g by (auto simp: inside_def)
  have count: "check_name ''map'' (\<lambda>q. q = 1 \<or> q = 2) ''mr-worker-map-1'' 0 = 1"
    "check_name ''map'' (\<lambda>q. q = 1 \<or> q = 2) ''mr-worker-map-2'' (Suc 0) = 2" by code_simp+
  have s1: "par_reach ''map'' (demo_par (Scanning ?n 0) {1, 2})"
    using par_more [OF demo_par_inside read_names [of 1 _ ?n]] by (simp add: demo_par_def ins insert_commute fun_upd_twist)
  have s2: "par_step ''map'' (demo_par (Scanning ?n 0) {1, 2}) (demo_par (Scanning (tl ?n) 1) {1, 2})"
    using check_one [of 1 "demo_par (Scanning ?n 0) {1, 2}" "hd ?n" "tl ?n" 0 "''map''"]
    by (simp add: demo_par_def count fun_upd_twist)
  have s3: "par_step ''map'' (demo_par (Scanning (tl ?n) 1) {1, 2}) (demo_par (Scanning [] 2) {1, 2})"
    using check_one [of 1 "demo_par (Scanning (tl ?n) 1) {1, 2}" "''mr-worker-map-2''" "[]" 1 "''map''"]
    by (simp add: demo_par_def count fun_upd_twist)
  have s4: "par_step ''map'' (demo_par (Scanning [] 2) {1, 2}) (demo_par (Sleeping 2) {1, 2})"
    using all_checked [of 1 "demo_par (Scanning [] 2) {1, 2}" 2] by (simp add: demo_par_def fun_upd_twist)
  have s5: "par_step ''map'' (demo_par (Sleeping 2) {1, 2}) (demo_par (Sleeping 2) {1})"
    using crash_worker [of 2 "demo_par (Sleeping 2) {1, 2}"] by (simp add: demo_par_def insert_Diff_if)
  show ?thesis by (rule par_more [OF par_more [OF par_more [OF par_more [OF s1 s2] s3] s4] s5])
qed

theorem nparallel_counts_workers_witness:
  "card (ps_seen (demo_par (Sleeping 2) {1}) 1 \<inter> {1}) \<le> 2 \<and> 2 \<le> card (ps_seen (demo_par (Sleeping 2) {1}) 1)"
  using nparallel_counts_workers [OF demo_par_reach, of 1 2] by (simp add: demo_par_def)

section \<open>jobcount counts the executions of Map\<close>

lemma jobcount_file_inj: "jobcount_file p m = jobcount_file q n \<Longrightarrow> 0 \<le> m \<Longrightarrow> 0 \<le> n \<Longrightarrow> p = q \<and> m = n"
proof -
  assume eq: "jobcount_file p m = jobcount_file q n" and nn: "0 \<le> m" "0 \<le> n"
  let ?s = "\<lambda>p m. Itoa p @ CHR ''-'' # Itoa m"
  have s: "?s p m = ?s q n" using eq by (simp add: jobcount_file_def)
  have "CHR ''-'' \<notin> set (Itoa m)" "CHR ''-'' \<notin> set (Itoa n)" using nn by (simp_all add: Itoa_def itoa_nat_no_dash)
  then have "LastIndex (?s p m) CHR ''-'' = Some (length (Itoa p))" "LastIndex (?s q n) CHR ''-'' = Some (length (Itoa q))"
    by (simp_all add: LastIndex_append)
  then have "length (Itoa p) = length (Itoa q)" using s by simp
  then show "p = q \<and> m = n" using s by (simp add: Itoa_inj)
qed

text \<open>The files of the executions so far.\<close>

definition job_files :: "(int \<Rightarrow> int) \<Rightarrow> string set" where
  "job_files counts = {jobcount_file p m | p m. 0 \<le> m \<and> m < counts p}"

lemma job_files_prefix: "f \<in> job_files counts \<Longrightarrow> HasPrefix f ''mr-worker-jobcount''"
  by (auto simp: job_files_def jobcount_file_def HasPrefix_def)

lemma jobcount_run_ok:
  assumes "\<forall>p. 0 \<le> counts p" and "finite files"
  shows "\<exists>counts' files'. jobcount_run pids (counts, files \<union> job_files counts) = Inr (counts', files') \<and>
    files' = files \<union> job_files counts' \<and>
    (finite (job_files counts) \<longrightarrow> finite (job_files counts') \<and> card (job_files counts') = card (job_files counts) + length pids)"
  using assms(1)
proof (induction pids arbitrary: counts)
  case Nil
  show ?case by (auto simp: jobcount_run_def)
next
  case (Cons p pids)
  let ?c = "counts(p := counts p + 1)"
  have new: "job_files ?c = insert (jobcount_file p (counts p)) (job_files counts)"
    using Cons.prems by (auto simp: job_files_def zle_add1_eq_le split: if_splits) (metis order_le_less)+
  have "jobcount_file p (counts p) \<notin> job_files counts"
    using Cons.prems by (auto simp: job_files_def dest!: jobcount_file_inj)
  moreover have "jobcount_run (p # pids) (counts, files \<union> job_files counts) = jobcount_run pids (?c, files \<union> job_files ?c)"
    unfolding new by (simp add: jobcount_run_def jobcount_Map_def)
  moreover have "\<forall>q. 0 \<le> ?c q" using Cons.prems by (simp add: le_add1 add_increasing2)
  ultimately show ?case using Cons.IH [of ?c] by (simp del: fun_upd_apply add: new)
qed

text \<open>
  \<open>jobcount\<close> counts how often \<open>Map\<close> was executed. Whatever the sequence of workers that
  execute \<open>Map\<close>, in a directory without files of earlier executions, the reduce function answers the
  number of executions, in whatever order the directory is listed.
\<close>

theorem jobcount_counts_executions:
  assumes "finite files" and "\<forall>f\<in>files. \<not> HasPrefix f ''mr-worker-jobcount''"
    and "jobcount_run pids (\<lambda>_. 0, files) = Inr (counts, files')" and "distinct dir" and "set dir = files'"
  shows "jobcount_Reduce (Some dir) key values = Inr (Itoa (int (length pids)))"
proof -
  have none: "job_files (\<lambda>_. 0) = {}" by (simp add: job_files_def)
  have files': "files' = files \<union> job_files counts" "card (job_files counts) = length pids"
    using jobcount_run_ok [of "\<lambda>_. 0" files pids] assms(1,3) by (auto simp: none)
  have "set (filter (\<lambda>f. HasPrefix f ''mr-worker-jobcount'') dir) = job_files counts"
    using assms(2,5) files'(1) job_files_prefix by auto
  then have "length (filter (\<lambda>f. HasPrefix f ''mr-worker-jobcount'') dir) = length pids"
    using files'(2) assms(4) by (metis distinct_card distinct_filter)
  then show ?thesis by (simp add: jobcount_Reduce_def)
qed

theorem jobcount_counts_executions_witness:
  "jobcount_Reduce (Some [''mr-worker-jobcount-7-1'', ''x'', ''mr-worker-jobcount-9-0'', ''mr-worker-jobcount-7-0'']) ''a'' [] = Inr ''3''"
proof -
  let ?files = "{''mr-worker-jobcount-7-1'', ''x'', ''mr-worker-jobcount-9-0'', ''mr-worker-jobcount-7-0''}"
  have names: "jobcount_file 7 0 = ''mr-worker-jobcount-7-0''" "jobcount_file 9 0 = ''mr-worker-jobcount-9-0''"
    "jobcount_file 7 1 = ''mr-worker-jobcount-7-1''" by code_simp+
  have run: "jobcount_run [7, 9, 7] (\<lambda>_. 0, {''x''}) = Inr ((\<lambda>_. 0)(7 := 2, 9 := 1), ?files)"
    by (auto simp: jobcount_run_def jobcount_Map_def names fun_eq_iff)
  have "Itoa 3 = ''3''" by code_simp
  then show ?thesis using jobcount_counts_executions [OF _ _ run, of _ "''a''" "[]"] by (simp add: HasPrefix_def)
qed

section \<open>The check of parallel map tasks\<close>

text \<open>
  The second check of \<open>TestMapParallel\<close> searches for \<open>parallel.*\<close>, which every output of
  \<open>mtiming\<close> contains: it also passes for two workers that ran one after the other and each counted
  one worker.
\<close>

definition sequential_workers :: "go_exit + KeyValue list" where
  "sequential_workers =
     (let env = (\<lambda>pid name. \<lparr>np_write = True, np_open = True, np_names = Some [name], np_kill = (\<lambda>_ p. p = pid), np_remove = True\<rparr>) in
      and_then (mtiming_Map (env 7 ''mr-worker-map-7'') 7 ''1.0'' ''f1'' '''') (\<lambda>kv1.
      and_then (mtiming_Map (env 9 ''mr-worker-map-9'') 9 ''3.0'' ''f2'' '''') (\<lambda>kv2. Inr (kv1 @ kv2))))"

lemma map_parallel_check_vacuous:
  "\<exists>kva. sequential_workers = Inr kva \<and>
     map_parallel_check [''mr-out-0'' \<mapsto> concat (map (\<lambda>kv. output_line (Key kv) (mtiming_Reduce (Key kv) [Value kv])) kva)] [''mr-out-0''] = Inr ()"
  by (rule exI [of _ "[\<lparr>Key = ''times-7'', Value = ''1.0''\<rparr>, \<lparr>Key = ''parallel-7'', Value = ''1''\<rparr>,
    \<lparr>Key = ''times-9'', Value = ''3.0''\<rparr>, \<lparr>Key = ''parallel-9'', Value = ''1''\<rparr>]"]) code_simp

end
