(* ===== verification/MR_Logger.thy ===== *)
theory MR_Logger
  imports Go_Std
begin

text \<open>
  The logger of the MapReduce programs (\<open>mr/logger.go\<close>): the choice of format and level, and the
  function that orders the fls of a line. The logging package itself is third party: its levels
  and \<open>ParseLevel\<close> are arguments.
\<close>

section \<open>mr/logger.go\<close>

definition priority :: "string \<rightharpoonup> nat" where
  "priority = [''service'' \<mapsto> 0, ''component'' \<mapsto> 1, ''worker_id'' \<mapsto> 2, ''task_id'' \<mapsto> 3, ''func'' \<mapsto> 4]"

definition exchange :: "nat \<Rightarrow> nat \<Rightarrow> 'a list \<Rightarrow> 'a list" where
  "exchange i j fls = fls[i := fls ! j, j := fls ! i]"

text \<open>The body of the inner loop.\<close>

definition order_pair :: "nat \<Rightarrow> nat \<Rightarrow> string list \<Rightarrow> string list" where
  "order_pair i j fls =
     (case (priority (fls ! i), priority (fls ! j)) of
        (Some p1, None) \<Rightarrow> fls
      | (None, Some p2) \<Rightarrow> exchange i j fls
      | (Some p1, Some p2) \<Rightarrow> if p1 > p2 then exchange i j fls else fls
      | (None, None) \<Rightarrow> fls)"

definition order_from :: "nat \<Rightarrow> string list \<Rightarrow> string list" where
  "order_from i fls = foldl (\<lambda>fs j. order_pair i j fs) fls [i + 1..<length fls]"

definition SortingFunc :: "string list \<Rightarrow> string list" where
  "SortingFunc fls = foldl (\<lambda>fs i. order_from i fs) fls [0..<length fls]"

datatype formatter = JSONFormatter | TextFormatter "string list \<Rightarrow> string list"

record 'level log_config =
  lc_formatter :: formatter
  lc_level :: 'level

definition logger_init :: "(string \<Rightarrow> 'level option) \<Rightarrow> 'level \<Rightarrow> (string \<Rightarrow> string) \<Rightarrow> 'level log_config" where
  "logger_init ParseLevel InfoLevel Getenv =
     (let formatter = (if Getenv ''ENV'' = ''production'' then JSONFormatter else TextFormatter SortingFunc);
          level = (if Getenv ''LOG_LEVEL'' = '''' then ''info'' else Getenv ''LOG_LEVEL'') in
      \<lparr>lc_formatter = formatter,
       lc_level = (case ParseLevel level of Some logLevel \<Rightarrow> logLevel | None \<Rightarrow> InfoLevel)\<rparr>)"

section \<open>The exchange sort\<close>

text \<open>The two loops sort by rank: the known fields by their priority, all others behind them.\<close>

definition rank :: "string \<Rightarrow> nat" where
  "rank f = (case priority f of Some p \<Rightarrow> p | None \<Rightarrow> 5)"

lemma priority_bound: "priority f = Some p \<Longrightarrow> p < 5"
  by (auto simp: priority_def split: if_splits)

lemma order_pair_rank: "order_pair i j fls = (if rank (fls ! j) < rank (fls ! i) then exchange i j fls else fls)"
  using priority_bound by (auto simp: order_pair_def rank_def split: option.splits dest: less_imp_not_less)

lemma length_exchange [simp]: "length (exchange i j fls) = length fls"
  by (simp add: exchange_def)

lemma mset_exchange [simp]: "i < length fls \<Longrightarrow> j < length fls \<Longrightarrow> mset (exchange i j fls) = mset fls"
  by (simp add: exchange_def mset_swap)

lemma take_exchange: "i < j \<Longrightarrow> take i (exchange i j fls) = take i fls"
  by (simp add: exchange_def)

lemma nth_exchange:
  "i < length fls \<Longrightarrow> j < length fls \<Longrightarrow>
     exchange i j fls ! k = (if k = i then fls ! j else if k = j then fls ! i else fls ! k)"
  by (auto simp: exchange_def nth_list_update)

lemma order_pair_keeps:
  assumes "i < j" and "j < length fls"
  shows "length (order_pair i j fls) = length fls" "mset (order_pair i j fls) = mset fls" "take i (order_pair i j fls) = take i fls"
  using assms by (simp_all add: order_pair_rank take_exchange)

lemma order_pair_least:
  assumes "i < length fs" and "k < length fs" and "i < k" and "\<forall>j. i \<le> j \<longrightarrow> j < k \<longrightarrow> rank (fs ! i) \<le> rank (fs ! j)"
    and "i \<le> j" and "j < Suc k"
  shows "rank (order_pair i k fs ! i) \<le> rank (order_pair i k fs ! j)"
  using assms by (cases "j = k") (auto simp: order_pair_rank nth_exchange less_Suc_eq intro: order.trans less_imp_le)

text \<open>After the inner loop the field at \<open>i\<close> has the least rank of all fls from \<open>i\<close> on.\<close>

lemma order_from_prefix:
  assumes "i < length fls" and "i < k" and "k \<le> length fls"
  defines "fs \<equiv> foldl (\<lambda>fs j. order_pair i j fs) fls [i + 1..<k]"
  shows "length fs = length fls \<and> mset fs = mset fls \<and> take i fs = take i fls \<and>
    (\<forall>j. i \<le> j \<longrightarrow> j < k \<longrightarrow> rank (fs ! i) \<le> rank (fs ! j))"
  using assms(2,3) unfolding fs_def
proof (induction k)
  case (Suc k)
  show ?case
  proof (cases "i < k")
    case True
    let ?fs = "foldl (\<lambda>fs j. order_pair i j fs) fls [i + 1..<k]"
    have IH: "length ?fs = length fls" "mset ?fs = mset fls" "take i ?fs = take i fls"
      "\<And>j. i \<le> j \<Longrightarrow> j < k \<Longrightarrow> rank (?fs ! i) \<le> rank (?fs ! j)" using Suc True by auto
    have upt: "foldl (\<lambda>fs j. order_pair i j fs) fls [i + 1..<Suc k] = order_pair i k ?fs" using True by simp
    have len: "i < length ?fs" "k < length ?fs" using IH(1) Suc.prems assms(1) by simp_all
    have least: "rank (order_pair i k ?fs ! i) \<le> rank (order_pair i k ?fs ! j)" if "i \<le> j" "j < Suc k" for j
      by (rule order_pair_least [OF len True]) (use IH(4) that in auto)
    show ?thesis unfolding upt using IH(1-3) len True least by (auto simp: order_pair_keeps)
  next
    case False
    then show ?thesis using Suc.prems by (auto simp: less_Suc_eq)
  qed
qed simp

lemma order_from_spec:
  assumes "i < length fls"
  shows "length (order_from i fls) = length fls" and "mset (order_from i fls) = mset fls"
    and "take i (order_from i fls) = take i fls"
    and "\<And>j. i \<le> j \<Longrightarrow> j < length fls \<Longrightarrow> rank (order_from i fls ! i) \<le> rank (order_from i fls ! j)"
  using order_from_prefix [OF assms assms order.refl] by (simp_all add: order_from_def)

text \<open>After \<open>k\<close> rounds of the outer loop the first \<open>k\<close> fls are in place.\<close>

lemma SortingFunc_prefix:
  assumes "k \<le> length fls"
  defines "fs \<equiv> foldl (\<lambda>fs i. order_from i fs) fls [0..<k]"
  shows "length fs = length fls \<and> mset fs = mset fls \<and>
    (\<forall>a b. a < k \<longrightarrow> a \<le> b \<longrightarrow> b < length fls \<longrightarrow> rank (fs ! a) \<le> rank (fs ! b))"
  using assms(1) unfolding fs_def
proof (induction k)
  case (Suc k)
  let ?fs = "foldl (\<lambda>fs i. order_from i fs) fls [0..<k]"
  have IH: "length ?fs = length fls" "mset ?fs = mset fls"
    "\<And>a b. a < k \<Longrightarrow> a \<le> b \<Longrightarrow> b < length fls \<Longrightarrow> rank (?fs ! a) \<le> rank (?fs ! b)" using Suc by auto
  have k: "k < length ?fs" using Suc.prems IH(1) by simp
  note spec = order_from_spec [OF k]
  let ?gs = "order_from k ?fs"
  have "mset (take k ?gs) + mset (drop k ?gs) = mset (take k ?fs) + mset (drop k ?fs)"
    using spec(2) by (simp flip: mset_append)
  then have rest: "set (drop k ?gs) = set (drop k ?fs)" unfolding spec(3) by (metis add_left_cancel set_mset_mset)
  have "rank (?gs ! a) \<le> rank (?gs ! b)" if ab: "a < Suc k" "a \<le> b" "b < length fls" for a b
  proof (cases "a = k")
    case True
    then show ?thesis using spec(4) ab IH(1) by simp
  next
    case False
    then have a: "a < k" using ab by simp
    have at: "?gs ! c = ?fs ! c" if "c < k" for c using spec(3) that by (metis nth_take)
    show ?thesis
    proof (cases "b < k")
      case True
      then show ?thesis using at a ab IH(3) by simp
    next
      case False
      then have "?gs ! b \<in> set (drop k ?gs)" using ab IH(1) spec(1) by (auto simp: in_set_conv_nth intro!: exI [of _ "b - k"])
      then obtain c where "c < length (drop k ?fs)" "?gs ! b = drop k ?fs ! c" unfolding rest by (metis in_set_conv_nth)
      then show ?thesis using at a IH(1) IH(3) [of a "k + c"] by simp
    qed
  qed
  then show ?case using spec(1,2) IH(1,2) by simp
qed simp

lemma SortingFunc_sorts: "mset (SortingFunc fls) = mset fls" "sorted (map rank (SortingFunc fls))"
  using SortingFunc_prefix [of "length fls" fls] by (simp_all add: SortingFunc_def sorted_iff_nth_mono)

section \<open>The order of a line\<close>

text \<open>The known fields of a line, in the order of their priorities.\<close>

definition key_fields :: "string list" where
  "key_fields = [''service'', ''component'', ''worker_id'', ''task_id'', ''func'']"

lemma rank_key_fields: "sorted_wrt (<) (map rank key_fields)" "set key_fields = {f. rank f < 5}"
proof -
  show "sorted_wrt (<) (map rank key_fields)" by (simp add: key_fields_def rank_def priority_def)
  have "rank f < 5 \<longleftrightarrow> f \<in> dom priority" for f using priority_bound [of f] by (auto simp: rank_def split: option.splits)
  then show "set key_fields = {f. rank f < 5}" by (auto simp: key_fields_def priority_def)
qed

lemma strictly_sorted_unique:
  fixes r :: "'a \<Rightarrow> nat"
  assumes "sorted_wrt (<) (map r xs)" and "sorted_wrt (<) (map r ys)" and "set xs = set ys"
  shows "xs = ys"
proof -
  have inj: "inj_on r (set ys)" using assms(2) strict_sorted_iff distinct_map by blast
  have "map r xs = map r ys" using assms by (metis list.set_map strict_sorted_equal)
  then show ?thesis using inj assms(3) by (metis map_inj_on Un_absorb)
qed

lemma sorted_split:
  fixes r :: "'a \<Rightarrow> nat"
  shows "sorted (map r xs) \<Longrightarrow> xs = filter (\<lambda>x. r x < c) xs @ filter (\<lambda>x. \<not> r x < c) xs"
proof (induction xs)
  case (Cons x xs)
  show ?case
  proof (cases "r x < c")
    case False
    then have "filter (\<lambda>x. r x < c) xs = []" using Cons.prems by (force simp: filter_empty_conv)
    then show ?thesis using Cons False by simp
  qed (use Cons in simp)
qed simp

lemma known_fields_strict:
  assumes "distinct xs" and "sorted (map rank xs)"
  shows "sorted_wrt (<) (map rank (filter (\<lambda>f. rank f < 5) xs))"
proof -
  have "inj_on rank {f. rank f < 5}" using rank_key_fields by (metis distinct_map strict_sorted_iff)
  then have "distinct (map rank (filter (\<lambda>f. rank f < 5) xs))" using assms(1) by (auto simp: distinct_map inj_on_def)
  then show ?thesis using assms(2) by (simp add: strict_sorted_iff sorted_filter)
qed

text \<open>
  The order of the fields of a log line. The two loops of \<open>SortingFunc\<close> put the known fields of
  a line first, in the order service, component, worker, task, function, whatever order the fields
  come in; the other fields follow, and none is lost or repeated.
\<close>

theorem SortingFunc_orders_fields:
  assumes "distinct fls"
  shows "\<exists>others. SortingFunc fls = filter (\<lambda>f. f \<in> set fls) key_fields @ others \<and>
    mset others = mset (filter (\<lambda>f. f \<notin> set key_fields) fls)"
proof -
  let ?s = "SortingFunc fls"
  have s: "mset ?s = mset fls" "sorted (map rank ?s)" by (rule SortingFunc_sorts)+
  then have d: "distinct ?s" "set ?s = set fls" using assms mset_eq_imp_distinct_iff mset_eq_setD by blast+
  have "sorted_wrt (<) (map rank (filter (\<lambda>f. f \<in> set fls) key_fields))"
    using rank_key_fields(1) by (simp add: sorted_wrt_map sorted_wrt_filter)
  then have "filter (\<lambda>f. rank f < 5) ?s = filter (\<lambda>f. f \<in> set fls) key_fields"
    using rank_key_fields(2) d by (intro strictly_sorted_unique [OF known_fields_strict [OF d(1) s(2)]]) auto
  moreover have "mset (filter (\<lambda>f. \<not> rank f < 5) ?s) = mset (filter (\<lambda>f. f \<notin> set key_fields) fls)"
    using s(1) rank_key_fields(2) by (simp add: mset_filter)
  ultimately show ?thesis using sorted_split [OF s(2), of 5] by metis
qed

theorem SortingFunc_orders_fields_witness:
  "\<exists>others. SortingFunc [''error'', ''func'', ''file'', ''service''] = [''service'', ''func''] @ others \<and>
     mset others = {#''error'', ''file''#}"
  using SortingFunc_orders_fields [of "[''error'', ''func'', ''file'', ''service'']"] by (simp add: key_fields_def)

text \<open>Without a level in the environment, or with one that is no level, the logger logs from \<open>InfoLevel\<close> on.\<close>

lemma logger_default_level:
  assumes "ParseLevel ''info'' = Some InfoLevel" and "Getenv ''LOG_LEVEL'' = [] \<or> ParseLevel (Getenv ''LOG_LEVEL'') = None"
  shows "lc_level (logger_init ParseLevel InfoLevel Getenv) = InfoLevel"
  using assms by (auto simp: logger_init_def Let_def)

end
