(* ===== verification/Spec2Isabelle.thy ===== *)
theory Spec2Isabelle
  imports MR_Run KV_Lock KV_Spawn Tester_Daemon Tester_Process Tester_Connection Tester_Finish KV_Linear KV_Network Shard_Config Lab_Gob
    RSM_Service Shard_Partition Shard_History MR_Apps MR_Logger
begin

text \<open>
  Verification of the MIT 6.824 labs under \<open>lab1/src\<close>: a MapReduce system, a versioned key/value
  service with a lock, shard configurations, and the network, daemons and checks that the tests
  run them on.

  \<^bold>\<open>How the program appears in the model.\<close> A Go \<open>struct\<close> is a record, an enumeration or a string
  constant type a datatype, a method a function that returns the updated receiver. A handler that
  holds the mutex of its receiver is one atomic step. \<open>panic\<close>, \<open>log.Fatal\<close> and a failed test are the
  \<open>Inl\<close> side of a sum (\<open>go_exit\<close> of \<open>Prelude\<close>). Fixed-width integers whose wrap-around is visible
  are words; other integers are \<open>int\<close> or \<open>nat\<close>. Everything the run-time chooses is an argument: the
  iteration order of a map, clock readings, random numbers, names of temporary files, and the
  outcome of each file operation or call. Goroutines that share state are step relations, and
  theorems about them hold for every interleaving.

  \<^bold>\<open>MapReduce\<close> (\<open>mr/\<close>, \<open>main/mr*.go\<close>, \<open>mrapps/\<close>).
  \<^item> \<open>MR_Tasks\<close>: \<open>rpc.go\<close>, \<open>map_task_manager.go\<close>, \<open>reduce_task_manager.go\<close>. The locale \<open>task_manager\<close>
    states what the coordinator uses of a table (which task is due, what an operation keeps);
    both tables interpret it.
  \<^item> \<open>MR_Coordinator\<close>: every handler of \<open>coordinator.go\<close>; which task is handed out, effect of repeated
    and of foreign reports, stability of \<open>Done\<close>.
  \<^item> \<open>MR_Worker\<close>: \<open>worker.go\<close> and the intermediate files of \<open>util.go\<close>; a map task splits its output
    by hash without loss.
  \<^item> \<open>MR_Sequential\<close>: \<open>mrsequential.go\<close> and the application plugins; the reference result.
  \<^item> \<open>MR_System\<close>, \<open>MR_Progress\<close>: a whole job with crashing workers, lost, late and repeated messages
    and failing file operations, as the relation \<open>mr_step\<close>. Its invariant gives that a finished job
    has exactly the output of the sequential program, and that a job can always be finished;
    also how a slow worker can damage a finished output.
  \<^item> \<open>MR_Main\<close>: the programs \<open>mrcoordinator\<close> and \<open>mrworker\<close> and the loop \<open>Worker\<close>, as functions. One worker
    whose calls and files work finishes the job in one round per task; each round is shown to be a
    few steps of \<open>mr_step\<close>, so that the output is the sequential one.
  \<^item> \<open>MR_Test\<close>: the acceptance check of \<open>util.go\<close>, which passes for every finished job. \<open>MR_Run\<close>: the
    processes that \<open>runMRchan\<close> starts and waits for, the channel, and the goroutine that restarts crashed
    workers, around the job of \<open>MR_System\<close>: no worker is lost, and the test can always finish and then passes. \<open>MR_Apps\<close>: the
    plugins that measure parallelism and executions (\<open>par_step\<close>), and the tests that use them.
    \<open>MR_Logger\<close>: the order of log fields of \<open>logger.go\<close>.

  \<^bold>\<open>Key/value service\<close> (\<open>kvsrv1/\<close>, \<open>models1/kv.go\<close>, \<open>kvtest1/\<close>).
  \<^item> \<open>KV_Server\<close>: messages, server and the linearizability model, under the locale \<open>versioned_kv\<close>
    (conditional writes), which the server interprets; the model accepts the server.
  \<^item> \<open>KV_Clerk\<close>: the clerk over a lossy network with other clients in between; what an answer
    \<open>OK\<close>, \<open>ErrVersion\<close>, \<open>ErrMaybe\<close> says about the effect.
  \<^item> \<open>KV_Lock\<close>: \<open>Acquire\<close> and \<open>Release\<close> of any number of clients (\<open>lock_step\<close>): mutual exclusion
    without message loss, and runs that break it with message loss.
  \<^item> \<open>KV_Test\<close>, \<open>KV_Append\<close>: clients and checks of \<open>kvtest.go\<close>, the operation log; the append check is
    equivalent to its specification and accepts every run over a correct clerk.
  \<^item> \<open>KV_Spawn\<close>: \<open>SpawnClientsAndWait\<close> with its goroutines and unbuffered channels. The locale
    \<open>client_function\<close> is what it relies on of a client function (its result is its own), and
    \<open>returning_client_function\<close> adds that a client comes back to its \<open>select\<close>; the append clients, with
    lists in the form of \<open>encoding/json\<close>, interpret both. The append test can always finish, and then passes.
  \<^item> \<open>KV_Linear\<close>: clients of \<open>Test.Get\<close> and \<open>Test.Put\<close> interleaved in any way (\<open>lin_step\<close>, whose runs
    contain the runs of the clerk functions): every log is linearizable, so \<open>checkPorcupine\<close> passes.
  \<^item> \<open>KV_Network\<close>: server, forwarding daemon, socket and network put together give a call exactly the
    outcomes that \<open>KV_Clerk\<close> assumes.

  \<^bold>\<open>Shard configurations\<close> (\<open>shardkv1/shardcfg\<close>, \<open>shardkv1/test.go\<close>). \<open>Shard_Config\<close>: joining, leaving and
  rebalancing; \<open>Rebalance\<close> terminates with a balanced assignment. \<open>Shard_History\<close>: what holds for
  every configuration that a sequence of operations can produce; the locale \<open>config_operation\<close> is the
  contract that all of them meet, and their text form reads back. \<open>Shard_Test\<close>: the harness of
  \<open>shardkv1/test.go\<close>, which starts groups, lets them join and leave and stops them, over any controller
  that keeps the configuration it is given (a hypothesis; the repository's own controller is a stub
  whose \<open>Query\<close> returns \<open>nil\<close>); up to twelve groups can join, a further one gets no shard. \<open>Shard_Concurrent\<close>: making the
  test, and \<open>concurCtrler\<close>, where four goroutines join and leave groups in any interleaving
  (\<open>concur_step\<close>); over a controller that takes only successors of its configuration (a hypothesis)
  none of them fails, and no group is removed that still has shards. \<open>Shard_Partition\<close>:
  \<open>partitionCtrler\<close> (\<open>part_step\<close>), where a controller is cut off during a change; over a controller that
  finishes such a change when it starts (a hypothesis), the test passes and the groups are restored.

  \<^bold>\<open>Simulated network and encodings\<close> (\<open>labrpc\<close>, \<open>labgob\<close>). \<open>Lab_RPC\<close>: ends, servers, services and
  \<open>processReq\<close>, whose delays and losses are arguments. \<open>Lab_Gob\<close>: the checks around
  \<open>encoding/gob\<close>.

  \<^bold>\<open>Tests and their daemons\<close> (\<open>tester1/\<close>, \<open>raft1/\<close>, \<open>kvraft1/\<close>).
  \<^item> \<open>Tester_Servers\<close>, \<open>Tester_Groups\<close>: persisters, servers, groups, partitions (\<open>grp_step\<close>); the locale
    \<open>switchboard\<close> is what they rely on of the network's switches, interpreted by \<open>Network_Enable\<close>.
  \<^item> \<open>Tester_Clients\<close>: the clients of a test. \<open>Tester_Annotations\<close>: the recorded annotations (\<open>ann_step\<close>).
  \<^item> \<open>Tester_Demux\<close>, \<open>Tester_Sockets\<close>: framing, the table of outstanding calls and both ends of a
    connection (\<open>dmx_step\<close>); dispatch and forwarding of calls. \<open>Tester_Connection\<close>: the server end at the level of bytes, a
    reader and one goroutine per call (\<open>DemuxSrv_step\<close>), which answers every call that arrives once, and the accept loop.
  \<^item> \<open>Tester_Config\<close>: the table of groups, the configuration, and the partitioner of \<open>kvtest.go\<close>.
  \<^item> \<open>Tester_Daemon\<close>: how a server process comes up: \<open>InitDaemon\<close>, the handlers \<open>Init\<close> and \<open>InitWait\<close> and the
    calls of \<open>StartServer\<close>, over one channel (\<open>InitDaemon\<close>, \<open>StartServer_calls\<close>); it ends with the saved
    state and all services in place.
  \<^item> \<open>Tester_Process\<close>: the machine's table of processes and socket files, starting and killing daemons, and
    the random names that keep them apart; all daemons of a test can be started, and killing them restores
    the machine.
  \<^item> \<open>Tester_Finish\<close>: \<open>End\<close> and \<open>Cleanup\<close>, after which nothing runs, and the test object of \<open>kvraft1/test.go\<close>,
    whose servers keep their state when all of them are killed and restarted.
  \<^item> \<open>Raft_Harness\<close>: the apply loops and snapshots of \<open>raft1/server.go\<close>, the checks of \<open>raft1/test.go\<close>.
    \<open>Raft_Service\<close>: the skeleton \<open>raft.go\<close>, the proxies, and killing and restarting servers (\<open>rt_step\<close>); no
    server that is down is called, and the skeleton is rejected by the checks.
  \<^item> \<open>RSM_Harness\<close>: the counter server, proxy and checks of \<open>kvraft1/rsm\<close>. The locale
    \<open>state_machine\<close> is the interface of \<open>rsm.go\<close>; the counter server interprets it. \<open>RSM_Service\<close>: killing and
    restarting its servers, and which of them the checks call (\<open>rsm_reach\<close>).
  \<^item> \<open>Lab_Skeletons\<close>: the skeletons of \<open>rsm.go\<close>, \<open>kvraft1\<close> and \<open>shardkv1\<close>, as they are, and what the checks of
    \<open>kvtest.go\<close> make of them.

  \<^bold>\<open>Bounds and fuel.\<close> Loops are structural or have a termination proof. Loops that run until a
  condition of the environment are recursive over the list of what the environment does
  (attempts, polls, rounds), of any length, and their theorems state what happens when it ends.
  Versions are 64-bit words, and the theorems that need it assume fewer than \<open>2 ^ 64\<close> puts; tags of a
  connection are 32-bit words that wrap, and its theorem assumes fewer than \<open>2 ^ 32 - 1\<close> calls;
  messages are shorter than \<open>2 ^ 32\<close> bytes, the width of their length field.
  \<open>checkCounter\<close> polls 30 times as in the code. The pattern \<open>mr-out-[0-9]\<close> of the MapReduce check
  limits it to ten reduce tasks.

  \<^bold>\<open>Not modelled.\<close> \<open>raft1/raft.go\<close>, \<open>kvraft1\<close>, \<open>shardkv1/client.go\<close>, \<open>shardkv1/shardgrp\<close> and
  \<open>shardkv1/shardctrler\<close> are the lab's skeletons: the model has their empty methods, and there is no
  consensus or sharding protocol to verify. Standard output, run-time statistics of a
  process and the visualisation file are input and output; what the operating system answers is an argument. \<open>encoding/gob\<close>,
  \<open>encoding/json\<close> and the porcupine checker are outside the repository; codecs are arguments with a
  round-trip hypothesis. Seeding of \<open>math/rand\<close>, registering types with \<open>gob\<close> and closing a listener are not modelled. The programs of other years in \<open>main/\<close> (\<open>diskvd\<close>, \<open>lockd\<close>, \<open>pbd\<close>, \<open>viewd\<close>)
  need packages that are not in the repository.
\<close>

end
